(* ===== verification/Prelude.thy ===== *)
theory Prelude
  imports Main "HOL-Library.Word" "HOL-Library.Signed_Division"
begin

text \<open>
  Shared vocabulary of the development: the machine-integer types of the C++ sources, the
  collections of rewrite rules the component theories fill, and the generic facts on lists,
  maps and words that more than one component uses.

  Widths: \<open>uint8_t\<close>, \<open>uint16_t\<close>, \<open>uint32_t\<close>, \<open>uint64_t\<close> are words, so \<open>+\<close> and \<open>-\<close> wrap as
  they do in C++. \<open>int64_t\<close> prices and level indices are \<open>int\<close>: signed overflow is undefined in
  C++, so nothing is proved about it and the bounds under which it cannot happen are stated
  where they matter. \<open>size_t\<close> positions into a vector are \<open>nat\<close>.
\<close>

unbundle bit_operations_syntax

type_synonym u8 = "8 word"
type_synonym u16 = "16 word"
type_synonym u32 = "32 word"
type_synonym u64 = "64 word"

section \<open>Words\<close>

lemma unat_inject_iff [simp]: "unat a = unat b \<longleftrightarrow> a = b"
  by (simp add: word_unat_eq_iff)

lemma nth_update_unat_neq [simp]: "n \<noteq> m \<Longrightarrow> xs[unat n := x] ! unat m = xs ! unat m"
  by (rule nth_list_update_neq) simp

lemma word_inc_bounds:
  fixes a b :: "'a::len word"
  assumes "a < b"
  shows "a < a + 1" "a + 1 \<le> b" "unat (a + 1) = Suc (unat a)"
proof -
  have "Suc (unat a) < 2 ^ LENGTH('a)"
    using assms unsigned_less [of b, where ?'a = nat] unfolding word_less_nat_alt by linarith
  then show s: "unat (a + 1) = Suc (unat a)" by (simp add: unat_word_ariths)
  show "a < a + 1" "a + 1 \<le> b" using assms s by (simp_all add: word_less_nat_alt word_le_nat_alt)
qed

lemma word_inc_le_iff: "n \<noteq> - 1 \<Longrightarrow> n + 1 \<le> k \<longleftrightarrow> n < k" for n :: "'a::len word"
  by (simp add: inc_less_eq_iff)

lemma word_less_inc_iff: "n \<noteq> - 1 \<Longrightarrow> k < n + 1 \<longleftrightarrow> k < n \<or> k = n" for n :: "'a::len word"
  using word_inc_le_iff [of n k] by (metis not_less order_le_less)

lemma word_zero_or_pos: "q = 0 \<or> 0 < q" for q :: "'a::len word"
  by (simp add: word_gt_0)

lemma word_pos_neq: "0 < q \<Longrightarrow> q \<noteq> 0" for q :: "'a::len word"
  by auto

section \<open>Maps\<close>

lemma map_eq_Some_I: "(\<And>k v. m k = Some v \<longleftrightarrow> m' k = Some v) \<Longrightarrow> m = m'"
  by (rule ext, metis not_None_eq)

end
