(* ===== verification/Order_Types.thy ===== *)
theory Order_Types
  imports Prelude
begin

text \<open>
  The order vocabulary shared by the two books (\<open>cpp/include/order.h\<close> for v1,
  \<open>cpp/include/order_book_v2.h\<close> for v2): sides, order types, requests and trades. Prices are a
  type parameter where both books use the type: v1 keeps a \<open>double\<close> that it only compares (any
  linear order, NaN excluded), v2 keeps integer ticks.
\<close>

datatype side = Buy | Sell

datatype order_type = Limit | Market | Cancel | IOC | FOK | PostOnly

record order_request =
  req_id :: u64
  req_side :: side
  req_type :: order_type
  req_price :: int
  req_qty :: u64

record 'p trade =
  maker_id :: u64
  taker_id :: u64
  trade_price :: 'p
  trade_qty :: u64

fun opposite :: "side \<Rightarrow> side" where
  "opposite Buy = Sell"
| "opposite Sell = Buy"

lemma opposite_opposite [simp]: "opposite (opposite s) = s"
  by (cases s) auto

lemma opposite_neq [simp]: "opposite s \<noteq> s" "s \<noteq> opposite s"
  by (cases s; simp)+

lemma side_not_Buy [simp]: "s \<noteq> Buy \<longleftrightarrow> s = Sell"
  by (cases s) auto

lemma req_qty_same: "req_qty t = q \<Longrightarrow> t\<lparr>req_qty := q\<rparr> = (t :: order_request)"
  by (cases t) simp

end
