(* ===== verification/Keyed_Store.thy ===== *)
theory Keyed_Store
  imports Prelude
begin

text \<open>
  The interface the order book and the sequencer rely on for their id-to-entry tables: a store
  keyed by \<open>uint64_t\<close> ids whose operations may fail to return (outer \<open>None\<close>). \<open>contents\<close> reads
  the store as a partial map and \<open>ok\<close> is the provider's invariant. The client lemmas are proved
  once here; \<open>Flat_Hash_Map\<close> provides the laws for \<open>FlatHashMap\<close>.
\<close>

locale keyed_store =
  fixes find :: "'t \<Rightarrow> u64 \<Rightarrow> 'v option option"
    and put :: "'t \<Rightarrow> u64 \<Rightarrow> 'v \<Rightarrow> 't option"
    and erase :: "'t \<Rightarrow> u64 \<Rightarrow> ('t \<times> bool) option"
    and each :: "('v \<Rightarrow> 'v) \<Rightarrow> 't \<Rightarrow> 't"
    and count :: "'t \<Rightarrow> nat"
    and contents :: "'t \<Rightarrow> u64 \<Rightarrow> 'v option"
    and ok :: "'t \<Rightarrow> bool"
  assumes find_law: "ok t \<Longrightarrow> find t k = Some (contents t k)"
    and put_law: "ok t \<Longrightarrow>
      \<exists>t'. put t k v = Some t' \<and> ok t' \<and> contents t' = (contents t)(k \<mapsto> v)"
    and erase_law: "ok t \<Longrightarrow>
      \<exists>t'. erase t k = Some (t', contents t k \<noteq> None) \<and> ok t' \<and>
        contents t' = (contents t)(k := None)"
    and each_ok: "ok t \<Longrightarrow> ok (each f t)"
    and each_law: "ok t \<Longrightarrow> contents (each f t) = (\<lambda>k. map_option f (contents t k))"
    and finite_contents: "ok t \<Longrightarrow> finite (dom (contents t))"
    and count_law: "ok t \<Longrightarrow> count t = card (dom (contents t))"
begin

lemma put_obtain:
  assumes "ok t"
  obtains t' where "put t k v = Some t'" "ok t'" "contents t' = (contents t)(k \<mapsto> v)"
  using put_law [OF assms] by blast

lemma erase_obtain:
  assumes "ok t"
  obtains t' where "erase t k = Some (t', contents t k \<noteq> None)" "ok t'"
    "contents t' = (contents t)(k := None)"
  using erase_law [OF assms] by blast

lemma find_after_put:
  assumes "ok t" "put t k v = Some t'"
  shows "find t' q = Some (if q = k then Some v else contents t q)"
  using put_law [OF assms(1), of k v] assms(2) find_law by auto

lemma find_after_erase:
  assumes "ok t" "erase t k = Some (t', found)"
  shows "find t' q = Some (if q = k then None else contents t q)" "found = (contents t k \<noteq> None)"
  using erase_law [OF assms(1), of k] assms(2) find_law by auto

lemma put_after_erase_fresh:
  assumes "ok t" "contents t k = None" "put t k v = Some t'" "erase t' k = Some (t'', found)"
  shows "found \<and> contents t'' = contents t"
proof -
  have t': "ok t'" "contents t' = (contents t)(k \<mapsto> v)"
    using put_law [OF assms(1), of k v] assms(3) by auto
  then show ?thesis
    using erase_law [OF t'(1), of k] assms(2,4) by (auto simp: fun_eq_iff)
qed

lemma count_put:
  assumes "ok t" "put t k v = Some t'"
  shows "count t' = (if contents t k = None then Suc (count t) else count t)"
proof -
  have t': "ok t'" "contents t' = (contents t)(k \<mapsto> v)"
    using put_law [OF assms(1), of k v] assms(2) by auto
  then show ?thesis
    using finite_contents [OF assms(1)]
    by (auto simp: count_law [OF t'(1)] count_law [OF assms(1)] card_insert_if domI)
qed

lemma count_erase:
  assumes "ok t" "erase t k = Some (t', found)"
  shows "count t' = (if found then count t - 1 else count t)"
proof -
  have t': "ok t'" "contents t' = (contents t)(k := None)" "found = (contents t k \<noteq> None)"
    using erase_law [OF assms(1), of k] assms(2) by auto
  have "dom (contents t') = dom (contents t) - {k}" by (auto simp: t'(2))
  then show ?thesis
    using finite_contents [OF assms(1)]
    by (auto simp: count_law [OF t'(1)] count_law [OF assms(1)] t'(3) card_Diff_singleton_if
        domIff)
qed

lemma count_each:
  assumes "ok t"
  shows "count (each f t) = count t"
proof -
  have "dom (contents (each f t)) = dom (contents t)"
    using each_law [OF assms] by (auto simp: dom_def)
  then show ?thesis using count_law [OF assms] count_law [OF each_ok [OF assms]] by metis
qed

end

end
