(* ===== verification/Flat_Hash_Map.thy ===== *)
theory Flat_Hash_Map
  imports Keyed_Store "HOL-Library.Monad_Syntax"
begin

text \<open>
  The open-addressing hash map of \<open>cpp/include/flat_hash_map.h\<close> (linear probing, identity
  hash, backward-shift deletion), instantiated as the sources do with \<open>K = uint64_t\<close>.

  A slot keeps its stale entry when it is emptied, as the C++ does. The probe loops are
  \<open>while (true)\<close> loops: they are \<^theory_text>\<open>partial_function (option)\<close>, whose \<open>None\<close> is a probe that never
  ends (a table without an empty slot), and every operation is proved to return on a table
  that satisfies the invariant. \<open>V{}\<close> is the parameter \<open>d\<close>.

  Sizes and capacities (\<open>size_t\<close>) are natural numbers: a vector of \<open>2 ^ 63\<close> slots does not exist. The
  two loops that double a requested capacity before any slot is allocated could wrap; they are repeated on
  64-bit words in \<open>Hash_Map_Trace\<close> and agree with the ones here up to \<open>2 ^ 63\<close> (the constructor)
  and \<open>2 ^ 53\<close> (\<open>reserve\<close>).
\<close>

section \<open>The table\<close>

datatype slot_state = Empty | Occupied

record 'v slot =
  s_state :: slot_state
  e_first :: u64
  e_second :: 'v

record 'v fhm =
  fhm_slots :: "'v slot list"
  fhm_mask :: nat
  fhm_live :: nat

definition blank_slot :: "'v \<Rightarrow> 'v slot" where
  "blank_slot d = \<lparr>s_state = Empty, e_first = 0, e_second = d\<rparr>"

text \<open>
  \<open>kMaxLoad\<close> is the double nearest to 0.70, that is 3152519739159347 / 2^52. Capacities are
  powers of two and counts are below 2^53, so both products of the C++ comparison are exact
  and the comparison is the rational one.
\<close>

definition over_load :: "nat \<Rightarrow> nat \<Rightarrow> bool" where
  "over_load n cap \<longleftrightarrow> int cap * 3152519739159347 < int n * 4503599627370496"

definition hash_key :: "u64 \<Rightarrow> nat" where
  "hash_key k = unat k"

section \<open>Operations\<close>

function init_cap :: "nat \<Rightarrow> nat \<Rightarrow> nat" where
  "init_cap n cap = (if 0 < cap \<and> cap < n then init_cap n (2 * cap) else cap)"
  by pat_completeness auto
termination
  by (relation "measure (\<lambda>(n, cap). n - cap)") auto

definition fhm_new :: "'v \<Rightarrow> nat \<Rightarrow> 'v fhm" where
  "fhm_new d initial_capacity =
     (let cap = init_cap initial_capacity 16
      in \<lparr>fhm_slots = replicate cap (blank_slot d), fhm_mask = cap - 1, fhm_live = 0\<rparr>)"

partial_function (option) probe_free :: "'v slot list \<Rightarrow> nat \<Rightarrow> nat \<Rightarrow> nat option" where
  "probe_free ss m idx =
     (if s_state (ss ! idx) = Occupied then probe_free ss m ((idx + 1) AND m) else Some idx)"

fun rehash_into :: "nat \<Rightarrow> 'v slot list \<Rightarrow> 'v slot list \<Rightarrow> 'v slot list option" where
  "rehash_into m [] ss = Some ss"
| "rehash_into m (s # old) ss =
     (if s_state s = Occupied
      then do {
        idx \<leftarrow> probe_free ss m (hash_key (e_first s) AND m);
        rehash_into m old
          (ss[idx := \<lparr>s_state = Occupied, e_first = e_first s, e_second = e_second s\<rparr>])
      }
      else rehash_into m old ss)"

definition rehash :: "'v \<Rightarrow> 'v fhm \<Rightarrow> nat \<Rightarrow> 'v fhm option" where
  "rehash d t new_cap = do {
     ss \<leftarrow> rehash_into (new_cap - 1) (fhm_slots t) (replicate new_cap (blank_slot d));
     Some (t\<lparr>fhm_slots := ss, fhm_mask := new_cap - 1\<rparr>)
   }"

function reserve_cap :: "nat \<Rightarrow> nat \<Rightarrow> nat" where
  "reserve_cap n cap = (if 0 < cap \<and> over_load n cap then reserve_cap n (2 * cap) else cap)"
  by pat_completeness auto
termination
  by (relation "measure (\<lambda>(n, cap). nat (int n * 4503599627370496 - int cap * 3152519739159347))")
     (auto simp: over_load_def)

definition fhm_reserve :: "'v \<Rightarrow> 'v fhm \<Rightarrow> nat \<Rightarrow> 'v fhm option" where
  "fhm_reserve d t n =
     (let cap = reserve_cap n (length (fhm_slots t))
      in if length (fhm_slots t) < cap then rehash d t cap else Some t)"

definition maybe_grow :: "'v \<Rightarrow> 'v fhm \<Rightarrow> 'v fhm option" where
  "maybe_grow d t =
     (if over_load (fhm_live t + 1) (length (fhm_slots t))
      then rehash d t (length (fhm_slots t) * 2) else Some t)"

partial_function (option) probe_for_insert ::
    "'v slot list \<Rightarrow> nat \<Rightarrow> u64 \<Rightarrow> nat \<Rightarrow> nat option" where
  "probe_for_insert ss m k idx =
     (if s_state (ss ! idx) = Empty then Some idx
      else if e_first (ss ! idx) = k then Some idx
      else probe_for_insert ss m k ((idx + 1) AND m))"

text \<open>\<open>kNotFound\<close> is the inner \<open>None\<close>.\<close>

partial_function (option) probe_existing ::
    "'v slot list \<Rightarrow> nat \<Rightarrow> u64 \<Rightarrow> nat \<Rightarrow> nat option option" where
  "probe_existing ss m k idx =
     (if s_state (ss ! idx) = Empty then Some None
      else if e_first (ss ! idx) = k then Some (Some idx)
      else probe_existing ss m k ((idx + 1) AND m))"

text \<open>\<open>operator[]\<close> returns a reference into the table: here the position of the slot.\<close>

definition fhm_subscript :: "'v \<Rightarrow> 'v fhm \<Rightarrow> u64 \<Rightarrow> ('v fhm \<times> nat) option" where
  "fhm_subscript d t k = do {
     t1 \<leftarrow> maybe_grow d t;
     idx \<leftarrow> probe_for_insert (fhm_slots t1) (fhm_mask t1) k (hash_key k AND fhm_mask t1);
     (if s_state (fhm_slots t1 ! idx) = Occupied then Some (t1, idx)
      else Some (t1\<lparr>fhm_live := fhm_live t1 + 1,
                     fhm_slots := (fhm_slots t1)
                       [idx := \<lparr>s_state = Occupied, e_first = k, e_second = d\<rparr>]\<rparr>, idx))
   }"

text \<open>The assignment \<open>m[k] = v\<close>.\<close>

definition fhm_put :: "'v \<Rightarrow> 'v fhm \<Rightarrow> u64 \<Rightarrow> 'v \<Rightarrow> 'v fhm option" where
  "fhm_put d t k v = do {
     (t1, idx) \<leftarrow> fhm_subscript d t k;
     Some (t1\<lparr>fhm_slots := (fhm_slots t1)[idx := (fhm_slots t1 ! idx)\<lparr>e_second := v\<rparr>]\<rparr>)
   }"

text \<open>\<open>find\<close> returns an entry pointer; the callers only read \<open>it->second\<close> through it.\<close>

definition fhm_find :: "'v fhm \<Rightarrow> u64 \<Rightarrow> 'v option option" where
  "fhm_find t k = do {
     r \<leftarrow> probe_existing (fhm_slots t) (fhm_mask t) k (hash_key k AND fhm_mask t);
     Some (map_option (\<lambda>i. e_second (fhm_slots t ! i)) r)
   }"

partial_function (option) backward_shift ::
    "'v slot list \<Rightarrow> nat \<Rightarrow> nat \<Rightarrow> nat \<Rightarrow> 'v slot list option" where
  "backward_shift ss m i j0 =
     (let j = (j0 + 1) AND m in
      if s_state (ss ! j) \<noteq> Occupied then Some ss
      else
        let k = hash_key (e_first (ss ! j)) AND m;
            k_in_range_i_j = (if i \<le> j then i < k \<and> k \<le> j else i < k \<or> k \<le> j)
        in if \<not> k_in_range_i_j
           then backward_shift
                  (ss[i := (ss ! j)\<lparr>s_state := Occupied\<rparr>, j := (ss ! j)\<lparr>s_state := Empty\<rparr>]) m j j
           else backward_shift ss m i j)"

definition fhm_erase :: "'v fhm \<Rightarrow> u64 \<Rightarrow> ('v fhm \<times> bool) option" where
  "fhm_erase t k = do {
     r \<leftarrow> probe_existing (fhm_slots t) (fhm_mask t) k (hash_key k AND fhm_mask t);
     case r of None \<Rightarrow> Some (t, False)
     | Some i \<Rightarrow> do {
         ss \<leftarrow> backward_shift
                ((fhm_slots t)[i := (fhm_slots t ! i)\<lparr>s_state := Empty\<rparr>]) (fhm_mask t) i i;
         Some (t\<lparr>fhm_slots := ss, fhm_live := fhm_live t - 1\<rparr>, True)
       }
   }"

definition fhm_size :: "'v fhm \<Rightarrow> nat" where
  "fhm_size t = fhm_live t"

definition fhm_for_each_mut :: "('v \<Rightarrow> 'v) \<Rightarrow> 'v fhm \<Rightarrow> 'v fhm" where
  "fhm_for_each_mut f t =
     t\<lparr>fhm_slots := map (\<lambda>s. if s_state s = Occupied then s\<lparr>e_second := f (e_second s)\<rparr> else s)
                       (fhm_slots t)\<rparr>"

declare probe_free.simps [code] probe_for_insert.simps [code]
  probe_existing.simps [code] backward_shift.simps [code]
declare init_cap.simps [simp del] reserve_cap.simps [simp del]

section \<open>Cyclic positions\<close>

definition cyc_next :: "nat \<Rightarrow> nat \<Rightarrow> nat" where
  "cyc_next N i = (if Suc i = N then 0 else Suc i)"

definition cyc_dist :: "nat \<Rightarrow> nat \<Rightarrow> nat \<Rightarrow> nat" where
  "cyc_dist N a b = (if a \<le> b then b - a else N + b - a)"

lemmas cyc_defs = cyc_next_def cyc_dist_def

lemma cyc_next_less [simp]: "i < N \<Longrightarrow> cyc_next N i < N"
  by (auto simp: cyc_next_def)

lemma cyc_dist_self [simp]: "cyc_dist N a a = 0"
  by (simp add: cyc_dist_def)

lemma cyc_dist_less: "a < N \<Longrightarrow> b < N \<Longrightarrow> cyc_dist N a b < N"
  by (auto simp: cyc_dist_def)

lemma cyc_dist_zero: "a < N \<Longrightarrow> b < N \<Longrightarrow> cyc_dist N a b = 0 \<longleftrightarrow> a = b"
  by (auto simp: cyc_dist_def)

lemma cyc_dist_next:
  "a < N \<Longrightarrow> b < N \<Longrightarrow> a \<noteq> b \<Longrightarrow> cyc_dist N a b = Suc (cyc_dist N (cyc_next N a) b)"
  by (auto simp: cyc_defs)

lemma and_mask_mod:
  assumes "N = 2 ^ n"
  shows "(x :: nat) AND (N - 1) = x mod N"
proof -
  have "x AND mask n = take_bit n x" by (simp add: take_bit_eq_mask)
  then show ?thesis by (simp add: assms mask_eq_exp_minus_1 take_bit_eq_mod)
qed

lemma next_and_mask:
  assumes "N = 2 ^ n" and "i < N"
  shows "(i + 1) AND (N - 1) = cyc_next N i"
  using assms(2) unfolding and_mask_mod [OF assms(1)] by (auto simp: cyc_next_def)

text \<open>The first position at or after \<open>i\<close>, going round, where \<open>P\<close> holds.\<close>

lemma first_from:
  assumes "t < N" "P t"
  obtains s where "s < N" "P s" "\<And>x. x < N \<Longrightarrow> cyc_dist N i x < cyc_dist N i s \<Longrightarrow> \<not> P x"
proof -
  have "\<exists>s. (s < N \<and> P s) \<and> (\<forall>y. y < N \<and> P y \<longrightarrow> cyc_dist N i s \<le> cyc_dist N i y)"
    using assms by (intro ex_has_least_nat [of "\<lambda>s. s < N \<and> P s" t]) simp
  then show ?thesis using that by (meson not_le)
qed

section \<open>The table as a map, and its invariant\<close>

definition occ :: "'v slot list \<Rightarrow> nat \<Rightarrow> bool" where
  "occ ss i \<longleftrightarrow> i < length ss \<and> s_state (ss ! i) = Occupied"

definition home :: "'v slot list \<Rightarrow> nat \<Rightarrow> nat" where
  "home ss i = hash_key (e_first (ss ! i)) mod length ss"

definition occ_count :: "'v slot list \<Rightarrow> nat" where
  "occ_count ss = length (filter (\<lambda>s. s_state s = Occupied) ss)"

definition slots_map :: "'v slot list \<Rightarrow> u64 \<Rightarrow> 'v option" where
  "slots_map ss k =
     map_option e_second (find (\<lambda>s. s_state s = Occupied \<and> e_first s = k) ss)"

definition keys_distinct :: "'v slot list \<Rightarrow> bool" where
  "keys_distinct ss \<longleftrightarrow>
     (\<forall>i j. occ ss i \<longrightarrow> occ ss j \<longrightarrow> e_first (ss ! i) = e_first (ss ! j) \<longrightarrow> i = j)"

text \<open>Every slot a probe passes between an entry's home and the entry is occupied.\<close>

definition probe_ok :: "'v slot list \<Rightarrow> bool" where
  "probe_ok ss \<longleftrightarrow>
     (\<forall>s x. occ ss s \<longrightarrow> x < length ss \<longrightarrow>
        cyc_dist (length ss) (home ss s) x < cyc_dist (length ss) (home ss s) s \<longrightarrow> occ ss x)"

definition fhm_map :: "'v fhm \<Rightarrow> u64 \<Rightarrow> 'v option" where
  "fhm_map t = slots_map (fhm_slots t)"

definition fhm_inv :: "'v fhm \<Rightarrow> bool" where
  "fhm_inv t \<longleftrightarrow>
     (\<exists>n. length (fhm_slots t) = 2 ^ n) \<and> fhm_mask t = length (fhm_slots t) - 1 \<and>
     fhm_live t = occ_count (fhm_slots t) \<and>
     \<not> over_load (fhm_live t) (length (fhm_slots t)) \<and>
     keys_distinct (fhm_slots t) \<and> probe_ok (fhm_slots t)"

lemma occ_less: "occ ss i \<Longrightarrow> i < length ss"
  by (simp add: occ_def)

lemma not_occ_iff: "i < length ss \<Longrightarrow> \<not> occ ss i \<longleftrightarrow> s_state (ss ! i) = Empty"
  by (cases "s_state (ss ! i)") (auto simp: occ_def)

lemma home_less: "occ ss i \<Longrightarrow> home ss i < length ss"
  unfolding home_def by (rule mod_less_divisor) (auto simp: occ_def)

lemma slots_map_None_iff:
  "slots_map ss k = None \<longleftrightarrow> (\<forall>i. occ ss i \<longrightarrow> e_first (ss ! i) \<noteq> k)"
  by (auto simp: slots_map_def find_None_iff occ_def in_set_conv_nth)

lemma slots_map_Some_iff:
  assumes "keys_distinct ss"
  shows "slots_map ss k = Some v \<longleftrightarrow>
           (\<exists>i. occ ss i \<and> e_first (ss ! i) = k \<and> e_second (ss ! i) = v)"
    (is "?L \<longleftrightarrow> ?R")
proof
  assume ?L
  then obtain i where "i < length ss" "s_state (ss ! i) = Occupied" "e_first (ss ! i) = k"
    "e_second (ss ! i) = v"
    by (auto simp: slots_map_def find_Some_iff)
  then show ?R by (auto simp: occ_def)
next
  assume ?R
  then obtain i where i: "occ ss i" "e_first (ss ! i) = k" "e_second (ss ! i) = v" by blast
  then obtain w where w: "slots_map ss k = Some w"
    using slots_map_None_iff [of ss k] by (cases "slots_map ss k") auto
  then obtain j where "occ ss j" "e_first (ss ! j) = k" "e_second (ss ! j) = w"
    by (auto simp: slots_map_def find_Some_iff occ_def)
  with i w assms show ?L by (auto simp: keys_distinct_def)
qed

lemma slots_map_cong:
  assumes "keys_distinct ss" "keys_distinct ss'"
    and "\<And>k v. (\<exists>i. occ ss i \<and> e_first (ss ! i) = k \<and> e_second (ss ! i) = v) \<longleftrightarrow>
               (\<exists>i. occ ss' i \<and> e_first (ss' ! i) = k \<and> e_second (ss' ! i) = v)"
  shows "slots_map ss' = slots_map ss"
proof
  fix k
  show "slots_map ss' k = slots_map ss k"
    using assms(3) [of k] slots_map_Some_iff [OF assms(1), of k]
      slots_map_Some_iff [OF assms(2), of k]
    by (cases "slots_map ss' k"; cases "slots_map ss k") auto
qed

lemma occ_count_card: "occ_count ss = card {i. occ ss i}"
  by (simp add: occ_count_def length_filter_conv_card occ_def)

lemma finite_occ [simp]: "finite {i. occ ss i}"
  by (rule finite_subset [of _ "{..<length ss}"]) (auto simp: occ_def)

lemma room_exists_empty:
  assumes "occ_count ss < length ss"
  obtains e where "e < length ss" "\<not> occ ss e"
proof -
  have "\<not> {..<length ss} \<subseteq> {i. occ ss i}"
    using assms card_mono [of "{i. occ ss i}" "{..<length ss}"]
    by (auto simp: occ_count_card)
  then show ?thesis using that by auto
qed

lemma over_load_room: "\<not> over_load n cap \<Longrightarrow> 0 < cap \<Longrightarrow> n < cap"
  by (auto simp: over_load_def not_less)

lemma fhm_inv_room: "fhm_inv t \<Longrightarrow> occ_count (fhm_slots t) < length (fhm_slots t)"
  using over_load_room by (fastforce simp: fhm_inv_def)

section \<open>Probing\<close>

text \<open>
  A probe from \<open>i\<close> stops at the first slot \<open>t\<close> it meets that is empty or holds the key: the
  three probe loops share the induction on the distance from \<open>i\<close> to \<open>t\<close>.
\<close>

lemma probe_free_stops:
  assumes "length ss = 2 ^ n" "i < length ss" "t < length ss" "\<not> occ ss t"
    and "\<And>x. x < length ss \<Longrightarrow> cyc_dist (length ss) i x < cyc_dist (length ss) i t \<Longrightarrow> occ ss x"
  shows "probe_free ss (length ss - 1) i = Some t"
  using assms
proof (induction "cyc_dist (length ss) i t" arbitrary: i)
  case 0
  then have "i = t" by (metis cyc_dist_zero)
  with 0 show ?case by (subst probe_free.simps) (simp add: occ_def)
next
  case (Suc d)
  let ?N = "length ss"
  have ne: "i \<noteq> t" using Suc.hyps(2) by auto
  then have d: "d = cyc_dist ?N (cyc_next ?N i) t"
    using Suc.hyps(2) Suc.prems(2,3) cyc_dist_next by fastforce
  have occ: "occ ss i" using Suc.prems(2,5) Suc.hyps(2) by fastforce
  have "probe_free ss (?N - 1) (cyc_next ?N i) = Some t"
  proof (rule Suc.hyps(1) [OF d Suc.prems(1) _ Suc.prems(3,4)])
    show "cyc_next ?N i < ?N" using Suc.prems(2) by simp
    fix x
    assume x: "x < ?N" "cyc_dist ?N (cyc_next ?N i) x < cyc_dist ?N (cyc_next ?N i) t"
    show "occ ss x"
      using occ Suc.prems(2,3) Suc.prems(5) [of x] x ne cyc_dist_next [of i ?N] by (cases "x = i") auto
  qed
  with occ show ?case
    using next_and_mask [OF Suc.prems(1,2)] by (subst probe_free.simps) (simp add: occ_def)
qed

lemma probe_for_insert_stops:
  assumes "length ss = 2 ^ n" "i < length ss" "t < length ss"
    and "occ ss t \<Longrightarrow> e_first (ss ! t) = k"
    and "\<And>x. x < length ss \<Longrightarrow> cyc_dist (length ss) i x < cyc_dist (length ss) i t \<Longrightarrow>
           occ ss x \<and> e_first (ss ! x) \<noteq> k"
  shows "probe_for_insert ss (length ss - 1) k i = Some t"
  using assms
proof (induction "cyc_dist (length ss) i t" arbitrary: i)
  case 0
  then have "i = t" by (metis cyc_dist_zero)
  with 0 show ?case by (subst probe_for_insert.simps) (auto simp: not_occ_iff [symmetric])
next
  case (Suc d)
  let ?N = "length ss"
  have ne: "i \<noteq> t" using Suc.hyps(2) by auto
  then have d: "d = cyc_dist ?N (cyc_next ?N i) t"
    using Suc.hyps(2) Suc.prems(2,3) cyc_dist_next by fastforce
  have occ: "occ ss i \<and> e_first (ss ! i) \<noteq> k" using Suc.prems(2,5) Suc.hyps(2) by fastforce
  have "probe_for_insert ss (?N - 1) k (cyc_next ?N i) = Some t"
  proof (rule Suc.hyps(1) [OF d Suc.prems(1) _ Suc.prems(3,4)])
    show "cyc_next ?N i < ?N" using Suc.prems(2) by simp
    fix x
    assume x: "x < ?N" "cyc_dist ?N (cyc_next ?N i) x < cyc_dist ?N (cyc_next ?N i) t"
    show "occ ss x \<and> e_first (ss ! x) \<noteq> k"
      using occ Suc.prems(2,3) Suc.prems(5) [of x] x ne cyc_dist_next [of i ?N] by (cases "x = i") auto
  qed
  with occ show ?case
    using next_and_mask [OF Suc.prems(1,2)]
    by (subst probe_for_insert.simps) (simp add: occ_def)
qed

lemma probe_existing_conv:
  "probe_for_insert ss m k i = Some t \<Longrightarrow>
   probe_existing ss m k i = Some (if s_state (ss ! t) = Empty then None else Some t)"
proof (rule probe_for_insert.raw_induct [where
      P = "\<lambda>ss m k i t. probe_existing ss m k i =
             Some (if s_state (ss ! t) = Empty then None else Some t)"])
  fix f :: "'v slot list \<Rightarrow> nat \<Rightarrow> u64 \<Rightarrow> nat \<Rightarrow> nat option" and ss m k i t
  assume IH: "\<And>ss m k i t. f ss m k i = Some t \<Longrightarrow>
      probe_existing ss m k i = Some (if s_state (ss ! t) = Empty then None else Some t)"
    and eq: "(if s_state (ss ! i) = Empty then Some i
      else if e_first (ss ! i) = k then Some i else f ss m k ((i + 1) AND m)) = Some t"
  show "probe_existing ss m k i = Some (if s_state (ss ! t) = Empty then None else Some t)"
    using eq IH by (subst probe_existing.simps) (auto split: if_splits)
qed

section \<open>Placing an entry\<close>

lemma occ_update:
  "i < length ss \<Longrightarrow> occ (ss[i := s]) x \<longleftrightarrow> (if x = i then s_state s = Occupied else occ ss x)"
  by (auto simp: occ_def)

lemma occ_count_fill:
  assumes "i < length ss" "\<not> occ ss i" "s_state s = Occupied"
  shows "occ_count (ss[i := s]) = Suc (occ_count ss)"
proof -
  have "{x. occ (ss[i := s]) x} = insert i {x. occ ss x}"
    using assms by (auto simp: occ_update)
  then show ?thesis using assms(2) by (simp add: occ_count_card)
qed

lemma occ_count_clear:
  assumes "occ ss i" "s_state s = Empty"
  shows "occ_count (ss[i := s]) = occ_count ss - 1"
proof -
  have "{x. occ (ss[i := s]) x} = {x. occ ss x} - {i}"
    using assms by (auto simp: occ_update occ_less)
  then show ?thesis using assms(1) by (simp add: occ_count_card)
qed

text \<open>Writing an entry with a new key into the first empty slot of its probe sequence.\<close>

lemma place_entry:
  assumes ok: "keys_distinct ss" "probe_ok ss" and fresh: "slots_map ss k = None"
    and i: "i < length ss" "\<not> occ ss i"
    and path: "\<And>x. x < length ss \<Longrightarrow>
      cyc_dist (length ss) (hash_key k mod length ss) x <
      cyc_dist (length ss) (hash_key k mod length ss) i \<Longrightarrow> occ ss x"
    and s: "s_state s = Occupied" "e_first s = k"
  shows "keys_distinct (ss[i := s])" "probe_ok (ss[i := s])"
    and "slots_map (ss[i := s]) = (slots_map ss)(k \<mapsto> e_second s)"
    and "occ_count (ss[i := s]) = Suc (occ_count ss)"
proof -
  let ?ss = "ss[i := s]"
  have new: "e_first (ss ! x) \<noteq> k" if "occ ss x" for x
    using fresh that by (simp add: slots_map_None_iff)
  have occ: "occ ?ss x \<longleftrightarrow> x = i \<or> occ ss x" for x
    using s i by (auto simp: occ_update)
  have at: "?ss ! x = (if x = i then s else ss ! x)" for x
    using i by simp
  show kd: "keys_distinct ?ss"
    unfolding keys_distinct_def
  proof (intro allI impI)
    fix x y
    assume "occ ?ss x" "occ ?ss y" "e_first (?ss ! x) = e_first (?ss ! y)"
    then show "x = y"
      using ok(1) new [of x] new [of y] s unfolding occ at keys_distinct_def
      by (auto split: if_splits)
  qed
  show "probe_ok ?ss"
    unfolding probe_ok_def
  proof (intro allI impI)
    fix x y
    assume x: "occ ?ss x" and y: "y < length ?ss"
      and d: "cyc_dist (length ?ss) (home ?ss x) y < cyc_dist (length ?ss) (home ?ss x) x"
    show "occ ?ss y"
    proof (cases "x = i")
      case True
      then show ?thesis using d y path s i by (simp add: home_def occ_update)
    next
      case False
      then have "occ ss y"
        using x y d i ok(2) by (auto simp: probe_ok_def home_def occ_update)
      then show ?thesis using s i by (simp add: occ_update)
    qed
  qed
  show "slots_map ?ss = (slots_map ss)(k \<mapsto> e_second s)"
  proof (rule map_eq_Some_I)
    fix q v
    show "slots_map ?ss q = Some v \<longleftrightarrow> ((slots_map ss)(k \<mapsto> e_second s)) q = Some v"
    proof (cases "q = k")
      case True
      then show ?thesis
        using new s unfolding slots_map_Some_iff [OF kd] occ at by auto
    next
      case False
      then show ?thesis
        using s i(2) unfolding slots_map_Some_iff [OF kd] occ at
        by (auto simp: slots_map_Some_iff [OF ok(1)])
    qed
  qed
  show "occ_count ?ss = Suc (occ_count ss)" using i s by (simp add: occ_count_fill)
qed

text \<open>Overwriting the value of an occupied slot.\<close>

lemma overwrite_value:
  assumes ok: "keys_distinct ss" "probe_ok ss" and i: "occ ss i" "e_first (ss ! i) = k"
    and s: "s_state s = Occupied" "e_first s = k"
  shows "keys_distinct (ss[i := s])" "probe_ok (ss[i := s])"
    and "slots_map (ss[i := s]) = (slots_map ss)(k \<mapsto> e_second s)"
    and "occ_count (ss[i := s]) = occ_count ss"
proof -
  let ?ss = "ss[i := s]"
  have occ: "occ ?ss x \<longleftrightarrow> occ ss x" for x
    using i s by (auto simp: occ_update occ_less)
  have key: "e_first (?ss ! x) = e_first (ss ! x)" for x
    using i s by (cases "x = i") (auto simp: occ_less)
  show kd: "keys_distinct ?ss" using ok(1) by (simp add: keys_distinct_def occ key)
  show "probe_ok ?ss" using ok(2) by (simp add: probe_ok_def home_def occ key)
  have other: "e_first (ss ! x) = k \<longleftrightarrow> x = i" if "occ ss x" for x
    using ok(1) i that by (auto simp: keys_distinct_def)
  show "slots_map ?ss = (slots_map ss)(k \<mapsto> e_second s)"
  proof (rule map_eq_Some_I)
    fix q v
    have at: "e_second (?ss ! x) = (if x = i then e_second s else e_second (ss ! x))" for x
      using occ_less [OF i(1)] by simp
    show "slots_map ?ss q = Some v \<longleftrightarrow> ((slots_map ss)(k \<mapsto> e_second s)) q = Some v"
    proof (cases "q = k")
      case True
      then show ?thesis
        using other i(1) unfolding slots_map_Some_iff [OF kd] occ key at by auto
    next
      case False
      then show ?thesis
        using i(2) unfolding slots_map_Some_iff [OF kd] occ key at
        by (auto simp: slots_map_Some_iff [OF ok(1)])
    qed
  qed
  show "occ_count ?ss = occ_count ss" by (simp add: occ_count_card occ)
qed

text \<open>Where the probe for a key stops: at its slot, or at the empty slot that will hold it.\<close>

lemma probe_for_insert_ok:
  assumes "length ss = 2 ^ n" and ok: "keys_distinct ss" "probe_ok ss"
    and room: "occ_count ss < length ss"
  obtains t where "t < length ss"
    and "probe_for_insert ss (length ss - 1) k (hash_key k mod length ss) = Some t"
    and "occ ss t \<Longrightarrow> e_first (ss ! t) = k"
    and "\<not> occ ss t \<Longrightarrow> slots_map ss k = None"
    and "\<And>x. x < length ss \<Longrightarrow>
      cyc_dist (length ss) (hash_key k mod length ss) x <
      cyc_dist (length ss) (hash_key k mod length ss) t \<Longrightarrow> occ ss x"
proof -
  let ?N = "length ss" and ?h = "hash_key k mod length ss"
  have h: "?h < ?N" using assms(1) by simp
  obtain e where e: "e < ?N" "\<not> occ ss e" using room by (rule room_exists_empty)
  obtain t where t: "t < ?N" "\<not> occ ss t \<or> e_first (ss ! t) = k"
    and before: "\<And>x. x < ?N \<Longrightarrow> cyc_dist ?N ?h x < cyc_dist ?N ?h t \<Longrightarrow>
      \<not> (\<not> occ ss x \<or> e_first (ss ! x) = k)"
    using first_from [of e ?N "\<lambda>t. \<not> occ ss t \<or> e_first (ss ! t) = k" ?h] e by blast
  have absent: "slots_map ss k = None" if "\<not> occ ss t"
    unfolding slots_map_None_iff
  proof (intro allI impI notI)
    fix s
    assume s: "occ ss s" "e_first (ss ! s) = k"
    then have "cyc_dist ?N ?h t \<le> cyc_dist ?N ?h s"
      using before [of s] occ_less by fastforce
    moreover have "s \<noteq> t" using s that by auto
    then have "cyc_dist ?N ?h t \<noteq> cyc_dist ?N ?h s"
      using h t(1) occ_less [OF s(1)] by (auto simp: cyc_dist_def split: if_splits)
    ultimately have "occ ss t"
      using ok(2) s t(1) by (auto simp: probe_ok_def home_def)
    then show False using that by simp
  qed
  show ?thesis
  proof (rule that [of t])
    show "probe_for_insert ss (?N - 1) k ?h = Some t"
      using probe_for_insert_stops [OF assms(1) h t(1)] t(2) before by blast
    show "occ ss t \<Longrightarrow> e_first (ss ! t) = k" using t(2) by simp
    show "\<not> occ ss t \<Longrightarrow> slots_map ss k = None" by (rule absent)
    show "occ ss x" if "x < ?N" "cyc_dist ?N ?h x < cyc_dist ?N ?h t" for x
      using before [OF that] by simp
  qed (rule t)
qed

section \<open>Every operation returns, keeps the invariant and acts as on a map\<close>

lemma fhm_invE:
  assumes "fhm_inv t"
  obtains n where "length (fhm_slots t) = 2 ^ n"
    and "fhm_mask t = length (fhm_slots t) - 1"
    and "\<And>k. hash_key k AND fhm_mask t = hash_key k mod length (fhm_slots t)"
    and "fhm_live t = occ_count (fhm_slots t)"
    and "occ_count (fhm_slots t) < length (fhm_slots t)"
    and "\<not> over_load (occ_count (fhm_slots t)) (length (fhm_slots t))"
    and "keys_distinct (fhm_slots t)" and "probe_ok (fhm_slots t)"
proof -
  obtain n where n: "length (fhm_slots t) = 2 ^ n" using assms by (auto simp: fhm_inv_def)
  have m: "fhm_mask t = length (fhm_slots t) - 1" using assms by (simp add: fhm_inv_def)
  have "hash_key k AND fhm_mask t = hash_key k mod length (fhm_slots t)" for k
    unfolding m by (rule and_mask_mod [OF n])
  then show ?thesis
    using that n m fhm_inv_room [OF assms] assms by (auto simp: fhm_inv_def)
qed

lemma fhm_find_ok:
  assumes "fhm_inv t"
  shows "fhm_find t k = Some (fhm_map t k)"
proof -
  let ?ss = "fhm_slots t"
  obtain n where n: "length ?ss = 2 ^ n" and m: "fhm_mask t = length ?ss - 1"
    and h: "hash_key k AND fhm_mask t = hash_key k mod length ?ss"
    and ok: "keys_distinct ?ss" "probe_ok ?ss" and room: "occ_count ?ss < length ?ss"
    using assms by (metis fhm_invE)
  obtain i where i: "i < length ?ss"
    "probe_for_insert ?ss (fhm_mask t) k (hash_key k AND fhm_mask t) = Some i"
    "occ ?ss i \<Longrightarrow> e_first (?ss ! i) = k" "\<not> occ ?ss i \<Longrightarrow> slots_map ?ss k = None"
    unfolding h unfolding m using probe_for_insert_ok [OF n ok room, of k] by metis
  show ?thesis
  proof (cases "occ ?ss i")
    case True
    then have "slots_map ?ss k = Some (e_second (?ss ! i))"
      using slots_map_Some_iff [OF ok(1)] i(3) by blast
    then show ?thesis
      using probe_existing_conv [OF i(2)] True
      by (simp add: fhm_find_def fhm_map_def occ_def)
  next
    case False
    then show ?thesis
      using probe_existing_conv [OF i(2)] i(4) not_occ_iff [OF i(1)]
      by (simp add: fhm_find_def fhm_map_def)
  qed
qed

text \<open>The empty table.\<close>

lemma slots_empty [simp]:
  "occ_count (replicate n (blank_slot d)) = 0"
  "slots_map (replicate n (blank_slot d)) k = None"
  "occ (replicate n (blank_slot d)) i = False"
  by (auto simp: occ_count_def slots_map_def find_None_iff blank_slot_def occ_def)

lemma slots_empty_ok: "keys_distinct (replicate n (blank_slot d))" "probe_ok (replicate n (blank_slot d))"
  by (auto simp: keys_distinct_def probe_ok_def)

lemma init_cap_pow2: "\<exists>k. cap = 2 ^ k \<Longrightarrow> \<exists>k. init_cap n cap = 2 ^ k"
proof (induction n cap rule: init_cap.induct)
  case (1 n cap)
  have "\<exists>k. 2 * cap = 2 ^ k" using "1.prems" by (metis power_Suc)
  then show ?case using 1 by (subst init_cap.simps) auto
qed

lemma reserve_cap_pow2: "\<exists>k. cap = 2 ^ k \<Longrightarrow> \<exists>k. reserve_cap n cap = 2 ^ k"
proof (induction n cap rule: reserve_cap.induct)
  case (1 n cap)
  have "\<exists>k. 2 * cap = 2 ^ k" using "1.prems" by (metis power_Suc)
  then show ?case using 1 by (subst reserve_cap.simps) auto
qed

lemma fhm_new_ok: "fhm_inv (fhm_new d n)" "fhm_map (fhm_new d n) = Map.empty"
proof -
  have "\<exists>k. (16 :: nat) = 2 ^ k" by (intro exI [of _ 4]) simp
  then have "\<exists>k. init_cap n 16 = 2 ^ k" by (rule init_cap_pow2)
  then show "fhm_inv (fhm_new d n)"
    by (auto simp: fhm_inv_def fhm_new_def Let_def over_load_def slots_empty_ok)
  show "fhm_map (fhm_new d n) = Map.empty"
    by (auto simp: fhm_map_def fhm_new_def Let_def)
qed

text \<open>Rehashing: each live entry of the old table is placed in the new one.\<close>

lemma keys_distinct_Cons:
  "keys_distinct (s # ss) \<longleftrightarrow>
     keys_distinct ss \<and> (s_state s = Occupied \<longrightarrow> slots_map ss (e_first s) = None)"
proof -
  have occ: "occ (s # ss) i \<longleftrightarrow> (case i of 0 \<Rightarrow> s_state s = Occupied | Suc j \<Rightarrow> occ ss j)" for i
    by (cases i) (auto simp: occ_def)
  show ?thesis (is "?L \<longleftrightarrow> ?R")
  proof
    assume L: ?L
    have "keys_distinct ss"
      unfolding keys_distinct_def
    proof (intro allI impI)
      fix i j assume "occ ss i" "occ ss j" "e_first (ss ! i) = e_first (ss ! j)"
      then show "i = j"
        using L [unfolded keys_distinct_def, rule_format, of "Suc i" "Suc j"] by (simp add: occ)
    qed
    moreover have "e_first (ss ! i) \<noteq> e_first s" if "s_state s = Occupied" "occ ss i" for i
      using L [unfolded keys_distinct_def, rule_format, of 0 "Suc i"] that by (auto simp: occ)
    ultimately show ?R by (simp add: slots_map_None_iff)
  next
    assume R: ?R
    show ?L
      unfolding keys_distinct_def
    proof (intro allI impI)
      fix i j
      assume "occ (s # ss) i" "occ (s # ss) j" "e_first ((s # ss) ! i) = e_first ((s # ss) ! j)"
      with R show "i = j"
        by (cases i; cases j) (auto simp: occ slots_map_None_iff keys_distinct_def dest: sym)
    qed
  qed
qed

lemma slots_map_Cons:
  "slots_map (s # ss) k =
     (if s_state s = Occupied \<and> e_first s = k then Some (e_second s) else slots_map ss k)"
  by (simp add: slots_map_def)

lemma occ_count_Cons:
  "occ_count (s # ss) = (if s_state s = Occupied then Suc (occ_count ss) else occ_count ss)"
  by (simp add: occ_count_def)

lemma rehash_into_ok:
  assumes "length ss = 2 ^ n" "keys_distinct ss" "probe_ok ss" "keys_distinct old"
    and "\<And>k. slots_map old k \<noteq> None \<Longrightarrow> slots_map ss k = None"
    and "occ_count ss + occ_count old < length ss"
  shows "\<exists>ss'. rehash_into (length ss - 1) old ss = Some ss' \<and> length ss' = length ss \<and>
    keys_distinct ss' \<and> probe_ok ss' \<and> occ_count ss' = occ_count ss + occ_count old \<and>
    slots_map ss' = slots_map ss ++ slots_map old"
  using assms
proof (induction old arbitrary: ss)
  case Nil
  then show ?case by (auto simp: occ_count_def slots_map_def map_add_def)
next
  case (Cons s old)
  let ?k = "e_first s"
  show ?case
  proof (cases "s_state s = Occupied")
    case False
    then have "slots_map (s # old) = slots_map old" by (auto simp: slots_map_Cons)
    then show ?thesis
      using Cons.IH [of ss] Cons.prems False by (simp add: keys_distinct_Cons occ_count_Cons)
  next
    case True
    have room: "occ_count ss < length ss" using Cons.prems(6) by simp
    have fresh: "slots_map ss ?k = None"
      using Cons.prems(5) [of ?k] True by (simp add: slots_map_Cons)
    obtain t where t: "t < length ss"
      "probe_for_insert ss (length ss - 1) ?k (hash_key ?k mod length ss) = Some t"
      "occ ss t \<Longrightarrow> e_first (ss ! t) = ?k"
      "\<And>x. x < length ss \<Longrightarrow> cyc_dist (length ss) (hash_key ?k mod length ss) x <
         cyc_dist (length ss) (hash_key ?k mod length ss) t \<Longrightarrow> occ ss x"
      using probe_for_insert_ok [OF Cons.prems(1-3) room, of ?k] by metis
    have empty: "\<not> occ ss t" using t(3) fresh by (auto simp: slots_map_None_iff)
    let ?e = "\<lparr>s_state = Occupied, e_first = ?k, e_second = e_second s\<rparr>"
    let ?ss = "ss[t := ?e]"
    have placed: "keys_distinct ?ss" "probe_ok ?ss"
      "slots_map ?ss = (slots_map ss)(?k \<mapsto> e_second s)" "occ_count ?ss = Suc (occ_count ss)"
      using place_entry [OF Cons.prems(2,3) fresh t(1) empty t(4), of ?e] by simp_all
    have kd: "keys_distinct old" "slots_map old ?k = None"
      using Cons.prems(4) True by (auto simp: keys_distinct_Cons)
    have "\<exists>ss'. rehash_into (length ?ss - 1) old ?ss = Some ss' \<and> length ss' = length ?ss \<and>
        keys_distinct ss' \<and> probe_ok ss' \<and> occ_count ss' = occ_count ?ss + occ_count old \<and>
        slots_map ss' = slots_map ?ss ++ slots_map old"
    proof (rule Cons.IH)
      show "slots_map ?ss k = None" if "slots_map old k \<noteq> None" for k
        using Cons.prems(5) [of k] that kd(2) placed(3) True
        by (auto simp: slots_map_Cons split: if_splits)
    qed (use Cons.prems(1,6) placed kd True in \<open>simp_all add: occ_count_Cons\<close>)
    then obtain ss' where ss': "rehash_into (length ss - 1) old ?ss = Some ss'"
      "length ss' = length ss" "keys_distinct ss'" "probe_ok ss'"
      "occ_count ss' = Suc (occ_count ss) + occ_count old"
      "slots_map ss' = slots_map ?ss ++ slots_map old"
      using placed(4) by auto
    have "probe_free ss (length ss - 1) (hash_key ?k mod length ss) = Some t"
      using probe_free_stops [OF Cons.prems(1) _ t(1) empty t(4)] Cons.prems(1) by simp
    moreover have "hash_key ?k AND (length ss - 1) = hash_key ?k mod length ss"
      by (rule and_mask_mod [OF Cons.prems(1)])
    moreover have "slots_map ss' = slots_map ss ++ slots_map (s # old)"
      using ss'(6) placed(3) kd(2) True
      by (auto simp: map_add_def slots_map_Cons fun_eq_iff split: option.splits)
    ultimately show ?thesis
      using ss' True by (intro exI [of _ ss']) (simp add: occ_count_Cons)
  qed
qed

lemma rehash_ok:
  assumes t: "fhm_inv t" and cap: "cap = 2 ^ n" "length (fhm_slots t) < cap"
  shows "\<exists>t'. rehash d t cap = Some t' \<and> fhm_inv t' \<and> fhm_map t' = fhm_map t \<and>
    fhm_live t' = fhm_live t \<and> length (fhm_slots t') = cap"
proof -
  let ?new = "replicate cap (blank_slot d)"
  have old: "keys_distinct (fhm_slots t)" "fhm_live t = occ_count (fhm_slots t)"
    "\<not> over_load (occ_count (fhm_slots t)) (length (fhm_slots t))"
    "occ_count (fhm_slots t) < cap"
    using t cap(2) by (auto elim!: fhm_invE)
  have "\<exists>ss'. rehash_into (length ?new - 1) (fhm_slots t) ?new = Some ss' \<and>
    length ss' = length ?new \<and> keys_distinct ss' \<and> probe_ok ss' \<and>
    occ_count ss' = occ_count ?new + occ_count (fhm_slots t) \<and>
    slots_map ss' = slots_map ?new ++ slots_map (fhm_slots t)"
    using old cap by (intro rehash_into_ok) (auto simp: slots_empty_ok)
  then obtain ss' where ss': "rehash_into (cap - 1) (fhm_slots t) ?new = Some ss'"
    "length ss' = cap" "keys_distinct ss'" "probe_ok ss'"
    "occ_count ss' = occ_count (fhm_slots t)"
    "slots_map ss' = slots_map ?new ++ slots_map (fhm_slots t)"
    by auto
  have "slots_map ss' = slots_map (fhm_slots t)"
    using ss'(6) by (auto simp: map_add_def fun_eq_iff split: option.splits)
  moreover have "\<not> over_load (occ_count (fhm_slots t)) cap"
    using old(3) cap(2) by (auto simp: over_load_def)
  ultimately show ?thesis
    using ss' old cap by (auto simp: rehash_def fhm_inv_def fhm_map_def)
qed

lemma maybe_grow_ok:
  assumes "fhm_inv t"
  shows "\<exists>t'. maybe_grow d t = Some t' \<and> fhm_inv t' \<and> fhm_map t' = fhm_map t \<and>
    fhm_live t' = fhm_live t \<and> \<not> over_load (fhm_live t' + 1) (length (fhm_slots t'))"
proof (cases "over_load (fhm_live t + 1) (length (fhm_slots t))")
  case False
  then show ?thesis using assms by (simp add: maybe_grow_def)
next
  case True
  obtain n where n: "length (fhm_slots t) = 2 ^ n" "\<not> over_load (fhm_live t) (length (fhm_slots t))"
    using assms by (auto elim!: fhm_invE)
  have len: "1 \<le> length (fhm_slots t)" using n(1) by simp
  have "\<exists>t'. rehash d t (length (fhm_slots t) * 2) = Some t' \<and> fhm_inv t' \<and>
      fhm_map t' = fhm_map t \<and> fhm_live t' = fhm_live t \<and>
      length (fhm_slots t') = length (fhm_slots t) * 2"
    using n by (intro rehash_ok [OF assms, of _ "Suc n"]) auto
  moreover have "\<not> over_load (fhm_live t + 1) (length (fhm_slots t) * 2)"
    using n(2) len unfolding over_load_def
    by (cases "fhm_live t") (simp_all add: not_less)
  ultimately show ?thesis using True by (auto simp: maybe_grow_def)
qed

lemma fhm_reserve_ok:
  assumes "fhm_inv t"
  shows "\<exists>t'. fhm_reserve d t n = Some t' \<and> fhm_inv t' \<and> fhm_map t' = fhm_map t \<and>
    fhm_size t' = fhm_size t"
proof -
  obtain k where k: "length (fhm_slots t) = 2 ^ k" using assms by (rule fhm_invE)
  obtain j where "reserve_cap n (length (fhm_slots t)) = 2 ^ j"
    using reserve_cap_pow2 k by blast
  then show ?thesis
    using rehash_ok [OF assms, of "2 ^ j" j d] assms
    by (auto simp: fhm_reserve_def Let_def fhm_size_def)
qed

lemma fhm_put_ok:
  assumes "fhm_inv t"
  shows "\<exists>t'. fhm_put d t k v = Some t' \<and> fhm_inv t' \<and> fhm_map t' = (fhm_map t)(k \<mapsto> v) \<and>
    fhm_size t' = (if fhm_map t k = None then fhm_size t + 1 else fhm_size t)"
proof -
  obtain g where g: "maybe_grow d t = Some g" "fhm_inv g" "fhm_map g = fhm_map t"
    "fhm_live g = fhm_live t" "\<not> over_load (fhm_live g + 1) (length (fhm_slots g))"
    using maybe_grow_ok [OF assms] by blast
  let ?ss = "fhm_slots g"
  obtain n where n: "length ?ss = 2 ^ n" and m: "fhm_mask g = length ?ss - 1"
    and h: "hash_key k AND fhm_mask g = hash_key k mod length ?ss"
    and live: "fhm_live g = occ_count ?ss" and room: "occ_count ?ss < length ?ss"
    and ok: "keys_distinct ?ss" "probe_ok ?ss" and load: "\<not> over_load (occ_count ?ss) (length ?ss)"
    using g(2) by (metis fhm_invE)
  obtain i where i: "i < length ?ss"
    "probe_for_insert ?ss (fhm_mask g) k (hash_key k AND fhm_mask g) = Some i"
    "occ ?ss i \<Longrightarrow> e_first (?ss ! i) = k" "\<not> occ ?ss i \<Longrightarrow> slots_map ?ss k = None"
    "\<And>x. x < length ?ss \<Longrightarrow> cyc_dist (length ?ss) (hash_key k mod length ?ss) x <
       cyc_dist (length ?ss) (hash_key k mod length ?ss) i \<Longrightarrow> occ ?ss x"
    unfolding h unfolding m using probe_for_insert_ok [OF n ok room, of k] by metis
  show ?thesis
  proof (cases "occ ?ss i")
    case True
    let ?s = "(?ss ! i)\<lparr>e_second := v\<rparr>"
    have s: "s_state ?s = Occupied" "e_first ?s = k" "e_second ?s = v"
      using True i(3) by (auto simp: occ_def)
    have "slots_map ?ss k \<noteq> None" using True i(3) by (auto simp: slots_map_None_iff)
    then show ?thesis
      using g i(2) m n live load overwrite_value [OF ok True i(3) [OF True] s(1,2)] s(3) True
      by (auto simp: fhm_put_def fhm_subscript_def fhm_inv_def fhm_map_def fhm_size_def occ_def)
  next
    case False
    let ?s = "\<lparr>s_state = Occupied, e_first = k, e_second = v\<rparr>"
    have "s_state (?ss ! i) \<noteq> Occupied" using False i(1) by (simp add: occ_def)
    moreover have "\<not> over_load (Suc (occ_count ?ss)) (length ?ss)" using g(5) live by simp
    ultimately show ?thesis
      using g i(1,2) i(4) [OF False] m n live
        place_entry [OF ok i(4) [OF False] i(1) False i(5), of ?s]
      by (auto simp: fhm_put_def fhm_subscript_def fhm_inv_def fhm_map_def fhm_size_def)
  qed
qed

lemma fhm_for_each_ok:
  assumes "fhm_inv t"
  shows "fhm_inv (fhm_for_each_mut f t)"
    and "fhm_map (fhm_for_each_mut f t) = (\<lambda>k. map_option f (fhm_map t k))"
    and "fhm_size (fhm_for_each_mut f t) = fhm_size t"
proof -
  let ?g = "\<lambda>s. if s_state s = Occupied then s\<lparr>e_second := f (e_second s)\<rparr> else s"
  let ?ss = "fhm_slots t"
  have [simp]: "s_state (?g s) = s_state s" "e_first (?g s) = e_first s" for s by auto
  have occ: "occ (map ?g ?ss) i \<longleftrightarrow> occ ?ss i" for i by (auto simp: occ_def)
  have key: "e_first (map ?g ?ss ! i) = e_first (?ss ! i)" if "i < length ?ss" for i
    using that by simp
  have "keys_distinct (map ?g ?ss)"
    using assms by (auto simp: fhm_inv_def keys_distinct_def occ key occ_less)
  moreover have "probe_ok (map ?g ?ss)"
    unfolding probe_ok_def
  proof (intro allI impI)
    fix s x
    assume "occ (map ?g ?ss) s" "x < length (map ?g ?ss)"
      and d: "cyc_dist (length (map ?g ?ss)) (home (map ?g ?ss) s) x <
        cyc_dist (length (map ?g ?ss)) (home (map ?g ?ss) s) s"
    then have s: "occ ?ss s" "x < length ?ss" by (auto simp: occ)
    have h: "home (map ?g ?ss) s = home ?ss s"
      unfolding home_def key [OF occ_less [OF s(1)]] by simp
    have "probe_ok ?ss" using assms by (simp add: fhm_inv_def)
    then have "occ ?ss x" using s d unfolding h by (simp add: probe_ok_def)
    then show "occ (map ?g ?ss) x" by (simp add: occ)
  qed
  moreover have "occ_count (map ?g ?ss) = occ_count ?ss"
    by (simp add: occ_count_card occ)
  ultimately show "fhm_inv (fhm_for_each_mut f t)"
    using assms by (auto simp: fhm_inv_def fhm_for_each_mut_def)
  have "slots_map (map ?g ss) k = map_option f (slots_map ss k)" for ss :: "'a slot list" and k
    by (induction ss) (auto simp: slots_map_def)
  then show "fhm_map (fhm_for_each_mut f t) = (\<lambda>k. map_option f (fhm_map t k))"
    by (auto simp: fhm_map_def fhm_for_each_mut_def)
  show "fhm_size (fhm_for_each_mut f t) = fhm_size t"
    by (simp add: fhm_size_def fhm_for_each_mut_def)
qed

section \<open>Backward-shift deletion\<close>

text \<open>
  The state of the deletion loop: \<open>i\<close> is the hole, the slots from \<open>i\<close> (exclusive) to \<open>j\<close> have been
  scanned and keep their place, \<open>e\<close> is an empty slot ahead. A probe path may now cross the
  hole, but not one that leads to a scanned slot.
\<close>

definition shift_inv :: "'v slot list \<Rightarrow> nat \<Rightarrow> nat \<Rightarrow> nat \<Rightarrow> bool" where
  "shift_inv ss i j e \<longleftrightarrow>
     (let N = length ss in
        i < N \<and> j < N \<and> e < N \<and> \<not> occ ss i \<and> \<not> occ ss e \<and>
        cyc_dist N i j < cyc_dist N i e \<and> keys_distinct ss \<and>
        (\<forall>s x. occ ss s \<longrightarrow> x < N \<longrightarrow>
           cyc_dist N (home ss s) x < cyc_dist N (home ss s) s \<longrightarrow> occ ss x \<or> x = i) \<and>
        (\<forall>s. occ ss s \<longrightarrow> 0 < cyc_dist N i s \<longrightarrow> cyc_dist N i s \<le> cyc_dist N i j \<longrightarrow>
           cyc_dist N (home ss s) s \<le> cyc_dist N (home ss s) i))"

text \<open>The cyclic range test of the code.\<close>

lemma in_range_iff:
  assumes "i < N" "j < N" "k < N" "i \<noteq> j"
  shows "(if i \<le> j then i < k \<and> k \<le> j else i < k \<or> k \<le> j) \<longleftrightarrow> cyc_dist N k j \<le> cyc_dist N k i"
  using assms by (auto simp: cyc_dist_def)

lemma cyc_between:
  assumes "h < N" "i < N" "s < N" "x < N"
    and "cyc_dist N h i < cyc_dist N h s" "0 < cyc_dist N i x" "cyc_dist N i x < cyc_dist N i s"
  shows "cyc_dist N h x < cyc_dist N h s"
  using assms by (auto simp: cyc_dist_def split: if_splits)

lemma cyc_dist_next_right:
  assumes "i < N" "j < N" "cyc_dist N i j + 1 < N"
  shows "cyc_dist N i (cyc_next N j) = Suc (cyc_dist N i j)"
  using assms by (auto simp: cyc_defs split: if_splits)

lemma cyc_dist_inj:
  "h < N \<Longrightarrow> a < N \<Longrightarrow> b < N \<Longrightarrow> cyc_dist N h a = cyc_dist N h b \<Longrightarrow> a = b"
  by (auto simp: cyc_dist_def split: if_splits)

lemma shift_inv_stop:
  assumes inv: "shift_inv ss i j e" and j': "\<not> occ ss (cyc_next (length ss) j)"
  shows "probe_ok ss"
  unfolding probe_ok_def
proof (intro allI impI)
  fix s x
  let ?N = "length ss" and ?h = "home ss s"
  let ?j = "cyc_next ?N j"
  assume s: "occ ss s" and x: "x < ?N" and d: "cyc_dist ?N ?h x < cyc_dist ?N ?h s"
  have i: "i < ?N" "j < ?N" "\<not> occ ss i" and dj: "cyc_dist ?N i j < cyc_dist ?N i e" "e < ?N"
    and hole: "\<And>x. x < ?N \<Longrightarrow> cyc_dist ?N ?h x < cyc_dist ?N ?h s \<Longrightarrow> occ ss x \<or> x = i"
    and scanned: "0 < cyc_dist ?N i s \<Longrightarrow> cyc_dist ?N i s \<le> cyc_dist ?N i j \<Longrightarrow>
      cyc_dist ?N ?h s \<le> cyc_dist ?N ?h i"
    using inv s by (auto simp: shift_inv_def Let_def)
  have sN: "s < ?N" "?h < ?N" using s by (auto simp: occ_less home_less)
  show "occ ss x"
  proof (rule ccontr)
    assume "\<not> occ ss x"
    then have xi: "x = i" using hole [OF x d] by simp
    have "s \<noteq> i" using s i by auto
    then have pos: "0 < cyc_dist ?N i s" using i sN cyc_dist_zero by fastforce
    then have far: "cyc_dist ?N i j < cyc_dist ?N i s" using scanned d xi by fastforce
    have j'd: "cyc_dist ?N i ?j = Suc (cyc_dist ?N i j)"
      using i dj cyc_dist_less [of i ?N e] by (intro cyc_dist_next_right) auto
    have j'N: "?j < ?N" using i by simp
    have "?j \<noteq> s" using s j' by auto
    then have "cyc_dist ?N i ?j < cyc_dist ?N i s"
      using far j'd j'N sN i cyc_dist_inj [of i ?N "?j" s] by fastforce
    then have "cyc_dist ?N ?h ?j < cyc_dist ?N ?h s"
      using cyc_between [OF sN(2) i(1) sN(1) j'N] d xi j'd by simp
    then have "?j = i" using hole [OF j'N] j' by simp
    then show False using j'd by simp
  qed
qed

lemma shift_inv_keep:
  assumes inv: "shift_inv ss i j e" and j': "occ ss (cyc_next (length ss) j)"
    and stay: "cyc_dist (length ss) (home ss (cyc_next (length ss) j)) (cyc_next (length ss) j) \<le>
               cyc_dist (length ss) (home ss (cyc_next (length ss) j)) i"
  shows "shift_inv ss i (cyc_next (length ss) j) e"
proof -
  let ?N = "length ss"
  let ?j = "cyc_next ?N j"
  have i: "i < ?N" "j < ?N" and dj: "cyc_dist ?N i j < cyc_dist ?N i e" "e < ?N" "\<not> occ ss e"
    using inv by (auto simp: shift_inv_def Let_def)
  have j'd: "cyc_dist ?N i ?j = Suc (cyc_dist ?N i j)"
    using i dj cyc_dist_less [of i ?N e] by (intro cyc_dist_next_right) auto
  have "cyc_dist ?N i ?j \<noteq> cyc_dist ?N i e"
    using cyc_dist_inj [of i ?N ?j e] i dj j' by auto
  then have less: "cyc_dist ?N i ?j < cyc_dist ?N i e" using j'd dj by simp
  have "cyc_dist ?N (home ss s) s \<le> cyc_dist ?N (home ss s) i"
    if s: "occ ss s" "0 < cyc_dist ?N i s" "cyc_dist ?N i s \<le> cyc_dist ?N i ?j" for s
  proof (cases "s = ?j")
    case True
    then show ?thesis using stay by simp
  next
    case False
    then have "cyc_dist ?N i s \<noteq> cyc_dist ?N i ?j"
      using cyc_dist_inj [of i ?N s ?j] i s by (auto simp: occ_less)
    then show ?thesis using inv s j'd by (auto simp: shift_inv_def Let_def)
  qed
  then show ?thesis using inv less i by (auto simp: shift_inv_def Let_def)
qed

lemma shift_inv_move:
  assumes inv: "shift_inv ss i j e" and j': "occ ss (cyc_next (length ss) j)"
    and move: "\<not> cyc_dist (length ss) (home ss (cyc_next (length ss) j)) (cyc_next (length ss) j) \<le>
               cyc_dist (length ss) (home ss (cyc_next (length ss) j)) i"
    and ss': "ss' = ss[i := (ss ! cyc_next (length ss) j)\<lparr>s_state := Occupied\<rparr>,
               cyc_next (length ss) j := (ss ! cyc_next (length ss) j)\<lparr>s_state := Empty\<rparr>]"
  shows "shift_inv ss' (cyc_next (length ss) j) (cyc_next (length ss) j) e"
    and "slots_map ss' = slots_map ss" and "occ_count ss' = occ_count ss"
proof -
  let ?N = "length ss"
  let ?j = "cyc_next ?N j"
  have N: "length ss' = ?N" by (simp add: ss')
  have i: "i < ?N" "j < ?N" "\<not> occ ss i" and dj: "e < ?N" "\<not> occ ss e"
    and kd: "keys_distinct ss" and ie: "cyc_dist ?N i j < cyc_dist ?N i e"
    and hole: "\<And>s x. occ ss s \<Longrightarrow> x < ?N \<Longrightarrow>
      cyc_dist ?N (home ss s) x < cyc_dist ?N (home ss s) s \<Longrightarrow> occ ss x \<or> x = i"
    using inv by (auto simp: shift_inv_def Let_def)
  have jN: "?j < ?N" and ij: "i \<noteq> ?j" using i j' by auto
  have occ: "occ ss' x \<longleftrightarrow> x = i \<or> (occ ss x \<and> x \<noteq> ?j)" for x
    using i jN ij by (auto simp: ss' occ_def nth_list_update)
  have key: "e_first (ss' ! x) = e_first (ss ! (if x = i then ?j else x))"
    and val: "e_second (ss' ! x) = e_second (ss ! (if x = i then ?j else x))" for x
    using i jN ij by (auto simp: ss' nth_list_update)
  have home: "home ss' x = home ss (if x = i then ?j else x)" for x
    by (simp add: home_def N key)
  have ne: "e \<noteq> ?j" "e \<noteq> i" using dj j' ie by auto
  have kd': "keys_distinct ss'"
    unfolding keys_distinct_def
  proof (intro allI impI)
    fix x y
    assume "occ ss' x" "occ ss' y" "e_first (ss' ! x) = e_first (ss' ! y)"
    then show "x = y"
      using kd [unfolded keys_distinct_def, rule_format, of "if x = i then ?j else x"
          "if y = i then ?j else y"] j' i(3) unfolding occ key
      by (auto split: if_splits)
  qed
  have path: "occ ss' x \<or> x = ?j"
    if s: "occ ss' s" "x < ?N" "cyc_dist ?N (home ss' s) x < cyc_dist ?N (home ss' s) s" for s x
  proof (cases "s = i")
    case True
    then have d: "cyc_dist ?N (home ss ?j) x < cyc_dist ?N (home ss ?j) i"
      using s(3) by (simp add: home)
    then have "occ ss x \<or> x = i" using hole [OF j' s(2)] move by simp
    then show ?thesis using occ by blast
  next
    case False
    then have "occ ss x \<or> x = i"
      using hole [of s x] s by (simp add: home occ)
    then show ?thesis using occ by blast
  qed
  have "0 < cyc_dist ?N ?j e" using ne jN dj cyc_dist_zero by fastforce
  then show "shift_inv ss' ?j ?j e"
    unfolding shift_inv_def Let_def N
  proof (intro conjI allI impI)
    show "\<not> occ ss' ?j" "\<not> occ ss' e" using occ ij dj ne by auto
    show "cyc_dist ?N ?j ?j < cyc_dist ?N ?j e" if "0 < cyc_dist ?N ?j e" using that by simp
    show "occ ss' x \<or> x = ?j" if "occ ss' s" "x < ?N"
      "cyc_dist ?N (home ss' s) x < cyc_dist ?N (home ss' s) s" for s x
      using that by (rule path)
    show "cyc_dist ?N (home ss' s) s \<le> cyc_dist ?N (home ss' s) ?j"
      if "0 < cyc_dist ?N ?j s" "cyc_dist ?N ?j s \<le> cyc_dist ?N ?j ?j" for s
      using that by simp
  qed (use kd' jN dj in simp_all)
  show "slots_map ss' = slots_map ss"
  proof (rule slots_map_cong [OF kd kd'])
    fix k v
    show "(\<exists>x. occ ss x \<and> e_first (ss ! x) = k \<and> e_second (ss ! x) = v) \<longleftrightarrow>
      (\<exists>x. occ ss' x \<and> e_first (ss' ! x) = k \<and> e_second (ss' ! x) = v)" (is "?L \<longleftrightarrow> ?R")
    proof
      assume ?L
      then obtain x where "occ ss x" "e_first (ss ! x) = k" "e_second (ss ! x) = v" by blast
      then show ?R
        using i(3) by (intro exI [of _ "if x = ?j then i else x"]) (auto simp: occ key val)
    next
      assume ?R
      then obtain x where "occ ss' x" "e_first (ss' ! x) = k" "e_second (ss' ! x) = v" by blast
      then show ?L
        using j' by (intro exI [of _ "if x = i then ?j else x"]) (auto simp: occ key val)
    qed
  qed
  have "{x. occ ss' x} = insert i ({x. occ ss x} - {?j})" by (auto simp: occ ij)
  moreover have "card (insert i ({x. occ ss x} - {?j})) = card {x. occ ss x}"
  proof -
    have "card (insert i ({x. occ ss x} - {?j})) = Suc (card ({x. occ ss x} - {?j}))"
      using i(3) by (intro card_insert_disjoint) auto
    also have "\<dots> = card {x. occ ss x}" using j' by (intro card_Suc_Diff1) auto
    finally show ?thesis .
  qed
  ultimately show "occ_count ss' = occ_count ss" by (simp add: occ_count_card)
qed

lemma backward_shift_ok:
  assumes "length ss = 2 ^ n" "shift_inv ss i j e"
  shows "\<exists>ss'. backward_shift ss (length ss - 1) i j = Some ss' \<and> length ss' = length ss \<and>
    keys_distinct ss' \<and> probe_ok ss' \<and> occ_count ss' = occ_count ss \<and>
    slots_map ss' = slots_map ss"
  using assms
proof (induction "cyc_dist (length ss) j e" arbitrary: ss i j rule: less_induct)
  case less
  let ?N = "length ss"
  let ?j = "cyc_next ?N j"
  have i: "i < ?N" "j < ?N" "\<not> occ ss i" and dj: "e < ?N" "\<not> occ ss e"
    and ie: "cyc_dist ?N i j < cyc_dist ?N i e" and kd: "keys_distinct ss"
    using less.prems(2) by (auto simp: shift_inv_def Let_def)
  have jN: "?j < ?N" using i by simp
  have nxt: "(j + 1) AND (?N - 1) = ?j" by (rule next_and_mask [OF less.prems(1) i(2)])
  have "j \<noteq> e" using ie by auto
  then have smaller: "cyc_dist ?N ?j e < cyc_dist ?N j e"
    using cyc_dist_next [of j ?N e] i dj by simp
  show ?case
  proof (cases "occ ss ?j")
    case False
    then have "backward_shift ss (?N - 1) i j = Some ss"
      using jN nxt by (subst backward_shift.simps) (simp add: Let_def occ_def)
    then show ?thesis using shift_inv_stop [OF less.prems(2) False] kd by blast
  next
    case True
    let ?k = "home ss ?j"
    have k: "hash_key (e_first (ss ! ?j)) AND (?N - 1) = ?k"
      unfolding home_def by (rule and_mask_mod [OF less.prems(1)])
    have ij: "i \<noteq> ?j" using True i by auto
    have range: "(if i \<le> ?j then i < ?k \<and> ?k \<le> ?j else i < ?k \<or> ?k \<le> ?j) \<longleftrightarrow>
        cyc_dist ?N ?k ?j \<le> cyc_dist ?N ?k i"
      using in_range_iff [OF i(1) jN home_less [OF True] ij] .
    have st: "s_state (ss ! ?j) = Occupied" using True by (simp add: occ_def)
    show ?thesis
    proof (cases "cyc_dist ?N ?k ?j \<le> cyc_dist ?N ?k i")
      case stay: True
      have "backward_shift ss (?N - 1) i j = backward_shift ss (?N - 1) i ?j"
        by (subst backward_shift.simps)
          (simp only: Let_def nxt k range st stay if_True if_False simp_thms)
      then show ?thesis
        using less.hyps [OF smaller less.prems(1) shift_inv_keep [OF less.prems(2) True stay]]
        by simp
    next
      case move: False
      let ?ss = "ss[i := (ss ! ?j)\<lparr>s_state := Occupied\<rparr>, ?j := (ss ! ?j)\<lparr>s_state := Empty\<rparr>]"
      note moved = shift_inv_move [OF less.prems(2) True move refl]
      have "backward_shift ss (?N - 1) i j = backward_shift ?ss (?N - 1) ?j ?j"
        by (subst backward_shift.simps)
          (simp only: Let_def nxt k range st move if_True if_False simp_thms)
      moreover have "\<exists>ss'. backward_shift ?ss (length ?ss - 1) ?j ?j = Some ss' \<and>
          length ss' = length ?ss \<and> keys_distinct ss' \<and> probe_ok ss' \<and>
          occ_count ss' = occ_count ?ss \<and> slots_map ss' = slots_map ?ss"
        using less.prems(1) moved(1) smaller by (intro less.hyps) auto
      ultimately show ?thesis using moved(2,3) by simp
    qed
  qed
qed

text \<open>Emptying the slot of a key puts the loop in its starting state.\<close>

lemma shift_inv_start:
  assumes ok: "keys_distinct ss" "probe_ok ss" and i: "occ ss i"
    and e: "e < length ss" "\<not> occ ss e" and s: "s_state s = Empty"
  shows "shift_inv (ss[i := s]) i i e"
    and "slots_map (ss[i := s]) = (slots_map ss)(e_first (ss ! i) := None)"
proof -
  let ?ss = "ss[i := s]"
  have iN: "i < length ss" using i by (rule occ_less)
  have occ: "occ ?ss x \<longleftrightarrow> occ ss x \<and> x \<noteq> i" for x
    using s iN by (auto simp: occ_update)
  have at: "?ss ! x = ss ! x" if "x \<noteq> i" for x using that by simp
  have kd: "keys_distinct ?ss"
    using ok(1) by (auto simp: keys_distinct_def occ)
  have ei: "e \<noteq> i" using e i by auto
  have "0 < cyc_dist (length ss) i e" using cyc_dist_zero [OF iN e(1)] ei by simp
  then show "shift_inv ?ss i i e"
    using kd iN e ok(2) by (auto simp: shift_inv_def Let_def occ home_def probe_ok_def)
  show "slots_map ?ss = (slots_map ss)(e_first (ss ! i) := None)"
  proof (rule map_eq_Some_I)
    fix k v
    show "slots_map ?ss k = Some v \<longleftrightarrow> ((slots_map ss)(e_first (ss ! i) := None)) k = Some v"
      using ok(1) i by (auto simp: slots_map_Some_iff [OF kd] slots_map_Some_iff [OF ok(1)] occ
          keys_distinct_def) (metis at)+
  qed
qed

lemma fhm_erase_ok:
  assumes "fhm_inv t"
  shows "\<exists>t'. fhm_erase t k = Some (t', fhm_map t k \<noteq> None) \<and> fhm_inv t' \<and>
    fhm_map t' = (fhm_map t)(k := None) \<and>
    fhm_size t' = (if fhm_map t k = None then fhm_size t else fhm_size t - 1)"
proof -
  let ?ss = "fhm_slots t"
  obtain n where n: "length ?ss = 2 ^ n" and m: "fhm_mask t = length ?ss - 1"
    and h: "hash_key k AND fhm_mask t = hash_key k mod length ?ss"
    and live: "fhm_live t = occ_count ?ss" and room: "occ_count ?ss < length ?ss"
    and ok: "keys_distinct ?ss" "probe_ok ?ss" and load: "\<not> over_load (occ_count ?ss) (length ?ss)"
    using assms by (metis fhm_invE)
  obtain i where i: "i < length ?ss"
    "probe_for_insert ?ss (fhm_mask t) k (hash_key k AND fhm_mask t) = Some i"
    "occ ?ss i \<Longrightarrow> e_first (?ss ! i) = k" "\<not> occ ?ss i \<Longrightarrow> slots_map ?ss k = None"
    unfolding h unfolding m using probe_for_insert_ok [OF n ok room, of k] by metis
  show ?thesis
  proof (cases "occ ?ss i")
    case False
    then have "fhm_map t k = None" using i(4) by (simp add: fhm_map_def)
    then show ?thesis
      using probe_existing_conv [OF i(2)] not_occ_iff [OF i(1)] False assms
      by (auto simp: fhm_erase_def fhm_map_def)
  next
    case True
    let ?s = "(?ss ! i)\<lparr>s_state := Empty\<rparr>"
    let ?h = "?ss[i := ?s]"
    obtain e where e: "e < length ?ss" "\<not> occ ?ss e" using room by (rule room_exists_empty)
    note start = shift_inv_start [OF ok True e, of ?s, simplified]
    have "\<exists>ss'. backward_shift ?h (length ?h - 1) i i = Some ss' \<and> length ss' = length ?h \<and>
        keys_distinct ss' \<and> probe_ok ss' \<and> occ_count ss' = occ_count ?h \<and>
        slots_map ss' = slots_map ?h"
      using n start(1) by (intro backward_shift_ok) auto
    then obtain ss' where ss': "backward_shift ?h (fhm_mask t) i i = Some ss'"
      "length ss' = length ?ss" "keys_distinct ss'" "probe_ok ss'"
      "occ_count ss' = occ_count ?ss - 1" "slots_map ss' = (slots_map ?ss)(k := None)"
      using start(2) i(3) [OF True] True m by (auto simp: occ_count_clear)
    have present: "fhm_map t k \<noteq> None"
      using True i(3) by (auto simp: fhm_map_def slots_map_None_iff)
    have "probe_existing ?ss (fhm_mask t) k (hash_key k AND fhm_mask t) = Some (Some i)"
      using probe_existing_conv [OF i(2)] True by (simp add: occ_def)
    moreover have "\<not> over_load (occ_count ?ss - 1) (length ?ss)"
      using load by (auto simp: over_load_def)
    ultimately show ?thesis
      using ss' n m live present by (auto simp: fhm_erase_def fhm_inv_def fhm_map_def fhm_size_def)
  qed
qed

section \<open>The map as a keyed store\<close>

lemma fhm_size_card:
  assumes "fhm_inv t"
  shows "finite (dom (fhm_map t)) \<and> fhm_size t = card (dom (fhm_map t))"
proof -
  let ?ss = "fhm_slots t"
  have kd: "keys_distinct ?ss" and live: "fhm_live t = occ_count ?ss"
    using assms by (auto simp: fhm_inv_def)
  have dom: "dom (fhm_map t) = (\<lambda>i. e_first (?ss ! i)) ` {i. occ ?ss i}"
    by (auto simp: fhm_map_def dom_def) (auto simp: slots_map_Some_iff [OF kd])
  have "inj_on (\<lambda>i. e_first (?ss ! i)) {i. occ ?ss i}"
    using kd by (auto simp: keys_distinct_def inj_on_def)
  then show ?thesis
    using live by (simp add: dom card_image fhm_size_def occ_count_card)
qed

interpretation fm: keyed_store fhm_find "fhm_put d" fhm_erase fhm_for_each_mut fhm_size fhm_map fhm_inv
  for d
proof unfold_locales
  fix t :: "'a fhm" and k :: u64 and v :: 'a and f :: "'a \<Rightarrow> 'a"
  assume t: "fhm_inv t"
  show "fhm_find t k = Some (fhm_map t k)" using t by (rule fhm_find_ok)
  show "\<exists>t'. fhm_put d t k v = Some t' \<and> fhm_inv t' \<and> fhm_map t' = (fhm_map t)(k \<mapsto> v)"
    using fhm_put_ok [OF t] by blast
  show "\<exists>t'. fhm_erase t k = Some (t', fhm_map t k \<noteq> None) \<and> fhm_inv t' \<and>
      fhm_map t' = (fhm_map t)(k := None)"
    using fhm_erase_ok [OF t] by blast
  show "fhm_inv (fhm_for_each_mut f t)"
    "fhm_map (fhm_for_each_mut f t) = (\<lambda>k. map_option f (fhm_map t k))"
    using t by (rule fhm_for_each_ok)+
  show "finite (dom (fhm_map t))" "fhm_size t = card (dom (fhm_map t))"
    using fhm_size_card [OF t] by simp_all
qed

end
