(* ===== verification/Book_V2.thy ===== *)
theory Book_V2
  imports Order_Types Flat_Hash_Map
begin

text \<open>
  \<open>OrderBookV2\<close> (\<open>cpp/include/order_book_v2.h\<close>, \<open>cpp/src/order_book_v2.cpp\<close>): an array of price
  levels on a shared price axis, an intrusive doubly-linked FIFO per level whose nodes live in
  an arena with a free list, and a \<open>FlatHashMap\<close> from order id to location.

  The state record has one field per member variable. Exceptions are values: an operation that
  may throw returns \<open>(error + result) \<times> state\<close>, since the C++ keeps what it wrote before the
  throw. The outer \<open>option\<close> is \<open>None\<close> when a loop of the code does not end; \<open>Book_V2_Refine\<close>
  proves that this never happens on a well-formed book. A vector access \<open>xs ! i\<close> is only
  meaningful in range; the invariant of \<open>Book_V2_Inv\<close> keeps every access in range.
\<close>

section \<open>State\<close>

definition kNil :: u32 where "kNil = 4294967295"

definition kMaxLevels :: int where "kMaxLevels = 16777216"

datatype book_error = ArenaExhausted | RebasePastMaxLevels | GrowthPastMaxLevels

record node =
  n_id :: u64
  n_qty :: u64
  n_prev :: u32
  n_next :: u32

record price_level =
  l_head :: u32
  l_tail :: u32
  l_total :: u64

record index_entry =
  ix_side :: side
  ix_level :: int
  ix_node :: u32

record book =
  arena :: "node list"
  arena_capacity :: u32
  arena_bump :: u32
  free_list :: "u32 list"
  levels :: "price_level list"
  base :: int
  have_base :: bool
  initial_window :: int
  level_array_growths :: nat
  best_bid_idx :: int
  best_ask_idx :: int
  index :: "index_entry fhm"

definition blank_node :: node where
  "blank_node = \<lparr>n_id = 0, n_qty = 0, n_prev = kNil, n_next = kNil\<rparr>"

definition empty_level :: price_level where
  "empty_level = \<lparr>l_head = kNil, l_tail = kNil, l_total = 0\<rparr>"

definition blank_entry :: index_entry where
  "blank_entry = \<lparr>ix_side = Buy, ix_level = 0, ix_node = 0\<rparr>"

definition new_book :: "u32 \<Rightarrow> int \<Rightarrow> book option" where
  "new_book capacity window = do {
     ix \<leftarrow> fhm_reserve blank_entry (fhm_new blank_entry 16) (unat capacity);
     Some \<lparr>arena = replicate (unat capacity) blank_node, arena_capacity = capacity, arena_bump = 0,
           free_list = [], levels = [], base = 0, have_base = False, initial_window = window,
           level_array_growths = 0, best_bid_idx = -1, best_ask_idx = -1, index = ix\<rparr>
   }"

text \<open>Read and write through references into the vectors.\<close>

definition level_at :: "book \<Rightarrow> int \<Rightarrow> price_level" where
  "level_at b i = levels b ! nat i"

definition upd_level :: "(price_level \<Rightarrow> price_level) \<Rightarrow> int \<Rightarrow> book \<Rightarrow> book" where
  "upd_level f i b = b\<lparr>levels := (levels b)[nat i := f (levels b ! nat i)]\<rparr>"

definition upd_node :: "(node \<Rightarrow> node) \<Rightarrow> u32 \<Rightarrow> book \<Rightarrow> book" where
  "upd_node f n b = b\<lparr>arena := (arena b)[unat n := f (arena b ! unat n)]\<rparr>"

section \<open>Queries\<close>

definition has_bid :: "book \<Rightarrow> bool" where
  "has_bid b \<longleftrightarrow> 0 \<le> best_bid_idx b"

definition has_ask :: "book \<Rightarrow> bool" where
  "has_ask b \<longleftrightarrow> 0 \<le> best_ask_idx b"

definition best_bid :: "book \<Rightarrow> int" where
  "best_bid b = (if 0 \<le> best_bid_idx b then base b + best_bid_idx b else 0)"

definition best_ask :: "book \<Rightarrow> int" where
  "best_ask b = (if 0 \<le> best_ask_idx b then base b + best_ask_idx b else 0)"

definition depth :: "book \<Rightarrow> nat" where
  "depth b = fhm_size (index b)"

section \<open>Arena\<close>

definition alloc_node :: "book \<Rightarrow> (book_error + u32) \<times> book" where
  "alloc_node b =
     (if free_list b \<noteq> []
      then (Inr (last (free_list b)), b\<lparr>free_list := butlast (free_list b)\<rparr>)
      else if arena_capacity b \<le> arena_bump b then (Inl ArenaExhausted, b)
      else (Inr (arena_bump b), b\<lparr>arena_bump := arena_bump b + 1\<rparr>))"

definition free_node :: "u32 \<Rightarrow> book \<Rightarrow> book" where
  "free_node n b = b\<lparr>free_list := free_list b @ [n]\<rparr>"

section \<open>Price levels\<close>

definition ensure_base :: "book \<Rightarrow> int \<Rightarrow> book" where
  "ensure_base b p =
     (if \<not> have_base b
      then b\<lparr>base := p - initial_window b sdiv 2,
             levels := replicate (nat (initial_window b)) empty_level, have_base := True\<rparr>
      else b)"

definition shift_levels :: "int \<Rightarrow> book \<Rightarrow> book" where
  "shift_levels shift b =
     b\<lparr>level_array_growths := level_array_growths b + 1,
       levels := replicate (nat shift) empty_level @ levels b,
       base := base b - shift,
       best_bid_idx := (if 0 \<le> best_bid_idx b then best_bid_idx b + shift else best_bid_idx b),
       best_ask_idx := (if 0 \<le> best_ask_idx b then best_ask_idx b + shift else best_ask_idx b),
       index := fhm_for_each_mut (\<lambda>e. e\<lparr>ix_level := ix_level e + shift\<rparr>) (index b)\<rparr>"

definition grow_levels :: "nat \<Rightarrow> book \<Rightarrow> book" where
  "grow_levels new_size b =
     b\<lparr>level_array_growths := level_array_growths b + 1,
       levels := levels b @ replicate (new_size - length (levels b)) empty_level\<rparr>"

definition ensure_index_for_price :: "book \<Rightarrow> int \<Rightarrow> (book_error + int) \<times> book" where
  "ensure_index_for_price b0 p =
     (let b = ensure_base b0 p; idx = p - base b in
      if idx < 0 then
        (let shift = - idx + initial_window b sdiv 4 + 1 in
         if kMaxLevels < int (length (levels b)) + shift then (Inl RebasePastMaxLevels, b)
         else (Inr (p - base (shift_levels shift b)), shift_levels shift b))
      else if int (length (levels b)) \<le> idx then
        (let new_size = nat idx + nat (initial_window b sdiv 4) + 1 in
         if kMaxLevels < int new_size then (Inl GrowthPastMaxLevels, b)
         else (Inr idx, grow_levels new_size b))
      else (Inr idx, b))"

definition append_node :: "int \<Rightarrow> u32 \<Rightarrow> order_request \<Rightarrow> book \<Rightarrow> book" where
  "append_node li ni req b0 =
     (let b1 = upd_node (\<lambda>n. n\<lparr>n_id := req_id req, n_qty := req_qty req,
                              n_prev := kNil, n_next := kNil\<rparr>) ni b0;
          tail = l_tail (level_at b1 li);
          b2 = (if tail = kNil then upd_level (\<lambda>l. l\<lparr>l_head := ni, l_tail := ni\<rparr>) li b1
                else upd_level (\<lambda>l. l\<lparr>l_tail := ni\<rparr>) li
                       (upd_node (\<lambda>n. n\<lparr>n_prev := tail\<rparr>) ni
                         (upd_node (\<lambda>n. n\<lparr>n_next := ni\<rparr>) tail b1)))
      in upd_level (\<lambda>l. l\<lparr>l_total := l_total l + req_qty req\<rparr>) li b2)"

definition push_back_order ::
    "book \<Rightarrow> int \<Rightarrow> side \<Rightarrow> order_request \<Rightarrow> ((book_error + unit) \<times> book) option" where
  "push_back_order b li sd req =
     (case alloc_node b of
        (Inl e, b1) \<Rightarrow> Some (Inl e, b1)
      | (Inr ni, b1) \<Rightarrow> do {
          let b2 = append_node li ni req b1;
          ix \<leftarrow> fhm_put blank_entry (index b2) (req_id req)
                 \<lparr>ix_side = sd, ix_level = li, ix_node = ni\<rparr>;
          Some (Inr (), b2\<lparr>index := ix\<rparr>)
        })"

section \<open>Matching\<close>

function scan_up :: "price_level list \<Rightarrow> int \<Rightarrow> int" where
  "scan_up ls i =
     (if i < int (length ls) \<and> l_head (ls ! nat i) = kNil then scan_up ls (i + 1) else i)"
  by pat_completeness auto
termination
  by (relation "measure (\<lambda>(ls, i). nat (int (length ls) - i))") auto

function scan_down :: "price_level list \<Rightarrow> int \<Rightarrow> int" where
  "scan_down ls i =
     (if 0 \<le> i \<and> l_head (ls ! nat i) = kNil then scan_down ls (i - 1) else i)"
  by pat_completeness auto
termination
  by (relation "measure (\<lambda>(ls, i). nat (i + 1))") auto

declare scan_up.simps [simp del] scan_down.simps [simp del]

text \<open>The next best ask above and the next best bid below the level that has just emptied.\<close>

definition advance_ask :: "book \<Rightarrow> book" where
  "advance_ask b =
     (let i = scan_up (levels b) (best_ask_idx b + 1)
      in b\<lparr>best_ask_idx := (if i < int (length (levels b)) then i else -1)\<rparr>)"

definition advance_bid :: "book \<Rightarrow> book" where
  "advance_bid b =
     (let i = scan_down (levels b) (best_bid_idx b - 1)
      in b\<lparr>best_bid_idx := (if 0 \<le> i then i else -1)\<rparr>)"

text \<open>One fill against the head of a level: \<open>taker.qty\<close>, \<open>maker.qty\<close> and \<open>total_qty\<close> drop by \<open>fill\<close>.\<close>

definition fill_head :: "int \<Rightarrow> u64 \<Rightarrow> book \<Rightarrow> book" where
  "fill_head li fill b =
     upd_level (\<lambda>l. l\<lparr>l_total := l_total l - fill\<rparr>) li
       (upd_node (\<lambda>n. n\<lparr>n_qty := n_qty n - fill\<rparr>) (l_head (level_at b li)) b)"

text \<open>A maker filled to zero leaves the head of its level.\<close>

definition pop_head :: "int \<Rightarrow> book \<Rightarrow> book option" where
  "pop_head li b =
     (let done_idx = l_head (level_at b li);
          maker = arena b ! unat done_idx;
          b1 = upd_level (\<lambda>l. l\<lparr>l_head := n_next maker\<rparr>) li b;
          b2 = (if n_next maker \<noteq> kNil then upd_node (\<lambda>n. n\<lparr>n_prev := kNil\<rparr>) (n_next maker) b1
                else upd_level (\<lambda>l. l\<lparr>l_tail := kNil\<rparr>) li b1)
      in do {
        (ix, _) \<leftarrow> fhm_erase (index b2) (n_id maker);
        Some (free_node done_idx (b2\<lparr>index := ix\<rparr>))
      })"

partial_function (option) match_level ::
    "int \<Rightarrow> int \<Rightarrow> book \<Rightarrow> order_request \<Rightarrow> int trade list \<Rightarrow>
     (book \<times> order_request \<times> int trade list) option" where
  "match_level li level_price b taker trades =
     (if 0 < req_qty taker \<and> l_head (level_at b li) \<noteq> kNil
      then
        let maker = arena b ! unat (l_head (level_at b li));
            fill = min (req_qty taker) (n_qty maker);
            trades1 = trades @ [\<lparr>maker_id = n_id maker, taker_id = req_id taker,
                                 trade_price = level_price, trade_qty = fill\<rparr>];
            taker1 = taker\<lparr>req_qty := req_qty taker - fill\<rparr>;
            b1 = fill_head li fill b
        in if n_qty maker - fill = 0
           then do { b2 \<leftarrow> pop_head li b1; match_level li level_price b2 taker1 trades1 }
           else match_level li level_price b1 taker1 trades1
      else Some (b, taker, trades))"

partial_function (option) match_order ::
    "book \<Rightarrow> order_request \<Rightarrow> int trade list \<Rightarrow>
     (book \<times> order_request \<times> int trade list) option" where
  "match_order b taker trades =
     (if 0 < req_qty taker
      then
        let is_buy = (req_side taker = Buy);
            best_idx = (if is_buy then best_ask_idx b else best_bid_idx b);
            level_price = base b + best_idx
        in if best_idx < 0 then Some (b, taker, trades)
           else if req_type taker \<noteq> Market \<and>
                   (is_buy \<and> req_price taker < level_price \<or>
                    \<not> is_buy \<and> level_price < req_price taker)
           then Some (b, taker, trades)
           else do {
             (b1, taker1, trades1) \<leftarrow> match_level best_idx level_price b taker trades;
             match_order
               (if l_head (level_at b1 best_idx) = kNil
                then (if is_buy then advance_ask b1 else advance_bid b1) else b1)
               taker1 trades1
           }
      else Some (b, taker, trades))"

declare match_level.simps [code] match_order.simps [code]

function fill_up :: "price_level list \<Rightarrow> int \<Rightarrow> int \<Rightarrow> u64 \<Rightarrow> int \<Rightarrow> u64 \<Rightarrow> bool" where
  "fill_up ls bs price qty idx available =
     (if idx < int (length ls)
      then if price < bs + idx then False
           else if qty \<le> available + l_total (ls ! nat idx) then True
           else fill_up ls bs price qty (idx + 1) (available + l_total (ls ! nat idx))
      else False)"
  by pat_completeness auto
termination
  by (relation "measure (\<lambda>(ls, bs, price, qty, idx, available). nat (int (length ls) - idx))") auto

function fill_down :: "price_level list \<Rightarrow> int \<Rightarrow> int \<Rightarrow> u64 \<Rightarrow> int \<Rightarrow> u64 \<Rightarrow> bool" where
  "fill_down ls bs price qty idx available =
     (if 0 \<le> idx
      then if bs + idx < price then False
           else if qty \<le> available + l_total (ls ! nat idx) then True
           else fill_down ls bs price qty (idx - 1) (available + l_total (ls ! nat idx))
      else False)"
  by pat_completeness auto
termination
  by (relation "measure (\<lambda>(ls, bs, price, qty, idx, available). nat (idx + 1))") auto

declare fill_up.simps [simp del] fill_down.simps [simp del]

definition can_fully_fill :: "book \<Rightarrow> order_request \<Rightarrow> bool" where
  "can_fully_fill b taker =
     (let is_buy = (req_side taker = Buy);
          idx = (if is_buy then best_ask_idx b else best_bid_idx b)
      in if idx < 0 then req_qty taker = 0
         else if is_buy
         then fill_up (levels b) (base b) (req_price taker) (req_qty taker) idx 0
         else fill_down (levels b) (base b) (req_price taker) (req_qty taker) idx 0)"

section \<open>Cancel, reduce, add\<close>

definition unlink_node :: "int \<Rightarrow> u32 \<Rightarrow> book \<Rightarrow> book" where
  "unlink_node li ni b =
     (let n = arena b ! unat ni;
          b1 = (if n_prev n \<noteq> kNil then upd_node (\<lambda>m. m\<lparr>n_next := n_next n\<rparr>) (n_prev n) b
                else upd_level (\<lambda>l. l\<lparr>l_head := n_next n\<rparr>) li b);
          b2 = (if n_next n \<noteq> kNil then upd_node (\<lambda>m. m\<lparr>n_prev := n_prev n\<rparr>) (n_next n) b1
                else upd_level (\<lambda>l. l\<lparr>l_tail := n_prev n\<rparr>) li b1)
      in upd_level (\<lambda>l. l\<lparr>l_total := l_total l - n_qty n\<rparr>) li b2)"

definition book_cancel :: "book \<Rightarrow> u64 \<Rightarrow> (book \<times> bool) option" where
  "book_cancel b i = do {
     it \<leftarrow> fhm_find (index b) i;
     case it of None \<Rightarrow> Some (b, False)
     | Some e \<Rightarrow> do {
         let b1 = free_node (ix_node e) (unlink_node (ix_level e) (ix_node e) b);
         (ix, _) \<leftarrow> fhm_erase (index b1) i;
         let b2 = b1\<lparr>index := ix\<rparr>;
         Some (if l_head (level_at b2 (ix_level e)) = kNil
               then (if ix_side e = Buy \<and> ix_level e = best_bid_idx b2 then advance_bid b2
                     else if ix_side e = Sell \<and> ix_level e = best_ask_idx b2 then advance_ask b2
                     else b2)
               else b2, True)
       }
   }"

definition book_reduce :: "book \<Rightarrow> u64 \<Rightarrow> u64 \<Rightarrow> (book \<times> bool) option" where
  "book_reduce b i delta = do {
     it \<leftarrow> fhm_find (index b) i;
     case it of None \<Rightarrow> Some (b, False)
     | Some e \<Rightarrow>
         if n_qty (arena b ! unat (ix_node e)) \<le> delta then book_cancel b i
         else Some (upd_level (\<lambda>l. l\<lparr>l_total := l_total l - delta\<rparr>) (ix_level e)
                     (upd_node (\<lambda>n. n\<lparr>n_qty := n_qty n - delta\<rparr>) (ix_node e) b), True)
   }"

text \<open>
  Resting the taker: the two places of \<open>add\<close> that do it (the post-only branch and the limit
  remainder) run the same statements.
\<close>

definition note_best :: "side \<Rightarrow> int \<Rightarrow> book \<Rightarrow> book" where
  "note_best sd idx b =
     (if sd = Buy
      then (if best_bid_idx b < 0 \<or> best_bid_idx b < idx then b\<lparr>best_bid_idx := idx\<rparr> else b)
      else (if best_ask_idx b < 0 \<or> idx < best_ask_idx b then b\<lparr>best_ask_idx := idx\<rparr> else b))"

definition rest_taker :: "book \<Rightarrow> order_request \<Rightarrow> ((book_error + unit) \<times> book) option" where
  "rest_taker b taker =
     (case ensure_index_for_price b (req_price taker) of
        (Inl e, b1) \<Rightarrow> Some (Inl e, b1)
      | (Inr idx, b1) \<Rightarrow> do {
          (r, b2) \<leftarrow> push_back_order b1 idx (req_side taker) taker;
          case r of Inl e \<Rightarrow> Some (Inl e, b2)
          | Inr _ \<Rightarrow> Some (Inr (), note_best (req_side taker) idx b2)
        })"

definition would_cross :: "book \<Rightarrow> order_request \<Rightarrow> bool" where
  "would_cross b taker \<longleftrightarrow>
     (if req_side taker = Buy then has_ask b \<and> best_ask b \<le> req_price taker
      else has_bid b \<and> req_price taker \<le> best_bid b)"

definition book_add ::
    "book \<Rightarrow> order_request \<Rightarrow> ((book_error + unit) \<times> book \<times> int trade list) option" where
  "book_add b req =
     (if req_type req = Cancel then do { (b1, _) \<leftarrow> book_cancel b (req_id req); Some (Inr (), b1, []) }
      else if req_type req = PostOnly then
        (if would_cross b req then Some (Inr (), b, [])
         else do { (r, b1) \<leftarrow> rest_taker b req; Some (r, b1, []) })
      else if req_type req = FOK \<and> \<not> can_fully_fill b req then Some (Inr (), b, [])
      else do {
        (b1, taker, trades) \<leftarrow> match_order b req [];
        if req_type taker = Limit \<and> 0 < req_qty taker
        then do { (r, b2) \<leftarrow> rest_taker b1 taker; Some (r, b2, trades) }
        else Some (Inr (), b1, trades)
      })"

end
