(* ===== verification/Book_Spec.thy ===== *)
theory Book_Spec
  imports Order_Types
begin

text \<open>
  The contract of an order book: price-time priority over two queues. A side is the list of its
  resting orders in priority order (best price first, within a price first come first). Both
  books are proved to implement these operations: v2 in \<open>Book_V2_Refine\<close>, v1 in \<open>Book_V1\<close>.
\<close>

datatype 'p resting = Resting (r_id: u64) (r_price: 'p) (r_qty: u64)

record 'p sbook =
  s_bids :: "'p resting list"
  s_asks :: "'p resting list"

definition s_side :: "side \<Rightarrow> 'p sbook \<Rightarrow> 'p resting list" where
  "s_side sd s = (case sd of Buy \<Rightarrow> s_bids s | Sell \<Rightarrow> s_asks s)"

definition set_side :: "side \<Rightarrow> 'p resting list \<Rightarrow> 'p sbook \<Rightarrow> 'p sbook" where
  "set_side sd xs s = (case sd of Buy \<Rightarrow> s\<lparr>s_bids := xs\<rparr> | Sell \<Rightarrow> s\<lparr>s_asks := xs\<rparr>)"

definition spec_empty :: "'p sbook" where
  "spec_empty = \<lparr>s_bids = [], s_asks = []\<rparr>"

section \<open>Operations\<close>

text \<open>\<open>better sd p q\<close>: a resting order at \<open>p\<close> has priority at least that of one at \<open>q\<close>.\<close>

definition better :: "side \<Rightarrow> 'p::linorder \<Rightarrow> 'p \<Rightarrow> bool" where
  "better sd p q = (case sd of Buy \<Rightarrow> q \<le> p | Sell \<Rightarrow> p \<le> q)"

text \<open>May a taker on side \<open>sd\<close> with limit \<open>p\<close> trade at the resting price \<open>q\<close>?\<close>

definition crosses :: "side \<Rightarrow> order_type \<Rightarrow> 'p::linorder \<Rightarrow> 'p \<Rightarrow> bool" where
  "crosses sd ty p q \<longleftrightarrow> ty = Market \<or> (case sd of Buy \<Rightarrow> q \<le> p | Sell \<Rightarrow> p \<le> q)"

fun spec_match ::
    "('p \<Rightarrow> bool) \<Rightarrow> u64 \<Rightarrow> u64 \<Rightarrow> 'p resting list \<Rightarrow> 'p resting list \<times> 'p trade list \<times> u64" where
  "spec_match cr tid q [] = ([], [], q)"
| "spec_match cr tid q (Resting i p m # rs) =
     (if q = 0 \<or> \<not> cr p then (Resting i p m # rs, [], q)
      else if m \<le> q then
        (case spec_match cr tid (q - m) rs of (rs', ts, q') \<Rightarrow>
           (rs', \<lparr>maker_id = i, taker_id = tid, trade_price = p, trade_qty = m\<rparr> # ts, q'))
      else (Resting i p (m - q) # rs,
            [\<lparr>maker_id = i, taker_id = tid, trade_price = p, trade_qty = q\<rparr>], 0))"

definition spec_insert :: "side \<Rightarrow> 'p::linorder resting \<Rightarrow> 'p resting list \<Rightarrow> 'p resting list" where
  "spec_insert sd r xs =
     takeWhile (\<lambda>x. better sd (r_price x) (r_price r)) xs @ r #
     dropWhile (\<lambda>x. better sd (r_price x) (r_price r)) xs"

definition total_qty :: "'p resting list \<Rightarrow> nat" where
  "total_qty xs = sum_list (map (unat \<circ> r_qty) xs)"

definition spec_fillable :: "('p \<Rightarrow> bool) \<Rightarrow> u64 \<Rightarrow> 'p resting list \<Rightarrow> bool" where
  "spec_fillable cr q xs \<longleftrightarrow> unat q \<le> total_qty (takeWhile (\<lambda>x. cr (r_price x)) xs)"

definition spec_rest :: "side \<Rightarrow> 'p::linorder resting \<Rightarrow> 'p sbook \<Rightarrow> 'p sbook" where
  "spec_rest sd r s = set_side sd (spec_insert sd r (s_side sd s)) s"

definition spec_cancel :: "u64 \<Rightarrow> 'p sbook \<Rightarrow> 'p sbook" where
  "spec_cancel i s = \<lparr>s_bids = filter (\<lambda>x. r_id x \<noteq> i) (s_bids s),
                      s_asks = filter (\<lambda>x. r_id x \<noteq> i) (s_asks s)\<rparr>"

definition resting_ids :: "'p sbook \<Rightarrow> u64 set" where
  "resting_ids s = r_id ` (set (s_bids s) \<union> set (s_asks s))"

definition is_resting :: "u64 \<Rightarrow> 'p sbook \<Rightarrow> bool" where
  "is_resting i s \<longleftrightarrow> (\<exists>x \<in> set (s_bids s @ s_asks s). r_id x = i)"

definition reduce_list :: "u64 \<Rightarrow> u64 \<Rightarrow> 'p resting list \<Rightarrow> 'p resting list" where
  "reduce_list i d xs =
     map (\<lambda>x. if r_id x = i then Resting i (r_price x) (r_qty x - d) else x)
       (filter (\<lambda>x. \<not> (r_id x = i \<and> r_qty x \<le> d)) xs)"

definition spec_reduce :: "u64 \<Rightarrow> u64 \<Rightarrow> 'p sbook \<Rightarrow> 'p sbook" where
  "spec_reduce i d s = \<lparr>s_bids = reduce_list i d (s_bids s), s_asks = reduce_list i d (s_asks s)\<rparr>"

definition spec_would_cross :: "side \<Rightarrow> 'p::linorder \<Rightarrow> 'p sbook \<Rightarrow> bool" where
  "spec_would_cross sd p s =
     (case s_side (opposite sd) s of [] \<Rightarrow> False | x # _ \<Rightarrow> crosses sd Limit p (r_price x))"

text \<open>Matching against the opposite side, without resting the remainder.\<close>

definition spec_take ::
    "u64 \<Rightarrow> side \<Rightarrow> order_type \<Rightarrow> 'p::linorder \<Rightarrow> u64 \<Rightarrow> 'p sbook \<Rightarrow> 'p sbook \<times> 'p trade list \<times> u64" where
  "spec_take i sd ty p q s =
     (case spec_match (crosses sd ty p) i q (s_side (opposite sd) s) of (xs, ts, q') \<Rightarrow>
        (set_side (opposite sd) xs s, ts, q'))"

definition spec_add ::
    "u64 \<Rightarrow> side \<Rightarrow> order_type \<Rightarrow> 'p::linorder \<Rightarrow> u64 \<Rightarrow> 'p sbook \<Rightarrow> 'p sbook \<times> 'p trade list" where
  "spec_add i sd ty p q s =
     (if ty = Cancel then (spec_cancel i s, [])
      else if ty = PostOnly then
        (if spec_would_cross sd p s then (s, []) else (spec_rest sd (Resting i p q) s, []))
      else if ty = FOK \<and> \<not> spec_fillable (crosses sd ty p) q (s_side (opposite sd) s) then (s, [])
      else case spec_take i sd ty p q s of (s', ts, q') \<Rightarrow>
        (if ty = Limit \<and> 0 < q' then (spec_rest sd (Resting i p q') s', ts) else (s', ts)))"

section \<open>Well-formed specification books\<close>

text \<open>Priority order, uncrossed touch, ids pairwise different.\<close>

definition priority_sorted :: "side \<Rightarrow> 'p::linorder resting list \<Rightarrow> bool" where
  "priority_sorted sd xs \<longleftrightarrow> sorted_wrt (\<lambda>x y. better sd (r_price x) (r_price y)) xs"

definition uncrossed :: "'p::linorder sbook \<Rightarrow> bool" where
  "uncrossed s \<longleftrightarrow> (\<forall>x \<in> set (s_bids s). \<forall>y \<in> set (s_asks s). r_price x < r_price y)"

definition wf_spec :: "'p::linorder sbook \<Rightarrow> bool" where
  "wf_spec s \<longleftrightarrow> priority_sorted Buy (s_bids s) \<and> priority_sorted Sell (s_asks s) \<and>
     uncrossed s \<and> distinct (map r_id (s_bids s @ s_asks s))"

lemma side_simps [simp]:
  "s_side Buy s = s_bids s" "s_side Sell s = s_asks s"
  "set_side Buy xs s = s\<lparr>s_bids := xs\<rparr>" "set_side Sell xs s = s\<lparr>s_asks := xs\<rparr>"
  by (simp_all add: s_side_def set_side_def)

lemma set_side_same [simp]: "set_side sd (s_side sd s) s = s"
  by (cases sd) simp_all

lemma s_side_set_side [simp]:
  "s_side sd (set_side sd xs s) = xs" "s_side sd (set_side (opposite sd) xs s) = s_side sd s"
  "s_side (opposite sd) (set_side sd xs s) = s_side (opposite sd) s"
  by (cases sd; simp)+

lemma set_side_twice [simp]: "set_side sd xs (set_side sd ys s) = set_side sd xs s"
  by (cases sd) simp_all

lemma is_resting_iff: "is_resting i s \<longleftrightarrow> i \<in> resting_ids s"
  by (auto simp: is_resting_def resting_ids_def)

section \<open>Matching\<close>

lemma spec_match_zero [simp]: "spec_match cr tid 0 xs = (xs, [], 0)"
  by (cases xs; (cases "hd xs")?) auto

lemma spec_match_stop:
  "xs \<noteq> [] \<Longrightarrow> \<not> cr (r_price (hd xs)) \<Longrightarrow> spec_match cr tid q xs = (xs, [], q)"
  by (cases xs; cases "hd xs") auto

text \<open>Matching through a block of crossing orders and on into the rest of the side.\<close>

lemma spec_match_append:
  assumes "\<forall>x \<in> set xs. cr (r_price x)"
  shows "spec_match cr tid q (xs @ ys) =
    (case spec_match (\<lambda>_. True) tid q xs of (xs', ts, q') \<Rightarrow>
       (if xs' = [] then case spec_match cr tid q' ys of (ys', ts', q'') \<Rightarrow> (ys', ts @ ts', q'')
        else (xs' @ ys, ts, q')))"
  using assms
proof (induction xs arbitrary: q)
  case Nil
  then show ?case by (simp split: prod.splits)
next
  case (Cons x xs)
  then show ?case
    by (cases x) (auto split: prod.splits)
qed

lemma spec_match_rest_zero:
  "spec_match (\<lambda>_. True) tid q xs = (xs', ts, q') \<Longrightarrow> xs' \<noteq> [] \<Longrightarrow> q' = 0"
proof (induction xs arbitrary: q xs' ts q')
  case Nil
  then show ?case by simp
next
  case (Cons x xs)
  then show ?case by (cases x) (auto split: if_splits prod.splits)
qed

lemma spec_match_ids:
  "spec_match cr tid q xs = (xs', ts, q') \<Longrightarrow> r_id ` set xs' \<subseteq> r_id ` set xs"
proof (induction xs arbitrary: q xs' ts q')
  case (Cons x xs)
  then show ?case by (cases x) (auto split: if_splits prod.splits, blast+)
qed simp

lemma spec_match_stuck:
  "spec_match cr tid q xs = (xs', ts, q') \<Longrightarrow> 0 < q' \<Longrightarrow> xs' \<noteq> [] \<Longrightarrow> \<not> cr (r_price (hd xs'))"
proof (induction xs arbitrary: q xs' ts q')
  case (Cons x xs)
  then show ?case by (cases x) (auto split: if_splits prod.splits)
qed simp

lemma spec_take_ids:
  assumes "spec_take i sd ty p q s = (s', ts, q')"
  shows "resting_ids s' \<subseteq> resting_ids s"
  using assms spec_match_ids [of "crosses sd ty p" i q "s_side (opposite sd) s"]
  by (cases sd) (fastforce simp: spec_take_def resting_ids_def split: prod.splits)+

lemma spec_take_stuck:
  assumes "spec_take i sd ty p q s = (s', ts, q')" "0 < q'" "ty \<noteq> Market"
  shows "\<not> spec_would_cross sd p s'"
proof -
  obtain xs' where m: "spec_match (crosses sd ty p) i q (s_side (opposite sd) s) = (xs', ts, q')"
    and s': "s' = set_side (opposite sd) xs' s"
    using assms(1) by (auto simp: spec_take_def split: prod.splits)
  have "crosses sd ty p = crosses sd Limit p" using assms(3) by (simp add: crosses_def fun_eq_iff)
  then show ?thesis
    using spec_match_stuck [OF m assms(2)] s' by (cases xs') (simp_all add: spec_would_cross_def)
qed

section \<open>Insertion\<close>

lemma spec_insert_at:
  assumes "\<And>x. x \<in> set as \<Longrightarrow> better sd (r_price x) (r_price r)"
    and "\<And>x. x \<in> set bs \<Longrightarrow> \<not> better sd (r_price x) (r_price r)"
  shows "spec_insert sd r (as @ bs) = as @ r # bs"
proof -
  let ?P = "\<lambda>x. better sd (r_price x) (r_price r)"
  have "takeWhile ?P bs = []" "dropWhile ?P bs = bs" using assms(2) by (cases bs; simp)+
  then show ?thesis using assms(1) by (simp add: spec_insert_def)
qed

lemma spec_insert_append:
  assumes "\<And>x. x \<in> set as \<Longrightarrow> better sd (r_price x) (r_price r)"
  shows "spec_insert sd r (as @ bs) = as @ spec_insert sd r bs"
  using assms by (simp add: spec_insert_def)

section \<open>Conservation and fairness\<close>

lemma total_qty_simps [simp]:
  "total_qty [] = 0" "total_qty (x # xs) = unat (r_qty x) + total_qty xs"
  "total_qty (xs @ ys) = total_qty xs + total_qty ys"
  by (simp_all add: total_qty_def)

text \<open>No quantity is created or lost by matching: every unit the taker gives up is in a trade, and
  every unit of a trade comes out of a resting order.\<close>

lemma spec_match_conserves:
  "spec_match cr tid q xs = (xs', ts, q') \<Longrightarrow>
     unat q = unat q' + sum_list (map (unat \<circ> trade_qty) ts) \<and>
     total_qty xs = total_qty xs' + sum_list (map (unat \<circ> trade_qty) ts)"
proof (induction xs arbitrary: q xs' ts q')
  case (Cons x xs)
  show ?case
  proof (cases x)
    case (Resting i p m)
    consider "q = 0 \<or> \<not> cr p" | "q \<noteq> 0" "cr p" "m \<le> q" | "q \<noteq> 0" "cr p" "\<not> m \<le> q" by blast
    then show ?thesis
    proof cases
      case 1
      then show ?thesis using Cons.prems Resting by auto
    next
      case 2
      then obtain ts1 where ts: "ts = \<lparr>maker_id = i, taker_id = tid, trade_price = p, trade_qty = m\<rparr> # ts1"
        and r: "spec_match cr tid (q - m) xs = (xs', ts1, q')"
        using Cons.prems Resting by (auto split: prod.splits)
      moreover have "unat (q - m) = unat q - unat m" "unat m \<le> unat q"
        using 2(3) by (simp_all add: unat_sub word_le_nat_alt)
      ultimately show ?thesis using Cons.IH [OF r] Resting by simp
    next
      case 3
      then have "unat (m - q) = unat m - unat q" "unat q \<le> unat m"
        by (simp_all add: unat_sub word_le_nat_alt)
      then show ?thesis using Cons.prems Resting 3 by auto
    qed
  qed
qed simp

lemma spec_match_length: "spec_match cr tid q xs = (xs', ts, q') \<Longrightarrow> length xs' \<le> length xs"
proof (induction xs arbitrary: q xs' ts q')
  case (Cons x xs)
  then show ?case by (cases x) (fastforce split: if_splits prod.splits)
qed simp

text \<open>Trades happen at the resting price, which the taker's limit accepts, best price first.\<close>

lemma spec_match_prices:
  "spec_match cr tid q xs = (xs', ts, q') \<Longrightarrow>
     (\<forall>t \<in> set ts. cr (trade_price t) \<and> taker_id t = tid) \<and>
     (\<exists>ys. map (\<lambda>t. (maker_id t, trade_price t)) ts = map (\<lambda>x. (r_id x, r_price x)) ys \<and>
        ys = take (length ts) xs)"
proof (induction xs arbitrary: q xs' ts q')
  case (Cons x xs)
  then show ?case by (cases x) (force split: if_splits prod.splits)
qed simp

lemma spec_fillable_done:
  "spec_fillable cr q xs \<Longrightarrow> spec_match cr tid q xs = (xs', ts, q') \<Longrightarrow> q' = 0"
proof (induction xs arbitrary: q xs' ts q')
  case Nil
  then show ?case by (simp add: spec_fillable_def unat_eq_zero)
next
  case (Cons x xs)
  show ?case
  proof (cases x)
    case (Resting i p m)
    consider "q = 0" | "q \<noteq> 0" "\<not> cr p" | "q \<noteq> 0" "cr p" "m \<le> q" | "q \<noteq> 0" "cr p" "\<not> m \<le> q" by blast
    then show ?thesis
    proof cases
      case 2
      then show ?thesis using Cons.prems(1) Resting by (simp add: spec_fillable_def unat_eq_zero)
    next
      case 3
      then obtain ts1 where r: "spec_match cr tid (q - m) xs = (xs', ts1, q')"
        using Cons.prems(2) Resting by (auto split: prod.splits)
      have "unat (q - m) = unat q - unat m" using 3(3) by (simp add: unat_sub word_le_nat_alt)
      then have "spec_fillable cr (q - m) xs"
        using Cons.prems(1) Resting 3(2) by (simp add: spec_fillable_def)
      then show ?thesis using Cons.IH r by blast
    qed (use Cons.prems(2) Resting in simp_all)
  qed
qed

text \<open>The traded volume of a list of trades.\<close>

definition volume :: "'p trade list \<Rightarrow> nat" where
  "volume ts = sum_list (map (unat \<circ> trade_qty) ts)"

lemma volume_simps [simp]: "volume [] = 0"
  by (simp add: volume_def)

lemma spec_take_conserves:
  assumes "spec_take i sd ty p q s = (s', ts, q')"
  shows "unat q = unat q' + volume ts"
    and "total_qty (s_side (opposite sd) s) = total_qty (s_side (opposite sd) s') + volume ts"
    and "s_side sd s' = s_side sd s"
  using assms spec_match_conserves [of "crosses sd ty p" i q "s_side (opposite sd) s"]
  by (auto simp: spec_take_def volume_def split: prod.splits)

lemma total_qty_insert: "total_qty (spec_insert sd r xs) = unat (r_qty r) + total_qty xs"
proof -
  let ?P = "\<lambda>x. better sd (r_price x) (r_price r)"
  have "total_qty (takeWhile ?P xs @ dropWhile ?P xs) = total_qty xs"
    by (subst takeWhile_dropWhile_id) (rule refl)
  then have "total_qty (takeWhile ?P xs) + total_qty (dropWhile ?P xs) = total_qty xs"
    by (simp only: total_qty_simps)
  then show ?thesis by (simp add: spec_insert_def)
qed

lemma spec_add_conserves:
  assumes "spec_add i sd ty p q s = (s', ts)" "ty \<noteq> Cancel"
  shows "total_qty (s_side (opposite sd) s) = total_qty (s_side (opposite sd) s') + volume ts"
    and "volume ts \<le> unat q"
    and "ty = Limit \<Longrightarrow> total_qty (s_side sd s') + volume ts = total_qty (s_side sd s) + unat q"
    and "ty \<noteq> Limit \<Longrightarrow> ty \<noteq> PostOnly \<Longrightarrow> s_side sd s' = s_side sd s"
proof -
  obtain s1 ts1 q1 where t: "spec_take i sd ty p q s = (s1, ts1, q1)" by (metis prod_cases3)
  note c = spec_take_conserves [OF t]
  have z: "q1 = 0 \<or> 0 < q1" by (rule word_zero_or_pos)
  show "total_qty (s_side (opposite sd) s) = total_qty (s_side (opposite sd) s') + volume ts"
    and "volume ts \<le> unat q"
    and "ty = Limit \<Longrightarrow> total_qty (s_side sd s') + volume ts = total_qty (s_side sd s) + unat q"
    and "ty \<noteq> Limit \<Longrightarrow> ty \<noteq> PostOnly \<Longrightarrow> s_side sd s' = s_side sd s"
    using assms t c z by (auto simp: spec_add_def spec_rest_def total_qty_insert split: if_splits)
qed

text \<open>Fill-or-kill trades everything or nothing.\<close>

lemma spec_fok_atomic:
  assumes "spec_add i sd FOK p q s = (s', ts)"
  shows "if spec_fillable (crosses sd FOK p) q (s_side (opposite sd) s)
    then volume ts = unat q else s' = s \<and> ts = []"
proof -
  obtain s1 ts1 q1 where t: "spec_take i sd FOK p q s = (s1, ts1, q1)" by (metis prod_cases3)
  obtain xs where m: "spec_match (crosses sd FOK p) i q (s_side (opposite sd) s) = (xs, ts1, q1)"
    using t by (auto simp: spec_take_def split: prod.splits)
  show ?thesis
    using assms t spec_take_conserves(1) [OF t] spec_fillable_done [OF _ m] by (auto simp: spec_add_def)
qed

lemma spec_take_fair:
  assumes "spec_take i sd ty p q s = (s', ts, q')"
  shows "(\<forall>t \<in> set ts. crosses sd ty p (trade_price t) \<and> taker_id t = i) \<and>
    map (\<lambda>t. (maker_id t, trade_price t)) ts =
      map (\<lambda>x. (r_id x, r_price x)) (take (length ts) (s_side (opposite sd) s))"
  using assms spec_match_prices [of "crosses sd ty p" i q "s_side (opposite sd) s"]
  by (auto simp: spec_take_def split: prod.splits)

section \<open>Adding up quantities in 64 bits\<close>

lemma unat_sum_list:
  fixes ws :: "u64 list"
  assumes "sum_list (map unat ws) < 2 ^ 64"
  shows "unat (sum_list ws) = sum_list (map unat ws)"
  using assms by (induction ws) (auto simp: unat_word_ariths)

lemma takeWhile_none: "(\<And>x. x \<in> set xs \<Longrightarrow> \<not> P x) \<Longrightarrow> takeWhile P xs = []"
  by (cases xs) auto

lemma add_le_step:
  fixes a t q :: u64
  assumes "unat a + unat t < 2 ^ 64"
  shows "unat (a + t) = unat a + unat t" "q \<le> a + t \<longleftrightarrow> unat q \<le> unat a + unat t"
  using assms by (simp_all add: unat_word_ariths word_le_nat_alt)

section \<open>The specification keeps its books well formed\<close>

text \<open>What identifies a resting order's place: matching and reducing change quantities only.\<close>

definition r_key :: "'p resting \<Rightarrow> u64 \<times> 'p" where
  "r_key x = (r_id x, r_price x)"

lemma r_key_simp [simp]: "r_key (Resting i p n) = (i, p)"
  by (simp add: r_key_def)

lemma spec_match_keys:
  "spec_match cr tid q xs = (xs', ts, q') \<Longrightarrow> \<exists>d. map r_key xs = d @ map r_key xs'"
proof (induction xs arbitrary: q xs' ts q')
  case (Cons x xs)
  show ?case
  proof (cases x)
    case (Resting i p m)
    consider "q = 0 \<or> \<not> cr p" | "q \<noteq> 0" "cr p" "m \<le> q" | "q \<noteq> 0" "cr p" "\<not> m \<le> q" by blast
    then show ?thesis
    proof cases
      case 2
      then obtain ts1 where "spec_match cr tid (q - m) xs = (xs', ts1, q')"
        using Cons.prems Resting by (auto split: prod.splits)
      from Cons.IH [OF this] obtain d where "map r_key xs = d @ map r_key xs'" by blast
      then show ?thesis by (intro exI [of _ "r_key x # d"]) simp
    qed (use Cons.prems Resting in \<open>auto intro: exI [of _ "[]"]\<close>)
  qed
qed simp

lemma priority_sorted_map: "priority_sorted sd xs \<longleftrightarrow> sorted_wrt (better sd) (map snd (map r_key xs))"
  by (simp add: priority_sorted_def sorted_wrt_map r_key_def)

lemma distinct_ids_map: "map r_id xs = map fst (map r_key xs)"
  by (simp add: r_key_def)

lemma prices_map: "r_price ` set xs = snd ` set (map r_key xs)"
  by (auto simp: r_key_def image_iff)

lemma uncrossed_iff: "uncrossed s \<longleftrightarrow> (\<forall>p \<in> r_price ` set (s_bids s). \<forall>q \<in> r_price ` set (s_asks s). p < q)"
  by (auto simp: uncrossed_def)

lemma wf_spec_parts:
  assumes "wf_spec s"
  shows "priority_sorted sd (s_side sd s)" "distinct (map r_id (s_side sd s))"
    "r_id ` set (s_side sd s) \<inter> r_id ` set (s_side (opposite sd) s) = {}"
  using assms by (cases sd; auto simp: wf_spec_def)+

lemma wf_spec_side:
  assumes "wf_spec s" and "priority_sorted sd xs" "distinct (map r_id xs)"
    and sub: "r_price ` set xs \<subseteq> r_price ` set (s_side sd s)" "r_id ` set xs \<subseteq> r_id ` set (s_side sd s)"
  shows "wf_spec (set_side sd xs s)"
proof -
  have d: "r_id ` set xs \<inter> r_id ` set (s_side (opposite sd) s) = {}"
    using wf_spec_parts(3) [OF assms(1), of sd] sub(2) by blast
  have un: "\<forall>p \<in> r_price ` set (s_bids s). \<forall>q \<in> r_price ` set (s_asks s). p < q"
    using assms(1) unfolding wf_spec_def uncrossed_iff by blast
  have u: "uncrossed (set_side sd xs s)"
  proof (cases sd)
    case Buy
    have "\<forall>p \<in> r_price ` set xs. \<forall>q \<in> r_price ` set (s_asks s). p < q"
      using un sub(1) unfolding Buy side_simps by blast
    then show ?thesis unfolding uncrossed_iff Buy by simp
  next
    case Sell
    have "\<forall>p \<in> r_price ` set (s_bids s). \<forall>q \<in> r_price ` set xs. p < q"
      using un sub(1) unfolding Sell side_simps by blast
    then show ?thesis unfolding uncrossed_iff Sell by simp
  qed
  show ?thesis
    using assms(2,3) d u wf_spec_parts(1,2) [OF assms(1), of "opposite sd"]
    by (cases sd) (simp_all add: wf_spec_def Int_commute)
qed

lemma wf_spec_take:
  assumes "wf_spec s" "spec_take i sd ty p q s = (s', ts, q')"
  shows "wf_spec s'"
proof -
  obtain xs where m: "spec_match (crosses sd ty p) i q (s_side (opposite sd) s) = (xs, ts, q')"
    and s': "s' = set_side (opposite sd) xs s"
    using assms(2) by (auto simp: spec_take_def split: prod.splits)
  obtain d where d: "map r_key (s_side (opposite sd) s) = d @ map r_key xs" using spec_match_keys [OF m] by blast
  note w = wf_spec_parts [OF assms(1), of "opposite sd"]
  show ?thesis
    unfolding s'
  proof (rule wf_spec_side [OF assms(1)])
    show "priority_sorted (opposite sd) xs"
      using w(1) by (simp only: priority_sorted_map d map_append sorted_wrt_append)
    show "distinct (map r_id xs)"
      using w(2) by (simp only: distinct_ids_map d map_append distinct_append)
    show "r_price ` set xs \<subseteq> r_price ` set (s_side (opposite sd) s)"
      unfolding prices_map d by auto
    show "r_id ` set xs \<subseteq> r_id ` set (s_side (opposite sd) s)"
      using spec_match_ids [OF m] .
  qed
qed

lemma better_trans: "better sd p q \<Longrightarrow> better sd q r \<Longrightarrow> better sd p r"
  by (cases sd) (auto simp: better_def)

lemma better_total: "better sd p q \<or> better sd q p"
  by (cases sd) (auto simp: better_def)

lemma set_spec_insert: "set (spec_insert sd r xs) = insert r (set xs)"
proof -
  let ?P = "\<lambda>x. better sd (r_price x) (r_price r)"
  have "set (takeWhile ?P xs) \<union> set (dropWhile ?P xs) = set xs"
    by (metis set_append takeWhile_dropWhile_id)
  then show ?thesis by (auto simp: spec_insert_def)
qed

lemma distinct_spec_insert:
  assumes "distinct (map r_id xs)" "r_id r \<notin> r_id ` set xs"
  shows "distinct (map r_id (spec_insert sd r xs))"
proof -
  let ?P = "\<lambda>x. better sd (r_price x) (r_price r)"
  have "distinct (map r_id (takeWhile ?P xs @ dropWhile ?P xs))" using assms(1) by (simp only: takeWhile_dropWhile_id)
  moreover have "set (takeWhile ?P xs) \<subseteq> set xs"
    by (rule subsetI) (drule set_takeWhileD, simp)
  moreover have "set (dropWhile ?P xs) \<subseteq> set xs"
    by (rule subsetI) (erule set_dropWhileD)
  ultimately show ?thesis using assms(2) unfolding spec_insert_def map_append by auto
qed

lemma priority_sorted_insert:
  assumes "priority_sorted sd xs"
  shows "priority_sorted sd (spec_insert sd r xs)"
proof -
  let ?P = "\<lambda>x. better sd (r_price x) (r_price r)"
  let ?R = "\<lambda>x y. better sd (r_price x) (r_price y)"
  have s: "sorted_wrt ?R (takeWhile ?P xs @ dropWhile ?P xs)"
    using assms by (simp only: priority_sorted_def takeWhile_dropWhile_id)
  have before: "?R x r" if "x \<in> set (takeWhile ?P xs)" for x using set_takeWhileD [OF that] by simp
  have after: "?R r x" if x: "x \<in> set (dropWhile ?P xs)" for x
  proof (cases "dropWhile ?P xs")
    case (Cons y ys)
    have "\<not> ?P y" using Cons hd_dropWhile [of ?P xs] by simp
    then have "?R r y" using better_total by blast
    moreover have "x = y \<or> ?R y x" using s Cons x by (auto simp: sorted_wrt_append)
    ultimately show ?thesis using better_trans by blast
  next
    case Nil
    show ?thesis using x unfolding Nil by simp
  qed
  have mid: "?R x y" if "x \<in> set (takeWhile ?P xs)" "y \<in> set (dropWhile ?P xs)" for x y
    using before [OF that(1)] after [OF that(2)] by (rule better_trans)
  have parts: "sorted_wrt ?R (takeWhile ?P xs)" "sorted_wrt ?R (dropWhile ?P xs)"
    using s by (simp_all only: sorted_wrt_append)
  show ?thesis
    unfolding priority_sorted_def spec_insert_def sorted_wrt_append sorted_wrt.simps list.set
    using parts before after mid by blast
qed

lemma wf_spec_rest:
  assumes "wf_spec s" "\<not> is_resting (r_id r) s" "\<not> spec_would_cross sd (r_price r) s"
  shows "wf_spec (spec_rest sd r s)"
proof -
  note w = wf_spec_parts [OF assms(1), of sd]
  have fresh: "r_id r \<notin> r_id ` set (s_bids s)" "r_id r \<notin> r_id ` set (s_asks s)"
    using assms(2) by (auto simp: is_resting_iff resting_ids_def)
  have away: "\<not> crosses sd Limit (r_price r) (r_price y)" if y: "y \<in> set (s_side (opposite sd) s)" for y
  proof (cases "s_side (opposite sd) s")
    case (Cons z zs)
    have "z = y \<or> better (opposite sd) (r_price z) (r_price y)"
      using wf_spec_parts(1) [OF assms(1), of "opposite sd"] y Cons by (auto simp: priority_sorted_def)
    moreover have "\<not> crosses sd Limit (r_price r) (r_price z)"
      using assms(3) Cons by (simp add: spec_would_cross_def)
    ultimately show ?thesis by (cases sd) (auto simp: crosses_def better_def)
  qed (use y in simp)
  show ?thesis
    using assms(1) away fresh priority_sorted_insert [of sd "s_side sd s" r]
      distinct_spec_insert [of "s_side sd s" r sd]
    by (cases sd)
       (auto simp: wf_spec_def spec_rest_def uncrossed_def set_spec_insert crosses_def not_le)
qed

lemma wf_spec_cancel:
  assumes "wf_spec s"
  shows "wf_spec (spec_cancel k s)"
  using assms unfolding wf_spec_def spec_cancel_def priority_sorted_def
  by (auto simp: sorted_wrt_filter uncrossed_def distinct_map_filter)

section \<open>Ids of the book\<close>

lemma spec_cancel_ids: "resting_ids (spec_cancel k s) \<subseteq> resting_ids s"
  by (auto simp: resting_ids_def spec_cancel_def)

lemma spec_reduce_ids: "resting_ids (spec_reduce k d s) \<subseteq> resting_ids s"
  by (auto simp: resting_ids_def spec_reduce_def reduce_list_def)

lemma spec_add_ids: "spec_add i sd ty p q s = (s', ts) \<Longrightarrow> resting_ids s' \<subseteq> insert i (resting_ids s)"
proof -
  assume run: "spec_add i sd ty p q s = (s', ts)"
  have rest: "resting_ids (spec_rest sd (Resting i p r) x) = insert i (resting_ids x)" for r and x :: "'a sbook"
    by (cases sd) (auto simp: resting_ids_def spec_rest_def set_spec_insert)
  obtain s1 ts1 q1 where t: "spec_take i sd ty p q s = (s1, ts1, q1)" by (metis prod_cases3)
  show ?thesis
    using run t spec_take_ids [OF t] spec_cancel_ids [of i s] by (auto simp: spec_add_def rest split: if_splits)
qed

end
