(* ===== verification/Book_V2_Inv.thy ===== *)
theory Book_V2_Inv
  imports Book_V2 Book_Spec
begin

text \<open>
  The representation of \<open>OrderBookV2\<close>: which orders each level's intrusive list holds, and the
  invariant that ties arena, free list, levels, id index and best-price indices together. The
  lemmas here are about the memory operations (append, unlink, fill, pop); \<open>Book_V2_Refine\<close> uses
  them for the operations of the class.
\<close>

section \<open>Intrusive lists in the arena\<close>

datatype cell = Cell (c_node: u32) (c_id: u64) (c_qty: u64)

abbreviation nodes :: "cell list \<Rightarrow> u32 set" where
  "nodes cs \<equiv> c_node ` set cs"

definition first_node :: "cell list \<Rightarrow> u32 \<Rightarrow> u32" where
  "first_node cs e = (case cs of [] \<Rightarrow> e | c # _ \<Rightarrow> c_node c)"

fun last_node :: "u32 \<Rightarrow> cell list \<Rightarrow> u32" where
  "last_node p [] = p"
| "last_node p (c # cs) = last_node (c_node c) cs"

text \<open>\<open>chain ar p cs e\<close>: the nodes of \<open>cs\<close> hold its ids and quantities and are doubly linked, with
  \<open>p\<close> before the first and \<open>e\<close> after the last.\<close>

fun chain :: "node list \<Rightarrow> u32 \<Rightarrow> cell list \<Rightarrow> u32 \<Rightarrow> bool" where
  "chain ar p [] e \<longleftrightarrow> True"
| "chain ar p (c # cs) e \<longleftrightarrow>
     unat (c_node c) < length ar \<and>
     ar ! unat (c_node c) =
       \<lparr>n_id = c_id c, n_qty = c_qty c, n_prev = p, n_next = first_node cs e\<rparr> \<and>
     chain ar (c_node c) cs e"

lemma first_node_simps [simp]:
  "first_node [] e = e" "first_node (c # cs) e = c_node c"
  by (simp_all add: first_node_def)

lemma first_node_append: "first_node (as @ bs) e = first_node as (first_node bs e)"
  by (cases as) auto

lemma last_node_append [simp]: "last_node p (as @ bs) = last_node (last_node p as) bs"
  by (induction as arbitrary: p) auto

lemma last_node_in: "cs \<noteq> [] \<Longrightarrow> last_node p cs \<in> nodes cs"
proof (induction cs arbitrary: p)
  case (Cons c cs)
  then show ?case by (cases "cs = []") auto
qed simp

lemma first_node_in: "cs \<noteq> [] \<Longrightarrow> first_node cs e \<in> nodes cs"
  by (cases cs) auto

lemma first_node_irrel: "cs \<noteq> [] \<Longrightarrow> first_node cs p = first_node cs q"
  by (cases cs) auto

lemma last_node_irrel: "cs \<noteq> [] \<Longrightarrow> last_node p cs = last_node q cs"
  by (cases cs) auto

lemma chain_append:
  "chain ar p (as @ bs) e \<longleftrightarrow> chain ar p as (first_node bs e) \<and> chain ar (last_node p as) bs e"
  by (induction as arbitrary: p) (auto simp: first_node_append)

lemma chain_less: "chain ar p cs e \<Longrightarrow> n \<in> nodes cs \<Longrightarrow> unat n < length ar"
  by (induction cs arbitrary: p) auto

lemma chain_cong:
  "chain ar p cs e \<Longrightarrow> length ar' = length ar \<Longrightarrow>
   (\<And>n. n \<in> nodes cs \<Longrightarrow> ar' ! unat n = ar ! unat n) \<Longrightarrow> chain ar' p cs e"
  by (induction cs arbitrary: p) auto

lemma chain_upd_other [simp]:
  "n \<notin> nodes cs \<Longrightarrow> chain (ar[unat n := x]) p cs e = chain ar p cs e"
  by (induction cs arbitrary: p) (auto simp: nth_list_update)

lemma chain_set_next:
  assumes "chain ar p cs e" "cs \<noteq> []" "distinct (map c_node cs)"
  shows "chain (ar[unat (last_node p cs) := (ar ! unat (last_node p cs))\<lparr>n_next := e'\<rparr>]) p cs e'"
  using assms
proof (induction cs arbitrary: p)
  case Nil
  then show ?case by simp
next
  case (Cons c cs)
  show ?case
  proof (cases "cs = []")
    case True
    then show ?thesis using Cons.prems by simp
  next
    case False
    let ?t = "last_node (c_node c) cs"
    have "?t \<in> nodes cs" using False by (rule last_node_in)
    then have ne: "c_node c \<noteq> ?t" using Cons.prems(3) by auto
    have "first_node cs e' = first_node cs e" using False by (cases cs) auto
    then show ?thesis
      using Cons.IH [of "c_node c"] Cons.prems False ne by (simp add: nth_list_update)
  qed
qed

lemma chain_set_prev:
  assumes "chain ar p (c # cs) e" "c_node c \<notin> nodes cs"
  shows "chain (ar[unat (c_node c) := (ar ! unat (c_node c))\<lparr>n_prev := p'\<rparr>]) p' (c # cs) e"
  using assms by simp

lemma chain_set_qty:
  assumes "chain ar p (as @ c # bs) e" "distinct (map c_node (as @ c # bs))"
  shows "chain (ar[unat (c_node c) := (ar ! unat (c_node c))\<lparr>n_qty := q\<rparr>]) p
           (as @ Cell (c_node c) (c_id c) q # bs) e"
  using assms by (auto simp: chain_append)

text \<open>Linking a fresh node \<open>n\<close> behind the last one.\<close>

lemma chain_snoc:
  assumes "chain ar p cs e" "cs \<noteq> []" "distinct (map c_node cs)" "n \<notin> nodes cs"
    and "unat n < length ar"
    and "ar ! unat n = \<lparr>n_id = i, n_qty = q, n_prev = x, n_next = e\<rparr>"
  shows "chain (ar[unat (last_node p cs) := (ar ! unat (last_node p cs))\<lparr>n_next := n\<rparr>,
                   unat n := (ar ! unat n)\<lparr>n_prev := last_node p cs\<rparr>])
           p (cs @ [Cell n i q]) e"
proof -
  have "n \<noteq> last_node p cs" using last_node_in [OF assms(2)] assms(4) by auto
  then show ?thesis
    using chain_set_next [OF assms(1-3), of n] assms(4-6) by (simp add: chain_append)
qed

text \<open>Taking a node out of the middle: its neighbours are linked to each other.\<close>

lemma chain_unlink:
  fixes as bs :: "cell list" and nil :: u32
  defines "pr \<equiv> last_node nil as" and "nx \<equiv> first_node bs nil"
  assumes ch: "chain ar nil (as @ c # bs) nil" and d: "distinct (map c_node (as @ c # bs))"
    and nil: "nil \<notin> nodes (as @ c # bs)"
    and ar1: "ar1 = (if pr \<noteq> nil then ar[unat pr := (ar ! unat pr)\<lparr>n_next := nx\<rparr>] else ar)"
    and ar2: "ar2 = (if nx \<noteq> nil then ar1[unat nx := (ar1 ! unat nx)\<lparr>n_prev := pr\<rparr>] else ar1)"
  shows "chain ar2 nil (as @ bs) nil"
    and "pr \<noteq> nil \<longleftrightarrow> as \<noteq> []" and "nx \<noteq> nil \<longleftrightarrow> bs \<noteq> []"
proof -
  show pr_nil: "pr \<noteq> nil \<longleftrightarrow> as \<noteq> []"
    using last_node_in [of as nil] nil by (cases as) (auto simp: pr_def)
  show nx_nil: "nx \<noteq> nil \<longleftrightarrow> bs \<noteq> []"
    using nil by (cases bs) (auto simp: nx_def)
  have parts: "chain ar nil as (c_node c)" "chain ar (c_node c) bs nil"
    using ch by (simp_all add: chain_append)
  have one: "chain ar1 nil as nx \<and> chain ar1 (c_node c) bs nil"
  proof (cases "as = []")
    case True
    then show ?thesis using parts pr_nil ar1 by simp
  next
    case False
    then have "pr \<in> nodes as" unfolding pr_def by (rule last_node_in)
    then have "pr \<notin> nodes bs" using d by auto
    then show ?thesis
      using parts False pr_nil ar1 chain_set_next [OF parts(1) False, of nx] d
      by (simp add: pr_def)
  qed
  have "chain ar2 nil as nx \<and> chain ar2 pr bs nil"
  proof (cases bs)
    case Nil
    then show ?thesis using one nx_nil ar2 by simp
  next
    case (Cons b bs')
    then have "nx \<noteq> nil" "nx = c_node b" using nx_nil by (auto simp: nx_def)
    moreover have "c_node b \<notin> nodes as" "c_node b \<notin> nodes bs'" using d Cons by auto
    ultimately show ?thesis
      using one ar2 Cons chain_set_prev [of ar1 "c_node c" b bs' nil pr] by simp
  qed
  then show "chain ar2 nil (as @ bs) nil"
    by (simp add: chain_append pr_def nx_def)
qed

section \<open>The memory invariant\<close>

definition level_of :: "cell list \<Rightarrow> price_level" where
  "level_of cs = \<lparr>l_head = first_node cs kNil, l_tail = last_node kNil cs,
                  l_total = sum_list (map c_qty cs)\<rparr>"

text \<open>
  \<open>C i\<close> is what level \<open>i\<close> holds. Every node handed out by the arena is in exactly one level list
  or in the free list, so none is lost and none is shared.
\<close>

definition mem_inv :: "(nat \<Rightarrow> cell list) \<Rightarrow> book \<Rightarrow> bool" where
  "mem_inv C b \<longleftrightarrow>
     length (arena b) = unat (arena_capacity b) \<and> arena_bump b \<le> arena_capacity b \<and>
     (\<forall>i < length (levels b). chain (arena b) kNil (C i) kNil \<and> levels b ! i = level_of (C i) \<and>
        distinct (map c_node (C i))) \<and>
     (\<forall>i < length (levels b). \<forall>j < length (levels b). i \<noteq> j \<longrightarrow> nodes (C i) \<inter> nodes (C j) = {}) \<and>
     distinct (free_list b) \<and>
     (\<forall>i < length (levels b). nodes (C i) \<inter> set (free_list b) = {}) \<and>
     (\<Union>i < length (levels b). nodes (C i)) \<union> set (free_list b) = {n. n < arena_bump b} \<and>
     (\<forall>i \<ge> length (levels b). C i = [])"

lemma not_less_kNil: "n < m \<Longrightarrow> n \<noteq> kNil" for n m :: u32
proof
  assume "n < m" "n = kNil"
  moreover have "kNil = - 1" by (simp add: kNil_def)
  ultimately show False using word_order.extremum_strict [of m] by simp
qed

lemma mem_inv_level:
  assumes "mem_inv C b" "i < length (levels b)"
  shows "chain (arena b) kNil (C i) kNil" "levels b ! i = level_of (C i)"
    "distinct (map c_node (C i))"
  using assms by (simp_all add: mem_inv_def)

lemma mem_inv_node_bump:
  assumes "mem_inv C b" "i < length (levels b)" "n \<in> nodes (C i)"
  shows "n < arena_bump b"
proof -
  have "(\<Union>i < length (levels b). nodes (C i)) \<union> set (free_list b) = {n. n < arena_bump b}"
    using assms(1) by (simp add: mem_inv_def)
  then show ?thesis using assms(2,3) by blast
qed

lemma mem_inv_arena:
  assumes "mem_inv C b"
  shows "length (arena b) = unat (arena_capacity b)" "arena_bump b \<le> arena_capacity b"
    "distinct (free_list b)"
    "(\<Union>i < length (levels b). nodes (C i)) \<union> set (free_list b) = {n. n < arena_bump b}"
  using assms by (simp_all add: mem_inv_def)

lemma mem_inv_disjoint:
  assumes "mem_inv C b" "i < length (levels b)"
  shows "nodes (C i) \<inter> set (free_list b) = {}"
    and "j < length (levels b) \<Longrightarrow> i \<noteq> j \<Longrightarrow> nodes (C i) \<inter> nodes (C j) = {}"
  using assms by (simp_all add: mem_inv_def)

lemma mem_inv_beyond: "mem_inv C b \<Longrightarrow> length (levels b) \<le> i \<Longrightarrow> C i = []"
  by (simp add: mem_inv_def)

lemma no_new_nodes [simp]: "{n :: u32. m \<le> n \<and> n < m} = {}"
  by auto

lemma mem_inv_node_not_nil:
  "mem_inv C b \<Longrightarrow> i < length (levels b) \<Longrightarrow> kNil \<notin> nodes (C i)"
  using mem_inv_node_bump not_less_kNil by blast

lemma level_of_head [simp]:
  "l_head (level_of cs) = first_node cs kNil" "l_tail (level_of cs) = last_node kNil cs"
  "l_total (level_of cs) = sum_list (map c_qty cs)"
  by (simp_all add: level_of_def)

lemma mem_inv_head:
  assumes "mem_inv C b" "i < length (levels b)"
  shows "l_head (levels b ! i) = kNil \<longleftrightarrow> C i = []"
proof -
  have "kNil \<notin> nodes (C i)" using assms by (rule mem_inv_node_not_nil)
  then show ?thesis using mem_inv_level(2) [OF assms] by (cases "C i") auto
qed

text \<open>An operation on one level: what has to be shown of the new memory.\<close>

lemma mem_inv_update:
  assumes inv: "mem_inv C b" and i: "i < length (levels b)"
    and same: "length (arena b') = length (arena b)" "arena_capacity b' = arena_capacity b"
      "length (levels b') = length (levels b)"
    and bump: "arena_bump b \<le> arena_bump b'" "arena_bump b' \<le> arena_capacity b'"
    and other_levels: "\<And>j. j < length (levels b) \<Longrightarrow> j \<noteq> i \<Longrightarrow> levels b' ! j = levels b ! j"
    and other_nodes: "\<And>j n. j < length (levels b) \<Longrightarrow> j \<noteq> i \<Longrightarrow> n \<in> nodes (C j) \<Longrightarrow>
      arena b' ! unat n = arena b ! unat n"
    and level: "chain (arena b') kNil cs kNil" "levels b' ! i = level_of cs"
      "distinct (map c_node cs)"
    and free: "distinct (free_list b')" "nodes cs \<inter> set (free_list b') = {}"
    and account: "nodes cs \<union> set (free_list b') =
      nodes (C i) \<union> set (free_list b) \<union> {n. arena_bump b \<le> n \<and> n < arena_bump b'}"
  shows "mem_inv (C(i := cs)) b'"
proof -
  let ?L = "length (levels b)"
  note pair = mem_inv_disjoint(2) [OF inv] and old_free = mem_inv_disjoint(1) [OF inv]
    and cover = mem_inv_arena(4) [OF inv]
  have apart: "nodes (C j) \<inter> (nodes cs \<union> set (free_list b')) = {}" if "j < ?L" "j \<noteq> i" for j
  proof -
    have "n \<notin> {n. arena_bump b \<le> n \<and> n < arena_bump b'}" if "n \<in> nodes (C j)" for n
      using mem_inv_node_bump [OF inv \<open>j < ?L\<close> that] by auto
    then show ?thesis
      unfolding account using pair [OF that(1) i that(2)] old_free [OF that(1)] by blast
  qed
  let ?X = "\<Union>j \<in> {..<?L} - {i}. nodes (C j)"
  let ?new = "{n. arena_bump b \<le> n \<and> n < arena_bump b'}"
  have e1: "(\<Union>j < ?L. nodes ((C(i := cs)) j)) = ?X \<union> nodes cs"
    using i by (auto split: if_splits)
  have e2: "(\<Union>j < ?L. nodes (C j)) = ?X \<union> nodes (C i)"
    using i by auto
  have "(\<Union>j < ?L. nodes ((C(i := cs)) j)) \<union> set (free_list b') =
      ?X \<union> (nodes cs \<union> set (free_list b'))"
    unfolding e1 by (rule Un_assoc)
  also have "\<dots> = (?X \<union> nodes (C i)) \<union> set (free_list b) \<union> ?new"
    unfolding account by (simp only: Un_assoc)
  also have "\<dots> = {n. n < arena_bump b} \<union> ?new"
    unfolding cover [symmetric] e2 by (rule refl)
  also have "\<dots> = {n. n < arena_bump b'}" using bump(1) by auto
  finally have cover': "(\<Union>j < ?L. nodes ((C(i := cs)) j)) \<union> set (free_list b') = \<dots>" .
  have "chain (arena b') kNil ((C(i := cs)) j) kNil \<and> levels b' ! j = level_of ((C(i := cs)) j) \<and>
      distinct (map c_node ((C(i := cs)) j))" if j: "j < ?L" for j
  proof (cases "j = i")
    case True
    then show ?thesis using level by simp
  next
    case False
    then show ?thesis
      using mem_inv_level [OF inv j] other_levels [OF j] other_nodes [OF j] same(1)
      by (auto intro: chain_cong)
  qed
  moreover have "nodes ((C(i := cs)) j) \<inter> nodes ((C(i := cs)) k) = {}"
    if "j < ?L" "k < ?L" "j \<noteq> k" for j k
    using apart [of j] apart [of k] pair [OF that] that by (cases "j = i"; cases "k = i") auto
  moreover have "nodes ((C(i := cs)) j) \<inter> set (free_list b') = {}" if "j < ?L" for j
    using apart [of j] free(2) that by (cases "j = i") auto
  moreover have "(C(i := cs)) j = []" if "?L \<le> j" for j
    using mem_inv_beyond [OF inv that] i that by simp
  ultimately show ?thesis
    using cover' free(1) bump(2) same mem_inv_arena(1) [OF inv]
    unfolding mem_inv_def same(3) by simp
qed

section \<open>The memory operations\<close>

lemma upd_fields [simp]:
  "arena (upd_level f i b) = arena b" "levels (upd_node g n b) = levels b"
  "length (levels (upd_level f i b)) = length (levels b)"
  "length (arena (upd_node g n b)) = length (arena b)"
  "arena_capacity (upd_level f i b) = arena_capacity b"
  "arena_capacity (upd_node g n b) = arena_capacity b"
  "arena_bump (upd_level f i b) = arena_bump b" "arena_bump (upd_node g n b) = arena_bump b"
  "free_list (upd_level f i b) = free_list b" "free_list (upd_node g n b) = free_list b"
  "base (upd_level f i b) = base b" "base (upd_node g n b) = base b"
  "have_base (upd_level f i b) = have_base b" "have_base (upd_node g n b) = have_base b"
  "initial_window (upd_level f i b) = initial_window b"
  "initial_window (upd_node g n b) = initial_window b"
  "level_array_growths (upd_level f i b) = level_array_growths b"
  "level_array_growths (upd_node g n b) = level_array_growths b"
  "best_bid_idx (upd_level f i b) = best_bid_idx b" "best_bid_idx (upd_node g n b) = best_bid_idx b"
  "best_ask_idx (upd_level f i b) = best_ask_idx b" "best_ask_idx (upd_node g n b) = best_ask_idx b"
  "index (upd_level f i b) = index b" "index (upd_node g n b) = index b"
  by (simp_all add: upd_level_def upd_node_def)

lemma upd_arena: "arena (upd_node g n b) = (arena b)[unat n := g (arena b ! unat n)]"
  by (simp add: upd_node_def)

lemma upd_levels: "levels (upd_level f i b) = (levels b)[nat i := f (levels b ! nat i)]"
  by (simp add: upd_level_def)

lemma level_at_int [simp]: "level_at b (int i) = levels b ! i"
  by (simp add: level_at_def)

text \<open>Everything but arena contents, levels' contents, free list and index.\<close>

definition same_axis :: "book \<Rightarrow> book \<Rightarrow> bool" where
  "same_axis b b' \<longleftrightarrow>
     length (levels b') = length (levels b) \<and> base b' = base b \<and> have_base b' = have_base b \<and>
     initial_window b' = initial_window b \<and> level_array_growths b' = level_array_growths b \<and>
     best_bid_idx b' = best_bid_idx b \<and> best_ask_idx b' = best_ask_idx b \<and>
     arena_capacity b' = arena_capacity b"

lemma same_axis_refl [simp]: "same_axis b b"
  by (simp add: same_axis_def)

lemma same_axis_trans [trans]: "same_axis a b \<Longrightarrow> same_axis b c \<Longrightarrow> same_axis a c"
  by (simp add: same_axis_def)

lemma mem_inv_other_node:
  assumes "mem_inv C b" "i < length (levels b)" "j < length (levels b)" "j \<noteq> i"
    and "n \<in> nodes (C j)" "m \<in> nodes (C i)"
  shows "n \<noteq> m"
  using mem_inv_disjoint(2) [OF assms(1) assms(3,2)] assms(4-6) by blast

lemma set_qty_ok:
  assumes inv: "mem_inv C b" and i: "i < length (levels b)" and C: "C i = as @ c # bs"
  shows "mem_inv (C(i := as @ Cell (c_node c) (c_id c) (c_qty c - d) # bs))
    (upd_level (\<lambda>l. l\<lparr>l_total := l_total l - d\<rparr>) (int i)
      (upd_node (\<lambda>n. n\<lparr>n_qty := n_qty n - d\<rparr>) (c_node c) b))" (is "mem_inv _ ?b")
proof -
  note lv = mem_inv_level [OF inv i, unfolded C]
  have at: "arena b ! unat (c_node c) =
      \<lparr>n_id = c_id c, n_qty = c_qty c, n_prev = last_node kNil as, n_next = first_node bs kNil\<rparr>"
    using lv(1) by (simp add: chain_append)
  have own: "c_node c \<in> nodes (C i)" by (simp add: C)
  show ?thesis
  proof (rule mem_inv_update [OF inv i])
    show "chain (arena ?b) kNil (as @ Cell (c_node c) (c_id c) (c_qty c - d) # bs) kNil"
      using chain_set_qty [OF lv(1,3), of "c_qty c - d"] at by (simp add: upd_arena)
    show "levels ?b ! i = level_of (as @ Cell (c_node c) (c_id c) (c_qty c - d) # bs)"
      using lv(2) i by (simp add: upd_levels level_of_def first_node_append algebra_simps)
    show "arena ?b ! unat n = arena b ! unat n" if "j < length (levels b)" "j \<noteq> i" "n \<in> nodes (C j)"
      for j n
      using mem_inv_other_node [OF inv i that own] by (auto simp: upd_arena)
    show "nodes (as @ Cell (c_node c) (c_id c) (c_qty c - d) # bs) \<inter> set (free_list ?b) = {}"
      using mem_inv_disjoint(1) [OF inv i] by (simp add: C)
  qed (use inv lv(3) C in \<open>simp_all add: upd_levels mem_inv_arena\<close>)
qed

lemma fill_head_ok:
  assumes "mem_inv C b" "i < length (levels b)" "C i = c # cs"
  shows "mem_inv (C(i := Cell (c_node c) (c_id c) (c_qty c - fill) # cs)) (fill_head (int i) fill b)"
proof -
  have "l_head (levels b ! i) = c_node c"
    using mem_inv_level(2) [OF assms(1,2)] assms(3) by simp
  then show ?thesis
    using set_qty_ok [OF assms(1,2), of "[]" c cs fill] assms(3) by (simp add: fill_head_def)
qed

lemma mem_inv_index [simp]: "mem_inv C (b\<lparr>index := ix\<rparr>) = mem_inv C b"
  by (simp add: mem_inv_def)

text \<open>
  Unlinking from the middle. \<open>x\<close> is what the operation takes off \<open>total_qty\<close>: the quantity of the
  node in \<open>cancel\<close>; when \<open>match\<close> pops a maker its quantity is already zero.
\<close>

lemma unlink_ok:
  assumes inv: "mem_inv C b" and i: "i < length (levels b)" and C: "C i = as @ c # bs"
    and ar: "arena b' =
      (let ar1 = (if as \<noteq> []
                  then (arena b)[unat (last_node kNil as) :=
                         (arena b ! unat (last_node kNil as))\<lparr>n_next := first_node bs kNil\<rparr>]
                  else arena b)
       in if bs \<noteq> []
          then ar1[unat (first_node bs kNil) :=
                 (ar1 ! unat (first_node bs kNil))\<lparr>n_prev := last_node kNil as\<rparr>] else ar1)"
    and lv: "levels b' = (levels b)[i := level_of (as @ bs)]"
    and rest: "arena_capacity b' = arena_capacity b" "arena_bump b' = arena_bump b"
      "free_list b' = free_list b @ [c_node c]"
  shows "mem_inv (C(i := as @ bs)) b'"
proof (rule mem_inv_update [OF inv i])
  note own = mem_inv_level [OF inv i, unfolded C]
  have nil: "kNil \<notin> nodes (as @ c # bs)" using mem_inv_node_not_nil [OF inv i] by (simp add: C)
  note un = chain_unlink [OF own(1,3) nil refl refl]
  show "chain (arena b') kNil (as @ bs) kNil"
    using un(1) unfolding un(2,3) ar Let_def by simp
  show "arena b' ! unat n = arena b ! unat n"
    if j: "j < length (levels b)" "j \<noteq> i" and n: "n \<in> nodes (C j)" for j n
  proof -
    have "n \<noteq> last_node kNil as" if "as \<noteq> []"
      using mem_inv_other_node [OF inv i j n, of "last_node kNil as"] last_node_in [OF that]
      by (auto simp: C)
    moreover have "n \<noteq> first_node bs kNil" if "bs \<noteq> []"
      using mem_inv_other_node [OF inv i j n, of "first_node bs kNil"] first_node_in [OF that]
      by (auto simp: C)
    ultimately show ?thesis unfolding ar Let_def by auto
  qed
  show "length (arena b') = length (arena b)" unfolding ar Let_def by simp
  show "distinct (map c_node (as @ bs))" using own(3) by auto
  have fr: "nodes (C i) \<inter> set (free_list b) = {}" by (rule mem_inv_disjoint(1) [OF inv i])
  show "distinct (free_list b')" using mem_inv_arena(3) [OF inv] fr rest(3) by (auto simp: C)
  show "nodes (as @ bs) \<inter> set (free_list b') = {}" using fr own(3) rest(3) by (auto simp: C)
  show "nodes (as @ bs) \<union> set (free_list b') =
      nodes (C i) \<union> set (free_list b) \<union> {n. arena_bump b \<le> n \<and> n < arena_bump b'}"
    unfolding rest by (auto simp: C)
qed (use i lv rest mem_inv_arena(2) [OF inv] in simp_all)

lemma unlink_node_ok:
  assumes inv: "mem_inv C b" and i: "i < length (levels b)" and C: "C i = as @ c # bs"
  shows "mem_inv (C(i := as @ bs)) (free_node (c_node c) (unlink_node (int i) (c_node c) b))"
    (is "mem_inv _ ?b'")
proof (rule unlink_ok [OF inv i C])
  note own = mem_inv_level [OF inv i, unfolded C]
  have at: "arena b ! unat (c_node c) =
      \<lparr>n_id = c_id c, n_qty = c_qty c, n_prev = last_node kNil as, n_next = first_node bs kNil\<rparr>"
    using own(1) by (simp add: chain_append)
  have nil: "kNil \<notin> nodes (as @ c # bs)" using mem_inv_node_not_nil [OF inv i] by (simp add: C)
  have ne: "last_node kNil as \<noteq> kNil \<longleftrightarrow> as \<noteq> []" "first_node bs kNil \<noteq> kNil \<longleftrightarrow> bs \<noteq> []"
    using chain_unlink(2,3) [OF own(1,3) nil refl refl] by simp_all
  have ht: "levels b ! i = \<lparr>l_head = first_node as (c_node c),
      l_tail = last_node (c_node c) bs, l_total = sum_list (map c_qty (as @ c # bs))\<rparr>"
    using own(2) by (simp add: level_of_def first_node_append)
  show "arena ?b' = (let ar1 = (if as \<noteq> []
                  then (arena b)[unat (last_node kNil as) :=
                         (arena b ! unat (last_node kNil as))\<lparr>n_next := first_node bs kNil\<rparr>]
                  else arena b)
       in if bs \<noteq> []
          then ar1[unat (first_node bs kNil) :=
                 (ar1 ! unat (first_node bs kNil))\<lparr>n_prev := last_node kNil as\<rparr>] else ar1)"
    using ne by (simp add: free_node_def unlink_node_def at Let_def upd_arena)
  have eq: "first_node as kNil = first_node as (c_node c)"
    "first_node as (first_node bs kNil) = first_node as (c_node c)" if "as \<noteq> []"
    using that by (cases as; simp)+
  have eq2: "last_node kNil bs = last_node (c_node c) bs" "last_node (last_node kNil as) bs = last_node (c_node c) bs"
    if "bs \<noteq> []" using that by (auto intro: last_node_irrel)
  show "levels ?b' = (levels b)[i := level_of (as @ bs)]"
    using ne i eq eq2
    by (cases "as = []"; cases "bs = []")
       (simp_all add: free_node_def unlink_node_def at Let_def upd_levels level_of_def ht
         first_node_append)
qed (simp_all add: free_node_def unlink_node_def Let_def)

lemma pop_head_ok:
  assumes inv: "mem_inv C b" and i: "i < length (levels b)" and C: "C i = c # cs"
    and zero: "c_qty c = 0" and ix: "fhm_inv (index b)"
  shows "\<exists>b'. pop_head (int i) b = Some b' \<and> mem_inv (C(i := cs)) b' \<and> fhm_inv (index b') \<and>
    fhm_map (index b') = (fhm_map (index b))(c_id c := None) \<and> same_axis b b'"
proof -
  note own = mem_inv_level [OF inv i, unfolded C]
  have at: "arena b ! unat (c_node c) =
      \<lparr>n_id = c_id c, n_qty = c_qty c, n_prev = kNil, n_next = first_node cs kNil\<rparr>"
    using own(1) by simp
  have nil: "kNil \<notin> nodes ([] @ c # cs)" using mem_inv_node_not_nil [OF inv i] by (simp add: C)
  have ne: "first_node cs kNil \<noteq> kNil \<longleftrightarrow> cs \<noteq> []"
    using chain_unlink(3) [of "arena b" kNil "[]" c cs, OF _ _ nil refl refl] own by simp
  have ht: "levels b ! i = \<lparr>l_head = c_node c, l_tail = last_node (c_node c) cs,
      l_total = sum_list (map c_qty cs)\<rparr>"
    using own(2) zero by (simp add: level_of_def)
  obtain ix' where ix': "fhm_erase (index b) (c_id c) = Some (ix', fhm_map (index b) (c_id c) \<noteq> None)"
    "fhm_inv ix'" "fhm_map ix' = (fhm_map (index b))(c_id c := None)"
    using fm.erase_obtain [OF ix] by metis
  let ?b1 = "upd_level (\<lambda>l. l\<lparr>l_head := first_node cs kNil\<rparr>) (int i) b"
  let ?b2 = "if cs \<noteq> [] then upd_node (\<lambda>n. n\<lparr>n_prev := kNil\<rparr>) (first_node cs kNil) ?b1
             else upd_level (\<lambda>l. l\<lparr>l_tail := kNil\<rparr>) (int i) ?b1"
  have run: "pop_head (int i) b = Some (free_node (c_node c) (?b2\<lparr>index := ix'\<rparr>))"
    using ix'(1) ne by (simp add: pop_head_def Let_def ht at)
  have tail: "last_node (c_node c) cs = last_node kNil cs" if "cs \<noteq> []"
    using that by (rule last_node_irrel)
  have "mem_inv (C(i := [] @ cs)) (free_node (c_node c) (?b2\<lparr>index := ix'\<rparr>))"
    by (rule unlink_ok [OF inv i, of "[]" c cs])
       (use i tail in \<open>simp_all add: C free_node_def upd_arena upd_levels level_of_def ht Let_def\<close>)
  then show ?thesis
    using run ix' by (simp add: same_axis_def free_node_def)
qed

text \<open>Appending a node taken from the free list or from the unused end of the arena.\<close>

lemma alloc_node_cases:
  assumes inv: "mem_inv C b" and al: "alloc_node b = (Inr n, b1)"
  shows "n \<notin> nodes (C i)" "unat n < length (arena b)" "n \<notin> set (free_list b1)"
    and "distinct (free_list b1)" "arena_bump b \<le> arena_bump b1" "arena_bump b1 \<le> arena_capacity b"
    and "insert n (set (free_list b1)) =
      set (free_list b) \<union> {m. arena_bump b \<le> m \<and> m < arena_bump b1}"
    and "arena b1 = arena b" "levels b1 = levels b" "index b1 = index b" "same_axis b b1"
proof -
  have i: "n \<notin> nodes (C i) \<and> unat n < length (arena b) \<and> n \<notin> set (free_list b1) \<and>
    distinct (free_list b1) \<and> arena_bump b \<le> arena_bump b1 \<and> arena_bump b1 \<le> arena_capacity b \<and>
    insert n (set (free_list b1)) =
      set (free_list b) \<union> {m. arena_bump b \<le> m \<and> m < arena_bump b1} \<and>
    arena b1 = arena b \<and> levels b1 = levels b \<and> index b1 = index b \<and> same_axis b b1"
  proof (cases "free_list b = []")
    case False
    then have n: "n = last (free_list b)" "b1 = b\<lparr>free_list := butlast (free_list b)\<rparr>"
      using al by (auto simp: alloc_node_def)
    have fl: "free_list b = butlast (free_list b) @ [n]" using False n(1) by simp
    have in_free: "n \<in> set (free_list b)" using False n(1) by simp
    have d: "distinct (butlast (free_list b) @ [n])" using mem_inv_arena(3) [OF inv] fl by simp
    have "n < arena_bump b" using mem_inv_arena(4) [OF inv] in_free by blast
    then have "n < arena_capacity b" using mem_inv_arena(2) [OF inv] by simp
    then have "unat n < length (arena b)"
      using mem_inv_arena(1) [OF inv] by (simp add: word_less_nat_alt)
    moreover have "n \<notin> nodes (C i)"
      using in_free mem_inv_disjoint(1) [OF inv, of i] mem_inv_beyond [OF inv, of i]
      by (cases "i < length (levels b)") auto
    moreover have "insert n (set (butlast (free_list b))) = set (free_list b)"
      by (subst (2) fl) simp
    ultimately show ?thesis using d n(2) mem_inv_arena(2) [OF inv] by (simp add: same_axis_def)
  next
    case True
    then have n: "n = arena_bump b" "b1 = b\<lparr>arena_bump := arena_bump b + 1\<rparr>"
      and less: "arena_bump b < arena_capacity b"
      using al by (auto simp: alloc_node_def split: if_splits)
    have up: "arena_bump b < arena_bump b + 1" "arena_bump b + 1 \<le> arena_capacity b"
      using word_inc_bounds [OF less] by simp_all
    then have "{m. arena_bump b \<le> m \<and> m < arena_bump b + 1} = {arena_bump b}"
      using word_inc_bounds(3) [OF less]
      by (auto simp: word_less_nat_alt word_le_nat_alt word_unat_eq_iff simp del: unat_inject_iff)
    moreover have "n \<notin> nodes (C i)"
      using mem_inv_node_bump [OF inv, of i n] mem_inv_beyond [OF inv, of i] n(1)
      by (cases "i < length (levels b)") auto
    ultimately show ?thesis
      using True n less up mem_inv_arena(1) [OF inv]
      by (simp add: same_axis_def word_less_nat_alt order_less_imp_le)
  qed
  show "n \<notin> nodes (C i)" "unat n < length (arena b)" "n \<notin> set (free_list b1)"
    "distinct (free_list b1)" "arena_bump b \<le> arena_bump b1" "arena_bump b1 \<le> arena_capacity b"
    "insert n (set (free_list b1)) =
      set (free_list b) \<union> {m. arena_bump b \<le> m \<and> m < arena_bump b1}"
    "arena b1 = arena b" "levels b1 = levels b" "index b1 = index b" "same_axis b b1"
    using i by blast+
qed

lemma node_written:
  "(x :: node)\<lparr>n_id := i, n_qty := q, n_prev := p, n_next := e\<rparr> =
     \<lparr>n_id = i, n_qty = q, n_prev = p, n_next = e\<rparr>"
  "(x :: node)\<lparr>n_id := i, n_qty := q, n_next := e, n_prev := p\<rparr> =
     \<lparr>n_id = i, n_qty = q, n_prev = p, n_next = e\<rparr>"
  by (cases x; simp)+

lemma append_node_ok:
  assumes inv: "mem_inv C b" and i: "i < length (levels b)" and al: "alloc_node b = (Inr n, b1)"
  shows "mem_inv (C(i := C i @ [Cell n (req_id req) (req_qty req)])) (append_node (int i) n req b1)"
    (is "mem_inv (C(i := ?cs)) ?b'")
proof (rule mem_inv_update [OF inv i])
  note a = alloc_node_cases [OF inv al]
  note own = mem_inv_level [OF inv i]
  let ?ar = "(arena b)[unat n := \<lparr>n_id = req_id req, n_qty = req_qty req, n_prev = kNil, n_next = kNil\<rparr>]"
  let ?t = "last_node kNil (C i)"
  have tail: "?t = kNil \<longleftrightarrow> C i = []"
    using mem_inv_node_not_nil [OF inv i] last_node_in [of "C i" kNil] by (cases "C i = []") fastforce+
  have lvl: "levels b ! i = level_of (C i)" by (rule own(2))
  have tn: "C i \<noteq> [] \<longrightarrow> ?t \<noteq> n"
    using last_node_in [of "C i" kNil] a(1) [of i] by auto
  have ar': "arena ?b' = (if C i = [] then ?ar
      else ?ar[unat ?t := (?ar ! unat ?t)\<lparr>n_next := n\<rparr>, unat n := (?ar ! unat n)\<lparr>n_prev := ?t\<rparr>])"
    using a(2,8,9) tail lvl tn
    by (simp add: append_node_def Let_def upd_arena level_at_def upd_levels node_written)
  have ch: "chain ?ar kNil (C i) kNil" using own(1) a(1) by simp
  show "chain (arena ?b') kNil ?cs kNil"
  proof (cases "C i = []")
    case True
    then show ?thesis using a(2) ar' by simp
  next
    case False
    then show ?thesis
      using chain_snoc [OF ch False own(3) a(1), of "req_id req" "req_qty req" kNil] a(2) ar' by simp
  qed
  show "levels ?b' ! i = level_of ?cs"
    using i a(9) lvl tail
    by (cases "C i = []")
       (simp_all add: append_node_def Let_def level_at_def upd_levels level_of_def first_node_append
         first_node_irrel [of _ kNil n])
  show "distinct (map c_node ?cs)" using own(3) a(1) by simp
  have fl: "free_list ?b' = free_list b1" "arena_bump ?b' = arena_bump b1"
    "arena_capacity ?b' = arena_capacity b1"
    by (simp_all add: append_node_def Let_def)
  show "nodes ?cs \<inter> set (free_list ?b') = {}"
    using a(3,7) mem_inv_disjoint(1) [OF inv i] mem_inv_node_bump [OF inv i] unfolding fl by fastforce
  show "nodes ?cs \<union> set (free_list ?b') =
      nodes (C i) \<union> set (free_list b) \<union> {m. arena_bump b \<le> m \<and> m < arena_bump ?b'}"
    using a(7) unfolding fl by auto
  show "arena ?b' ! unat m = arena b ! unat m"
    if j: "j < length (levels b)" "j \<noteq> i" and m: "m \<in> nodes (C j)" for j m
  proof -
    have "m \<noteq> n" using a(1) [of j] m by auto
    moreover have "m \<noteq> ?t" if "C i \<noteq> []"
      using mem_inv_other_node [OF inv i j m last_node_in [OF that, of kNil]] .
    ultimately show ?thesis unfolding ar' by auto
  qed
  show "levels ?b' ! j = levels b ! j" if "j < length (levels b)" "j \<noteq> i" for j
    using that a(9) by (simp add: append_node_def Let_def upd_levels)
  show "arena_bump ?b' \<le> arena_capacity ?b'" "arena_capacity ?b' = arena_capacity b"
    using a(6,11) by (simp_all add: fl same_axis_def)
  show "distinct (free_list ?b')" "arena_bump b \<le> arena_bump ?b'" using a(4,5) by (simp_all add: fl)
  show "length (arena ?b') = length (arena b)" "length (levels ?b') = length (levels b)"
    using a(8,9) by (simp_all add: append_node_def Let_def)
qed

lemma append_node_fields [simp]:
  "index (append_node li n req b) = index b" "same_axis b (append_node li n req b)"
  by (simp_all add: append_node_def Let_def same_axis_def)

lemma same_axis_index [simp]: "same_axis b (b'\<lparr>index := ix\<rparr>) = same_axis b b'"
  by (simp add: same_axis_def)

text \<open>Queueing an order on a level: either the arena is exhausted and nothing changed, or the
  order is the last cell of the level and the index names its node.\<close>

lemma push_back_order_ok:
  assumes inv: "mem_inv C b" and i: "i < length (levels b)" and ix: "fhm_inv (index b)"
  shows "push_back_order b (int i) sd req = Some (Inl ArenaExhausted, b) \<and>
      free_list b = [] \<and> arena_bump b = arena_capacity b \<or>
    (\<exists>n b'. push_back_order b (int i) sd req = Some (Inr (), b') \<and>
       mem_inv (C(i := C i @ [Cell n (req_id req) (req_qty req)])) b' \<and> fhm_inv (index b') \<and>
       fhm_map (index b') = (fhm_map (index b))
         (req_id req \<mapsto> \<lparr>ix_side = sd, ix_level = int i, ix_node = n\<rparr>) \<and>
       same_axis b b')"
proof (cases "alloc_node b")
  case (Pair r b1)
  show ?thesis
  proof (cases r)
    case (Inl e)
    then have "e = ArenaExhausted \<and> b1 = b \<and> free_list b = [] \<and> arena_bump b = arena_capacity b"
      using Pair mem_inv_arena(2) [OF inv] by (auto simp: alloc_node_def split: if_splits)
    then show ?thesis using Pair Inl by (simp add: push_back_order_def)
  next
    case (Inr n)
    note al = Pair [unfolded Inr]
    note a = alloc_node_cases [OF inv al]
    obtain ix' where ix': "fhm_put blank_entry (index b) (req_id req)
          \<lparr>ix_side = sd, ix_level = int i, ix_node = n\<rparr> = Some ix'" "fhm_inv ix'"
        "fhm_map ix' = (fhm_map (index b))(req_id req \<mapsto> \<lparr>ix_side = sd, ix_level = int i, ix_node = n\<rparr>)"
      using fm.put_obtain [OF ix] by metis
    have "push_back_order b (int i) sd req = Some (Inr (), append_node (int i) n req b1\<lparr>index := ix'\<rparr>)"
      using al ix'(1) a(10) by (simp add: push_back_order_def Let_def)
    then show ?thesis
      using append_node_ok [OF inv i al, of req] ix'(2,3)
        same_axis_trans [OF a(11) append_node_fields(2)]
      by (intro disjI2 exI [of _ n] exI [of _ "append_node (int i) n req b1\<lparr>index := ix'\<rparr>"]) simp
  qed
qed

section \<open>The price axis\<close>

lemma level_of_Nil [simp]: "level_of [] = empty_level"
  by (simp add: level_of_def empty_level_def)

lemma grow_levels_ok:
  assumes "mem_inv C b"
  shows "mem_inv C (grow_levels n b)"
proof -
  let ?L = "length (levels b)"
  let ?M = "?L + (n - ?L)"
  have beyond: "C j = []" if "?L \<le> j" for j using mem_inv_beyond [OF assms that] .
  have "(\<Union>i < ?M. nodes (C i)) = (\<Union>i < ?L. nodes (C i))"
  proof (intro equalityI subsetI)
    fix x assume "x \<in> (\<Union>i < ?M. nodes (C i))"
    then obtain i where "x \<in> nodes (C i)" by blast
    then show "x \<in> (\<Union>i < ?L. nodes (C i))" using beyond [of i] by (cases "i < ?L") auto
  qed fastforce
  moreover have "chain (arena b) kNil (C i) kNil \<and>
      (levels b @ replicate (n - ?L) empty_level) ! i = level_of (C i) \<and> distinct (map c_node (C i))"
    if "i < ?M" for i
    using that mem_inv_level [OF assms, of i] beyond [of i] by (cases "i < ?L") (auto simp: nth_append)
  moreover have "nodes (C i) \<inter> nodes (C j) = {}" if "i \<noteq> j" for i j
    using mem_inv_disjoint(2) [OF assms, of i j] beyond [of i] beyond [of j] that
    by (cases "i < ?L"; cases "j < ?L") auto
  moreover have "nodes (C i) \<inter> set (free_list b) = {}" for i
    using mem_inv_disjoint(1) [OF assms, of i] beyond [of i] by (cases "i < ?L") auto
  ultimately show ?thesis
    using mem_inv_arena [OF assms] beyond by (simp add: mem_inv_def grow_levels_def)
qed

definition shift_cells :: "nat \<Rightarrow> (nat \<Rightarrow> cell list) \<Rightarrow> nat \<Rightarrow> cell list" where
  "shift_cells s C i = (if s \<le> i then C (i - s) else [])"

lemma shift_levels_ok:
  assumes "mem_inv C b"
  shows "mem_inv (shift_cells s C) (shift_levels (int s) b)"
proof -
  let ?L = "length (levels b)"
  have beyond: "C j = []" if "?L \<le> j" for j using mem_inv_beyond [OF assms that] .
  have "(\<Union>i < s + ?L. nodes (shift_cells s C i)) = (\<Union>i < ?L. nodes (C i))"
  proof (intro equalityI subsetI)
    fix x assume "x \<in> (\<Union>i < ?L. nodes (C i))"
    then obtain i where "i < ?L" "x \<in> nodes (C i)" by blast
    then show "x \<in> (\<Union>i < s + ?L. nodes (shift_cells s C i))"
      by (intro UN_I [of "s + i"]) (simp_all add: shift_cells_def)
  qed (auto simp: shift_cells_def split: if_splits)
  moreover have "chain (arena b) kNil (shift_cells s C i) kNil \<and>
      (replicate s empty_level @ levels b) ! i = level_of (shift_cells s C i) \<and>
      distinct (map c_node (shift_cells s C i))"
    if "i < s + ?L" for i
    using that mem_inv_level [OF assms, of "i - s"] by (auto simp: nth_append shift_cells_def)
  moreover have "nodes (shift_cells s C i) \<inter> nodes (shift_cells s C j) = {}"
    if "i \<noteq> j" "i < s + ?L" "j < s + ?L" for i j
  proof (cases "s \<le> i \<and> s \<le> j")
    case True
    then have "i - s < ?L" "j - s < ?L" "i - s \<noteq> j - s" using that by auto
    then show ?thesis
      using mem_inv_disjoint(2) [OF assms, of "i - s" "j - s"] True by (simp add: shift_cells_def)
  qed (auto simp: shift_cells_def)
  moreover have "nodes (shift_cells s C i) \<inter> set (free_list b) = {}" if "i < s + ?L" for i
    using mem_inv_disjoint(1) [OF assms, of "i - s"] that by (cases "s \<le> i") (simp_all add: shift_cells_def)
  moreover have "shift_cells s C i = []" if "s + ?L \<le> i" for i
    using beyond that by (simp add: shift_cells_def)
  ultimately show ?thesis
    using mem_inv_arena [OF assms] by (simp add: mem_inv_def shift_levels_def)
qed

end
