(* ===== verification/Book_V2_Abs.thy ===== *)
theory Book_V2_Abs
  imports Book_V2_Inv
begin

text \<open>
  The class invariant of \<open>OrderBookV2\<close> and the abstraction to \<open>Book_Spec\<close>: levels up to the best
  bid hold the bids, the levels above it the asks, and the id index names exactly the queued
  nodes.
\<close>

section \<open>Rows of the book as priority lists\<close>

definition row :: "int \<Rightarrow> cell list \<Rightarrow> int resting list" where
  "row p cs = map (\<lambda>c. Resting (c_id c) p (c_qty c)) cs"

definition rows :: "int \<Rightarrow> (nat \<Rightarrow> cell list) \<Rightarrow> nat list \<Rightarrow> int resting list" where
  "rows bs C is = concat (map (\<lambda>i. row (bs + int i) (C i)) is)"

text \<open>The book that has bids below level \<open>s\<close> and asks from \<open>s\<close> on.\<close>

definition abs_at :: "int \<Rightarrow> nat \<Rightarrow> nat \<Rightarrow> (nat \<Rightarrow> cell list) \<Rightarrow> int sbook" where
  "abs_at bs L s C = \<lparr>s_bids = rows bs C (rev [0..<s]), s_asks = rows bs C [s..<L]\<rparr>"

definition abs_of :: "(nat \<Rightarrow> cell list) \<Rightarrow> book \<Rightarrow> int sbook" where
  "abs_of C b = abs_at (base b) (length (levels b)) (nat (best_bid_idx b + 1)) C"

lemma row_simps [simp]:
  "row p [] = []" "row p (c # cs) = Resting (c_id c) p (c_qty c) # row p cs"
  "row p (as @ bs) = row p as @ row p bs" "row p cs = [] \<longleftrightarrow> cs = []" "length (row p cs) = length cs"
  by (simp_all add: row_def)

lemma rows_simps [simp]:
  "rows bs C [] = []" "rows bs C (i # is) = row (bs + int i) (C i) @ rows bs C is"
  "rows bs C (is @ js) = rows bs C is @ rows bs C js"
  by (simp_all add: rows_def)

lemma set_row: "set (row p cs) = (\<lambda>c. Resting (c_id c) p (c_qty c)) ` set cs"
  by (simp add: row_def)

lemma set_rows: "set (rows bs C is) = (\<Union>i \<in> set is. set (row (bs + int i) (C i)))"
  by (simp add: rows_def)

lemma rows_in: "r \<in> set (rows bs C is) \<longleftrightarrow>
   (\<exists>i \<in> set is. \<exists>c \<in> set (C i). r = Resting (c_id c) (bs + int i) (c_qty c))"
  by (auto simp: set_rows set_row)

lemma rows_cong: "(\<And>i. i \<in> set is \<Longrightarrow> C i = C' i) \<Longrightarrow> rows bs C is = rows bs C' is"
  by (simp add: rows_def cong: map_cong)

lemma rows_empty: "(\<And>i. i \<in> set is \<Longrightarrow> C i = []) \<Longrightarrow> rows bs C is = []"
  by (induction "is") auto

lemma rows_upd_other [simp]: "i \<notin> set is \<Longrightarrow> rows bs (C(i := cs)) is = rows bs C is"
  by (rule rows_cong) auto

text \<open>Empty levels may be counted on either side.\<close>

lemma abs_at_split:
  assumes "s \<le> t" "t \<le> L" "\<And>i. s \<le> i \<Longrightarrow> i < t \<Longrightarrow> C i = []"
  shows "abs_at bs L s C = abs_at bs L t C"
proof -
  have "[0..<t] = [0..<s] @ [s..<t]" "[s..<L] = [s..<t] @ [t..<L]"
    using assms(1,2) upt_add_eq_append [of 0 s "t - s"] upt_add_eq_append [of s t "L - t"] by simp_all
  then show ?thesis
    using rows_empty [of "[s..<t]" C bs] rows_empty [of "rev [s..<t]" C bs] assms(3)
    by (simp add: abs_at_def)
qed

section \<open>Invariant\<close>

definition entry_for :: "int \<Rightarrow> nat \<Rightarrow> cell \<Rightarrow> index_entry" where
  "entry_for bb i c = \<lparr>ix_side = (if int i \<le> bb then Buy else Sell), ix_level = int i, ix_node = c_node c\<rparr>"

definition index_ok :: "(nat \<Rightarrow> cell list) \<Rightarrow> book \<Rightarrow> bool" where
  "index_ok C b \<longleftrightarrow> (\<forall>k e. fhm_map (index b) k = Some e \<longleftrightarrow>
     (\<exists>i. \<exists>c \<in> set (C i). c_id c = k \<and> e = entry_for (best_bid_idx b) i c))"

definition best_ok :: "(nat \<Rightarrow> cell list) \<Rightarrow> book \<Rightarrow> bool" where
  "best_ok C b \<longleftrightarrow>
     -1 \<le> best_bid_idx b \<and> best_bid_idx b < int (length (levels b)) \<and>
     -1 \<le> best_ask_idx b \<and> best_ask_idx b < int (length (levels b)) \<and>
     (0 \<le> best_bid_idx b \<longrightarrow> C (nat (best_bid_idx b)) \<noteq> []) \<and>
     (0 \<le> best_ask_idx b \<longrightarrow> best_bid_idx b < best_ask_idx b \<and> C (nat (best_ask_idx b)) \<noteq> []) \<and>
     (\<forall>i. best_bid_idx b < int i \<longrightarrow> best_ask_idx b < 0 \<or> int i < best_ask_idx b \<longrightarrow> C i = [])"

definition base_ok :: "book \<Rightarrow> bool" where
  "base_ok b \<longleftrightarrow> 0 \<le> initial_window b \<and> (\<not> have_base b \<longrightarrow> levels b = [])"

definition book_inv :: "(nat \<Rightarrow> cell list) \<Rightarrow> book \<Rightarrow> bool" where
  "book_inv C b \<longleftrightarrow>
     mem_inv C b \<and> fhm_inv (index b) \<and> index_ok C b \<and> best_ok C b \<and> base_ok b"

lemma book_invD:
  assumes "book_inv C b"
  shows "mem_inv C b" "fhm_inv (index b)" "index_ok C b" "best_ok C b" "base_ok b"
  using assms by (simp_all add: book_inv_def)

lemma best_okD:
  assumes "best_ok C b"
  shows "-1 \<le> best_bid_idx b" "best_bid_idx b < int (length (levels b))"
    "-1 \<le> best_ask_idx b" "best_ask_idx b < int (length (levels b))"
    "0 \<le> best_bid_idx b \<Longrightarrow> C (nat (best_bid_idx b)) \<noteq> []"
    "0 \<le> best_ask_idx b \<Longrightarrow> best_bid_idx b < best_ask_idx b"
    "0 \<le> best_ask_idx b \<Longrightarrow> C (nat (best_ask_idx b)) \<noteq> []"
    "best_bid_idx b < int i \<Longrightarrow> best_ask_idx b < 0 \<or> int i < best_ask_idx b \<Longrightarrow> C i = []"
  using assms by (auto simp: best_ok_def)

subsection \<open>The index\<close>

lemma index_lookup:
  assumes "index_ok C b" "c \<in> set (C i)"
  shows "fhm_map (index b) (c_id c) = Some (entry_for (best_bid_idx b) i c)"
  using assms by (auto simp: index_ok_def)

lemma index_find:
  assumes "index_ok C b" "fhm_map (index b) k = Some e"
  obtains i c where "c \<in> set (C i)" "c_id c = k" "e = entry_for (best_bid_idx b) i c"
  using assms by (auto simp: index_ok_def)

lemma index_unique:
  assumes "index_ok C b" "mem_inv C b" "c \<in> set (C i)" "d \<in> set (C j)" "c_id c = c_id d"
  shows "i = j \<and> c = d"
proof -
  have "entry_for (best_bid_idx b) i c = entry_for (best_bid_idx b) j d"
    using index_lookup [OF assms(1,3)] index_lookup [OF assms(1,4)] assms(5) by simp
  then have e: "i = j" "c_node c = c_node d" by (simp_all add: entry_for_def)
  have "i < length (levels b)" using mem_inv_beyond [OF assms(2), of i] assms(3) by (cases "i < length (levels b)") auto
  then have "distinct (map c_node (C i))" by (rule mem_inv_level(3) [OF assms(2)])
  then have "c = d" using e assms(3,4) by (auto simp: distinct_map dest: inj_onD)
  then show ?thesis using e(1) by simp
qed

lemma index_ok_set_qty:
  assumes "index_ok C b" "C i = as @ c # bs" "index b' = index b" "best_bid_idx b' = best_bid_idx b"
  shows "index_ok (C(i := as @ Cell (c_node c) (c_id c) q # bs)) b'"
proof -
  have "(\<exists>j. \<exists>d \<in> set ((C(i := as @ Cell (c_node c) (c_id c) q # bs)) j). c_id d = k \<and> e = entry_for bb j d) \<longleftrightarrow>
      (\<exists>j. \<exists>d \<in> set (C j). c_id d = k \<and> e = entry_for bb j d)" for k e bb
  proof -
    have "(\<exists>d \<in> set ((C(i := as @ Cell (c_node c) (c_id c) q # bs)) j). c_id d = k \<and> e = entry_for bb j d) \<longleftrightarrow>
        (\<exists>d \<in> set (C j). c_id d = k \<and> e = entry_for bb j d)" for j
      using assms(2) by (cases "j = i") (auto simp: entry_for_def)
    then show ?thesis by simp
  qed
  then show ?thesis using assms(1,3,4) by (simp add: index_ok_def)
qed

lemma index_ok_remove:
  assumes ok: "index_ok C b" "mem_inv C b" and C: "C i = as @ c # bs"
    and m: "fhm_map (index b') = (fhm_map (index b))(c_id c := None)"
    and bb: "best_bid_idx b' = best_bid_idx b"
  shows "index_ok (C(i := as @ bs)) b'"
  unfolding index_ok_def
proof (intro allI)
  fix k e
  have c: "c \<in> set (C i)" by (simp add: C)
  have i: "i < length (levels b)" using mem_inv_beyond [OF ok(2), of i] C by (cases "i < length (levels b)") auto
  have "distinct (map c_node (as @ c # bs))" using mem_inv_level(3) [OF ok(2) i] C by simp
  then have c_out: "c \<notin> set (as @ bs)" by auto
  have *: "d \<in> set ((C(i := as @ bs)) j) \<longleftrightarrow> d \<in> set (C j) \<and> c_id d \<noteq> c_id c" for d j
    using index_unique [OF ok(1,2), of d j c i] c_out c C by (cases "j = i") auto
  have "(\<exists>j. \<exists>d \<in> set ((C(i := as @ bs)) j). c_id d = k \<and> e = entry_for (best_bid_idx b') j d) \<longleftrightarrow>
      k \<noteq> c_id c \<and> (\<exists>j. \<exists>d \<in> set (C j). c_id d = k \<and> e = entry_for (best_bid_idx b) j d)"
    unfolding bb using * by metis
  then show "fhm_map (index b') k = Some e \<longleftrightarrow>
      (\<exists>j. \<exists>d \<in> set ((C(i := as @ bs)) j). c_id d = k \<and> e = entry_for (best_bid_idx b') j d)"
    using ok(1) by (auto simp: m index_ok_def)
qed

lemma index_ok_insert:
  assumes ok: "index_ok C b" and fresh: "fhm_map (index b) k = None"
    and m: "fhm_map (index b') = (fhm_map (index b))
      (k \<mapsto> \<lparr>ix_side = (if int i \<le> bb then Buy else Sell), ix_level = int i, ix_node = n\<rparr>)"
    and bb: "best_bid_idx b' = bb"
    and same: "\<And>j. C j \<noteq> [] \<Longrightarrow> int j \<le> bb \<longleftrightarrow> int j \<le> best_bid_idx b"
  shows "index_ok (C(i := C i @ [Cell n k q])) b'"
  unfolding index_ok_def
proof (intro allI)
  fix k' e
  have old: "c_id d \<noteq> k" if "d \<in> set (C j)" for d j
    using index_lookup [OF ok that] fresh by auto
  have eq: "entry_for bb j d = entry_for (best_bid_idx b) j d" if "d \<in> set (C j)" for j d
    using same [of j] that by (cases "C j = []") (simp_all add: entry_for_def)
  have *: "d \<in> set ((C(i := C i @ [Cell n k q])) j) \<longleftrightarrow>
      d \<in> set (C j) \<or> j = i \<and> d = Cell n k q" for d j
    by auto
  have "(\<exists>j. \<exists>d \<in> set ((C(i := C i @ [Cell n k q])) j). c_id d = k' \<and> e = entry_for bb j d) \<longleftrightarrow>
      (\<exists>j. \<exists>d \<in> set (C j). c_id d = k' \<and> e = entry_for (best_bid_idx b) j d) \<or>
      k' = k \<and> e = entry_for bb i (Cell n k q)"
    unfolding Bex_def * using eq by (metis cell.sel(2))
  moreover have "fhm_map (index b') k' = Some e \<longleftrightarrow>
      fhm_map (index b) k' = Some e \<or> k' = k \<and> e = entry_for bb i (Cell n k q)"
    using fresh by (auto simp: m entry_for_def)
  ultimately show "fhm_map (index b') k' = Some e \<longleftrightarrow>
      (\<exists>j. \<exists>d \<in> set ((C(i := C i @ [Cell n k q])) j). c_id d = k' \<and> e = entry_for (best_bid_idx b') j d)"
    using ok by (simp add: bb index_ok_def)
qed

subsection \<open>Moving the best-price indices\<close>

lemma scan_up_spec:
  assumes "0 \<le> i"
  shows "i \<le> scan_up ls i" "scan_up ls i \<le> max i (int (length ls))"
    "i \<le> int k \<Longrightarrow> int k < scan_up ls i \<Longrightarrow> l_head (ls ! k) = kNil"
    "scan_up ls i < int (length ls) \<Longrightarrow> l_head (ls ! nat (scan_up ls i)) \<noteq> kNil"
proof -
  have "i \<le> scan_up ls i \<and> scan_up ls i \<le> max i (int (length ls)) \<and>
      (\<forall>k. i \<le> int k \<longrightarrow> int k < scan_up ls i \<longrightarrow> l_head (ls ! k) = kNil) \<and>
      (scan_up ls i < int (length ls) \<longrightarrow> l_head (ls ! nat (scan_up ls i)) \<noteq> kNil)"
    using assms
  proof (induction ls i rule: scan_up.induct)
    case (1 ls i)
    show ?case
    proof (cases "i < int (length ls) \<and> l_head (ls ! nat i) = kNil")
      case True
      have "l_head (ls ! k) = kNil" if "i \<le> int k" "int k < scan_up ls (i + 1)" for k
        using 1 True that by (cases "int k = i") auto
      then show ?thesis using 1 True by (simp add: scan_up.simps [of ls i])
    next
      case False
      then show ?thesis using 1(2) by (auto simp: scan_up.simps [of ls i])
    qed
  qed
  then show "i \<le> scan_up ls i" "scan_up ls i \<le> max i (int (length ls))"
    "i \<le> int k \<Longrightarrow> int k < scan_up ls i \<Longrightarrow> l_head (ls ! k) = kNil"
    "scan_up ls i < int (length ls) \<Longrightarrow> l_head (ls ! nat (scan_up ls i)) \<noteq> kNil"
    by simp_all
qed

lemma scan_down_spec:
  assumes "-1 \<le> i"
  shows "scan_down ls i \<le> i" "-1 \<le> scan_down ls i"
    "scan_down ls i < int k \<Longrightarrow> int k \<le> i \<Longrightarrow> l_head (ls ! k) = kNil"
    "0 \<le> scan_down ls i \<Longrightarrow> l_head (ls ! nat (scan_down ls i)) \<noteq> kNil"
proof -
  have "scan_down ls i \<le> i \<and> -1 \<le> scan_down ls i \<and>
      (\<forall>k. scan_down ls i < int k \<longrightarrow> int k \<le> i \<longrightarrow> l_head (ls ! k) = kNil) \<and>
      (0 \<le> scan_down ls i \<longrightarrow> l_head (ls ! nat (scan_down ls i)) \<noteq> kNil)"
    using assms
  proof (induction ls i rule: scan_down.induct)
    case (1 ls i)
    show ?case
    proof (cases "0 \<le> i \<and> l_head (ls ! nat i) = kNil")
      case True
      have "l_head (ls ! k) = kNil" if "scan_down ls (i - 1) < int k" "int k \<le> i" for k
        using 1 True that by (cases "int k = i") auto
      then show ?thesis using 1 True by (simp add: scan_down.simps [of ls i])
    next
      case False
      then show ?thesis using 1(2) by (auto simp: scan_down.simps [of ls i])
    qed
  qed
  then show "scan_down ls i \<le> i" "-1 \<le> scan_down ls i"
    "scan_down ls i < int k \<Longrightarrow> int k \<le> i \<Longrightarrow> l_head (ls ! k) = kNil"
    "0 \<le> scan_down ls i \<Longrightarrow> l_head (ls ! nat (scan_down ls i)) \<noteq> kNil"
    by simp_all
qed

text \<open>After an operation on level \<open>i\<close>: when it has emptied the best level of its side, the best
  index moves to the next level that holds an order.\<close>

definition settle :: "nat \<Rightarrow> book \<Rightarrow> book" where
  "settle i b =
     (if l_head (levels b ! i) = kNil
      then (if int i = best_bid_idx b then advance_bid b
            else if int i = best_ask_idx b then advance_ask b else b)
      else b)"

lemma mem_inv_best [simp]:
  "mem_inv C (b\<lparr>best_bid_idx := x\<rparr>) = mem_inv C b" "mem_inv C (b\<lparr>best_ask_idx := x\<rparr>) = mem_inv C b"
  by (simp_all add: mem_inv_def)

lemma advance_fields [simp]:
  "mem_inv C (advance_bid b) = mem_inv C b" "mem_inv C (advance_ask b) = mem_inv C b"
  "index (advance_bid b) = index b" "index (advance_ask b) = index b"
  "base_ok (advance_bid b) = base_ok b" "base_ok (advance_ask b) = base_ok b"
  "base (advance_bid b) = base b" "base (advance_ask b) = base b"
  "levels (advance_bid b) = levels b" "levels (advance_ask b) = levels b"
  "best_bid_idx (advance_ask b) = best_bid_idx b" "best_ask_idx (advance_bid b) = best_ask_idx b"
  by (simp_all add: advance_bid_def advance_ask_def Let_def base_ok_def)

lemma index_ok_split:
  assumes "index_ok C b" "index b' = index b"
    and "\<And>i. C i \<noteq> [] \<Longrightarrow> int i \<le> best_bid_idx b' \<longleftrightarrow> int i \<le> best_bid_idx b"
  shows "index_ok C b'"
proof -
  have "entry_for (best_bid_idx b') i c = entry_for (best_bid_idx b) i c" if "c \<in> set (C i)" for i c
    using assms(3) [of i] that by (cases "C i = []") (simp_all add: entry_for_def)
  then have "(\<exists>i. \<exists>c \<in> set (C i). c_id c = k \<and> e = entry_for (best_bid_idx b') i c) \<longleftrightarrow>
      (\<exists>i. \<exists>c \<in> set (C i). c_id c = k \<and> e = entry_for (best_bid_idx b) i c)" for k e
    by metis
  then show ?thesis using assms(1,2) by (simp add: index_ok_def)
qed

lemma advance_ask_ok:
  assumes mem: "mem_inv C b" "best_bid_idx b < best_ask_idx b" "0 \<le> best_ask_idx b"
    and "best_bid_idx b < int (length (levels b))" "best_ask_idx b < int (length (levels b))"
    "-1 \<le> best_bid_idx b" "0 \<le> best_bid_idx b \<longrightarrow> C (nat (best_bid_idx b)) \<noteq> []"
    and empty: "\<And>j. best_bid_idx b < int j \<Longrightarrow> int j \<le> best_ask_idx b \<Longrightarrow> C j = []"
  shows "best_ok C (advance_ask b)"
proof -
  let ?s = "scan_up (levels b) (best_ask_idx b + 1)"
  have s: "best_ask_idx b + 1 \<le> ?s" "?s \<le> int (length (levels b))"
    using scan_up_spec(1,2) [of "best_ask_idx b + 1" "levels b"] assms(3,5) by simp_all
  have gap: "C k = []" if "best_bid_idx b < int k" "int k < ?s" for k
    using scan_up_spec(3) [of "best_ask_idx b + 1" k "levels b"] mem_inv_head [OF mem(1), of k] empty [of k]
      that s assms(3) by (cases "int k \<le> best_ask_idx b") auto
  have "C (nat ?s) \<noteq> []" if "?s < int (length (levels b))"
    using scan_up_spec(4) [of "best_ask_idx b + 1" "levels b"] mem_inv_head [OF mem(1), of "nat ?s"]
      that s assms(3) by auto
  moreover have "C k = []" if "?s = int (length (levels b))" "best_bid_idx b < int k" for k
    using gap [of k] mem_inv_beyond [OF mem(1), of k] that by (cases "int k < ?s") auto
  ultimately show ?thesis
    using assms s gap by (auto simp: best_ok_def advance_ask_def Let_def)
qed

lemma advance_bid_ok:
  assumes mem: "mem_inv C b" and "0 \<le> best_bid_idx b" "best_bid_idx b < int (length (levels b))"
    and ask: "-1 \<le> best_ask_idx b" "best_ask_idx b < int (length (levels b))"
      "0 \<le> best_ask_idx b \<longrightarrow> best_bid_idx b < best_ask_idx b \<and> C (nat (best_ask_idx b)) \<noteq> []"
    and empty: "\<And>j. best_bid_idx b \<le> int j \<Longrightarrow> best_ask_idx b < 0 \<or> int j < best_ask_idx b \<Longrightarrow> C j = []"
  shows "best_ok C (advance_bid b)"
    and "C j \<noteq> [] \<Longrightarrow> int j \<le> best_bid_idx (advance_bid b) \<longleftrightarrow> int j \<le> best_bid_idx b"
    and "best_bid_idx (advance_bid b) \<le> best_bid_idx b"
proof -
  let ?s = "scan_down (levels b) (best_bid_idx b - 1)"
  have s: "?s \<le> best_bid_idx b - 1" "-1 \<le> ?s"
    using scan_down_spec(1,2) [of "best_bid_idx b - 1" "levels b"] assms(2) by simp_all
  have bb: "best_bid_idx (advance_bid b) = ?s"
    using s by (simp add: advance_bid_def Let_def)
  then show "best_bid_idx (advance_bid b) \<le> best_bid_idx b" using s by simp
  have self: "C k = []" if "int k = best_bid_idx b" for k
    using empty [of k] ask(3) that by force
  have gap: "C k = []" if "?s < int k" "int k \<le> best_bid_idx b" for k
    using scan_down_spec(3) [of "best_bid_idx b - 1" "levels b" k] mem_inv_head [OF mem, of k] self [of k]
      that s assms(2,3) by (cases "int k = best_bid_idx b") auto
  show "int j \<le> best_bid_idx (advance_bid b) \<longleftrightarrow> int j \<le> best_bid_idx b" if "C j \<noteq> []"
    using gap [of j] s that unfolding bb by force
  have "C (nat ?s) \<noteq> []" if "0 \<le> ?s"
    using scan_down_spec(4) [of "best_bid_idx b - 1" "levels b"] mem_inv_head [OF mem, of "nat ?s"]
      that s assms(2,3) by auto
  moreover have "C k = []" if "?s < int k" "best_ask_idx b < 0 \<or> int k < best_ask_idx b" for k
    using gap [of k] empty [of k] that by (cases "int k \<le> best_bid_idx b") auto
  ultimately show "best_ok C (advance_bid b)"
    using s ask assms(3) unfolding best_ok_def bb advance_fields by auto
qed

lemma best_ok_cases:
  assumes "best_ok C b" "C i \<noteq> []"
  shows "int i \<le> best_bid_idx b \<or> 0 \<le> best_ask_idx b \<and> best_ask_idx b \<le> int i"
  using best_okD(8) [OF assms(1), of i] assms(2) by force

lemma settle_ok:
  assumes inv: "book_inv C b" and ci: "C i \<noteq> []"
    and new: "mem_inv (C(i := cs)) b'" "fhm_inv (index b')" "index_ok (C(i := cs)) b'"
    and axis: "same_axis b b'"
  shows "book_inv (C(i := cs)) (settle i b')"
    and "abs_of (C(i := cs)) (settle i b') =
      abs_at (base b) (length (levels b)) (nat (best_bid_idx b + 1)) (C(i := cs))"
proof -
  note D = book_invD [OF inv]
  note B = best_okD [OF D(4)]
  note ax = axis [unfolded same_axis_def]
  have len: "length (levels b') = length (levels b)" and bbe: "best_bid_idx b' = best_bid_idx b"
    and bae: "best_ask_idx b' = best_ask_idx b" using ax by simp_all
  let ?C = "C(i := cs)"
  have i: "i < length (levels b)" using mem_inv_beyond [OF D(1), of i] ci by (cases "i < length (levels b)") auto
  have head: "l_head (levels b' ! i) = kNil \<longleftrightarrow> cs = []"
    using mem_inv_head [OF new(1), of i] i ax by simp
  have base': "base_ok b'"
    using D(5) ax by (auto simp: base_ok_def)
  have side: "int i \<le> best_bid_idx b \<or> 0 \<le> best_ask_idx b \<and> best_ask_idx b \<le> int i"
    by (rule best_ok_cases [OF D(4) ci])
  have "book_inv ?C (settle i b') \<and> abs_of ?C (settle i b') =
      abs_at (base b) (length (levels b)) (nat (best_bid_idx b + 1)) ?C"
  proof (cases "cs = [] \<and> (int i = best_bid_idx b \<or> int i = best_ask_idx b)")
    case False
    have "?C j = []" if "best_bid_idx b < int j" "best_ask_idx b < 0 \<or> int j < best_ask_idx b" for j
      using B(8) [OF that] side that by (cases "j = i") auto
    moreover have "?C (nat (best_bid_idx b)) \<noteq> []" if "0 \<le> best_bid_idx b"
      using B(5) [OF that] False that by auto
    moreover have "?C (nat (best_ask_idx b)) \<noteq> []" if "0 \<le> best_ask_idx b"
      using B(7) [OF that] False that by auto
    ultimately have "best_ok ?C b'" using B(1-4,6) ax by (simp add: best_ok_def)
    moreover have "settle i b' = b'" using False head ax by (simp add: settle_def)
    ultimately show ?thesis using new base' ax by (simp add: book_inv_def abs_of_def)
  next
    case True
    show ?thesis
    proof (cases "int i = best_bid_idx b")
      case bid: True
      have empty: "?C j = []" if "best_bid_idx b \<le> int j" "best_ask_idx b < 0 \<or> int j < best_ask_idx b" for j
        using B(8) [of j] that bid True by (cases "j = i") auto
      have bb0: "0 \<le> best_bid_idx b" using bid by simp
      have ask': "0 \<le> best_ask_idx b \<longrightarrow> best_bid_idx b < best_ask_idx b \<and> ?C (nat (best_ask_idx b)) \<noteq> []"
        using B(6,7) bid by auto
      have adv: "best_ok ?C (advance_bid b')"
        "\<And>j. ?C j \<noteq> [] \<Longrightarrow> int j \<le> best_bid_idx (advance_bid b') \<longleftrightarrow> int j \<le> best_bid_idx b'"
        "best_bid_idx (advance_bid b') \<le> best_bid_idx b'"
        using advance_bid_ok [OF new(1), unfolded len bbe bae, OF bb0 B(2-4) ask' empty]
        by (simp_all add: bbe)
      have s: "settle i b' = advance_bid b'" using bid True head ax by (simp add: settle_def)
      have "index_ok ?C (advance_bid b')" using index_ok_split [OF new(3), of "advance_bid b'"] adv(2) by simp
      then have "book_inv ?C (advance_bid b')" using new(1,2) adv(1) base' by (simp add: book_inv_def)
      moreover have gap: "?C j = []"
        if "nat (best_bid_idx (advance_bid b') + 1) \<le> j" "j < nat (best_bid_idx b + 1)" for j
      proof (rule ccontr)
        assume "?C j \<noteq> []"
        from adv(2) [OF this] show False
          using that bbe unfolding nat_le_iff zless_nat_eq_int_zless by linarith
      qed
      moreover have "abs_of ?C (advance_bid b') =
          abs_at (base b) (length (levels b)) (nat (best_bid_idx b + 1)) ?C"
        unfolding abs_of_def advance_fields len conjunct1 [OF conjunct2 [OF ax]]
        by (rule abs_at_split [OF _ _ gap]) (use adv(3) bbe i bid in simp_all)
      ultimately show ?thesis unfolding s by simp
    next
      case False
      then have ask: "int i = best_ask_idx b" using True by simp
      have empty: "?C j = []" if "best_bid_idx b < int j" "int j \<le> best_ask_idx b" for j
        using B(8) [of j] that ask True by (cases "j = i") auto
      have "?C (nat (best_bid_idx b)) \<noteq> []" if "0 \<le> best_bid_idx b"
        using B(5) [OF that] that False by auto
      then have "best_ok ?C (advance_ask b')"
        using advance_ask_ok [OF new(1)] empty B(1,2,4,6) ask ax by simp
      moreover have "settle i b' = advance_ask b'" using ask False True head ax by (simp add: settle_def)
      moreover have "index_ok ?C (advance_ask b')"
        using index_ok_split [OF new(3), of "advance_ask b'"] by simp
      ultimately show ?thesis using new base' ax by (simp add: book_inv_def abs_of_def)
    qed
  qed
  then show "book_inv ?C (settle i b')" "abs_of ?C (settle i b') =
      abs_at (base b) (length (levels b)) (nat (best_bid_idx b + 1)) ?C" by simp_all
qed

section \<open>The abstract book is well formed\<close>

lemma abs_of_sides:
  "s_bids (abs_of C b) = rows (base b) C (rev [0..<nat (best_bid_idx b + 1)])"
  "s_asks (abs_of C b) = rows (base b) C [nat (best_bid_idx b + 1)..<length (levels b)]"
  by (simp_all add: abs_of_def abs_at_def)

lemma sorted_wrt_rows:
  assumes "sorted_wrt (\<lambda>i j. R (bs + int i) (bs + int j)) is" "\<And>p. R p p"
  shows "sorted_wrt (\<lambda>x y. R (r_price x) (r_price y)) (rows bs C is)"
  using assms(1)
proof (induction "is")
  case (Cons i "is")
  have "sorted_wrt (\<lambda>x y. R (r_price x) (r_price y)) (row p cs)" for p cs
    by (induction cs) (auto simp: set_row assms(2))
  then show ?case using Cons by (auto simp: sorted_wrt_append rows_in set_row)
qed simp

lemma ids_rows: "r_id ` set (rows bs C is) = (\<Union>i \<in> set is. c_id ` set (C i))"
  by (simp add: set_rows set_row image_UN image_image)

lemma map_id_row [simp]: "map r_id (row p cs) = map c_id cs"
  by (simp add: row_def)

lemma distinct_ids_rows:
  assumes "distinct is" "\<And>i. i \<in> set is \<Longrightarrow> distinct (map c_id (C i))"
    and "\<And>i j c d. c \<in> set (C i) \<Longrightarrow> d \<in> set (C j) \<Longrightarrow> c_id c = c_id d \<Longrightarrow> i = j"
  shows "distinct (map r_id (rows bs C is))"
  using assms(1,2)
proof (induction "is")
  case (Cons i "is")
  have "c_id ` set (C i) \<inter> (\<Union>j \<in> set is. c_id ` set (C j)) = {}"
    using assms(3) Cons.prems(1) by fastforce
  then show ?case using Cons by (simp add: ids_rows)
qed simp

lemma distinct_level_ids:
  assumes "index_ok C b" "mem_inv C b"
  shows "distinct (map c_id (C i))"
proof (cases "i < length (levels b)")
  case True
  then have "distinct (C i)" using mem_inv_level(3) [OF assms(2)] by (simp add: distinct_map)
  then show ?thesis
    using index_unique [OF assms] by (auto simp: distinct_map inj_on_def)
qed (simp add: mem_inv_beyond [OF assms(2)])

lemma distinct_ids_of:
  assumes "index_ok C b" "mem_inv C b" "distinct is"
  shows "distinct (map r_id (rows bs C is))"
  by (rule distinct_ids_rows [OF assms(3) distinct_level_ids [OF assms(1,2)]])
     (use index_unique [OF assms(1,2)] in blast)

lemma abs_ids:
  assumes "mem_inv C b" "best_bid_idx b < int (length (levels b))"
  shows "resting_ids (abs_of C b) = (\<Union>i. c_id ` set (C i))"
proof -
  let ?s = "nat (best_bid_idx b + 1)" and ?L = "length (levels b)"
  have "?s \<le> ?L" using assms(2) by simp
  then have "{0..<?s} \<union> {?s..<?L} = {..<?L}" by auto
  moreover have "(\<Union>i. c_id ` set (C i)) = (\<Union>i \<in> {..<?L}. c_id ` set (C i))"
  proof (rule equalityI; rule subsetI)
    fix k assume "k \<in> (\<Union>i. c_id ` set (C i))"
    then obtain i where i: "k \<in> c_id ` set (C i)" by blast
    then have "i < ?L" using mem_inv_beyond [OF assms(1), of i] by (cases "i < ?L") auto
    then show "k \<in> (\<Union>i \<in> {..<?L}. c_id ` set (C i))" using i by blast
  qed blast
  ultimately show ?thesis
    by (simp only: resting_ids_def image_Un ids_rows abs_of_sides set_rev set_upt flip: UN_Un)
qed

lemma abs_ids_dom:
  assumes "book_inv C b"
  shows "resting_ids (abs_of C b) = dom (fhm_map (index b))"
proof -
  note D = book_invD [OF assms]
  have "k \<in> dom (fhm_map (index b)) \<longleftrightarrow> (\<exists>i. k \<in> c_id ` set (C i))" for k
  proof
    assume "k \<in> dom (fhm_map (index b))"
    then obtain e where "fhm_map (index b) k = Some e" by blast
    then show "\<exists>i. k \<in> c_id ` set (C i)" by (rule index_find [OF D(3)]) blast
  next
    assume "\<exists>i. k \<in> c_id ` set (C i)"
    then obtain i c where "c \<in> set (C i)" "k = c_id c" by blast
    then show "k \<in> dom (fhm_map (index b))" using index_lookup [OF D(3)] by blast
  qed
  then show ?thesis
    unfolding abs_ids [OF D(1) best_okD(2) [OF D(4)]] by (simp add: set_eq_iff)
qed

lemma abs_of_wf:
  assumes "book_inv C b"
  shows "wf_spec (abs_of C b)"
proof -
  note D = book_invD [OF assms]
  let ?s = "nat (best_bid_idx b + 1)" and ?L = "length (levels b)"
  have "sorted_wrt (\<lambda>i j. i < j) [?s..<?L]" by (rule sorted_wrt_upt)
  then have asks: "sorted_wrt (\<lambda>i j. base b + int i \<le> base b + int j) [?s..<?L]"
    by (rule sorted_wrt_mono_rel [rotated]) simp
  have "sorted_wrt (\<lambda>i j. j < i) (rev [0..<?s])"
    by (simp add: sorted_wrt_rev sorted_wrt_upt)
  then have bids: "sorted_wrt (\<lambda>i j. base b + int j \<le> base b + int i) (rev [0..<?s])"
    by (rule sorted_wrt_mono_rel [rotated]) simp
  have "distinct (map r_id (rows (base b) C (rev [0..<?s] @ [?s..<?L])))"
    by (rule distinct_ids_of [OF D(3,1)]) auto
  moreover have "uncrossed (abs_of C b)"
    by (auto simp: uncrossed_def abs_of_sides rows_in)
  ultimately show ?thesis
    using sorted_wrt_rows [of "\<lambda>p q. p \<le> q", OF asks] sorted_wrt_rows [of "\<lambda>p q. q \<le> p", OF bids]
    by (simp add: wf_spec_def priority_sorted_def better_def abs_of_sides)
qed

lemma depth_abs:
  assumes "book_inv C b"
  shows "depth b = length (s_bids (abs_of C b)) + length (s_asks (abs_of C b))"
proof -
  note D = book_invD [OF assms]
  have "depth b = card (resting_ids (abs_of C b))"
    unfolding depth_def fm.count_law [OF D(2)] abs_ids_dom [OF assms] ..
  also have "\<dots> = card (set (map r_id (s_bids (abs_of C b) @ s_asks (abs_of C b))))"
    by (simp add: resting_ids_def image_Un)
  also have "\<dots> = length (map r_id (s_bids (abs_of C b) @ s_asks (abs_of C b)))"
    by (rule distinct_card) (use abs_of_wf [OF assms] in \<open>simp add: wf_spec_def\<close>)
  finally show ?thesis by simp
qed

section \<open>Splitting a side at its best level\<close>

lemma bids_split:
  assumes "best_ok C b" "0 \<le> best_bid_idx b"
  shows "rev [0..<nat (best_bid_idx b + 1)] = nat (best_bid_idx b) # rev [0..<nat (best_bid_idx b)]"
proof -
  have "nat (best_bid_idx b + 1) = Suc (nat (best_bid_idx b))" using assms(2) by simp
  then show ?thesis by simp
qed

lemma asks_split:
  assumes "best_ok C b" "0 \<le> best_ask_idx b"
  shows "rows bs C [nat (best_bid_idx b + 1)..<length (levels b)] =
    rows bs C (nat (best_ask_idx b) # [Suc (nat (best_ask_idx b))..<length (levels b)])"
proof -
  note B = best_okD [OF assms(1)]
  let ?s = "nat (best_bid_idx b + 1)" and ?a = "nat (best_ask_idx b)" and ?L = "length (levels b)"
  have le: "?s \<le> ?a" "?a < ?L" using B(1,4,6) assms(2) by simp_all
  then have "[?s..<?L] = [?s..<?a] @ ?a # [Suc ?a..<?L]"
    using upt_add_eq_append [of ?s ?a "?L - ?a"] by (simp add: upt_conv_Cons)
  moreover have "rows bs C [?s..<?a] = []"
    using B(1,8) assms(2) by (intro rows_empty) (auto simp: nat_le_iff zless_nat_eq_int_zless)
  ultimately show ?thesis by simp
qed

lemma asks_none:
  assumes "best_ok C b" "best_ask_idx b < 0"
  shows "rows bs C [nat (best_bid_idx b + 1)..<length (levels b)] = []"
  using best_okD(8) [OF assms(1)] assms(2) by (intro rows_empty) (auto simp: nat_le_iff)

lemma abs_empty_iff:
  assumes "best_ok C b"
  shows "s_bids (abs_of C b) = [] \<longleftrightarrow> best_bid_idx b < 0" "s_asks (abs_of C b) = [] \<longleftrightarrow> best_ask_idx b < 0"
proof -
  show "s_bids (abs_of C b) = [] \<longleftrightarrow> best_bid_idx b < 0"
    using bids_split [OF assms] best_okD(5) [OF assms]
    by (cases "best_bid_idx b < 0") (simp_all add: abs_of_sides)
  show "s_asks (abs_of C b) = [] \<longleftrightarrow> best_ask_idx b < 0"
    using asks_split [OF assms] asks_none [OF assms] best_okD(7) [OF assms]
    by (cases "best_ask_idx b < 0") (simp_all add: abs_of_sides)
qed

lemma best_prices:
  assumes "best_ok C b"
  shows "best_bid b = (case s_bids (abs_of C b) of [] \<Rightarrow> 0 | r # _ \<Rightarrow> r_price r)"
    "best_ask b = (case s_asks (abs_of C b) of [] \<Rightarrow> 0 | r # _ \<Rightarrow> r_price r)"
proof -
  show "best_bid b = (case s_bids (abs_of C b) of [] \<Rightarrow> 0 | r # _ \<Rightarrow> r_price r)"
    using bids_split [OF assms] best_okD(5) [OF assms] abs_empty_iff(1) [OF assms]
    by (cases "C (nat (best_bid_idx b))"; cases "best_bid_idx b < 0") (simp_all add: abs_of_sides best_bid_def)
  show "best_ask b = (case s_asks (abs_of C b) of [] \<Rightarrow> 0 | r # _ \<Rightarrow> r_price r)"
    using asks_split [OF assms] best_okD(7) [OF assms] abs_empty_iff(2) [OF assms]
    by (cases "C (nat (best_ask_idx b))"; cases "best_ask_idx b < 0") (simp_all add: abs_of_sides best_ask_def)
qed

end
