(* ===== verification/Book_V2_Refine.thy ===== *)
theory Book_V2_Refine
  imports Book_V2_Abs
begin

text \<open>
  \<open>OrderBookV2\<close> implements the price-time priority book of \<open>Book_Spec\<close>: every operation returns
  (no loop runs forever), keeps the class invariant, and commutes with the abstraction.
\<close>

section \<open>Matching\<close>

lemma spec_match_True_row:
  "spec_match (\<lambda>_. True) tid q (row p (c # cs)) =
     (if q = 0 then (row p (c # cs), [], q)
      else if c_qty c \<le> q then
        (case spec_match (\<lambda>_. True) tid (q - c_qty c) (row p cs) of (rs', ts, q') \<Rightarrow>
           (rs', \<lparr>maker_id = c_id c, taker_id = tid, trade_price = p, trade_qty = c_qty c\<rparr> # ts, q'))
      else (row p (Cell (c_node c) (c_id c) (c_qty c - q) # cs),
            [\<lparr>maker_id = c_id c, taker_id = tid, trade_price = p, trade_qty = q\<rparr>], 0))"
  by simp

lemma match_level_ok:
  assumes "mem_inv C b" "fhm_inv (index b)" "index_ok C b" "i < length (levels b)"
  shows "\<exists>cs' ts q' b'.
    match_level (int i) p b taker trades = Some (b', taker\<lparr>req_qty := q'\<rparr>, trades @ ts) \<and>
    spec_match (\<lambda>_. True) (req_id taker) (req_qty taker) (row p (C i)) = (row p cs', ts, q') \<and>
    mem_inv (C(i := cs')) b' \<and> fhm_inv (index b') \<and> index_ok (C(i := cs')) b' \<and> same_axis b b'"
  using assms
proof (induction "C i" arbitrary: C b taker trades)
  case Nil
  have "l_head (level_at b (int i)) = kNil" using mem_inv_head [OF Nil(2,5)] Nil(1) by simp
  moreover have "C(i := []) = C" using Nil(1) by auto
  ultimately show ?case
    using Nil by (intro exI [of _ "[]"] exI [of _ "req_qty taker"] exI [of _ b])
      (subst match_level.simps, simp)
next
  case (Cons c cs)
  note Ci = Cons(2) [symmetric]
  note lv = mem_inv_level [OF Cons(3,6), unfolded Ci]
  have at: "l_head (levels b ! i) = c_node c" "n_qty (arena b ! unat (c_node c)) = c_qty c"
    "n_id (arena b ! unat (c_node c)) = c_id c" "c_node c \<noteq> kNil"
    using lv mem_inv_node_not_nil [OF Cons(3,6)] by (auto simp: Ci)
  let ?q = "req_qty taker"
  let ?fill = "min ?q (c_qty c)"
  let ?b1 = "fill_head (int i) ?fill b"
  let ?c1 = "Cell (c_node c) (c_id c) (c_qty c - ?fill)"
  let ?taker1 = "taker\<lparr>req_qty := ?q - ?fill\<rparr>"
  let ?t = "\<lparr>maker_id = c_id c, taker_id = req_id taker, trade_price = p, trade_qty = ?fill\<rparr>"
  have mem1: "mem_inv (C(i := ?c1 # cs)) ?b1" by (rule fill_head_ok [OF Cons(3,6) Ci])
  have ax1: "same_axis b ?b1" "index ?b1 = index b" "best_bid_idx ?b1 = best_bid_idx b"
    by (simp_all add: fill_head_def same_axis_def)
  have ix1: "index_ok (C(i := ?c1 # cs)) ?b1"
    using index_ok_set_qty [OF Cons(5), of i "[]" c cs ?b1] Ci ax1 by simp
  have i1: "i < length (levels ?b1)" using Cons(6) ax1(1) by (simp add: same_axis_def)
  show ?case
  proof (cases "0 < ?q")
    case False
    then have z: "?q = 0" using word_zero_or_pos [of ?q] by blast
    have "match_level (int i) p b taker trades = Some (b, taker, trades)"
      using False by (subst match_level.simps) simp
    moreover have "C(i := C i) = C" "taker\<lparr>req_qty := 0\<rparr> = taker"
      using z by (simp_all add: req_qty_same)
    ultimately show ?thesis
      using Cons(3-6) z
      by (intro exI [of _ "C i"] exI [of _ "[]"] exI [of _ 0] exI [of _ b]) simp
  next
    case pos: True
    have step: "match_level (int i) p b taker trades =
        (if c_qty c - ?fill = 0
         then do { b2 \<leftarrow> pop_head (int i) ?b1; match_level (int i) p b2 ?taker1 (trades @ [?t]) }
         else match_level (int i) p ?b1 ?taker1 (trades @ [?t]))"
      using pos at by (subst match_level.simps) (simp add: Let_def)
    show ?thesis
    proof (cases "c_qty c \<le> ?q")
      case True
      then have f: "?fill = c_qty c" by simp
      obtain b2 where b2: "pop_head (int i) ?b1 = Some b2" "mem_inv (C(i := cs)) b2"
          "fhm_inv (index b2)" "fhm_map (index b2) = (fhm_map (index ?b1))(c_id c := None)"
          "same_axis ?b1 b2"
        using pop_head_ok [OF mem1 i1, of ?c1 cs] Cons(4) ax1(2) f by auto
      have ix2: "index_ok (C(i := cs)) b2"
        using index_ok_remove [OF ix1 mem1, of i "[]" ?c1 cs b2] b2(4,5)
        by (simp add: same_axis_def)
      have i2: "i < length (levels b2)" using i1 b2(5) by (simp add: same_axis_def)
      obtain cs' ts q' b' where r:
        "match_level (int i) p b2 ?taker1 (trades @ [?t]) = Some (b', ?taker1\<lparr>req_qty := q'\<rparr>, (trades @ [?t]) @ ts)"
        "spec_match (\<lambda>_. True) (req_id ?taker1) (req_qty ?taker1) (row p cs) = (row p cs', ts, q')"
        "mem_inv (C(i := cs')) b'" "fhm_inv (index b')" "index_ok (C(i := cs')) b'" "same_axis b2 b'"
        using Cons(1) [of "C(i := cs)" b2 ?taker1 "trades @ [?t]"] b2(2,3) ix2 i2 by auto
      have "match_level (int i) p b taker trades = Some (b', taker\<lparr>req_qty := q'\<rparr>, trades @ ?t # ts)"
        using step f b2(1) r(1) by simp
      moreover have "spec_match (\<lambda>_. True) (req_id taker) ?q (row p (C i)) = (row p cs', ?t # ts, q')"
        using r(2) pos True f unfolding Ci spec_match_True_row by simp
      moreover have "same_axis b b'"
        by (rule same_axis_trans [OF ax1(1) same_axis_trans [OF b2(5) r(6)]])
      ultimately show ?thesis
        using r(3-5) by (intro exI [of _ cs'] exI [of _ "?t # ts"] exI [of _ q'] exI [of _ b']) simp
    next
      case False
      then have f: "?fill = ?q" "c_qty c - ?q \<noteq> 0" by auto
      have "match_level (int i) p b taker trades = Some (?b1, taker\<lparr>req_qty := 0\<rparr>, trades @ [?t])"
        unfolding step using f by (simp, subst match_level.simps) simp
      moreover have "spec_match (\<lambda>_. True) (req_id taker) ?q (row p (C i)) = (row p (?c1 # cs), [?t], 0)"
        using pos False f unfolding Ci spec_match_True_row by simp
      ultimately show ?thesis
        using mem1 Cons(4) ix1 ax1
        by (intro exI [of _ "?c1 # cs"] exI [of _ "[?t]"] exI [of _ 0] exI [of _ ?b1]) simp
    qed
  qed
qed

definition opp_idx :: "side \<Rightarrow> book \<Rightarrow> int" where
  "opp_idx sd b = (if sd = Buy then best_ask_idx b else best_bid_idx b)"

lemma opp_split:
  assumes inv: "book_inv C b" and idx: "0 \<le> opp_idx sd b"
  defines "i \<equiv> nat (opp_idx sd b)"
  obtains rest where "C i \<noteq> []" "i < length (levels b)" "int i = opp_idx sd b"
    "s_side (opposite sd) (abs_of C b) = row (base b + int i) (C i) @ rest"
    "\<And>cs. abs_at (base b) (length (levels b)) (nat (best_bid_idx b + 1)) (C(i := cs)) =
      set_side (opposite sd) (row (base b + int i) cs @ rest) (abs_of C b)"
proof (cases sd)
  case Buy
  note B = book_invD(4) [OF inv] and D = best_okD [OF book_invD(4) [OF inv]]
  let ?s = "nat (best_bid_idx b + 1)" and ?L = "length (levels b)"
  have i: "i = nat (best_ask_idx b)" "0 \<le> best_ask_idx b" using Buy idx by (simp_all add: i_def opp_idx_def)
  then have le: "?s \<le> i" "i < ?L" using D(1,4,6) by simp_all
  then have "[?s..<?L] = [?s..<i] @ i # [Suc i..<?L]"
    using upt_add_eq_append [of ?s i "?L - i"] by (simp add: upt_conv_Cons)
  moreover have "rows bs C [?s..<i] = []" for bs
    using D(1,8) i by (intro rows_empty) (auto simp: nat_le_iff zless_nat_eq_int_zless)
  ultimately have split: "rows bs (C(i := cs)) [?s..<?L] =
      row (bs + int i) cs @ rows bs C [Suc i..<?L]" for bs cs
    by simp
  show ?thesis
  proof (rule that [of "rows (base b) C [Suc i..<?L]"])
    show "C i \<noteq> []" using D(7) i by simp
    show "s_side (opposite sd) (abs_of C b) = row (base b + int i) (C i) @ rows (base b) C [Suc i..<?L]"
      using split [of "base b" "C i"] Buy by (simp add: abs_of_sides)
    show "abs_at (base b) ?L ?s (C(i := cs)) =
        set_side (opposite sd) (row (base b + int i) cs @ rows (base b) C [Suc i..<?L]) (abs_of C b)" for cs
      using split [of "base b" cs] le Buy by (simp add: abs_of_def abs_at_def)
  qed (use le i Buy in \<open>simp_all add: opp_idx_def\<close>)
next
  case Sell
  note B = book_invD(4) [OF inv] and D = best_okD [OF book_invD(4) [OF inv]]
  let ?s = "nat (best_bid_idx b + 1)" and ?L = "length (levels b)"
  have i: "i = nat (best_bid_idx b)" "0 \<le> best_bid_idx b" using Sell idx by (simp_all add: i_def opp_idx_def)
  have split: "rev [0..<?s] = i # rev [0..<i]" using bids_split [OF B i(2)] i(1) by simp
  have "i < ?s" using i by simp
  then have keep: "rows bs (C(i := cs)) [?s..<?L] = rows bs C [?s..<?L]" for bs cs by simp
  show ?thesis
  proof (rule that [of "rows (base b) C (rev [0..<i])"])
    show "C i \<noteq> []" using D(5) i by simp
    show "s_side (opposite sd) (abs_of C b) = row (base b + int i) (C i) @ rows (base b) C (rev [0..<i])"
      using split Sell by (simp add: abs_of_sides)
    show "abs_at (base b) ?L ?s (C(i := cs)) =
        set_side (opposite sd) (row (base b + int i) cs @ rows (base b) C (rev [0..<i])) (abs_of C b)" for cs
      using split keep Sell by (simp add: abs_of_def abs_at_def)
  qed (use D(2) i Sell in \<open>simp_all add: opp_idx_def\<close>)
qed

text \<open>What matching never touches.\<close>

definition same_shape :: "book \<Rightarrow> book \<Rightarrow> bool" where
  "same_shape b b' \<longleftrightarrow>
     length (levels b') = length (levels b) \<and> base b' = base b \<and> have_base b' = have_base b \<and>
     initial_window b' = initial_window b \<and> level_array_growths b' = level_array_growths b \<and>
     arena_capacity b' = arena_capacity b"

lemma same_shape_refl [simp]: "same_shape b b"
  by (simp add: same_shape_def)

lemma same_shape_trans: "same_shape a b \<Longrightarrow> same_shape b c \<Longrightarrow> same_shape a c"
  by (simp add: same_shape_def)

lemma same_shape_settle: "same_axis b b' \<Longrightarrow> same_shape b (settle i b')"
  by (simp add: same_axis_def same_shape_def settle_def advance_bid_def advance_ask_def Let_def)

lemma match_order_ok:
  assumes "book_inv C b"
  shows "\<exists>C' ts q' b'.
    match_order b taker trades = Some (b', taker\<lparr>req_qty := q'\<rparr>, trades @ ts) \<and>
    spec_take (req_id taker) (req_side taker) (req_type taker) (req_price taker) (req_qty taker)
      (abs_of C b) = (abs_of C' b', ts, q') \<and>
    book_inv C' b' \<and> same_shape b b'"
  using assms
proof (induction "length (s_side (opposite (req_side taker)) (abs_of C b))"
    arbitrary: C b taker trades rule: less_induct)
  case less
  let ?sd = "req_side taker" and ?q = "req_qty taker" and ?S = "abs_of C b"
  let ?cr = "crosses ?sd (req_type taker) (req_price taker)"
  have stay: ?case
    if "match_order b taker trades = Some (b, taker, trades)"
      "spec_match ?cr (req_id taker) ?q (s_side (opposite ?sd) ?S) = (s_side (opposite ?sd) ?S, [], ?q)"
    using that less(2)
    by (intro exI [of _ C] exI [of _ "[]"] exI [of _ ?q] exI [of _ b])
       (simp add: spec_take_def req_qty_same)
  consider "?q = 0" | "0 < ?q" "opp_idx ?sd b < 0" | "0 < ?q" "0 \<le> opp_idx ?sd b"
    using word_gt_0 [of ?q] by (cases "?q = 0"; cases "opp_idx ?sd b < 0") simp_all
  then show ?case
  proof cases
    case 1
    then show ?thesis by (intro stay) (subst match_order.simps, simp_all)
  next
    case 2
    then have "s_side (opposite ?sd) ?S = []"
      using abs_empty_iff [OF book_invD(4) [OF less(2)]] by (cases ?sd) (simp_all add: opp_idx_def)
    moreover have "match_order b taker trades = Some (b, taker, trades)"
      using 2 by (subst match_order.simps) (simp add: Let_def opp_idx_def)
    ultimately show ?thesis by (intro stay) simp_all
  next
    case 3
    define i where "i = nat (opp_idx ?sd b)"
    from opp_split [OF less(2) 3(2)] obtain rest where
      sp: "C i \<noteq> []" "i < length (levels b)" "int i = opp_idx ?sd b"
        "s_side (opposite ?sd) ?S = row (base b + int i) (C i) @ rest"
        "\<And>cs. abs_at (base b) (length (levels b)) (nat (best_bid_idx b + 1)) (C(i := cs)) =
          set_side (opposite ?sd) (row (base b + int i) cs @ rest) ?S"
      unfolding i_def by metis
    let ?p = "base b + int i"
    show ?thesis
    proof (cases "?cr ?p")
      case False
      then have "match_order b taker trades = Some (b, taker, trades)"
        using 3 sp(3) by (subst match_order.simps) (auto simp: Let_def opp_idx_def crosses_def)
      moreover have "spec_match ?cr (req_id taker) ?q (s_side (opposite ?sd) ?S) =
          (s_side (opposite ?sd) ?S, [], ?q)"
        unfolding sp(4) using False sp(1) by (intro spec_match_stop) (cases "C i"; simp)+
      ultimately show ?thesis by (rule stay)
    next
      case True
      note D = book_invD [OF less(2)]
      obtain cs' ts q1 b1 where r:
        "match_level (int i) ?p b taker trades = Some (b1, taker\<lparr>req_qty := q1\<rparr>, trades @ ts)"
        "spec_match (\<lambda>_. True) (req_id taker) ?q (row ?p (C i)) = (row ?p cs', ts, q1)"
        "mem_inv (C(i := cs')) b1" "fhm_inv (index b1)" "index_ok (C(i := cs')) b1" "same_axis b b1"
        using match_level_ok [OF D(1-3) sp(2)] by blast
      let ?b2 = "settle i b1" and ?C2 = "C(i := cs')" and ?t2 = "taker\<lparr>req_qty := q1\<rparr>"
      note S = settle_ok [OF less(2) sp(1) r(3-6), unfolded sp(5)]
      have adv: "(if l_head (level_at b1 (opp_idx ?sd b)) = kNil
          then (if ?sd = Buy then advance_ask b1 else advance_bid b1) else b1) = ?b2"
        using sp(3) 3(2) best_okD(6) [OF D(4)] r(6) level_at_int [of b1 i]
        by (cases ?sd) (simp_all add: settle_def opp_idx_def same_axis_def)
      have step: "match_order b taker trades = match_order ?b2 ?t2 (trades @ ts)"
        using 3 True r(1) sp(3) adv
        by (subst match_order.simps) (auto simp: Let_def opp_idx_def crosses_def)
      have shape: "same_shape b ?b2" by (rule same_shape_settle [OF r(6)])
      have spec: "spec_match ?cr (req_id taker) ?q (s_side (opposite ?sd) ?S) =
          (if cs' = [] then case spec_match ?cr (req_id taker) q1 rest of
             (ys', ts', q'') \<Rightarrow> (ys', ts @ ts', q'') else (row ?p cs' @ rest, ts, q1))"
        unfolding sp(4) using True r(2) by (subst spec_match_append) (auto simp: set_row)
      show ?thesis
      proof (cases "cs' = []")
        case nonempty: False
        then have "q1 = 0" using spec_match_rest_zero [OF r(2)] by simp
        then have "match_order b taker trades = Some (?b2, ?t2, trades @ ts)"
          unfolding step by (subst match_order.simps) simp
        then show ?thesis
          using S spec nonempty shape
          by (intro exI [of _ ?C2] exI [of _ ts] exI [of _ q1] exI [of _ ?b2]) (simp add: spec_take_def)
      next
        case empty: True
        have rest: "s_side (opposite ?sd) (abs_of ?C2 ?b2) = rest" using S(2) empty by simp
        then have "length (s_side (opposite (req_side ?t2)) (abs_of ?C2 ?b2)) <
            length (s_side (opposite ?sd) ?S)"
          using sp(1,4) by simp
        from less(1) [OF this S(1), of "trades @ ts"] obtain C' ts' q' b' where
          "match_order ?b2 ?t2 (trades @ ts) = Some (b', ?t2\<lparr>req_qty := q'\<rparr>, (trades @ ts) @ ts')"
          "spec_take (req_id taker) ?sd (req_type taker) (req_price taker) q1 (abs_of ?C2 ?b2) =
            (abs_of C' b', ts', q')"
          "book_inv C' b'" "same_shape ?b2 b'"
          by auto
        then show ?thesis
          using step spec empty rest same_shape_trans [OF shape] S(2)
          by (intro exI [of _ C'] exI [of _ "ts @ ts'"] exI [of _ q'] exI [of _ b'])
             (auto simp: spec_take_def split: prod.splits)
      qed
    qed
  qed
qed

section \<open>Cancel and reduce\<close>

lemma rows_hom:
  assumes "f [] = []" "\<And>xs ys. f (xs @ ys) = f xs @ f ys"
    and "\<And>j. row (bs + int j) (C' j) = f (row (bs + int j) (C j))"
  shows "rows bs C' is = f (rows bs C is)"
  by (induction "is") (simp_all add: assms)

lemma not_resting_row:
  assumes "k \<notin> c_id ` set cs"
  shows "filter (\<lambda>x. r_id x \<noteq> k) (row p cs) = row p cs" "reduce_list k d (row p cs) = row p cs"
  using assms by (induction cs) (auto simp: reduce_list_def)

lemma reduce_list_append [simp]:
  "reduce_list k d [] = []" "reduce_list k d (xs @ ys) = reduce_list k d xs @ reduce_list k d ys"
  by (simp_all add: reduce_list_def)

lemma ids_in_level:
  assumes "book_inv C b" "C i = as @ c # bs"
  shows "c_id c \<notin> c_id ` set as" "c_id c \<notin> c_id ` set bs" "j \<noteq> i \<Longrightarrow> c_id c \<notin> c_id ` set (C j)"
proof -
  note D = book_invD [OF assms(1)]
  show "c_id c \<notin> c_id ` set as" "c_id c \<notin> c_id ` set bs"
    using distinct_level_ids [OF D(3,1), of i] by (auto simp: assms(2))
  show "c_id c \<notin> c_id ` set (C j)" if "j \<noteq> i"
    using index_unique [OF D(3,1), of c i _ j] that by (auto simp: assms(2))
qed

lemma abs_remove:
  assumes "book_inv C b" "C i = as @ c # bs"
  shows "abs_at (base b) (length (levels b)) (nat (best_bid_idx b + 1)) (C(i := as @ bs)) =
    spec_cancel (c_id c) (abs_of C b)"
proof -
  note un = ids_in_level [OF assms]
  have "row p ((C(i := as @ bs)) j) = filter (\<lambda>x. r_id x \<noteq> c_id c) (row p (C j))" for j p
    using un(3) [of j] not_resting_row(1) [OF un(1)] not_resting_row(1) [OF un(2)] assms(2)
    by (cases "j = i") (simp_all add: not_resting_row)
  then have "rows bs' (C(i := as @ bs)) is = filter (\<lambda>x. r_id x \<noteq> c_id c) (rows bs' C is)" for bs' "is"
    by (intro rows_hom) simp_all
  then show ?thesis by (simp add: abs_at_def abs_of_def spec_cancel_def)
qed

lemma spec_cancel_absent: "\<not> is_resting k s \<Longrightarrow> spec_cancel k s = s"
  by (cases s) (auto simp: spec_cancel_def is_resting_def filter_id_conv)

lemma book_cancel_ok:
  assumes inv: "book_inv C b"
  shows "\<exists>C' b'. book_cancel b k = Some (b', is_resting k (abs_of C b)) \<and> book_inv C' b' \<and>
    abs_of C' b' = spec_cancel k (abs_of C b) \<and> same_shape b b'"
proof (cases "fhm_map (index b) k")
  case None
  then have "\<not> is_resting k (abs_of C b)"
    using abs_ids_dom [OF inv] by (auto simp: is_resting_iff)
  moreover have "book_cancel b k = Some (b, False)"
    using fm.find_law [OF book_invD(2) [OF inv], of k] None by (simp add: book_cancel_def)
  ultimately show ?thesis
    using inv spec_cancel_absent [of k "abs_of C b"] by (intro exI [of _ C] exI [of _ b]) simp
next
  case (Some e)
  note D = book_invD [OF inv]
  from index_find [OF D(3) Some] obtain i c where
    ic: "c \<in> set (C i)" "c_id c = k" "e = entry_for (best_bid_idx b) i c" .
  obtain as bs where C: "C i = as @ c # bs" using ic(1) split_list by metis
  have i: "i < length (levels b)" using mem_inv_beyond [OF D(1), of i] C by (cases "i < length (levels b)") auto
  let ?b1 = "free_node (c_node c) (unlink_node (int i) (c_node c) b)"
  have mem1: "mem_inv (C(i := as @ bs)) ?b1" by (rule unlink_node_ok [OF D(1) i C])
  have b1: "index ?b1 = index b" "same_axis b ?b1"
    by (simp_all add: free_node_def unlink_node_def Let_def same_axis_def)
  obtain ix where ix: "fhm_erase (index b) k = Some (ix, True)" "fhm_inv ix"
      "fhm_map ix = (fhm_map (index b))(k := None)"
    using fm.erase_obtain [OF D(2), of k] Some by auto
  let ?b2 = "?b1\<lparr>index := ix\<rparr>"
  have ax2: "same_axis b ?b2" using b1(2) by simp
  have ix2: "index_ok (C(i := as @ bs)) ?b2"
    by (rule index_ok_remove [OF D(3,1) C]) (use ix(3) ic(2) ax2 in \<open>simp_all add: same_axis_def\<close>)
  have ci: "C i \<noteq> []" using C by simp
  note S = settle_ok [OF inv ci _ _ ix2 ax2]
  have ba: "int i = best_ask_idx b \<Longrightarrow> \<not> int i \<le> best_bid_idx b"
    using best_okD(6) [OF D(4)] by simp
  have "book_cancel b k = Some (settle i ?b2, True)"
    using fm.find_law [OF D(2), of k] Some ic(3) ix(1) b1(1) ba ax2 level_at_int [of ?b2 i]
    by (auto simp: book_cancel_def entry_for_def Let_def settle_def same_axis_def)
  moreover have "is_resting k (abs_of C b)"
    using abs_ids_dom [OF inv] Some by (auto simp: is_resting_iff)
  ultimately show ?thesis
    using S mem1 ix(2) abs_remove [OF inv C] ic(2) same_shape_settle [OF ax2]
    by (intro exI [of _ "C(i := as @ bs)"] exI [of _ "settle i ?b2"]) simp
qed

lemma abs_set_qty:
  assumes "book_inv C b" "C i = as @ c # bs" "\<not> c_qty c \<le> d"
  shows "abs_at (base b) (length (levels b)) (nat (best_bid_idx b + 1))
      (C(i := as @ Cell (c_node c) (c_id c) (c_qty c - d) # bs)) = spec_reduce (c_id c) d (abs_of C b)"
proof -
  note un = ids_in_level [OF assms(1,2)]
  let ?C = "C(i := as @ Cell (c_node c) (c_id c) (c_qty c - d) # bs)"
  have one: "reduce_list (c_id c) d (Resting (c_id c) p (c_qty c) # xs) =
      Resting (c_id c) p (c_qty c - d) # reduce_list (c_id c) d xs" for p :: int and xs
    using assms(3) by (simp add: reduce_list_def)
  have "row p (?C j) = reduce_list (c_id c) d (row p (C j))" for j p
    using un(3) [of j] not_resting_row(2) [OF un(1)] not_resting_row(2) [OF un(2)] assms(2)
    by (cases "j = i") (simp_all add: not_resting_row one)
  then have "rows bs' ?C is = reduce_list (c_id c) d (rows bs' C is)" for bs' "is"
    by (intro rows_hom) simp_all
  then show ?thesis by (simp add: abs_at_def abs_of_def spec_reduce_def)
qed

lemma reduce_list_cancel:
  assumes "\<And>x. x \<in> set xs \<Longrightarrow> r_id x = k \<Longrightarrow> r_qty x \<le> d"
  shows "reduce_list k d xs = filter (\<lambda>x. r_id x \<noteq> k) xs"
proof -
  have "filter (\<lambda>x. \<not> (r_id x = k \<and> r_qty x \<le> d)) xs = filter (\<lambda>x. r_id x \<noteq> k) xs"
    using assms by (intro filter_cong) auto
  then show ?thesis by (auto simp: reduce_list_def intro: map_idI)
qed

lemma abs_member:
  assumes "r \<in> set (s_bids (abs_of C b)) \<union> set (s_asks (abs_of C b))"
  obtains i c where "c \<in> set (C i)" "r = Resting (c_id c) (base b + int i) (c_qty c)"
  using assms by (auto simp: abs_of_sides rows_in)

lemma spec_reduce_absent: "\<not> is_resting k s \<Longrightarrow> spec_reduce k d s = s"
proof -
  assume a: "\<not> is_resting k s"
  have "reduce_list k d xs = xs" if "\<forall>x \<in> set xs. r_id x \<noteq> k" for xs :: "'a resting list"
    using that by (induction xs) (simp_all add: reduce_list_def)
  then show "spec_reduce k d s = s" using a by (cases s) (auto simp: spec_reduce_def is_resting_def)
qed

lemma book_reduce_ok:
  assumes inv: "book_inv C b"
  shows "\<exists>C' b'. book_reduce b k d = Some (b', is_resting k (abs_of C b)) \<and> book_inv C' b' \<and>
    abs_of C' b' = spec_reduce k d (abs_of C b) \<and> same_shape b b'"
proof (cases "fhm_map (index b) k")
  case None
  then have "\<not> is_resting k (abs_of C b)"
    using abs_ids_dom [OF inv] by (auto simp: is_resting_iff)
  moreover have "book_reduce b k d = Some (b, False)"
    using fm.find_law [OF book_invD(2) [OF inv], of k] None by (simp add: book_reduce_def)
  ultimately show ?thesis
    using inv spec_reduce_absent [of k "abs_of C b"] by (intro exI [of _ C] exI [of _ b]) simp
next
  case (Some e)
  note D = book_invD [OF inv]
  from index_find [OF D(3) Some] obtain i c where
    ic: "c \<in> set (C i)" "c_id c = k" "e = entry_for (best_bid_idx b) i c" .
  obtain as bs where C: "C i = as @ c # bs" using ic(1) split_list by metis
  have i: "i < length (levels b)" using mem_inv_beyond [OF D(1), of i] C by (cases "i < length (levels b)") auto
  have at: "n_qty (arena b ! unat (c_node c)) = c_qty c"
    using mem_inv_level(1) [OF D(1) i] by (simp add: C chain_append)
  have rest: "is_resting k (abs_of C b)"
    using abs_ids_dom [OF inv] Some by (auto simp: is_resting_iff)
  show ?thesis
  proof (cases "c_qty c \<le> d")
    case True
    have "r_qty x \<le> d" if "x \<in> set (s_bids (abs_of C b)) \<union> set (s_asks (abs_of C b))" "r_id x = k" for x
      using abs_member [OF that(1)] index_unique [OF D(3,1) ic(1)] ic(2) that(2) True by (metis resting.sel(1,3))
    then have "spec_reduce k d (abs_of C b) = spec_cancel k (abs_of C b)"
      by (simp add: spec_reduce_def spec_cancel_def reduce_list_cancel)
    moreover have "book_reduce b k d = book_cancel b k"
      using fm.find_law [OF D(2), of k] Some ic(3) True at by (simp add: book_reduce_def entry_for_def)
    ultimately show ?thesis using book_cancel_ok [OF inv, of k] by simp
  next
    case False
    let ?b1 = "upd_level (\<lambda>l. l\<lparr>l_total := l_total l - d\<rparr>) (int i)
      (upd_node (\<lambda>n. n\<lparr>n_qty := n_qty n - d\<rparr>) (c_node c) b)"
    let ?C1 = "C(i := as @ Cell (c_node c) (c_id c) (c_qty c - d) # bs)"
    have ax: "same_axis b ?b1" by (simp add: same_axis_def)
    have mem: "mem_inv ?C1 ?b1" by (rule set_qty_ok [OF D(1) i C])
    have ix: "index_ok ?C1 ?b1" by (rule index_ok_set_qty [OF D(3) C]) simp_all
    have ci: "C i \<noteq> []" using C by simp
    have ix': "fhm_inv (index ?b1)" using D(2) by simp
    have "settle i ?b1 = ?b1"
      using mem_inv_head [OF mem, of i] i by (simp add: settle_def)
    moreover have "book_reduce b k d = Some (?b1, True)"
      using fm.find_law [OF D(2), of k] Some ic(3) False at by (simp add: book_reduce_def entry_for_def)
    ultimately show ?thesis
      using settle_ok [OF inv ci mem ix' ix ax] abs_set_qty [OF inv C False] ic(2) rest
        same_shape_settle [OF ax, of i]
      by (intro exI [of _ ?C1] exI [of _ ?b1]) simp
  qed
qed

section \<open>The fill-or-kill pre-check\<close>

lemma total_qty_row:
  assumes "total_qty (row p cs) < 2 ^ 64"
  shows "unat (sum_list (map c_qty cs)) = total_qty (row p cs)"
proof -
  have "total_qty (row p cs) = sum_list (map unat (map c_qty cs))"
    by (simp add: total_qty_def row_def comp_def)
  then show ?thesis using unat_sum_list [of "map c_qty cs"] assms by simp
qed

lemma takeWhile_row:
  "takeWhile (\<lambda>x. P (r_price x)) (row p cs @ xs) =
     (if P p then row p cs @ takeWhile (\<lambda>x. P (r_price x)) xs
      else if cs = [] then takeWhile (\<lambda>x. P (r_price x)) xs else [])"
  by (induction cs) auto

lemma fill_up_ok:
  assumes "\<And>i. i < length ls \<Longrightarrow> ls ! i = level_of (C i)"
    and "unat available + total_qty (rows bs C [idx..<length ls]) < 2 ^ 64"
    and "available < q"
  shows "fill_up ls bs price q (int idx) available \<longleftrightarrow>
    unat q \<le> unat available + total_qty (takeWhile (\<lambda>x. r_price x \<le> price) (rows bs C [idx..<length ls]))"
  using assms
proof (induction "length ls - idx" arbitrary: idx available)
  case 0
  then show ?case by (subst fill_up.simps) (simp add: word_less_nat_alt)
next
  case (Suc n)
  then have idx: "idx < length ls" by simp
  let ?rest = "rows bs C [Suc idx..<length ls]" and ?row = "row (bs + int idx) (C idx)"
  have split: "rows bs C [idx..<length ls] = ?row @ ?rest" using idx by (simp add: upt_conv_Cons)
  let ?t = "sum_list (map c_qty (C idx))"
  have t: "l_total (ls ! idx) = ?t" using Suc(3) idx by simp
  have u: "unat ?t = total_qty ?row" using Suc(4) by (intro total_qty_row) (simp add: split)
  have add: "unat (available + ?t) = unat available + unat ?t"
    "q \<le> available + ?t \<longleftrightarrow> unat q \<le> unat available + unat ?t"
    using add_le_step [of available ?t] Suc(4) by (simp_all add: split u)
  show ?case
  proof (cases "price < bs + int idx")
    case True
    then have "takeWhile (\<lambda>x. r_price x \<le> price) (rows bs C [idx..<length ls]) = []"
      by (intro takeWhile_none) (auto simp: rows_in)
    then show ?thesis
      using True idx Suc(5) by (subst fill_up.simps) (simp add: word_less_nat_alt)
  next
    case False
    have tw: "takeWhile (\<lambda>x. r_price x \<le> price) (rows bs C [idx..<length ls]) =
        ?row @ takeWhile (\<lambda>x. r_price x \<le> price) ?rest"
      unfolding split takeWhile_row [where P = "\<lambda>p. p \<le> price"] using False by simp
    have step: "fill_up ls bs price q (int idx) available \<longleftrightarrow>
        q \<le> available + ?t \<or> fill_up ls bs price q (int (Suc idx)) (available + ?t)"
      using False idx t by (subst fill_up.simps) (simp add: algebra_simps)
    show ?thesis
    proof (cases "q \<le> available + ?t")
      case True
      then show ?thesis using step add u tw by simp
    next
      case nle: False
      then show ?thesis
        using Suc(1) [of "Suc idx" "available + ?t"] Suc(2,3,4) step add u tw split by (simp add: add.assoc)
    qed
  qed
qed

lemma fill_down_ok:
  assumes "\<And>i. i < length ls \<Longrightarrow> ls ! i = level_of (C i)" "n \<le> length ls"
    and "unat available + total_qty (rows bs C (rev [0..<n])) < 2 ^ 64"
    and "available < q"
  shows "fill_down ls bs price q (int n - 1) available \<longleftrightarrow>
    unat q \<le> unat available + total_qty (takeWhile (\<lambda>x. price \<le> r_price x) (rows bs C (rev [0..<n])))"
  using assms
proof (induction n arbitrary: available)
  case 0
  then show ?case by (subst fill_down.simps) (simp add: word_less_nat_alt)
next
  case (Suc n)
  let ?rest = "rows bs C (rev [0..<n])" and ?row = "row (bs + int n) (C n)"
  have split: "rows bs C (rev [0..<Suc n]) = ?row @ ?rest" by simp
  let ?t = "sum_list (map c_qty (C n))"
  have t: "l_total (ls ! n) = ?t" using Suc(2,3) by simp
  have u: "unat ?t = total_qty ?row" using Suc(4) by (intro total_qty_row) (simp add: split)
  have add: "unat (available + ?t) = unat available + unat ?t"
    "q \<le> available + ?t \<longleftrightarrow> unat q \<le> unat available + unat ?t"
    using add_le_step [of available ?t] Suc(4) by (simp_all add: split u)
  show ?case
  proof (cases "bs + int n < price")
    case True
    then have "takeWhile (\<lambda>x. price \<le> r_price x) (rows bs C (rev [0..<Suc n])) = []"
      by (intro takeWhile_none) (auto simp: rows_in set_row)
    then show ?thesis
      using True Suc(5) by (subst fill_down.simps) (simp add: word_less_nat_alt)
  next
    case False
    have tw: "takeWhile (\<lambda>x. price \<le> r_price x) (rows bs C (rev [0..<Suc n])) =
        ?row @ takeWhile (\<lambda>x. price \<le> r_price x) ?rest"
      unfolding split takeWhile_row [where P = "\<lambda>p. price \<le> p"] using False by simp
    have step: "fill_down ls bs price q (int (Suc n) - 1) available \<longleftrightarrow>
        q \<le> available + ?t \<or> fill_down ls bs price q (int n - 1) (available + ?t)"
      using False t by (subst fill_down.simps) simp
    show ?thesis
    proof (cases "q \<le> available + ?t")
      case True
      then show ?thesis using step add u tw by simp
    next
      case nle: False
      then show ?thesis
        using Suc(1) [of "available + ?t"] Suc(2,3,4) step add u tw split by (simp add: add.assoc)
    qed
  qed
qed

end
