(* ===== verification/Book_V2_Rest.thy ===== *)
theory Book_V2_Rest
  imports Book_V2_Refine
begin

text \<open>
  The second half of the refinement: growing and rebasing the price axis, resting an order, and
  \<open>add\<close> as a whole, including what is left behind when it throws; then the accounting of the
  arena, which says when it can run out.
\<close>

section \<open>The fill-or-kill answer\<close>

lemma can_fully_fill_ok:
  assumes inv: "book_inv C b" and q: "0 < req_qty t"
    and small: "total_qty (s_side (opposite (req_side t)) (abs_of C b)) < 2 ^ 64"
  shows "can_fully_fill b t \<longleftrightarrow>
    spec_fillable (crosses (req_side t) FOK (req_price t)) (req_qty t)
      (s_side (opposite (req_side t)) (abs_of C b))"
proof -
  note D = book_invD [OF inv]
  note B = best_okD [OF D(4)]
  have nz: "req_qty t \<noteq> 0" "\<not> unat (req_qty t) \<le> 0" using q by (auto simp: word_less_nat_alt)
  have lv: "i < length (levels b) \<Longrightarrow> levels b ! i = level_of (C i)" for i
    by (rule mem_inv_level(2) [OF D(1)])
  show ?thesis
  proof (cases "req_side t")
    case Buy
    show ?thesis
    proof (cases "best_ask_idx b < 0")
      case True
      then show ?thesis
        using Buy nz abs_empty_iff(2) [OF D(4)] by (simp add: can_fully_fill_def spec_fillable_def)
    next
      case False
      define i where "i = nat (best_ask_idx b)"
      have i: "best_ask_idx b = int i" "i < length (levels b)" using False B(4) by (simp_all add: i_def)
      have asks: "s_asks (abs_of C b) = rows (base b) C [i..<length (levels b)]"
        using asks_split [OF D(4)] False i(2) by (simp add: abs_of_sides i_def upt_conv_Cons)
      have "can_fully_fill b t = fill_up (levels b) (base b) (req_price t) (req_qty t) (int i) 0"
        using Buy False by (simp add: can_fully_fill_def i(1))
      also have "\<dots> \<longleftrightarrow> unat (req_qty t) \<le> unat (0 :: u64) +
          total_qty (takeWhile (\<lambda>x. r_price x \<le> req_price t) (rows (base b) C [i..<length (levels b)]))"
        by (rule fill_up_ok [OF lv]) (use small Buy asks q in simp_all)
      finally show ?thesis
        using Buy asks by (simp add: spec_fillable_def crosses_def)
    qed
  next
    case Sell
    show ?thesis
    proof (cases "best_bid_idx b < 0")
      case True
      then show ?thesis
        using Sell nz abs_empty_iff(1) [OF D(4)] by (simp add: can_fully_fill_def spec_fillable_def)
    next
      case False
      define n where "n = nat (best_bid_idx b + 1)"
      have n: "best_bid_idx b = int n - 1" "n \<le> length (levels b)" using False B(2) by (simp_all add: n_def)
      have bids: "s_bids (abs_of C b) = rows (base b) C (rev [0..<n])" by (simp add: abs_of_sides n_def)
      have "can_fully_fill b t = fill_down (levels b) (base b) (req_price t) (req_qty t) (int n - 1) 0"
        using Sell False by (simp add: can_fully_fill_def n(1))
      also have "\<dots> \<longleftrightarrow> unat (req_qty t) \<le> unat (0 :: u64) +
          total_qty (takeWhile (\<lambda>x. req_price t \<le> r_price x) (rows (base b) C (rev [0..<n])))"
        by (rule fill_down_ok [OF lv n(2)]) (use small Sell bids q in simp_all)
      finally show ?thesis
        using Sell bids by (simp add: spec_fillable_def crosses_def)
    qed
  qed
qed

section \<open>The price axis\<close>

lemma ensure_base_ok:
  assumes inv: "book_inv C b"
  shows "book_inv C (ensure_base b p)" "abs_of C (ensure_base b p) = abs_of C b"
    "have_base (ensure_base b p)"
proof -
  have "book_inv C (ensure_base b p) \<and> abs_of C (ensure_base b p) = abs_of C b"
  proof (cases "have_base b")
    case True
    then show ?thesis using inv by (simp add: ensure_base_def)
  next
    case False
    note D = book_invD [OF inv]
    have lv: "levels b = []" and w: "0 \<le> initial_window b" using D(5) False by (simp_all add: base_ok_def)
    then have C: "C i = []" for i using mem_inv_beyond [OF D(1), of i] by simp
    have best: "best_bid_idx b = -1" "best_ask_idx b = -1" using best_okD(1-4) [OF D(4)] lv by simp_all
    let ?b = "ensure_base b p"
    have b': "?b = b\<lparr>base := p - initial_window b sdiv 2,
        levels := replicate (nat (initial_window b)) empty_level, have_base := True\<rparr>"
      using False by (simp add: ensure_base_def)
    have "mem_inv C ?b"
      using mem_inv_arena [OF D(1)] C lv by (simp add: mem_inv_def b')
    moreover have "index_ok C ?b" using D(3) by (simp add: index_ok_def b')
    moreover have "best_ok C ?b" using best C by (simp add: best_ok_def b')
    moreover have "base_ok ?b" using w by (simp add: base_ok_def b')
    moreover have "abs_of C ?b = abs_of C b"
      using C rows_empty [of _ C] by (simp add: abs_of_def abs_at_def)
    ultimately show ?thesis using D(2) by (simp add: book_inv_def b')
  qed
  then show "book_inv C (ensure_base b p)" "abs_of C (ensure_base b p) = abs_of C b" by simp_all
  show "have_base (ensure_base b p)" by (simp add: ensure_base_def)
qed

lemma grow_levels_inv:
  assumes inv: "book_inv C b" and hb: "have_base b"
  shows "book_inv C (grow_levels n b)" "abs_of C (grow_levels n b) = abs_of C b"
proof -
  note D = book_invD [OF inv]
  let ?b = "grow_levels n b"
  have f: "best_bid_idx ?b = best_bid_idx b" "best_ask_idx ?b = best_ask_idx b" "index ?b = index b"
    "base ?b = base b" "have_base ?b" "initial_window ?b = initial_window b"
    "length (levels ?b) = length (levels b) + (n - length (levels b))"
    using hb by (simp_all add: grow_levels_def)
  have "index_ok C ?b" using D(3) f by (simp add: index_ok_def)
  moreover have "best_ok C ?b" using D(4) unfolding best_ok_def f by auto
  moreover have "base_ok ?b" using D(5) f by (simp add: base_ok_def)
  ultimately show "book_inv C ?b" using grow_levels_ok [OF D(1)] D(2) f by (simp add: book_inv_def)
  let ?s = "nat (best_bid_idx b + 1)" and ?L = "length (levels b)"
  have "?s \<le> ?L" using best_okD(2) [OF D(4)] by simp
  then have "[?s..<?L + (n - ?L)] = [?s..<?L] @ [?L..<?L + (n - ?L)]"
    using upt_add_eq_append [of ?s ?L "n - ?L"] by simp
  moreover have "rows (base b) C [?L..<?L + (n - ?L)] = []"
    by (rule rows_empty) (simp add: mem_inv_beyond [OF D(1)])
  ultimately show "abs_of C ?b = abs_of C b"
    by (simp add: abs_of_def abs_at_def f)
qed

lemma map_add_upt_from: "map (\<lambda>i. i + s) [a..<n] = [a + s..<n + s]" for s :: nat
  by (induction n) auto

lemma rows_shift:
  "rows (bs - int s) (shift_cells s C) [a + s..<n + s] = rows bs C [a..<n]"
  "rows (bs - int s) (shift_cells s C) (rev [a + s..<n + s]) = rows bs C (rev [a..<n])"
proof -
  have "rows (bs - int s) (shift_cells s C) (map (\<lambda>i. i + s) is) = rows bs C is" for "is"
    by (induction "is") (simp_all add: shift_cells_def)
  from this [of "[a..<n]"] this [of "rev [a..<n]"]
  show "rows (bs - int s) (shift_cells s C) [a + s..<n + s] = rows bs C [a..<n]"
    "rows (bs - int s) (shift_cells s C) (rev [a + s..<n + s]) = rows bs C (rev [a..<n])"
    by (simp_all add: map_add_upt_from flip: rev_map)
qed

lemma shift_levels_inv:
  assumes inv: "book_inv C b" and hb: "have_base b"
  shows "book_inv (shift_cells s C) (shift_levels (int s) b)"
    "abs_of (shift_cells s C) (shift_levels (int s) b) = abs_of C b"
proof -
  note D = book_invD [OF inv]
  note B = best_okD [OF D(4)]
  let ?b = "shift_levels (int s) b" and ?C = "shift_cells s C"
  let ?bb = "if 0 \<le> best_bid_idx b then best_bid_idx b + int s else best_bid_idx b"
  have f: "best_bid_idx ?b = ?bb"
    "best_ask_idx ?b = (if 0 \<le> best_ask_idx b then best_ask_idx b + int s else best_ask_idx b)"
    "index ?b = fhm_for_each_mut (\<lambda>e. e\<lparr>ix_level := ix_level e + int s\<rparr>) (index b)"
    "base ?b = base b - int s" "have_base ?b" "initial_window ?b = initial_window b"
    "length (levels ?b) = length (levels b) + s"
    using hb by (simp_all add: shift_levels_def)
  have side: "int (i + s) \<le> ?bb \<longleftrightarrow> int i \<le> best_bid_idx b" for i
    using B(1) by auto
  have ent: "entry_for ?bb (i + s) c =
      (entry_for (best_bid_idx b) i c)\<lparr>ix_level := ix_level (entry_for (best_bid_idx b) i c) + int s\<rparr>" for i c
    using side [of i] by (simp add: entry_for_def)
  have cells: "(\<exists>j. \<exists>c \<in> set (?C j). P j c) \<longleftrightarrow> (\<exists>i. \<exists>c \<in> set (C i). P (i + s) c)" for P
  proof
    assume "\<exists>j. \<exists>c \<in> set (?C j). P j c"
    then obtain j c where "c \<in> set (?C j)" "P j c" by blast
    then show "\<exists>i. \<exists>c \<in> set (C i). P (i + s) c"
      by (intro exI [of _ "j - s"]) (auto simp: shift_cells_def split: if_splits)
  next
    assume "\<exists>i. \<exists>c \<in> set (C i). P (i + s) c"
    then obtain i c where "c \<in> set (C i)" "P (i + s) c" by blast
    then show "\<exists>j. \<exists>c \<in> set (?C j). P j c"
      by (intro exI [of _ "i + s"]) (auto simp: shift_cells_def)
  qed
  have "index_ok ?C ?b"
    unfolding index_ok_def f fm.each_law [OF D(2)]
  proof (intro allI)
    fix k e
    show "map_option (\<lambda>e. e\<lparr>ix_level := ix_level e + int s\<rparr>) (fhm_map (index b) k) = Some e \<longleftrightarrow>
        (\<exists>j. \<exists>c \<in> set (?C j). c_id c = k \<and> e = entry_for ?bb j c)"
      unfolding cells ent using D(3) by (auto simp: index_ok_def)
  qed
  moreover have "best_ok ?C ?b"
  proof -
    have "?C i = []" if "?bb < int i" "best_ask_idx ?b < 0 \<or> int i < best_ask_idx ?b" for i
      using B(8) [of "i - s"] B(1,6) that by (auto simp: shift_cells_def f split: if_splits)
    then show ?thesis
      using B(1-7) by (auto simp: best_ok_def f shift_cells_def nat_add_distrib)
  qed
  moreover have "base_ok ?b" using D(5) f by (simp add: base_ok_def)
  ultimately show "book_inv ?C ?b"
    using shift_levels_ok [OF D(1)] fm.each_ok [OF D(2)] f by (simp add: book_inv_def)
  let ?k = "nat (best_bid_idx b + 1)" and ?L = "length (levels b)"
  have k: "?k \<le> ?L" using B(2) by simp
  have "abs_at (base b - int s) (?L + s) (?k + s) ?C = abs_at (base b) ?L ?k C"
  proof -
    have "[0..<?k + s] = [0..<s] @ [0 + s..<?k + s]"
      using upt_add_eq_append [of 0 s ?k] by (simp add: add.commute)
    moreover have "rows (base b - int s) ?C (rev [0..<s]) = []"
      by (rule rows_empty) (simp add: shift_cells_def)
    ultimately have "rows (base b - int s) ?C (rev [0..<?k + s]) = rows (base b) C (rev [0..<?k])"
      using rows_shift(2) [of "base b" s C 0 ?k] by simp
    then show ?thesis using rows_shift(1) [of "base b" s C ?k ?L] by (simp add: abs_at_def)
  qed
  moreover have "abs_at (base b - int s) (?L + s) (nat (?bb + 1)) ?C =
      abs_at (base b - int s) (?L + s) (?k + s) ?C"
  proof (cases "0 \<le> best_bid_idx b")
    case True
    then have "nat (?bb + 1) = ?k + s" by simp
    then show ?thesis by simp
  next
    case False
    then have "best_bid_idx b = -1" using B(1) by simp
    then show ?thesis by (simp, intro abs_at_split) (simp_all add: shift_cells_def)
  qed
  ultimately show "abs_of ?C ?b = abs_of C b" by (simp only: abs_of_def f)
qed

text \<open>The orders resting in a book, and where the next node comes from, whatever the axis looks like.\<close>

definition same_arena :: "book \<Rightarrow> book \<Rightarrow> bool" where
  "same_arena b b' \<longleftrightarrow> arena_capacity b' = arena_capacity b \<and> arena_bump b' = arena_bump b \<and>
     free_list b' = free_list b"

text \<open>The level count the code asks for before it gives up with an exception.\<close>

definition levels_needed :: "book \<Rightarrow> int \<Rightarrow> int" where
  "levels_needed b0 p =
     (let b = ensure_base b0 p; idx = p - base b; L = int (length (levels b)) in
      if idx < 0 then L + (- idx + initial_window b sdiv 4 + 1)
      else if L \<le> idx then idx + int (nat (initial_window b sdiv 4)) + 1 else L)"

lemma ensure_index_ok:
  assumes inv: "book_inv C b"
  shows "(\<exists>e b1. ensure_index_for_price b p = (Inl e, b1) \<and> kMaxLevels < levels_needed b p \<and>
      book_inv C b1 \<and> abs_of C b1 = abs_of C b \<and> same_arena b b1) \<or>
    (\<exists>i C1 b1. ensure_index_for_price b p = (Inr (int i), b1) \<and> i < length (levels b1) \<and>
      base b1 + int i = p \<and> book_inv C1 b1 \<and> abs_of C1 b1 = abs_of C b \<and> same_arena b b1)"
proof -
  note E = ensure_base_ok [OF inv, of p]
  let ?b = "ensure_base b p"
  let ?idx = "p - base ?b" and ?L = "int (length (levels ?b))"
  have ar: "same_arena b ?b" by (simp add: ensure_base_def same_arena_def)
  have w: "0 \<le> initial_window ?b sdiv 4"
    using book_invD(5) [OF E(1)] by (auto simp: base_ok_def signed_divide_int_def sgn_if)
  consider "?idx < 0" | "0 \<le> ?idx" "?L \<le> ?idx" | "0 \<le> ?idx" "?idx < ?L" by linarith
  then show ?thesis
  proof cases
    case 1
    let ?shift = "- ?idx + initial_window ?b sdiv 4 + 1"
    show ?thesis
    proof (cases "kMaxLevels < ?L + ?shift")
      case True
      then have "ensure_index_for_price b p = (Inl RebasePastMaxLevels, ?b)"
        using 1 by (simp add: ensure_index_for_price_def Let_def)
      then show ?thesis using E ar True 1 by (auto simp: levels_needed_def Let_def)
    next
      case False
      define s where "s = nat ?shift"
      have s: "?shift = int s" using 1 w by (simp add: s_def)
      define i where "i = nat (?idx + int s)"
      have i: "?idx + int s = int i" using 1 w s by (simp add: i_def)
      have "ensure_index_for_price b p = (Inr (int i), shift_levels (int s) ?b)"
        using 1 False i unfolding ensure_index_for_price_def Let_def s by (simp add: shift_levels_def)
      moreover have "i < length (levels (shift_levels (int s) ?b))"
        using i 1 by (simp add: shift_levels_def)
      moreover have "base (shift_levels (int s) ?b) + int i = p"
        using i by (simp add: shift_levels_def)
      moreover have "same_arena b (shift_levels (int s) ?b)"
        using ar by (simp add: same_arena_def shift_levels_def)
      ultimately show ?thesis
        using shift_levels_inv [OF E(1,3), of s] E(2) by auto
    qed
  next
    case 2
    let ?n = "nat ?idx + nat (initial_window ?b sdiv 4) + 1"
    show ?thesis
    proof (cases "kMaxLevels < int ?n")
      case True
      then have "ensure_index_for_price b p = (Inl GrowthPastMaxLevels, ?b)"
        using 2 by (simp add: ensure_index_for_price_def Let_def)
      moreover have "kMaxLevels < levels_needed b p" using True 2 by (simp add: levels_needed_def Let_def)
      ultimately show ?thesis using E ar by auto
    next
      case False
      then have "ensure_index_for_price b p = (Inr (int (nat ?idx)), grow_levels ?n ?b)"
        using 2 by (simp add: ensure_index_for_price_def Let_def)
      moreover have "nat ?idx < length (levels (grow_levels ?n ?b))"
        using 2 by (simp add: grow_levels_def)
      moreover have "base (grow_levels ?n ?b) + int (nat ?idx) = p"
        using 2 by (simp add: grow_levels_def)
      moreover have "same_arena b (grow_levels ?n ?b)"
        using ar by (simp add: same_arena_def grow_levels_def)
      ultimately show ?thesis
        using grow_levels_inv [OF E(1,3), of ?n] E(2) by (intro disjI2) (metis (no_types, lifting))
    qed
  next
    case 3
    then have "ensure_index_for_price b p = (Inr (int (nat ?idx)), ?b)"
      by (simp add: ensure_index_for_price_def Let_def)
    moreover have "nat ?idx < length (levels ?b)" "base ?b + int (nat ?idx) = p" using 3 by simp_all
    ultimately show ?thesis using E ar by (intro disjI2) (metis (no_types, lifting))
  qed
qed

section \<open>Resting an order\<close>

lemma rest_abs_buy:
  assumes "i < s" "s \<le> L"
  shows "abs_at bs L s (C(i := C i @ [Cell n k q])) =
    spec_rest Buy (Resting k (bs + int i) q) (abs_at bs L s C)"
proof -
  have "[0..<s] = [0..<i] @ i # [Suc i..<s]"
    using assms upt_add_eq_append [of 0 i "s - i"] by (simp add: upt_conv_Cons)
  then have split: "rev [0..<s] = (rev [Suc i..<s] @ [i]) @ rev [0..<i]" by simp
  have "spec_insert Buy (Resting k (bs + int i) q) (rows bs C (rev [Suc i..<s] @ [i]) @ rows bs C (rev [0..<i])) =
      rows bs C (rev [Suc i..<s] @ [i]) @ Resting k (bs + int i) q # rows bs C (rev [0..<i])"
    by (rule spec_insert_at) (auto simp: better_def rows_in set_row)
  then show ?thesis
    using assms by (simp add: abs_at_def spec_rest_def split)
qed

lemma rest_abs_sell:
  assumes "s \<le> i" "i < L"
  shows "abs_at bs L s (C(i := C i @ [Cell n k q])) =
    spec_rest Sell (Resting k (bs + int i) q) (abs_at bs L s C)"
proof -
  have "[s..<L] = ([s..<i] @ [i]) @ [Suc i..<L]"
    using assms upt_add_eq_append [of s i "L - i"] by (simp add: upt_conv_Cons)
  moreover have "spec_insert Sell (Resting k (bs + int i) q) (rows bs C ([s..<i] @ [i]) @ rows bs C [Suc i..<L]) =
      rows bs C ([s..<i] @ [i]) @ Resting k (bs + int i) q # rows bs C [Suc i..<L]"
    by (rule spec_insert_at) (auto simp: better_def rows_in set_row)
  ultimately show ?thesis
    using assms by (simp add: abs_at_def spec_rest_def)
qed

lemma note_best_fields [simp]:
  "mem_inv C (note_best sd i b) = mem_inv C b" "index (note_best sd i b) = index b"
  "base_ok (note_best sd i b) = base_ok b" "base (note_best sd i b) = base b"
  "levels (note_best sd i b) = levels b"
  by (simp_all add: note_best_def base_ok_def)

text \<open>The order has just been queued on level \<open>i\<close> of its side, which the other side does not reach.\<close>

lemma note_best_ok:
  assumes inv: "book_inv C b" and i: "i < length (levels b)"
    and away: "if sd = Buy then best_ask_idx b < 0 \<or> int i < best_ask_idx b else best_bid_idx b < int i"
    and fresh: "fhm_map (index b) k = None"
    and new: "mem_inv (C(i := C i @ [Cell n k q])) b'" "fhm_inv (index b')"
      "fhm_map (index b') = (fhm_map (index b))(k \<mapsto> \<lparr>ix_side = sd, ix_level = int i, ix_node = n\<rparr>)"
    and ax: "same_axis b b'"
  shows "book_inv (C(i := C i @ [Cell n k q])) (note_best sd (int i) b')"
    and "abs_of (C(i := C i @ [Cell n k q])) (note_best sd (int i) b') =
      spec_rest sd (Resting k (base b + int i) q) (abs_of C b)"
proof -
  note D = book_invD [OF inv]
  note B = best_okD [OF D(4)]
  note axs = ax [unfolded same_axis_def]
  let ?C = "C(i := C i @ [Cell n k q])" and ?b = "note_best sd (int i) b'"
  have bok: "base_ok b'" using D(5) axs by (simp add: base_ok_def, metis length_0_conv)
  have "book_inv ?C ?b \<and> abs_of ?C ?b = spec_rest sd (Resting k (base b + int i) q) (abs_of C b)"
  proof (cases sd)
    case Buy
    let ?bb = "max (best_bid_idx b) (int i)"
    have bb: "best_bid_idx ?b = ?bb" "best_ask_idx ?b = best_ask_idx b"
      using Buy axs B(1) by (auto simp: note_best_def)
    have gap: "C j = []" if "best_bid_idx b < int j" "int j \<le> ?bb" for j
      using B(8) [OF that(1)] away Buy that by (cases "best_bid_idx b < int i") auto
    have same: "int j \<le> ?bb \<longleftrightarrow> int j \<le> best_bid_idx b" if "C j \<noteq> []" for j
      using gap [of j] that by (cases "best_bid_idx b < int j"; cases "int j \<le> ?bb") auto
    have "index_ok ?C ?b"
      by (rule index_ok_insert [OF D(3) fresh _ bb(1) same]) (use new(3) Buy in simp)
    moreover have "best_ok ?C ?b"
    proof -
      have "?C j = []" if "?bb < int j" "best_ask_idx b < 0 \<or> int j < best_ask_idx b" for j
        using B(8) [of j] that by auto
      moreover have "?C (nat ?bb) \<noteq> []"
        using B(5) by (cases "best_bid_idx b \<le> int i") (auto simp: max_def)
      moreover have "?C (nat (best_ask_idx b)) \<noteq> []" if "0 \<le> best_ask_idx b"
        using B(7) [OF that] by simp
      moreover have "?bb < best_ask_idx b" if "0 \<le> best_ask_idx b"
        using B(6) [OF that] away Buy that by simp
      ultimately show ?thesis
        using B(1-4) i axs unfolding best_ok_def bb note_best_fields by auto
    qed
    moreover have "abs_of ?C ?b = spec_rest Buy (Resting k (base b + int i) q) (abs_of C b)"
    proof -
      let ?s = "nat (?bb + 1)"
      have s: "i < ?s" "?s \<le> length (levels b)" using i B(2) by (auto simp: max_def)
      have "abs_of C b = abs_at (base b) (length (levels b)) ?s C"
        unfolding abs_of_def
        by (rule abs_at_split) (use s gap in \<open>auto simp: nat_le_iff zless_nat_eq_int_zless\<close>)
      then show ?thesis
        using rest_abs_buy [OF s, of "base b" C n k q] bb axs by (simp add: abs_of_def)
    qed
    ultimately show ?thesis using new(1,2) bok Buy by (simp add: book_inv_def)
  next
    case Sell
    have out: "best_bid_idx b < int i" using away Sell by simp
    have bb: "best_bid_idx ?b = best_bid_idx b"
      "best_ask_idx ?b = (if best_ask_idx b < 0 \<or> int i < best_ask_idx b then int i else best_ask_idx b)"
      using Sell axs by (auto simp: note_best_def)
    have "index_ok ?C ?b"
      by (rule index_ok_insert [OF D(3) fresh _ bb(1)]) (use new(3) Sell out in simp_all)
    moreover have "best_ok ?C ?b"
    proof -
      have "?C j = []" if "best_bid_idx b < int j" "best_ask_idx ?b < 0 \<or> int j < best_ask_idx ?b" for j
        using B(8) [of j] that by (auto simp: bb split: if_splits)
      moreover have "?C (nat (best_bid_idx b)) \<noteq> []" if "0 \<le> best_bid_idx b"
        using B(5) [OF that] by simp
      moreover have "?C (nat (best_ask_idx ?b)) \<noteq> []"
        using B(7) by (auto simp: bb)
      moreover have "best_bid_idx b < best_ask_idx ?b"
        using B(6) out by (auto simp: bb)
      moreover have "-1 \<le> best_ask_idx ?b" "best_ask_idx ?b < int (length (levels b))"
        using B(4) i by (auto simp: bb)
      ultimately show ?thesis
        using B(1,2) axs unfolding best_ok_def bb(1) note_best_fields by simp
    qed
    moreover have "abs_of ?C ?b = spec_rest Sell (Resting k (base b + int i) q) (abs_of C b)"
      using rest_abs_sell [of "nat (best_bid_idx b + 1)" i "length (levels b)" "base b" C n k q] out i bb(1) axs
      by (simp add: abs_of_def nat_le_iff)
    ultimately show ?thesis using new(1,2) bok Sell by (simp add: book_inv_def)
  qed
  then show "book_inv ?C ?b" "abs_of ?C ?b = spec_rest sd (Resting k (base b + int i) q) (abs_of C b)"
    by simp_all
qed

lemma not_crossing_away:
  assumes inv: "book_inv C b" and nc: "\<not> spec_would_cross sd p (abs_of C b)"
    and p: "base b + int i = p"
  shows "if sd = Buy then best_ask_idx b < 0 \<or> int i < best_ask_idx b else best_bid_idx b < int i"
proof (cases "opp_idx sd b < 0")
  case True
  then show ?thesis by (auto simp: opp_idx_def split: if_splits)
next
  case False
  then have idx: "0 \<le> opp_idx sd b" by simp
  from opp_split [OF inv this] obtain rest where
    sp: "C (nat (opp_idx sd b)) \<noteq> []"
      "s_side (opposite sd) (abs_of C b) =
        row (base b + int (nat (opp_idx sd b))) (C (nat (opp_idx sd b))) @ rest"
    by metis
  then obtain c cs where "C (nat (opp_idx sd b)) = c # cs" by (cases "C (nat (opp_idx sd b))") auto
  then have "\<not> crosses sd Limit p (base b + opp_idx sd b)"
    using nc sp(2) idx by (simp add: spec_would_cross_def)
  then show ?thesis
    using p by (cases sd) (auto simp: crosses_def opp_idx_def)
qed

lemma rest_taker_ok:
  assumes inv: "book_inv C b" and fresh: "\<not> is_resting (req_id t) (abs_of C b)"
    and nc: "\<not> spec_would_cross (req_side t) (req_price t) (abs_of C b)"
  shows "(\<exists>e b' C'. rest_taker b t = Some (Inl e, b') \<and> book_inv C' b' \<and> abs_of C' b' = abs_of C b \<and>
      same_arena b b' \<and>
      (free_list b = [] \<and> arena_bump b = arena_capacity b \<or> kMaxLevels < levels_needed b (req_price t))) \<or>
    (\<exists>b' C'. rest_taker b t = Some (Inr (), b') \<and> book_inv C' b' \<and>
      abs_of C' b' = spec_rest (req_side t) (Resting (req_id t) (req_price t) (req_qty t)) (abs_of C b))"
  using ensure_index_ok [OF inv, of "req_price t"]
proof (elim disjE exE conjE)
  fix e b1
  assume "ensure_index_for_price b (req_price t) = (Inl e, b1)" "kMaxLevels < levels_needed b (req_price t)"
    "book_inv C b1" "abs_of C b1 = abs_of C b" "same_arena b b1"
  then show ?thesis by (intro disjI1 exI [of _ e] exI [of _ b1] exI [of _ C]) (simp add: rest_taker_def)
next
  fix i C1 b1
  assume en: "ensure_index_for_price b (req_price t) = (Inr (int i), b1)" and i: "i < length (levels b1)"
    and p: "base b1 + int i = req_price t" and inv1: "book_inv C1 b1" and abs1: "abs_of C1 b1 = abs_of C b"
    and ar: "same_arena b b1"
  note D = book_invD [OF inv1]
  have fr: "fhm_map (index b1) (req_id t) = None"
    using fresh abs_ids_dom [OF inv1] by (auto simp: is_resting_iff abs1)
  have away: "if req_side t = Buy then best_ask_idx b1 < 0 \<or> int i < best_ask_idx b1
      else best_bid_idx b1 < int i"
    by (rule not_crossing_away [OF inv1 _ p]) (use nc abs1 in simp)
  show ?thesis
    using push_back_order_ok [OF D(1) i D(2), of "req_side t" t]
  proof (elim disjE exE conjE)
    assume "push_back_order b1 (int i) (req_side t) t = Some (Inl ArenaExhausted, b1)"
      "free_list b1 = []" "arena_bump b1 = arena_capacity b1"
    then show ?thesis
      using en inv1 abs1 ar
      by (intro disjI1 exI [of _ ArenaExhausted] exI [of _ b1] exI [of _ C1])
         (auto simp: rest_taker_def same_arena_def)
  next
    fix n b2
    assume pb: "push_back_order b1 (int i) (req_side t) t = Some (Inr (), b2)"
      and new: "mem_inv (C1(i := C1 i @ [Cell n (req_id t) (req_qty t)])) b2" "fhm_inv (index b2)"
        "fhm_map (index b2) = (fhm_map (index b1))
          (req_id t \<mapsto> \<lparr>ix_side = req_side t, ix_level = int i, ix_node = n\<rparr>)"
      and ax: "same_axis b1 b2"
    have "rest_taker b t = Some (Inr (), note_best (req_side t) (int i) b2)"
      using en pb by (simp add: rest_taker_def)
    then show ?thesis
      using note_best_ok [OF inv1 i away fr new ax] p abs1 by (intro disjI2) auto
  qed
qed

section \<open>The arena accounts for every order\<close>

lemma card_less_u32: "card {n :: u32. n < m} = unat m"
proof -
  have "unat ` {n :: u32. n < m} = {..<unat m}"
  proof (intro equalityI subsetI)
    fix k assume "k \<in> {..<unat m}"
    then have k: "k < unat m" by simp
    moreover have "unat m < 2 ^ 32" using unsigned_less [of m, where ?'a = nat] by simp
    ultimately have "unat (of_nat k :: u32) = k" by (simp add: unat_of_nat)
    then show "k \<in> unat ` {n :: u32. n < m}"
      using k by (intro image_eqI [of _ _ "of_nat k"]) (simp_all add: word_less_nat_alt)
  qed (auto simp: word_less_nat_alt)
  moreover have "inj_on unat {n :: u32. n < m}" by (simp add: inj_on_def)
  ultimately show ?thesis using card_image by (metis card_lessThan)
qed

lemma length_rows: "length (rows bs C is) = (\<Sum>i \<leftarrow> is. length (C i))"
  by (induction "is") simp_all

lemma arena_accounting:
  assumes inv: "book_inv C b"
  shows "depth b + length (free_list b) = unat (arena_bump b)"
proof -
  note D = book_invD [OF inv]
  let ?L = "length (levels b)" and ?s = "nat (best_bid_idx b + 1)"
  have "[0..<?L] = [0..<?s] @ [?s..<?L]"
    using best_okD(2) [OF D(4)] upt_add_eq_append [of 0 ?s "?L - ?s"] by simp
  then have "depth b = (\<Sum>i \<leftarrow> [0..<?L]. length (C i))"
    using depth_abs [OF inv] by (simp add: abs_of_sides length_rows rev_map [symmetric])
  also have "\<dots> = (\<Sum>i < ?L. length (C i))"
    by (simp add: interv_sum_list_conv_sum_set_nat atLeast0LessThan)
  also have "\<dots> = (\<Sum>i < ?L. card (nodes (C i)))"
    using mem_inv_level(3) [OF D(1)]
    by (intro sum.cong refl) (metis distinct_card length_map lessThan_iff list.set_map)
  also have "\<dots> = card (\<Union>i < ?L. nodes (C i))"
    using mem_inv_disjoint(2) [OF D(1)] by (intro card_UN_disjoint [symmetric]) auto
  also have "\<dots> + card (set (free_list b)) = card {n. n < arena_bump b}"
  proof -
    have "(\<Union>i < ?L. nodes (C i)) \<inter> set (free_list b) = {}"
      using mem_inv_disjoint(1) [OF D(1)] by fastforce
    then have "card (\<Union>i < ?L. nodes (C i)) + card (set (free_list b)) =
        card ((\<Union>i < ?L. nodes (C i)) \<union> set (free_list b))"
      by (intro card_Un_disjoint [symmetric]) auto
    then show ?thesis using mem_inv_arena(4) [OF D(1)] by simp
  qed
  finally show ?thesis
    using distinct_card [OF mem_inv_arena(3) [OF D(1)]] card_less_u32 by simp
qed

section \<open>Add\<close>

text \<open>What a resting order still needs when the call throws: the fills stand, the order does not rest.\<close>

definition spec_unrested :: "order_request \<Rightarrow> int sbook \<Rightarrow> int sbook \<times> int trade list" where
  "spec_unrested t s =
     (if req_type t = PostOnly then (s, [])
      else case spec_take (req_id t) (req_side t) (req_type t) (req_price t) (req_qty t) s of
        (s', ts, q') \<Rightarrow> (s', ts))"

abbreviation spec_add_req :: "order_request \<Rightarrow> int sbook \<Rightarrow> int sbook \<times> int trade list" where
  "spec_add_req t s \<equiv> spec_add (req_id t) (req_side t) (req_type t) (req_price t) (req_qty t) s"

definition may_rest :: "order_request \<Rightarrow> bool" where
  "may_rest t \<longleftrightarrow> req_type t = Limit \<or> req_type t = PostOnly"

text \<open>The caller's side of the contract: ids are not reused while they rest, and the quantity a
  fill-or-kill looks at fits in 64 bits.\<close>

definition add_pre :: "order_request \<Rightarrow> int sbook \<Rightarrow> bool" where
  "add_pre t s \<longleftrightarrow> (may_rest t \<longrightarrow> \<not> is_resting (req_id t) s) \<and>
     (req_type t = FOK \<longrightarrow> int (total_qty (s_side (opposite (req_side t)) s)) < 2 ^ 64)"

lemma would_cross_ok:
  assumes "book_inv C b"
  shows "would_cross b t = spec_would_cross (req_side t) (req_price t) (abs_of C b)"
  using best_prices [OF book_invD(4) [OF assms]] abs_empty_iff [OF book_invD(4) [OF assms]]
  by (cases "req_side t"; cases "s_bids (abs_of C b)"; cases "s_asks (abs_of C b)")
     (simp_all add: would_cross_def spec_would_cross_def crosses_def has_ask_def has_bid_def)

lemma levels_needed_shape: "same_shape b b' \<Longrightarrow> levels_needed b' p = levels_needed b p"
  by (simp add: same_shape_def levels_needed_def ensure_base_def Let_def)

lemma depth_full:
  assumes "book_inv C b" "free_list b = []" "arena_bump b = arena_capacity b"
  shows "depth b = unat (arena_capacity b)"
  using arena_accounting [OF assms(1)] assms(2,3) by simp

lemma book_add_ok:
  assumes inv: "book_inv C b" and pre: "add_pre t (abs_of C b)"
  shows "(\<exists>b' C' ts. book_add b t = Some (Inr (), b', ts) \<and> book_inv C' b' \<and>
      spec_add_req t (abs_of C b) = (abs_of C' b', ts)) \<or>
    (\<exists>e b' C' ts. book_add b t = Some (Inl e, b', ts) \<and> book_inv C' b' \<and>
      spec_unrested t (abs_of C b) = (abs_of C' b', ts) \<and> may_rest t \<and>
      (depth b' = unat (arena_capacity b) \<or> kMaxLevels < levels_needed b (req_price t)))"
proof -
  let ?S = "abs_of C b"
  have rest: ?thesis
    if inv1: "book_inv C1 b1" and fr: "\<not> is_resting (req_id t) (abs_of C1 b1)"
      and nc: "\<not> spec_would_cross (req_side t) (req_price t) (abs_of C1 b1)" and sh: "same_shape b b1"
      and mr: "may_rest t"
      and run: "book_add b t = do { (r, b2) \<leftarrow> rest_taker b1 (t\<lparr>req_qty := q'\<rparr>); Some (r, b2, ts) }"
      and un: "spec_unrested t ?S = (abs_of C1 b1, ts)"
      and sp: "spec_add_req t ?S =
        (spec_rest (req_side t) (Resting (req_id t) (req_price t) q') (abs_of C1 b1), ts)"
    for C1 b1 q' ts
    using rest_taker_ok [OF inv1, of "t\<lparr>req_qty := q'\<rparr>"] fr nc
  proof (simp, elim disjE exE conjE)
    fix e b' C'
    assume a: "rest_taker b1 (t\<lparr>req_qty := q'\<rparr>) = Some (Inl e, b')" "book_inv C' b'"
      "abs_of C' b' = abs_of C1 b1" "same_arena b1 b'"
    have full: "depth b' = unat (arena_capacity b)" if "free_list b1 = []" "arena_bump b1 = arena_capacity b1"
      using depth_full [OF a(2)] that a(4) sh by (simp add: same_arena_def same_shape_def)
    have out: ?thesis if "depth b' = unat (arena_capacity b) \<or> kMaxLevels < levels_needed b (req_price t)"
      using run a(1-3) un mr that
      by (intro disjI2 exI [of _ e] exI [of _ b'] exI [of _ C'] exI [of _ ts]) simp
    show ?thesis if "free_list b1 = []" "arena_bump b1 = arena_capacity b1"
      using out full [OF that] by blast
    show ?thesis if "kMaxLevels < levels_needed b1 (req_price t)"
      using out levels_needed_shape [OF sh] that by simp
  next
    fix b' C'
    assume "rest_taker b1 (t\<lparr>req_qty := q'\<rparr>) = Some (Inr (), b')" "book_inv C' b'"
      "abs_of C' b' = spec_rest (req_side t) (Resting (req_id t) (req_price t) q') (abs_of C1 b1)"
    then show ?thesis
      using run sp by (intro disjI1 exI [of _ b'] exI [of _ C'] exI [of _ ts]) simp
  qed
  obtain C1 ts q' b1 where m:
    "match_order b t [] = Some (b1, t\<lparr>req_qty := q'\<rparr>, ts)"
    "spec_take (req_id t) (req_side t) (req_type t) (req_price t) (req_qty t) ?S = (abs_of C1 b1, ts, q')"
    "book_inv C1 b1" "same_shape b b1"
    using match_order_ok [OF inv, of t "[]"] by auto
  have take: ?thesis
    if "req_type t \<noteq> Cancel" "req_type t \<noteq> PostOnly" "req_type t \<noteq> FOK \<or> can_fully_fill b t"
      "req_type t \<noteq> FOK \<or> spec_fillable (crosses (req_side t) (req_type t) (req_price t)) (req_qty t)
         (s_side (opposite (req_side t)) ?S)"
  proof (cases "req_type t = Limit \<and> 0 < q'")
    case True
    have "book_add b t = do { (r, b2) \<leftarrow> rest_taker b1 (t\<lparr>req_qty := q'\<rparr>); Some (r, b2, ts) }"
      using True m(1) by (simp add: book_add_def)
    moreover have "\<not> is_resting (req_id t) (abs_of C1 b1)"
      using pre True spec_take_ids [OF m(2)] by (auto simp: add_pre_def may_rest_def is_resting_iff)
    moreover have "\<not> spec_would_cross (req_side t) (req_price t) (abs_of C1 b1)"
      using spec_take_stuck [OF m(2)] True by simp
    moreover have "spec_unrested t ?S = (abs_of C1 b1, ts)" using True m(2) by (simp add: spec_unrested_def)
    moreover have "spec_add_req t ?S =
        (spec_rest (req_side t) (Resting (req_id t) (req_price t) q') (abs_of C1 b1), ts)"
      using True m(2) by (simp add: spec_add_def)
    ultimately show ?thesis using rest [OF m(3) _ _ m(4)] True by (simp add: may_rest_def)
  next
    case False
    then have "book_add b t = Some (Inr (), b1, ts)"
      using that m(1) by (auto simp: book_add_def)
    moreover have "spec_add_req t ?S = (abs_of C1 b1, ts)"
      using that False m(2) by (auto simp: spec_add_def)
    ultimately show ?thesis using m(3) by blast
  qed
  consider "req_type t = Cancel" | "req_type t = PostOnly" "spec_would_cross (req_side t) (req_price t) ?S"
    | "req_type t = PostOnly" "\<not> spec_would_cross (req_side t) (req_price t) ?S"
    | "req_type t = FOK" "req_qty t = 0" | "req_type t = FOK" "0 < req_qty t"
    | "req_type t \<noteq> Cancel" "req_type t \<noteq> PostOnly" "req_type t \<noteq> FOK"
    using word_zero_or_pos [of "req_qty t"] by blast
  then show ?thesis
  proof cases
    case 1
    obtain C' b' where "book_cancel b (req_id t) = Some (b', is_resting (req_id t) ?S)" "book_inv C' b'"
        "abs_of C' b' = spec_cancel (req_id t) ?S"
      using book_cancel_ok [OF inv, of "req_id t"] by blast
    then show ?thesis
      using 1 by (intro disjI1 exI [of _ b'] exI [of _ C'] exI [of _ "[]"]) (simp add: book_add_def spec_add_def)
  next
    case 2
    then have "book_add b t = Some (Inr (), b, [])" "spec_add_req t ?S = (?S, [])"
      by (simp_all add: book_add_def spec_add_def would_cross_ok [OF inv])
    then show ?thesis using inv by blast
  next
    case 3
    show ?thesis
    proof (rule rest [OF inv _ 3(2) same_shape_refl])
      show "\<not> is_resting (req_id t) ?S" "may_rest t" using pre 3 by (simp_all add: add_pre_def may_rest_def)
      show "book_add b t = do { (r, b2) \<leftarrow> rest_taker b (t\<lparr>req_qty := req_qty t\<rparr>); Some (r, b2, []) }"
        using 3 by (simp add: book_add_def would_cross_ok [OF inv] req_qty_same)
      show "spec_unrested t ?S = (?S, [])" using 3 by (simp add: spec_unrested_def)
      show "spec_add_req t ?S = (spec_rest (req_side t) (Resting (req_id t) (req_price t) (req_qty t)) ?S, [])"
        using 3 by (simp add: spec_add_def)
    qed
  next
    case 4
    have z: "spec_add_req t ?S = (?S, [])"
      using 4 by (simp add: spec_add_def spec_take_def)
    have "book_add b t = Some (Inr (), b, [])"
      using 4 by (simp add: book_add_def) (subst match_order.simps, simp)
    then show ?thesis using inv z by blast
  next
    case 5
    have eq: "can_fully_fill b t \<longleftrightarrow> spec_fillable (crosses (req_side t) FOK (req_price t)) (req_qty t)
         (s_side (opposite (req_side t)) ?S)"
      by (rule can_fully_fill_ok [OF inv 5(2)]) (use pre 5(1) in \<open>simp add: add_pre_def\<close>)
    show ?thesis
    proof (cases "can_fully_fill b t")
      case True
      then show ?thesis using eq 5 by (intro take) simp_all
    next
      case False
      then have "book_add b t = Some (Inr (), b, [])" "spec_add_req t ?S = (?S, [])"
        using eq 5 by (simp_all add: book_add_def spec_add_def)
      then show ?thesis using inv by blast
    qed
  next
    case 6
    then show ?thesis by (intro take) simp_all
  qed
qed

end
