(* ===== verification/Matching_Engine.thy ===== *)
theory Matching_Engine
  imports Book_V2_Rest
begin

text \<open>
  What a client of either order book relies on: a locale with the two calls the programs make, \<open>add\<close> and
  \<open>cancel\<close>, and the price-time priority specification as their law. The facts about trades are proved once,
  from the law; the array book (\<open>Book_V2_Main\<close>) and the tree book (\<open>Book_Equiv\<close>) interpret it.
\<close>

section \<open>Sessions\<close>

datatype engine_op = Submit order_request | Withdraw u64

text \<open>A session's trades, and the engine behind it.\<close>

fun engine_run :: "('b \<Rightarrow> order_request \<Rightarrow> ('b \<times> int trade list) option) \<Rightarrow> ('b \<Rightarrow> u64 \<Rightarrow> ('b \<times> bool) option) \<Rightarrow>
    engine_op list \<Rightarrow> 'b \<Rightarrow> (int trade list \<times> 'b) option" where
  "engine_run add cancel [] b = Some ([], b)"
| "engine_run add cancel (Submit t # ops) b = do {
     (b1, ts) \<leftarrow> add b t; (us, b2) \<leftarrow> engine_run add cancel ops b1; Some (ts @ us, b2) }"
| "engine_run add cancel (Withdraw k # ops) b = do {
     (b1, found) \<leftarrow> cancel b k; engine_run add cancel ops b1 }"

text \<open>The client's side of the contract, along the whole session.\<close>

fun engine_pre :: "('b \<Rightarrow> order_request \<Rightarrow> ('b \<times> int trade list) option) \<Rightarrow> ('b \<Rightarrow> u64 \<Rightarrow> ('b \<times> bool) option) \<Rightarrow>
    ('b \<Rightarrow> int sbook) \<Rightarrow> engine_op list \<Rightarrow> 'b \<Rightarrow> bool" where
  "engine_pre add cancel view [] b \<longleftrightarrow> True"
| "engine_pre add cancel view (Submit t # ops) b \<longleftrightarrow> add_pre t (view b) \<and>
     (case add b t of None \<Rightarrow> True | Some (b1, ts) \<Rightarrow> engine_pre add cancel view ops b1)"
| "engine_pre add cancel view (Withdraw k # ops) b \<longleftrightarrow>
     (case cancel b k of None \<Rightarrow> True | Some (b1, found) \<Rightarrow> engine_pre add cancel view ops b1)"

fun submitted :: "engine_op list \<Rightarrow> nat" where
  "submitted [] = 0"
| "submitted (Submit t # ops) = unat (req_qty t) + submitted ops"
| "submitted (Withdraw k # ops) = submitted ops"

definition resting_qty :: "'p sbook \<Rightarrow> nat" where
  "resting_qty s = total_qty (s_bids s) + total_qty (s_asks s)"

section \<open>What one call does to the quantities\<close>

lemma resting_sides: "resting_qty s = total_qty (s_side sd s) + total_qty (s_side (opposite sd) s)"
  by (cases sd) (simp_all add: resting_qty_def)

lemma volume_append: "volume (ts @ us) = volume ts + volume us"
  by (simp add: volume_def)

lemma cancel_qty: "resting_qty (spec_cancel k s) \<le> resting_qty s"
proof -
  have "total_qty (filter P xs) \<le> total_qty xs" for P and xs :: "'a resting list" by (induction xs) auto
  then show ?thesis by (simp add: resting_qty_def spec_cancel_def add_le_mono)
qed

lemma add_qty:
  assumes "spec_add i sd ty p q s = (s', ts)"
  shows "resting_qty s' + 2 * volume ts \<le> resting_qty s + unat q"
proof (cases "ty = Cancel")
  case True
  then show ?thesis using assms cancel_qty [of i s] by (auto simp: spec_add_def)
next
  case False
  note c = spec_add_conserves [OF assms False]
  show ?thesis
  proof (cases "ty = PostOnly")
    case True
    then show ?thesis
      using assms by (auto simp: spec_add_def spec_rest_def total_qty_insert resting_sides [of _ sd] split: if_splits)
  qed (use c in \<open>cases "ty = Limit"; simp add: resting_sides [of _ sd]\<close>)
qed

lemma unrested_qty:
  assumes "spec_unrested t s = (s', ts)"
  shows "resting_qty s' + 2 * volume ts \<le> resting_qty s + unat (req_qty t)"
proof (cases "req_type t = PostOnly")
  case False
  then obtain q' where t: "spec_take (req_id t) (req_side t) (req_type t) (req_price t) (req_qty t) s = (s', ts, q')"
    using assms by (auto simp: spec_unrested_def split: prod.splits)
  show ?thesis using spec_take_conserves [OF t] by (simp add: resting_sides [of _ "req_side t"])
qed (use assms in \<open>simp add: spec_unrested_def\<close>)

section \<open>The contract\<close>

locale matching_engine =
  fixes add :: "'b \<Rightarrow> order_request \<Rightarrow> ('b \<times> int trade list) option"
    and cancel :: "'b \<Rightarrow> u64 \<Rightarrow> ('b \<times> bool) option"
    and view :: "'b \<Rightarrow> int sbook"
    and ok :: "'b \<Rightarrow> bool"
  assumes view_ok: "ok b \<Longrightarrow> wf_spec (view b)"
    and add_law: "ok b \<Longrightarrow> add_pre t (view b) \<Longrightarrow> \<exists>b' ts. add b t = Some (b', ts) \<and> ok b' \<and>
      (spec_add_req t (view b) = (view b', ts) \<or> may_rest t \<and> spec_unrested t (view b) = (view b', ts))"
    and cancel_law: "ok b \<Longrightarrow> \<exists>b'. cancel b k = Some (b', is_resting k (view b)) \<and> ok b' \<and> view b' = spec_cancel k (view b)"
begin

lemma add_result:
  assumes "ok b" "add_pre t (view b)" "add b t = Some (b', ts)"
  shows "ok b'" "spec_add_req t (view b) = (view b', ts) \<or> may_rest t \<and> spec_unrested t (view b) = (view b', ts)"
  using add_law [OF assms(1,2)] assms(3) by auto

text \<open>The makers hit are the first orders of the opposite side, each at its own price, inside the taker's limit.\<close>

lemma fair:
  assumes "ok b" "add_pre t (view b)" "add b t = Some (b', ts)"
  shows "(\<forall>x \<in> set ts. crosses (req_side t) (req_type t) (req_price t) (trade_price x) \<and> taker_id x = req_id t) \<and>
    map (\<lambda>x. (maker_id x, trade_price x)) ts =
      map (\<lambda>x. (r_id x, r_price x)) (take (length ts) (s_side (opposite (req_side t)) (view b)))"
proof -
  obtain s1 ts1 q1 where t: "spec_take (req_id t) (req_side t) (req_type t) (req_price t) (req_qty t) (view b) = (s1, ts1, q1)"
    by (metis prod_cases3)
  have "ts = [] \<or> ts = ts1"
    using add_result(2) [OF assms] t by (auto simp: spec_add_def spec_unrested_def split: if_splits)
  then show ?thesis using spec_take_fair [OF t] by auto
qed

lemma fok:
  assumes "ok b" "add_pre t (view b)" "req_type t = FOK" "add b t = Some (b', ts)"
  shows "if spec_fillable (crosses (req_side t) FOK (req_price t)) (req_qty t) (s_side (opposite (req_side t)) (view b))
    then volume ts = unat (req_qty t) else view b' = view b \<and> ts = []"
proof -
  have "spec_add_req t (view b) = (view b', ts)"
    using add_result(2) [OF assms(1,2,4)] assms(3) by (auto simp: may_rest_def)
  then show ?thesis using spec_fok_atomic assms(3) by metis
qed

text \<open>A whole session returns, and no share comes from nowhere.\<close>

lemma session:
  assumes "ok b" "engine_pre add cancel view ops b"
  shows "\<exists>ts b'. engine_run add cancel ops b = Some (ts, b') \<and> ok b' \<and>
    resting_qty (view b') + 2 * volume ts \<le> resting_qty (view b) + submitted ops"
  using assms
proof (induction ops arbitrary: b)
  case (Cons op ops)
  show ?case
  proof (cases op)
    case (Submit t)
    then obtain b1 ts where one: "add b t = Some (b1, ts)" "ok b1" and pre: "add_pre t (view b)"
      using add_law [of b t] Cons.prems by auto
    have qty: "resting_qty (view b1) + 2 * volume ts \<le> resting_qty (view b) + unat (req_qty t)"
      using add_result(2) [OF Cons.prems(1) pre one(1)] add_qty unrested_qty by blast
    from Cons.IH [OF one(2)] Cons.prems(2) Submit one(1) obtain us b2 where
      "engine_run add cancel ops b1 = Some (us, b2)" "ok b2"
      "resting_qty (view b2) + 2 * volume us \<le> resting_qty (view b1) + submitted ops" by auto
    then show ?thesis using Submit one(1) qty by (simp add: volume_append)
  next
    case (Withdraw k)
    obtain b1 where one: "cancel b k = Some (b1, is_resting k (view b))" "ok b1" "view b1 = spec_cancel k (view b)"
      using cancel_law [OF Cons.prems(1)] by blast
    from Cons.IH [OF one(2)] Cons.prems(2) Withdraw one(1) obtain us b2 where
      "engine_run add cancel ops b1 = Some (us, b2)" "ok b2"
      "resting_qty (view b2) + 2 * volume us \<le> resting_qty (view b1) + submitted ops" by auto
    then show ?thesis using Withdraw one cancel_qty [of k "view b"] by simp
  qed
qed (simp add: volume_def)

end

end
