(* ===== verification/Book_V2_Main.thy ===== *)
theory Book_V2_Main
  imports Matching_Engine
begin

text \<open>
  The theorems about \<open>OrderBookV2\<close> as a whole: an executable reading of its memory as a
  \<open>Book_Spec\<close> book (\<open>book_abs\<close>), the class invariant over it (\<open>wf_book\<close>), and the simulation of
  the priority book by every public operation.
\<close>

section \<open>Reading the memory\<close>

fun walk :: "nat \<Rightarrow> node list \<Rightarrow> u32 \<Rightarrow> cell list" where
  "walk 0 ar n = []"
| "walk (Suc k) ar n =
     (if n = kNil then []
      else Cell n (n_id (ar ! unat n)) (n_qty (ar ! unat n)) # walk k ar (n_next (ar ! unat n)))"

text \<open>A list never holds more nodes than the arena has handed out, so \<open>arena_bump\<close> is enough fuel.\<close>

definition level_cells :: "book \<Rightarrow> nat \<Rightarrow> cell list" where
  "level_cells b i =
     (if i < length (levels b) then walk (unat (arena_bump b)) (arena b) (l_head (levels b ! i)) else [])"

definition book_abs :: "book \<Rightarrow> int sbook" where
  "book_abs b = abs_of (level_cells b) b"

definition wf_book :: "book \<Rightarrow> bool" where
  "wf_book b \<longleftrightarrow> book_inv (level_cells b) b"

lemma walk_chain:
  assumes "chain ar p cs kNil" "kNil \<notin> nodes cs" "length cs \<le> k"
  shows "walk k ar (first_node cs kNil) = cs"
  using assms
proof (induction cs arbitrary: k p)
  case Nil
  then show ?case by (cases k) simp_all
next
  case (Cons c cs)
  then obtain m where k: "k = Suc m" by (cases k) simp_all
  show ?case using Cons.IH [of "c_node c" m] Cons.prems by (cases c) (auto simp: k)
qed

lemma cells_unique:
  assumes inv: "book_inv C b"
  shows "level_cells b = C"
proof (rule ext)
  fix i
  note D = book_invD [OF inv]
  show "level_cells b i = C i"
  proof (cases "i < length (levels b)")
    case True
    note lv = mem_inv_level [OF D(1) True]
    have "nodes (C i) \<subseteq> {n. n < arena_bump b}" using mem_inv_node_bump [OF D(1) True] by blast
    then have "card (nodes (C i)) \<le> unat (arena_bump b)"
      by (metis card_mono card_less_u32 finite)
    moreover have "card (nodes (C i)) = length (C i)" by (metis distinct_card length_map list.set_map lv(3))
    ultimately have "walk (unat (arena_bump b)) (arena b) (first_node (C i) kNil) = C i"
      using walk_chain [OF lv(1) mem_inv_node_not_nil [OF D(1) True]] by simp
    then show ?thesis using True lv(2) by (simp add: level_cells_def)
  qed (simp add: level_cells_def mem_inv_beyond [OF D(1)])
qed

lemma book_inv_wf: "book_inv C b \<Longrightarrow> wf_book b" "book_inv C b \<Longrightarrow> abs_of C b = book_abs b"
  using cells_unique [of C b] by (simp_all add: wf_book_def book_abs_def)

lemma new_book_ok:
  assumes "0 \<le> window"
  obtains b where "new_book capacity window = Some b" "wf_book b" "book_abs b = spec_empty"
    "arena_capacity b = capacity"
proof -
  obtain ix where ix: "fhm_reserve blank_entry (fhm_new blank_entry 16) (unat capacity) = Some ix"
      "fhm_inv ix" "fhm_map ix = Map.empty"
    using fhm_new_ok [of blank_entry 16] fhm_reserve_ok by metis
  let ?b = "\<lparr>arena = replicate (unat capacity) blank_node, arena_capacity = capacity, arena_bump = 0,
       free_list = [], levels = [], base = 0, have_base = False, initial_window = window,
       level_array_growths = 0, best_bid_idx = -1, best_ask_idx = -1, index = ix\<rparr>"
  have "book_inv (\<lambda>_. []) ?b"
    using assms ix(2,3) by (simp add: book_inv_def mem_inv_def index_ok_def best_ok_def base_ok_def)
  then have "wf_book ?b" "abs_of (\<lambda>_. []) ?b = book_abs ?b" by (rule book_inv_wf)+
  moreover have "abs_of (\<lambda>_. []) ?b = spec_empty" by (simp add: abs_of_def abs_at_def spec_empty_def)
  moreover have "new_book capacity window = Some ?b" using ix(1) by (simp add: new_book_def)
  ultimately show ?thesis using that by simp
qed

section \<open>The operations over well-formed books\<close>

lemma add_step:
  assumes "wf_book b" "add_pre t (book_abs b)"
  shows "(\<exists>b' ts. book_add b t = Some (Inr (), b', ts) \<and> wf_book b' \<and>
      spec_add_req t (book_abs b) = (book_abs b', ts)) \<or>
    (\<exists>e b' ts. book_add b t = Some (Inl e, b', ts) \<and> wf_book b' \<and>
      spec_unrested t (book_abs b) = (book_abs b', ts) \<and> may_rest t \<and>
      (depth b' = unat (arena_capacity b) \<or> kMaxLevels < levels_needed b (req_price t)))"
  using book_add_ok [of "level_cells b" b t] assms book_inv_wf unfolding wf_book_def book_abs_def
  by (metis (no_types, lifting))

lemma cancel_step:
  assumes "wf_book b"
  obtains b' where "book_cancel b k = Some (b', is_resting k (book_abs b))" "wf_book b'"
    "book_abs b' = spec_cancel k (book_abs b)"
  using book_cancel_ok [of "level_cells b" b k] assms book_inv_wf unfolding wf_book_def book_abs_def
  by metis

lemma reduce_step:
  assumes "wf_book b"
  obtains b' where "book_reduce b k d = Some (b', is_resting k (book_abs b))" "wf_book b'"
    "book_abs b' = spec_reduce k d (book_abs b)"
  using book_reduce_ok [of "level_cells b" b k d] assms book_inv_wf unfolding wf_book_def book_abs_def
  by metis

text \<open>The calls as a client sees them that keeps the fills when \<open>add\<close> throws: a matching engine.\<close>

definition engine_add :: "book \<Rightarrow> order_request \<Rightarrow> (book \<times> int trade list) option" where
  "engine_add b t = map_option (\<lambda>(r, b', trades). (b', trades)) (book_add b t)"

interpretation v2e: matching_engine engine_add book_cancel book_abs wf_book
proof unfold_locales
  fix b t
  show "wf_book b \<Longrightarrow> wf_spec (book_abs b)" unfolding wf_book_def book_abs_def by (rule abs_of_wf)
  show "wf_book b \<Longrightarrow> add_pre t (book_abs b) \<Longrightarrow> \<exists>b' ts. engine_add b t = Some (b', ts) \<and> wf_book b' \<and>
      (spec_add_req t (book_abs b) = (book_abs b', ts) \<or> may_rest t \<and> spec_unrested t (book_abs b) = (book_abs b', ts))"
    using add_step [of b t] by (fastforce simp: engine_add_def)
  show "\<exists>b'. book_cancel b k = Some (b', is_resting k (book_abs b)) \<and> wf_book b' \<and> book_abs b' = spec_cancel k (book_abs b)"
    if "wf_book b" for k
    by (rule cancel_step [OF that]) auto
qed

section \<open>Sequences of calls\<close>

datatype book_op = OpAdd order_request | OpCancel u64 | OpReduce u64 u64

datatype response = Filled "int trade list" | Threw "int trade list" | Found bool

definition book_step :: "book \<Rightarrow> book_op \<Rightarrow> (response \<times> book) option" where
  "book_step b op =
     (case op of
        OpAdd t \<Rightarrow> (case book_add b t of None \<Rightarrow> None
          | Some (Inr _, b', ts) \<Rightarrow> Some (Filled ts, b')
          | Some (Inl _, b', ts) \<Rightarrow> Some (Threw ts, b'))
      | OpCancel k \<Rightarrow> map_option (\<lambda>(b', r). (Found r, b')) (book_cancel b k)
      | OpReduce k d \<Rightarrow> map_option (\<lambda>(b', r). (Found r, b')) (book_reduce b k d))"

fun book_run :: "book \<Rightarrow> book_op list \<Rightarrow> (response list \<times> book) option" where
  "book_run b [] = Some ([], b)"
| "book_run b (op # ops) =
     (case book_step b op of None \<Rightarrow> None
      | Some (r, b') \<Rightarrow> map_option (\<lambda>(rs, b''). (r # rs, b'')) (book_run b' ops))"

text \<open>The abstract book may refuse to rest an order, as the arena and the axis are bounded.\<close>

inductive spec_step :: "int sbook \<Rightarrow> book_op \<Rightarrow> response \<Rightarrow> int sbook \<Rightarrow> bool" where
  add: "spec_add_req t s = (s', ts) \<Longrightarrow> spec_step s (OpAdd t) (Filled ts) s'"
| add_full: "may_rest t \<Longrightarrow> spec_unrested t s = (s', ts) \<Longrightarrow> spec_step s (OpAdd t) (Threw ts) s'"
| cancel: "spec_step s (OpCancel k) (Found (is_resting k s)) (spec_cancel k s)"
| reduce: "spec_step s (OpReduce k d) (Found (is_resting k s)) (spec_reduce k d s)"

inductive spec_run :: "int sbook \<Rightarrow> book_op list \<Rightarrow> response list \<Rightarrow> int sbook \<Rightarrow> bool" where
  stop: "spec_run s [] [] s"
| more: "spec_step s op r s' \<Longrightarrow> spec_run s' ops rs s'' \<Longrightarrow> spec_run s (op # ops) (r # rs) s''"

inductive_cases spec_step_addE: "spec_step s (OpAdd t) r s'"
inductive_cases spec_run_ConsE: "spec_run s (op # ops) rs s'"

definition op_pre :: "book_op \<Rightarrow> int sbook \<Rightarrow> bool" where
  "op_pre op s = (case op of OpAdd t \<Rightarrow> add_pre t s | _ \<Rightarrow> True)"

text \<open>The caller keeps its side of the contract along the whole run.\<close>

fun run_pre :: "book \<Rightarrow> book_op list \<Rightarrow> bool" where
  "run_pre b [] \<longleftrightarrow> True"
| "run_pre b (op # ops) \<longleftrightarrow> op_pre op (book_abs b) \<and>
     (case book_step b op of None \<Rightarrow> True | Some (r, b') \<Rightarrow> run_pre b' ops)"

lemma book_step_ok:
  assumes "wf_book b" "op_pre op (book_abs b)"
  obtains r b' where "book_step b op = Some (r, b')" "wf_book b'" "spec_step (book_abs b) op r (book_abs b')"
proof (cases op)
  case (OpAdd t)
  then have "add_pre t (book_abs b)" using assms(2) by (simp add: op_pre_def)
  from add_step [OF assms(1) this] consider
    (filled) b' ts where "book_add b t = Some (Inr (), b', ts)" "wf_book b'"
      "spec_add_req t (book_abs b) = (book_abs b', ts)"
  | (threw) e b' ts where "book_add b t = Some (Inl e, b', ts)" "wf_book b'"
      "spec_unrested t (book_abs b) = (book_abs b', ts)" "may_rest t"
    by blast
  then show ?thesis
    by cases (use OpAdd that in \<open>simp_all add: book_step_def spec_step.add spec_step.add_full\<close>)
next
  case (OpCancel k)
  from cancel_step [OF assms(1), of k] obtain b' where
    "book_cancel b k = Some (b', is_resting k (book_abs b))" "wf_book b'"
    "book_abs b' = spec_cancel k (book_abs b)" .
  then show ?thesis using OpCancel that spec_step.cancel [of "book_abs b" k] by (simp add: book_step_def)
next
  case (OpReduce k d)
  from reduce_step [OF assms(1), of k d] obtain b' where
    "book_reduce b k d = Some (b', is_resting k (book_abs b))" "wf_book b'"
    "book_abs b' = spec_reduce k d (book_abs b)" .
  then show ?thesis using OpReduce that spec_step.reduce [of "book_abs b" k d] by (simp add: book_step_def)
qed

lemma book_run_ok:
  assumes "wf_book b" "run_pre b ops"
  shows "\<exists>rs b'. book_run b ops = Some (rs, b') \<and> wf_book b' \<and>
    spec_run (book_abs b) ops rs (book_abs b')"
  using assms
proof (induction ops arbitrary: b)
  case Nil
  then show ?case by (simp add: spec_run.stop)
next
  case (Cons op ops)
  then obtain r b' where step: "book_step b op = Some (r, b')" "wf_book b'"
      "spec_step (book_abs b) op r (book_abs b')"
    using book_step_ok [of b op] by auto
  moreover have "run_pre b' ops" using Cons.prems(2) step(1) by simp
  ultimately obtain rs b'' where "book_run b' ops = Some (rs, b'')" "wf_book b''"
      "spec_run (book_abs b') ops rs (book_abs b'')"
    using Cons.IH by blast
  then show ?case using step by (auto intro: spec_run.more)
qed

section \<open>A concrete book\<close>

text \<open>Two bids at 99 and 98, two asks at 101, one at 103, in an arena of 8 nodes and a window of 4 ticks.\<close>

definition order :: "u64 \<Rightarrow> side \<Rightarrow> order_type \<Rightarrow> int \<Rightarrow> u64 \<Rightarrow> order_request" where
  "order i sd ty p q = \<lparr>req_id = i, req_side = sd, req_type = ty, req_price = p, req_qty = q\<rparr>"

definition demo_ops :: "book_op list" where
  "demo_ops = [OpAdd (order 1 Buy Limit 99 5), OpAdd (order 2 Buy Limit 98 7),
     OpAdd (order 3 Sell Limit 101 4), OpAdd (order 4 Sell Limit 101 6), OpAdd (order 5 Sell Limit 103 9)]"

definition demo_book :: book where
  "demo_book = (case new_book 8 4 of Some b \<Rightarrow> (case book_run b demo_ops of Some (rs, b') \<Rightarrow> b'))"

lemma demo_book_ok:
  "wf_book demo_book"
  "book_abs demo_book =
     \<lparr>s_bids = [Resting 1 99 5, Resting 2 98 7],
      s_asks = [Resting 3 101 4, Resting 4 101 6, Resting 5 103 9]\<rparr>"
  "arena_capacity demo_book = 8"
proof -
  obtain b where b: "new_book 8 4 = Some b" "wf_book b" using new_book_ok [of 4 8] by auto
  have "(case new_book 8 4 of None \<Rightarrow> False | Some b \<Rightarrow> run_pre b demo_ops)" by code_simp
  then have "run_pre b demo_ops" using b(1) by simp
  then show "wf_book demo_book" using book_run_ok [OF b(2), of demo_ops] b(1) by (auto simp: demo_book_def)
  show "book_abs demo_book =
     \<lparr>s_bids = [Resting 1 99 5, Resting 2 98 7],
      s_asks = [Resting 3 101 4, Resting 4 101 6, Resting 5 103 9]\<rparr>" by code_simp
  show "arena_capacity demo_book = 8" by code_simp
qed

lemma demo_add_pre:
  "add_pre (order 9 sd ty p q) (book_abs demo_book)"
  by (cases sd) (simp_all add: add_pre_def order_def demo_book_ok is_resting_def total_qty_def)

section \<open>Positive quantities\<close>

text \<open>Every resting order has shares; and the only operation that rests an order without looking at its quantity.\<close>

definition positive_side :: "'p resting list \<Rightarrow> bool" where
  "positive_side xs \<longleftrightarrow> (\<forall>x \<in> set xs. 0 < r_qty x)"

fun has_shares :: "book_op \<Rightarrow> bool" where
  "has_shares (OpAdd t) = (req_type t = PostOnly \<longrightarrow> 0 < req_qty t)"
| "has_shares _ = True"

definition positive_book :: "'p sbook \<Rightarrow> bool" where
  "positive_book s \<longleftrightarrow> positive_side (s_bids s) \<and> positive_side (s_asks s)"

lemma positive_match: "spec_match cr i q xs = (xs', ts, q') \<Longrightarrow> positive_side xs \<Longrightarrow> positive_side xs'"
proof (induction xs arbitrary: q xs' ts q')
  case (Cons x xs)
  then show ?case
    by (cases x) (auto simp: positive_side_def not_le word_gt_0 split: if_splits prod.splits)
qed simp

lemma positive_set_side: "positive_book (set_side sd xs s) \<longleftrightarrow> positive_side xs \<and> positive_side (s_side (opposite sd) s)"
  by (cases sd) (auto simp: positive_book_def)

lemma positive_sides: "positive_book s \<longleftrightarrow> positive_side (s_side sd s) \<and> positive_side (s_side (opposite sd) s)"
  by (cases sd) (auto simp: positive_book_def)

lemma positive_take: "spec_take i sd ty p q s = (s', ts, q') \<Longrightarrow> positive_book s \<Longrightarrow> positive_book s'"
  using positive_match by (cases sd) (fastforce simp: spec_take_def positive_book_def split: prod.splits)+

lemma positive_rest: "positive_book s \<Longrightarrow> 0 < r_qty r \<Longrightarrow> positive_book (spec_rest sd r s)"
  by (auto simp: spec_rest_def positive_set_side positive_sides [of s sd]) (auto simp: positive_side_def set_spec_insert)

lemma positive_step:
  "spec_step s op r s' \<Longrightarrow> positive_book s \<Longrightarrow> has_shares op \<Longrightarrow> positive_book s'"
proof (induction rule: spec_step.induct)
  case (add t s s' ts)
  obtain s1 ts1 q1 where tk: "spec_take (req_id t) (req_side t) (req_type t) (req_price t) (req_qty t) s = (s1, ts1, q1)"
    by (metis prod_cases3)
  have "positive_book (spec_cancel (req_id t) s)" using add(2) by (auto simp: positive_book_def positive_side_def spec_cancel_def)
  then show ?case
    using add positive_take [OF tk] positive_rest [of s] positive_rest [of s1] tk
    by (auto simp: spec_add_def split: if_splits)
next
  case (add_full t s s' ts)
  then show ?case using positive_take by (fastforce simp: spec_unrested_def split: if_splits prod.splits)
next
  case (cancel s k)
  then show ?case by (auto simp: positive_book_def positive_side_def spec_cancel_def)
next
  case (reduce s k d)
  then show ?case
    by (auto simp: positive_book_def positive_side_def spec_reduce_def reduce_list_def not_le word_gt_0)
qed

lemma positive_run:
  "spec_run s ops rs s' \<Longrightarrow> positive_book s \<Longrightarrow> list_all has_shares ops \<Longrightarrow> positive_book s'"
  by (induction rule: spec_run.induct) (auto intro: positive_step)

section \<open>Properties\<close>

text \<open>C15: \<open>OrderBookV2::add\<close> returns on every well-formed book and does what price-time priority
  says: the trades and the book after it are those of the specification. When it throws, the
  book is still well formed, the fills it made stand and the remainder does not rest.\<close>

theorem v2_add_refines:
  assumes "wf_book b" and "add_pre t (book_abs b)"
  shows "\<exists>r b' ts. book_add b t = Some (r, b', ts) \<and> wf_book b' \<and>
    (book_abs b', ts) = (case r of Inr _ \<Rightarrow> spec_add_req t (book_abs b)
                                | Inl _ \<Rightarrow> spec_unrested t (book_abs b))"
  using add_step [OF assms] by (elim disjE exE conjE) auto

theorem v2_add_refines_witness:
  "\<exists>r b' ts. book_add demo_book (order 9 Buy Limit 102 12) = Some (r, b', ts) \<and> wf_book b' \<and>
    (book_abs b', ts) = (case r of Inr _ \<Rightarrow> spec_add_req (order 9 Buy Limit 102 12) (book_abs demo_book)
                                | Inl _ \<Rightarrow> spec_unrested (order 9 Buy Limit 102 12) (book_abs demo_book))"
  by (rule v2_add_refines [OF demo_book_ok(1) demo_add_pre])

text \<open>\<open>cancel\<close> returns, answers whether the id was resting, removes exactly that order and keeps
  the invariant: the unlink in the middle of a level list, the id index, the free list and the
  best-price indices all agree afterwards.\<close>

theorem v2_cancel_refines:
  assumes "wf_book b"
  shows "\<exists>b'. book_cancel b k = Some (b', is_resting k (book_abs b)) \<and> wf_book b' \<and>
    book_abs b' = spec_cancel k (book_abs b)"
  by (rule cancel_step [OF assms, of k]) blast

theorem v2_cancel_refines_witness:
  "\<exists>b'. book_cancel demo_book 3 = Some (b', True) \<and> wf_book b' \<and>
    book_abs b' = \<lparr>s_bids = [Resting 1 99 5, Resting 2 98 7], s_asks = [Resting 4 101 6, Resting 5 103 9]\<rparr>"
  using v2_cancel_refines [OF demo_book_ok(1), of 3]
  by (simp add: demo_book_ok(2) is_resting_def spec_cancel_def)

text \<open>\<open>reduce\<close> returns, lowers the order's quantity in place (it keeps its priority) and is a
  cancel when nothing would be left.\<close>

theorem v2_reduce_refines:
  assumes "wf_book b"
  shows "\<exists>b'. book_reduce b k d = Some (b', is_resting k (book_abs b)) \<and> wf_book b' \<and>
    book_abs b' = spec_reduce k d (book_abs b)"
  by (rule reduce_step [OF assms, of k d]) blast

theorem v2_reduce_refines_witness:
  "\<exists>b'. book_reduce demo_book 3 1 = Some (b', True) \<and> wf_book b' \<and>
    book_abs b' = \<lparr>s_bids = [Resting 1 99 5, Resting 2 98 7],
                  s_asks = [Resting 3 101 3, Resting 4 101 6, Resting 5 103 9]\<rparr>"
proof -
  have "is_resting 3 (book_abs demo_book)" "spec_reduce 3 1 (book_abs demo_book) =
      \<lparr>s_bids = [Resting 1 99 5, Resting 2 98 7], s_asks = [Resting 3 101 3, Resting 4 101 6, Resting 5 103 9]\<rparr>"
    unfolding demo_book_ok(2) by code_simp+
  then show ?thesis using v2_reduce_refines [OF demo_book_ok(1), of 3 1] by simp
qed

text \<open>C1: every sequence of add, cancel and reduce calls on a well-formed book runs to the end and
  is a run of the abstract order book with the same responses.\<close>

theorem v2_run_simulates:
  assumes "wf_book b" and "run_pre b ops"
  shows "\<exists>rs b'. book_run b ops = Some (rs, b') \<and> wf_book b' \<and> spec_run (book_abs b) ops rs (book_abs b')"
  by (rule book_run_ok [OF assms])

theorem v2_run_simulates_witness:
  "\<exists>rs b'. book_run demo_book [OpReduce 4 2, OpCancel 1, OpAdd (order 9 Sell FOK 98 7)] = Some (rs, b') \<and>
    wf_book b' \<and> spec_run (book_abs demo_book) [OpReduce 4 2, OpCancel 1, OpAdd (order 9 Sell FOK 98 7)] rs (book_abs b')"
proof (rule v2_run_simulates [OF demo_book_ok(1)])
  show "run_pre demo_book [OpReduce 4 2, OpCancel 1, OpAdd (order 9 Sell FOK 98 7)]" by code_simp
qed

text \<open>The answers of \<open>best_bid\<close>, \<open>best_ask\<close>, \<open>has_bid\<close>, \<open>has_ask\<close> and \<open>depth\<close> are those of the
  abstract book.\<close>

theorem v2_queries:
  assumes "wf_book b"
  shows "has_bid b = (s_bids (book_abs b) \<noteq> []) \<and> has_ask b = (s_asks (book_abs b) \<noteq> []) \<and>
    best_bid b = (case s_bids (book_abs b) of [] \<Rightarrow> 0 | r # _ \<Rightarrow> r_price r) \<and>
    best_ask b = (case s_asks (book_abs b) of [] \<Rightarrow> 0 | r # _ \<Rightarrow> r_price r) \<and>
    depth b = length (s_bids (book_abs b)) + length (s_asks (book_abs b))"
proof (intro conjI)
  note inv = assms [unfolded wf_book_def]
  note B = book_invD(4) [OF inv]
  show "has_bid b = (s_bids (book_abs b) \<noteq> [])" "has_ask b = (s_asks (book_abs b) \<noteq> [])"
    using abs_empty_iff [OF B] by (auto simp: has_bid_def has_ask_def book_abs_def)
  show "best_bid b = (case s_bids (book_abs b) of [] \<Rightarrow> 0 | r # _ \<Rightarrow> r_price r)"
    "best_ask b = (case s_asks (book_abs b) of [] \<Rightarrow> 0 | r # _ \<Rightarrow> r_price r)"
    using best_prices [OF B] by (simp_all add: book_abs_def)
  show "depth b = length (s_bids (book_abs b)) + length (s_asks (book_abs b))"
    using depth_abs [OF inv] by (simp add: book_abs_def)
qed

theorem v2_queries_witness:
  "best_bid demo_book = 99 \<and> best_ask demo_book = 101 \<and> depth demo_book = 5"
  using v2_queries [OF demo_book_ok(1)] by (simp add: demo_book_ok(2))

text \<open>C37: after any sequence of calls a book is sorted by price on both sides, best first, never crossed, and holds
  each id once; and if every order rested with shares before and no post-only order without shares was submitted, every
  order rests with shares. (The exception is needed: a post-only order of quantity 0 comes to rest.)\<close>

theorem v2_priority_uncrossed:
  assumes "wf_book b" "run_pre b ops" "book_run b ops = Some (rs, b')"
  shows "sorted_wrt (\<lambda>x y. r_price y \<le> r_price x) (s_bids (book_abs b')) \<and>
    sorted_wrt (\<lambda>x y. r_price x \<le> r_price y) (s_asks (book_abs b')) \<and>
    (\<forall>x \<in> set (s_bids (book_abs b')). \<forall>y \<in> set (s_asks (book_abs b')). r_price x < r_price y) \<and>
    distinct (map r_id (s_bids (book_abs b') @ s_asks (book_abs b'))) \<and>
    (positive_book (book_abs b) \<and> list_all has_shares ops \<longrightarrow> positive_book (book_abs b'))"
proof -
  have b': "wf_book b'" "spec_run (book_abs b) ops rs (book_abs b')" using book_run_ok [OF assms(1,2)] assms(3) by auto
  have "wf_spec (book_abs b')" using abs_of_wf [OF b'(1) [unfolded wf_book_def]] by (simp add: book_abs_def)
  moreover have "positive_book (book_abs b) \<and> list_all has_shares ops \<longrightarrow> positive_book (book_abs b')"
    using positive_run [OF b'(2)] by blast
  ultimately show ?thesis by (simp add: wf_spec_def priority_sorted_def better_def uncrossed_def)
qed

theorem v2_priority_uncrossed_witness:
  "\<exists>rs b'. book_run demo_book [OpAdd (order 9 Buy PostOnly 100 3), OpAdd (order 10 Sell Limit 99 8), OpReduce 4 2] = Some (rs, b') \<and>
     positive_book (book_abs b') \<and> distinct (map r_id (s_bids (book_abs b') @ s_asks (book_abs b')))"
proof -
  let ?ops = "[OpAdd (order 9 Buy PostOnly 100 3), OpAdd (order 10 Sell Limit 99 8), OpReduce 4 2]"
  have pre: "run_pre demo_book ?ops" by code_simp
  then obtain rs b' where run: "book_run demo_book ?ops = Some (rs, b')" using book_run_ok [OF demo_book_ok(1)] by blast
  have "positive_book (book_abs demo_book)" by (simp add: demo_book_ok(2) positive_book_def positive_side_def)
  then show ?thesis using v2_priority_uncrossed [OF demo_book_ok(1) pre run] run by (auto simp: order_def)
qed

text \<open>The exception: an order without shares rests, is counted and sets the best bid.\<close>

lemma empty_post_only_rests:
  "\<exists>b'. book_add demo_book (order 9 Buy PostOnly 100 0) = Some (Inr (), b', []) \<and> best_bid b' = 100 \<and> depth b' = 6 \<and>
     s_bids (book_abs b') = [Resting 9 100 0, Resting 1 99 5, Resting 2 98 7]"
proof -
  let ?t = "order 9 Buy PostOnly 100 0"
  have run: "(case book_add demo_book ?t of None \<Rightarrow> False
      | Some (r, b', ts) \<Rightarrow> r = Inr () \<and> ts = [] \<and> best_bid b' = 100 \<and> depth b' = 6)"
    by code_simp
  have pre: "add_pre ?t (book_abs demo_book)"
    by (simp add: add_pre_def order_def demo_book_ok is_resting_def total_qty_def)
  have "spec_add_req ?t (book_abs demo_book) =
      (\<lparr>s_bids = [Resting 9 100 0, Resting 1 99 5, Resting 2 98 7], s_asks = [Resting 3 101 4, Resting 4 101 6, Resting 5 103 9]\<rparr>, [])"
    unfolding demo_book_ok(2) by code_simp
  then show ?thesis using add_step [OF demo_book_ok(1) pre] run by auto (metis sbook.select_convs(1))
qed

text \<open>The arena neither leaks nor shares a node: the nodes handed out are exactly those of the
  resting orders and those on the free list, and they never exceed the capacity.\<close>

theorem v2_arena_accounting:
  assumes "wf_book b"
  shows "depth b + length (free_list b) = unat (arena_bump b) \<and> arena_bump b \<le> arena_capacity b"
  using arena_accounting [OF assms [unfolded wf_book_def]]
    mem_inv_arena(2) [OF book_invD(1) [OF assms [unfolded wf_book_def]]] by simp_all

theorem v2_arena_accounting_witness: "5 + length (free_list demo_book) = unat (arena_bump demo_book)"
  using v2_arena_accounting [OF demo_book_ok(1)] depth_abs [OF demo_book_ok(1) [unfolded wf_book_def]]
  by (simp add: demo_book_ok(2) flip: book_abs_def)

lemma unrested_depth:
  assumes "wf_book b" "wf_book b'" "spec_unrested t (book_abs b) = (book_abs b', ts)"
  shows "depth b' \<le> depth b"
proof -
  have len: "depth a = length (s_bids (book_abs a)) + length (s_asks (book_abs a))" if "wf_book a" for a
    using depth_abs [OF that [unfolded wf_book_def]] by (simp add: book_abs_def)
  have "book_abs b' = fst (spec_unrested t (book_abs b))" using assms(3) by simp
  note eq = this [unfolded spec_unrested_def spec_take_def]
  show ?thesis
    using spec_match_length
      [of "crosses (req_side t) (req_type t) (req_price t)" "req_id t" "req_qty t"
          "s_side (opposite (req_side t)) (book_abs b)"]
    unfolding len [OF assms(1)] len [OF assms(2)] eq
    by (cases "req_side t") (auto split: prod.splits)
qed

text \<open>\<open>add\<close> does not throw while fewer orders rest than the arena has nodes and the price axis
  with the new price stays within \<open>kMaxLevels\<close>.\<close>

theorem v2_add_no_throw:
  assumes "wf_book b" "add_pre t (book_abs b)"
    and "depth b < unat (arena_capacity b)" "levels_needed b (req_price t) \<le> kMaxLevels"
  shows "\<exists>b' ts. book_add b t = Some (Inr (), b', ts) \<and> wf_book b' \<and>
    spec_add_req t (book_abs b) = (book_abs b', ts)"
  using add_step [OF assms(1,2)] unrested_depth [OF assms(1)] assms(3,4)
  by (elim disjE exE conjE) fastforce+

theorem v2_add_no_throw_witness:
  "\<exists>b' ts. book_add demo_book (order 9 Buy Limit 110 12) = Some (Inr (), b', ts) \<and> wf_book b' \<and>
    spec_add_req (order 9 Buy Limit 110 12) (book_abs demo_book) = (book_abs b', ts)"
proof (rule v2_add_no_throw [OF demo_book_ok(1) demo_add_pre])
  show "depth demo_book < unat (arena_capacity demo_book)"
    using depth_abs [OF demo_book_ok(1) [unfolded wf_book_def]]
    by (simp add: demo_book_ok(2,3) flip: book_abs_def)
  show "levels_needed demo_book (req_price (order 9 Buy Limit 110 12)) \<le> kMaxLevels" by code_simp
qed

text \<open>Quantity is conserved by \<open>add\<close>: what trades leaves the opposite side and the taker, and a
  limit order that returns normally rests with exactly what it did not trade.\<close>

theorem v2_add_conserves:
  assumes "wf_book b" "add_pre t (book_abs b)" "req_type t \<noteq> Cancel"
    and "book_add b t = Some (Inr (), b', ts)"
  shows "volume ts \<le> unat (req_qty t) \<and>
    total_qty (s_side (opposite (req_side t)) (book_abs b)) =
      total_qty (s_side (opposite (req_side t)) (book_abs b')) + volume ts \<and>
    (req_type t = Limit \<longrightarrow>
      total_qty (s_side (req_side t) (book_abs b')) + volume ts =
      total_qty (s_side (req_side t) (book_abs b)) + unat (req_qty t))"
proof -
  have "spec_add_req t (book_abs b) = (book_abs b', ts)"
    using add_step [OF assms(1,2)] assms(4) by auto
  from spec_add_conserves [OF this assms(3)] show ?thesis by blast
qed

theorem v2_add_conserves_witness:
  "\<exists>b' ts. book_add demo_book (order 9 Buy Limit 102 12) = Some (Inr (), b', ts) \<and>
    total_qty (s_bids (book_abs b')) + volume ts = 24 \<and> 19 = total_qty (s_asks (book_abs b')) + volume ts"
proof -
  let ?t = "order 9 Buy Limit 102 12"
  have "case book_add demo_book ?t of Some (Inr _, _) \<Rightarrow> True | _ \<Rightarrow> False" by code_simp
  then obtain b' ts where run: "book_add demo_book ?t = Some (Inr (), b', ts)"
    by (auto split: option.splits sum.splits prod.splits)
  have "req_type ?t \<noteq> Cancel" "req_type ?t = Limit" "req_side ?t = Buy" "req_qty ?t = 12"
    by (simp_all add: order_def)
  with v2_add_conserves [OF demo_book_ok(1) demo_add_pre _ run] run show ?thesis
    by (simp add: demo_book_ok(2))
qed

text \<open>C38: the makers hit by an \<open>add\<close> are the first orders of the opposite side, in priority order,
  each at its own resting price, and no trade is outside the taker's limit.\<close>

theorem v2_trades_fair:
  assumes "wf_book b" "add_pre t (book_abs b)" "book_add b t = Some (r, b', ts)"
  shows "(\<forall>x \<in> set ts. crosses (req_side t) (req_type t) (req_price t) (trade_price x) \<and>
      taker_id x = req_id t) \<and>
    map (\<lambda>x. (maker_id x, trade_price x)) ts =
      map (\<lambda>x. (r_id x, r_price x)) (take (length ts) (s_side (opposite (req_side t)) (book_abs b)))"
  by (rule v2e.fair [OF assms(1,2)]) (simp add: engine_add_def assms(3))

theorem v2_trades_fair_witness:
  "\<exists>r b' ts. book_add demo_book (order 9 Buy Limit 102 12) = Some (r, b', ts) \<and>
    map (\<lambda>x. (maker_id x, trade_price x)) ts = [(3, 101), (4, 101)]"
proof -
  let ?t = "order 9 Buy Limit 102 12"
  have "case book_add demo_book ?t of Some (_, _, ts) \<Rightarrow> length ts = 2 | _ \<Rightarrow> False" by code_simp
  then obtain r b' ts where run: "book_add demo_book ?t = Some (r, b', ts)" "length ts = 2"
    by (auto split: option.splits prod.splits)
  have "req_side ?t = Buy" by (simp add: order_def)
  with v2_trades_fair [OF demo_book_ok(1) demo_add_pre run(1)] run show ?thesis
    by (auto simp: demo_book_ok(2))
qed

text \<open>A fill-or-kill order trades its whole quantity exactly when the specification says the
  crossing orders suffice, and otherwise leaves the book as it was.\<close>

theorem v2_fok_atomic:
  assumes "wf_book b" "add_pre t (book_abs b)" "req_type t = FOK"
    and "book_add b t = Some (r, b', ts)"
  shows "if spec_fillable (crosses (req_side t) FOK (req_price t)) (req_qty t)
           (s_side (opposite (req_side t)) (book_abs b))
    then volume ts = unat (req_qty t) else book_abs b' = book_abs b \<and> ts = []"
  by (rule v2e.fok [OF assms(1-3)]) (simp add: engine_add_def assms(4))

theorem v2_fok_atomic_witness:
  "\<exists>r b' ts. book_add demo_book (order 9 Buy FOK 102 11) = Some (r, b', ts) \<and>
    book_abs b' = book_abs demo_book \<and> ts = []"
proof -
  let ?t = "order 9 Buy FOK 102 11"
  obtain r b' ts where run: "book_add demo_book ?t = Some (r, b', ts)"
    using add_step [OF demo_book_ok(1) demo_add_pre] by blast
  have "req_type ?t = FOK" by (simp add: order_def)
  moreover have "\<not> spec_fillable (crosses (req_side ?t) FOK (req_price ?t)) (req_qty ?t)
      (s_side (opposite (req_side ?t)) (book_abs demo_book))"
    unfolding demo_book_ok(2) by code_simp
  ultimately show ?thesis using v2_fok_atomic [OF demo_book_ok(1) demo_add_pre _ run] run by auto
qed

end
