(* ===== verification/Book_V1.thy ===== *)
theory Book_V1
  imports Book_Spec
begin

text \<open>
  \<open>OrderBook\<close> v1 (\<open>cpp/include/order_book.h\<close>, \<open>cpp/src/order_book.cpp\<close>), the reference book of
  the differential fuzzer: two ordered maps from price to a FIFO queue and an index from id to
  side and price.

  \<open>std::map\<close> is the list of its entries in comparator order (\<open>begin()\<close> is the head);
  \<open>std::unordered_map\<close> is a partial map. The \<open>double\<close> price is only compared and copied, so it is
  any linearly ordered type with a zero (what the empty book answers); NaN, which \<open>std::map\<close> itself
  excludes as a key, is the one double this leaves out.
\<close>

section \<open>State\<close>

record 'p order =
  o_id :: u64
  o_side :: side
  o_type :: order_type
  o_price :: 'p
  o_qty :: u64
  o_timestamp_ns :: u64

type_synonym 'p level_map = "('p \<times> 'p order list) list"

record 'p book1 =
  bids1 :: "'p level_map"
  asks1 :: "'p level_map"
  index1 :: "u64 \<Rightarrow> (side \<times> 'p) option"

definition new_book1 :: "'p book1" where
  "new_book1 = \<lparr>bids1 = [], asks1 = [], index1 = Map.empty\<rparr>"

text \<open>The comparator of a side: \<open>std::greater\<close> for bids, \<open>std::less\<close> for asks.\<close>

definition before :: "side \<Rightarrow> 'p::linorder \<Rightarrow> 'p \<Rightarrow> bool" where
  "before sd p q = (case sd of Buy \<Rightarrow> q < p | Sell \<Rightarrow> p < q)"

text \<open>\<open>m[p].push_back(o)\<close>\<close>

fun level_push :: "side \<Rightarrow> 'p::linorder \<Rightarrow> 'p order \<Rightarrow> 'p level_map \<Rightarrow> 'p level_map" where
  "level_push sd p x [] = [(p, [x])]"
| "level_push sd p x ((q, xs) # m) =
     (if before sd p q then (p, [x]) # (q, xs) # m
      else if before sd q p then (q, xs) # level_push sd p x m
      else (q, xs @ [x]) # m)"

section \<open>Queries\<close>

definition best_bid1 :: "'p::zero book1 \<Rightarrow> 'p" where
  "best_bid1 b = (case bids1 b of [] \<Rightarrow> 0 | (p, _) # _ \<Rightarrow> p)"

definition best_ask1 :: "'p::zero book1 \<Rightarrow> 'p" where
  "best_ask1 b = (case asks1 b of [] \<Rightarrow> 0 | (p, _) # _ \<Rightarrow> p)"

definition depth1 :: "'p book1 \<Rightarrow> nat" where
  "depth1 b = sum_list (map (\<lambda>(p, q). length q) (bids1 b)) + sum_list (map (\<lambda>(p, q). length q) (asks1 b))"

section \<open>Matching\<close>

function match_queue ::
    "'p \<Rightarrow> 'p order \<Rightarrow> (u64 \<Rightarrow> (side \<times> 'p) option) \<Rightarrow> 'p order list \<Rightarrow> 'p trade list \<Rightarrow>
     'p order \<times> (u64 \<Rightarrow> (side \<times> 'p) option) \<times> 'p order list \<times> 'p trade list" where
  "match_queue best taker ix [] ts = (taker, ix, [], ts)"
| "match_queue best taker ix (maker # queue) ts =
     (if 0 < o_qty taker
      then
        let fill = min (o_qty taker) (o_qty maker);
            ts1 = ts @ [\<lparr>maker_id = o_id maker, taker_id = o_id taker, trade_price = best, trade_qty = fill\<rparr>];
            taker1 = taker\<lparr>o_qty := o_qty taker - fill\<rparr>;
            maker1 = maker\<lparr>o_qty := o_qty maker - fill\<rparr>
        in if o_qty maker1 = 0 then match_queue best taker1 (ix(o_id maker := None)) queue ts1
           else match_queue best taker1 ix (maker1 # queue) ts1
      else (taker, ix, maker # queue, ts))"
  by pat_completeness auto
termination
  by (relation "measures [\<lambda>(best, taker, ix, queue, ts). length queue,
                          \<lambda>(best, taker, ix, queue, ts). unat (o_qty taker)]")
     (auto simp: min_def word_less_nat_alt split: if_splits)

declare match_queue.simps [simp del]

lemma match_queue_stop: "o_qty taker = 0 \<Longrightarrow> match_queue best taker ix queue ts = (taker, ix, queue, ts)"
  by (cases queue) (simp_all add: match_queue.simps)

lemma match_queue_step:
  assumes "0 < o_qty taker"
  shows "match_queue best taker ix (maker # queue) ts =
    (if o_qty maker \<le> o_qty taker
     then match_queue best (taker\<lparr>o_qty := o_qty taker - o_qty maker\<rparr>) (ix(o_id maker := None)) queue
       (ts @ [\<lparr>maker_id = o_id maker, taker_id = o_id taker, trade_price = best, trade_qty = o_qty maker\<rparr>])
     else (taker\<lparr>o_qty := 0\<rparr>, ix, maker\<lparr>o_qty := o_qty maker - o_qty taker\<rparr> # queue,
       ts @ [\<lparr>maker_id = o_id maker, taker_id = o_id taker, trade_price = best, trade_qty = o_qty taker\<rparr>]))"
proof (cases "o_qty maker \<le> o_qty taker")
  case True
  then show ?thesis using assms by (simp add: match_queue.simps Let_def min_absorb2)
next
  case False
  then have "min (o_qty taker) (o_qty maker) = o_qty taker" "o_qty maker \<noteq> o_qty taker" by auto
  then show ?thesis
    using assms False by (simp add: match_queue.simps(2) [of best taker] Let_def match_queue_stop)
qed

lemma match_queue_left:
  "match_queue best taker ix queue ts = (taker', ix', queue', ts') \<Longrightarrow> queue' \<noteq> [] \<Longrightarrow> o_qty taker' = 0"
proof (induction queue arbitrary: taker ix ts)
  case Nil
  then show ?case by (simp add: match_queue.simps)
next
  case (Cons maker queue)
  consider "o_qty taker = 0" | "0 < o_qty taker" using word_zero_or_pos [of "o_qty taker"] by blast
  then show ?case
  proof cases
    case 1
    then show ?thesis using Cons.prems(1) by (simp add: match_queue_stop)
  next
    case 2
    then show ?thesis using Cons by (auto simp: match_queue_step split: if_splits)
  qed
qed

function match_against ::
    "'p::linorder level_map \<Rightarrow> 'p order \<Rightarrow> bool \<Rightarrow> (u64 \<Rightarrow> (side \<times> 'p) option) \<Rightarrow> 'p trade list \<Rightarrow>
     'p level_map \<times> 'p order \<times> (u64 \<Rightarrow> (side \<times> 'p) option) \<times> 'p trade list" where
  "match_against [] taker taker_is_buy ix ts = ([], taker, ix, ts)"
| "match_against ((best_opp, queue) # opp) taker taker_is_buy ix ts =
     (if 0 < o_qty taker
      then
        if o_type taker \<noteq> Market \<and> (taker_is_buy \<and> o_price taker < best_opp \<or>
            \<not> taker_is_buy \<and> best_opp < o_price taker)
        then ((best_opp, queue) # opp, taker, ix, ts)
        else
          let (taker1, ix1, queue1, ts1) = match_queue best_opp taker ix queue ts
          in match_against (if queue1 = [] then opp else (best_opp, queue1) # opp) taker1 taker_is_buy ix1 ts1
      else ((best_opp, queue) # opp, taker, ix, ts))"
  by pat_completeness auto
termination
proof (relation "measures [\<lambda>(opp, taker, tb, ix, ts). length opp, \<lambda>(opp, taker, tb, ix, ts). unat (o_qty taker)]")
  fix best_opp queue opp taker taker_is_buy ix ts x taker1 y ix1 z queue1 ts1
  assume "0 < o_qty (taker :: 'a order)" "x = match_queue best_opp taker ix queue ts"
    "(taker1, y) = x" "(ix1, z) = y" "(queue1, ts1) = z"
  then show "((if queue1 = [] then opp else (best_opp, queue1) # opp, taker1, taker_is_buy, ix1, ts1),
      (best_opp, queue) # opp, taker, taker_is_buy, ix, ts) \<in>
      measures [\<lambda>(opp, taker, tb, ix, ts). length opp, \<lambda>(opp, taker, tb, ix, ts). unat (o_qty taker)]"
    using match_queue_left [of best_opp taker ix queue ts taker1 ix1 queue1 ts1]
    by (auto simp: word_less_nat_alt)
qed simp

declare match_against.simps [simp del]

definition match1 :: "'p::linorder book1 \<Rightarrow> 'p order \<Rightarrow> 'p book1 \<times> 'p order \<times> 'p trade list" where
  "match1 b taker =
     (if o_side taker = Buy
      then (case match_against (asks1 b) taker True (index1 b) [] of (m, taker1, ix, ts) \<Rightarrow>
              (b\<lparr>asks1 := m, index1 := ix\<rparr>, taker1, ts))
      else (case match_against (bids1 b) taker False (index1 b) [] of (m, taker1, ix, ts) \<Rightarrow>
              (b\<lparr>bids1 := m, index1 := ix\<rparr>, taker1, ts)))"

fun fill_levels :: "side \<Rightarrow> 'p::linorder \<Rightarrow> u64 \<Rightarrow> u64 \<Rightarrow> 'p level_map \<Rightarrow> bool" where
  "fill_levels sd price qty available [] = False"
| "fill_levels sd price qty available ((p, queue) # m) =
     (if (if sd = Buy then price < p else p < price) then False
      else let available1 = fold (\<lambda>x a. a + o_qty x) queue available
           in if qty \<le> available1 then True else fill_levels sd price qty available1 m)"

definition can_fully_fill1 :: "'p::linorder book1 \<Rightarrow> 'p order \<Rightarrow> bool" where
  "can_fully_fill1 b taker =
     (if o_side taker = Buy then fill_levels Buy (o_price taker) (o_qty taker) 0 (asks1 b)
      else fill_levels Sell (o_price taker) (o_qty taker) 0 (bids1 b))"

section \<open>Cancel and add\<close>

definition level_cancel :: "'p \<Rightarrow> u64 \<Rightarrow> 'p level_map \<Rightarrow> 'p level_map \<times> bool" where
  "level_cancel p i m =
     (case map_of m p of None \<Rightarrow> (m, False)
      | Some q \<Rightarrow>
          let q1 = filter (\<lambda>x. o_id x \<noteq> i) q
          in (if q1 = [] then filter (\<lambda>(r, _). r \<noteq> p) m
              else map (\<lambda>(r, q). if r = p then (r, q1) else (r, q)) m, True))"

definition book1_cancel :: "'p book1 \<Rightarrow> u64 \<Rightarrow> 'p book1 \<times> bool" where
  "book1_cancel b i =
     (case index1 b i of None \<Rightarrow> (b, False)
      | Some (sd, p) \<Rightarrow>
          let (b1, found) = (if sd = Buy then (case level_cancel p i (bids1 b) of (m, r) \<Rightarrow> (b\<lparr>bids1 := m\<rparr>, r))
                             else (case level_cancel p i (asks1 b) of (m, r) \<Rightarrow> (b\<lparr>asks1 := m\<rparr>, r)))
          in if \<not> found then (b1, False) else (b1\<lparr>index1 := (index1 b1)(i := None)\<rparr>, True))"

definition rest1 :: "'p::linorder book1 \<Rightarrow> 'p order \<Rightarrow> 'p book1" where
  "rest1 b x =
     (let b1 = (if o_side x = Buy then b\<lparr>bids1 := level_push Buy (o_price x) x (bids1 b)\<rparr>
                else b\<lparr>asks1 := level_push Sell (o_price x) x (asks1 b)\<rparr>)
      in b1\<lparr>index1 := (index1 b1)(o_id x \<mapsto> (o_side x, o_price x))\<rparr>)"

definition would_cross1 :: "'p::linorder book1 \<Rightarrow> 'p order \<Rightarrow> bool" where
  "would_cross1 b x \<longleftrightarrow>
     (if o_side x = Buy then (case asks1 b of [] \<Rightarrow> False | (p, _) # _ \<Rightarrow> p \<le> o_price x)
      else (case bids1 b of [] \<Rightarrow> False | (p, _) # _ \<Rightarrow> o_price x \<le> p))"

definition book1_add :: "'p::linorder book1 \<Rightarrow> 'p order \<Rightarrow> 'p book1 \<times> 'p trade list" where
  "book1_add b x =
     (if o_type x = Cancel then (fst (book1_cancel b (o_id x)), [])
      else if o_type x = PostOnly then (if would_cross1 b x then (b, []) else (rest1 b x, []))
      else if o_type x = FOK \<and> \<not> can_fully_fill1 b x then (b, [])
      else case match1 b x of (b1, taker, ts) \<Rightarrow>
        (if o_type taker = Limit \<and> 0 < o_qty taker then (rest1 b1 taker, ts) else (b1, ts)))"

end
