(* ===== verification/Book_V1_Refine.thy ===== *)
theory Book_V1_Refine
  imports Book_V1
begin

text \<open>
  \<open>OrderBook\<close> v1 implements the price-time priority book of \<open>Book_Spec\<close>: its invariant, its
  abstraction, and the refinement of every operation.
\<close>

section \<open>Invariant and abstraction\<close>

definition queue_abs :: "'p \<Rightarrow> 'p order list \<Rightarrow> 'p resting list" where
  "queue_abs p q = map (\<lambda>x. Resting (o_id x) p (o_qty x)) q"

definition side_abs :: "'p level_map \<Rightarrow> 'p resting list" where
  "side_abs m = concat (map (\<lambda>(p, q). queue_abs p q) m)"

definition book1_abs :: "'p book1 \<Rightarrow> 'p sbook" where
  "book1_abs b = \<lparr>s_bids = side_abs (bids1 b), s_asks = side_abs (asks1 b)\<rparr>"

text \<open>Levels in comparator order, none of them empty.\<close>

definition levels_ok :: "side \<Rightarrow> 'p::linorder level_map \<Rightarrow> bool" where
  "levels_ok sd m \<longleftrightarrow> sorted_wrt (before sd) (map fst m) \<and> (\<forall>(p, q) \<in> set m. q \<noteq> [])"

definition index1_ok :: "(u64 \<Rightarrow> (side \<times> 'p) option) \<Rightarrow> 'p sbook \<Rightarrow> bool" where
  "index1_ok ix s \<longleftrightarrow> (\<forall>k sd p. ix k = Some (sd, p) \<longleftrightarrow> (k, p) \<in> r_key ` set (s_side sd s))"

definition wf_book1 :: "'p::linorder book1 \<Rightarrow> bool" where
  "wf_book1 b \<longleftrightarrow> levels_ok Buy (bids1 b) \<and> levels_ok Sell (asks1 b) \<and>
     index1_ok (index1 b) (book1_abs b) \<and> wf_spec (book1_abs b)"

lemma abs_simps [simp]:
  "queue_abs p [] = []" "queue_abs p (x # q) = Resting (o_id x) p (o_qty x) # queue_abs p q"
  "queue_abs p (q @ q') = queue_abs p q @ queue_abs p q'" "queue_abs p q = [] \<longleftrightarrow> q = []"
  "side_abs [] = []" "side_abs ((p, q) # m) = queue_abs p q @ side_abs m"
  by (simp_all add: queue_abs_def side_abs_def)

lemma in_queue_abs: "x \<in> set (queue_abs p q) \<longleftrightarrow> (\<exists>y \<in> set q. x = Resting (o_id y) p (o_qty y))"
  by (auto simp: queue_abs_def)

lemma in_side_abs: "x \<in> set (side_abs m) \<longleftrightarrow> (\<exists>(p, q) \<in> set m. x \<in> set (queue_abs p q))"
  by (auto simp: side_abs_def)

lemma levels_ok_Cons:
  "levels_ok sd ((p, q) # m) \<longleftrightarrow> q \<noteq> [] \<and> (\<forall>(r, _) \<in> set m. before sd p r) \<and> levels_ok sd m"
  by (auto simp: levels_ok_def)

lemma levels_ok_tail_price:
  assumes "levels_ok sd ((p, q) # m)" "x \<in> set (side_abs m)"
  shows "before sd p (r_price x)"
  using assms by (auto simp: levels_ok_Cons in_side_abs in_queue_abs)

lemma before_better: "before sd p q \<longleftrightarrow> \<not> better sd q p"
  by (cases sd) (auto simp: before_def better_def)

lemma side_abs_Nil: "levels_ok sd m \<Longrightarrow> side_abs m = [] \<longleftrightarrow> m = []"
  by (cases m) (auto simp: levels_ok_def)

section \<open>Matching\<close>

lemma o_qty_same: "o_qty t = q \<Longrightarrow> t\<lparr>o_qty := q\<rparr> = (t :: 'p order)"
  by (cases t) simp

lemma match_queue_ok:
  "\<exists>ts' q' qty' done. match_queue p t ix q ts = (t\<lparr>o_qty := qty'\<rparr>, ix |` (- set (map fst done)), q', ts @ ts') \<and>
     spec_match (\<lambda>_. True) (o_id t) (o_qty t) (queue_abs p q) = (queue_abs p q', ts', qty') \<and>
     map r_key (queue_abs p q) = done @ map r_key (queue_abs p q')"
proof (induction q arbitrary: t ix ts)
  case Nil
  then show ?case
    by (intro exI [of _ "[]"] exI [of _ "o_qty t"]) (simp add: match_queue.simps o_qty_same)
next
  case (Cons x q)
  consider "o_qty t = 0" | "0 < o_qty t" "o_qty x \<le> o_qty t" | "0 < o_qty t" "\<not> o_qty x \<le> o_qty t"
    using word_zero_or_pos [of "o_qty t"] by blast
  then show ?case
  proof cases
    case 1
    then show ?thesis
      by (intro exI [of _ "[]"] exI [of _ "x # q"] exI [of _ 0]) (simp add: match_queue_stop o_qty_same)
  next
    case 2
    then have nz: "o_qty t \<noteq> 0" by (intro word_pos_neq)
    let ?t = "t\<lparr>o_qty := o_qty t - o_qty x\<rparr>"
    let ?tr = "\<lparr>maker_id = o_id x, taker_id = o_id t, trade_price = p, trade_qty = o_qty x\<rparr>"
    obtain ts' q' qty' d where r:
      "match_queue p ?t (ix(o_id x := None)) q (ts @ [?tr]) =
         (?t\<lparr>o_qty := qty'\<rparr>, (ix(o_id x := None)) |` (- set (map fst d)), q', (ts @ [?tr]) @ ts')"
      "spec_match (\<lambda>_. True) (o_id ?t) (o_qty ?t) (queue_abs p q) = (queue_abs p q', ts', qty')"
      "map r_key (queue_abs p q) = d @ map r_key (queue_abs p q')"
      using Cons by blast
    have "(ix(o_id x := None)) |` (- set (map fst d)) = ix |` (- set (map fst ((o_id x, p) # d)))"
      by (auto simp: restrict_map_def)
    then show ?thesis
      using r 2 nz by (intro exI [of _ "?tr # ts'"] exI [of _ q'] exI [of _ qty'] exI [of _ "(o_id x, p) # d"])
        (simp add: match_queue_step)
  next
    case 3
    then have nz: "o_qty t \<noteq> 0" by (intro word_pos_neq)
    then show ?thesis
      using 3 by (intro exI [of _ "[\<lparr>maker_id = o_id x, taker_id = o_id t, trade_price = p, trade_qty = o_qty t\<rparr>]"]
          exI [of _ "x\<lparr>o_qty := o_qty x - o_qty t\<rparr> # q"] exI [of _ 0] exI [of _ "[]"])
        (simp add: match_queue_step)
  qed
qed

lemma match_against_ok:
  assumes "levels_ok (opposite sd) m" "o_side t = sd"
  shows "\<exists>ts' m' qty' done.
     match_against m t (sd = Buy) ix ts = (m', t\<lparr>o_qty := qty'\<rparr>, ix |` (- set (map fst done)), ts @ ts') \<and>
     spec_match (crosses sd (o_type t) (o_price t)) (o_id t) (o_qty t) (side_abs m) = (side_abs m', ts', qty') \<and>
     map r_key (side_abs m) = done @ map r_key (side_abs m') \<and> levels_ok (opposite sd) m'"
  using assms
proof (induction m arbitrary: t ix ts)
  case Nil
  then show ?case
    by (intro exI [of _ "[]"] exI [of _ "o_qty t"]) (simp add: match_against.simps o_qty_same)
next
  case (Cons l m)
  obtain p q where l: "l = (p, q)" by (cases l)
  let ?cr = "crosses sd (o_type t) (o_price t)"
  have ok: "q \<noteq> []" "levels_ok (opposite sd) m" using Cons.prems(1) by (auto simp: l levels_ok_Cons)
  have stay: ?case
    if "match_against (l # m) t (sd = Buy) ix ts = (l # m, t, ix, ts)"
      "spec_match ?cr (o_id t) (o_qty t) (side_abs (l # m)) = (side_abs (l # m), [], o_qty t)"
    using that Cons.prems
    by (intro exI [of _ "[]"] exI [of _ "l # m"] exI [of _ "o_qty t"]) (simp add: o_qty_same)
  consider "o_qty t = 0" | "0 < o_qty t" "\<not> ?cr p" | "0 < o_qty t" "?cr p"
    using word_zero_or_pos [of "o_qty t"] by blast
  then show ?case
  proof cases
    case 1
    then show ?thesis by (intro stay) (simp_all add: l match_against.simps)
  next
    case 2
    have "match_against (l # m) t (sd = Buy) ix ts = (l # m, t, ix, ts)"
      using 2 by (cases sd) (auto simp: l match_against.simps crosses_def)
    moreover have "spec_match ?cr (o_id t) (o_qty t) (side_abs (l # m)) = (side_abs (l # m), [], o_qty t)"
      using 2(2) ok(1) by (intro spec_match_stop) (cases q; simp add: l)+
    ultimately show ?thesis by (rule stay)
  next
    case 3
    obtain ts1 q1 n1 d1 where r:
      "match_queue p t ix q ts = (t\<lparr>o_qty := n1\<rparr>, ix |` (- set (map fst d1)), q1, ts @ ts1)"
      "spec_match (\<lambda>_. True) (o_id t) (o_qty t) (queue_abs p q) = (queue_abs p q1, ts1, n1)"
      "map r_key (queue_abs p q) = d1 @ map r_key (queue_abs p q1)"
      using match_queue_ok [of p t ix q ts] by (elim exE conjE) (rule that)
    let ?t = "t\<lparr>o_qty := n1\<rparr>" and ?ix = "ix |` (- set (map fst d1))"
    have step: "match_against (l # m) t (sd = Buy) ix ts =
        match_against (if q1 = [] then m else (p, q1) # m) ?t (sd = Buy) ?ix (ts @ ts1)"
    proof -
      have "\<not> (o_type t \<noteq> Market \<and> (sd = Buy \<and> o_price t < p \<or> sd \<noteq> Buy \<and> p < o_price t))"
        using 3(2) by (cases sd) (auto simp: crosses_def)
      then show ?thesis
        unfolding l match_against.simps(2) using 3(1) r(1) by (simp only: if_True if_False Let_def prod.case)
    qed
    have spec: "spec_match ?cr (o_id t) (o_qty t) (side_abs (l # m)) =
        (if q1 = [] then case spec_match ?cr (o_id t) n1 (side_abs m) of
           (ys', ts', q'') \<Rightarrow> (ys', ts1 @ ts', q'') else (queue_abs p q1 @ side_abs m, ts1, n1))"
    proof -
      have "\<forall>x \<in> set (queue_abs p q). ?cr (r_price x)" using 3(2) by (auto simp: in_queue_abs)
      from spec_match_append [OF this, of "o_id t" "o_qty t" "side_abs m"] show ?thesis
        using r(2) by (simp add: l)
    qed
    show ?thesis
    proof (cases "q1 = []")
      case False
      then have "n1 = 0" using spec_match_rest_zero [OF r(2)] by simp
      then have "match_against (l # m) t (sd = Buy) ix ts = ((p, q1) # m, ?t, ?ix, ts @ ts1)"
        using step False by (simp add: match_against.simps)
      then show ?thesis
        using spec False r(3) Cons.prems(1)
        by (intro exI [of _ ts1] exI [of _ "(p, q1) # m"] exI [of _ n1] exI [of _ d1])
           (simp add: l levels_ok_Cons)
    next
      case True
      obtain ts' m' n' d where r2:
        "match_against m ?t (sd = Buy) ?ix (ts @ ts1) =
           (m', ?t\<lparr>o_qty := n'\<rparr>, ?ix |` (- set (map fst d)), (ts @ ts1) @ ts')"
        "spec_match ?cr (o_id t) n1 (side_abs m) = (side_abs m', ts', n')"
        "map r_key (side_abs m) = d @ map r_key (side_abs m')" "levels_ok (opposite sd) m'"
        using Cons.IH [OF ok(2), of ?t ?ix "ts @ ts1"] Cons.prems(2) by auto
      have "?ix |` (- set (map fst d)) = ix |` (- set (map fst (d1 @ d)))"
        by (auto simp: restrict_map_def)
      then show ?thesis
        using step spec True r2 r(3)
        by (intro exI [of _ "ts1 @ ts'"] exI [of _ m'] exI [of _ n'] exI [of _ "d1 @ d"]) (simp add: l)
    qed
  qed
qed

section \<open>Resting\<close>

lemma level_push_keys: "fst ` set (level_push sd p x m) = insert p (fst ` set m)"
  by (induction sd p x m rule: level_push.induct) (auto simp: before_better better_def split: side.splits)

lemma level_push_ok:
  assumes "levels_ok sd m"
  shows "levels_ok sd (level_push sd p x m)"
    and "side_abs (level_push sd p x m) = spec_insert sd (Resting (o_id x) p (o_qty x)) (side_abs m)"
proof -
  let ?r = "Resting (o_id x) p (o_qty x)"
  have "levels_ok sd (level_push sd p x m) \<and>
      side_abs (level_push sd p x m) = spec_insert sd ?r (side_abs m)"
    using assms
  proof (induction m)
    case Nil
    then show ?case by (simp add: levels_ok_def spec_insert_def)
  next
    case (Cons l m)
    obtain q xs where l: "l = (q, xs)" by (cases l)
    have ok: "xs \<noteq> []" "levels_ok sd m" "\<forall>r \<in> fst ` set m. before sd q r"
      using Cons.prems by (auto simp: l levels_ok_Cons)
    have tail: "before sd q (r_price y)" if "y \<in> set (side_abs m)" for y
      using levels_ok_tail_price Cons.prems that unfolding l by blast
    consider "before sd p q" | "\<not> before sd p q" "before sd q p" | "p = q"
      by (cases sd; cases rule: linorder_cases [of p q]) (auto simp: before_def)
    then show ?case
    proof cases
      case 1
      have trans: "before sd p r" if "before sd q r" for r
        using 1 that by (cases sd) (auto simp: before_def)
      have "\<not> better sd (r_price y) p" if "y \<in> set (side_abs (l # m))" for y
        using that 1 tail trans by (auto simp: l in_queue_abs before_better)
      then have "spec_insert sd ?r ([] @ side_abs (l # m)) = [] @ ?r # side_abs (l # m)"
        by (intro spec_insert_at) auto
      then show ?thesis
        using 1 Cons.prems trans ok by (auto simp: l levels_ok_Cons)
    next
      case 2
      have "better sd (r_price y) p" if "y \<in> set (queue_abs q xs)" for y
        using that 2 by (auto simp: in_queue_abs before_better)
      then have "spec_insert sd ?r (queue_abs q xs @ side_abs m) = queue_abs q xs @ spec_insert sd ?r (side_abs m)"
        by (intro spec_insert_append) simp
      moreover have "\<forall>r \<in> fst ` set (level_push sd p x m). before sd q r"
        unfolding level_push_keys using 2 ok(3) by blast
      ultimately show ?thesis
        using 2 Cons.IH [OF ok(2)] ok by (auto simp: l levels_ok_Cons)
    next
      case 3
      have b: "better sd (r_price y) p" if "y \<in> set (queue_abs q xs)" for y
        using that 3 by (cases sd) (auto simp: in_queue_abs better_def)
      have a: "\<not> better sd (r_price y) p" if "y \<in> set (side_abs m)" for y
        using tail [OF that] 3 by (simp add: before_better)
      have "spec_insert sd ?r (queue_abs q xs @ side_abs m) = queue_abs q xs @ ?r # side_abs m"
        using a b by (intro spec_insert_at) auto
      moreover have "\<not> before sd p q" "\<not> before sd q p" using 3 by (cases sd; simp add: before_def)+
      ultimately show ?thesis using 3 Cons.prems by (simp add: l levels_ok_Cons)
    qed
  qed
  then show "levels_ok sd (level_push sd p x m)"
    "side_abs (level_push sd p x m) = spec_insert sd ?r (side_abs m)" by simp_all
qed

lemma wf_book1D:
  assumes "wf_book1 b"
  shows "levels_ok Buy (bids1 b)" "levels_ok Sell (asks1 b)" "index1_ok (index1 b) (book1_abs b)"
    "wf_spec (book1_abs b)"
  using assms by (simp_all add: wf_book1_def)

lemma index1_dom:
  assumes "index1_ok ix s"
  shows "dom ix = resting_ids s"
proof -
  have "k \<in> dom ix \<longleftrightarrow> (\<exists>sd p. (k, p) \<in> r_key ` set (s_side sd s))" for k
  proof -
    have "k \<in> dom ix \<longleftrightarrow> (\<exists>sd p. ix k = Some (sd, p))" by auto
    then show ?thesis using assms by (simp add: index1_ok_def)
  qed
  moreover have "(\<exists>sd p. (k, p) \<in> r_key ` set (s_side sd s)) \<longleftrightarrow> k \<in> resting_ids s" for k
  proof
    assume "\<exists>sd p. (k, p) \<in> r_key ` set (s_side sd s)"
    then obtain sd x where "x \<in> set (s_side sd s)" "k = r_id x" by (auto simp: r_key_def)
    then show "k \<in> resting_ids s" by (cases sd) (auto simp: resting_ids_def)
  next
    assume "k \<in> resting_ids s"
    then obtain x where x: "x \<in> set (s_side Buy s) \<or> x \<in> set (s_side Sell s)" "k = r_id x"
      by (auto simp: resting_ids_def)
    have "(k, r_price x) = r_key x" using x(2) by (simp add: r_key_def)
    then show "\<exists>sd p. (k, p) \<in> r_key ` set (s_side sd s)" using x(1) by blast
  qed
  ultimately show ?thesis by blast
qed

lemma rest1_ok:
  assumes wf: "wf_book1 b" and fresh: "\<not> is_resting (o_id x) (book1_abs b)"
    and nc: "\<not> spec_would_cross (o_side x) (o_price x) (book1_abs b)"
  shows "wf_book1 (rest1 b x)"
    and "book1_abs (rest1 b x) = spec_rest (o_side x) (Resting (o_id x) (o_price x) (o_qty x)) (book1_abs b)"
proof -
  note D = wf_book1D [OF wf]
  let ?r = "Resting (o_id x) (o_price x) (o_qty x)"
  show abs: "book1_abs (rest1 b x) = spec_rest (o_side x) ?r (book1_abs b)"
    using level_push_ok(2) [OF D(1)] level_push_ok(2) [OF D(2)]
    by (cases "o_side x") (simp_all add: rest1_def book1_abs_def spec_rest_def Let_def)
  have ix: "index1 (rest1 b x) = (index1 b)(o_id x \<mapsto> (o_side x, o_price x))"
    by (simp add: rest1_def Let_def)
  have out: "(o_id x, p) \<notin> r_key ` set (s_side sd (book1_abs b))" for sd p
    using fresh by (cases sd) (auto simp: is_resting_def r_key_def)
  have keys: "r_key ` set (s_side sd (spec_rest (o_side x) ?r (book1_abs b))) =
      (if sd = o_side x then insert (o_id x, o_price x) (r_key ` set (s_side sd (book1_abs b)))
       else r_key ` set (s_side sd (book1_abs b)))" for sd
    by (cases sd; cases "o_side x") (simp_all add: spec_rest_def set_spec_insert)
  have "index1_ok (index1 (rest1 b x)) (spec_rest (o_side x) ?r (book1_abs b))"
    using D(3) out unfolding index1_ok_def ix keys by auto
  moreover have "wf_spec (spec_rest (o_side x) ?r (book1_abs b))"
    by (rule wf_spec_rest [OF D(4)]) (use fresh nc in simp_all)
  moreover have "levels_ok Buy (bids1 (rest1 b x))" "levels_ok Sell (asks1 (rest1 b x))"
    using level_push_ok(1) [OF D(1)] level_push_ok(1) [OF D(2)] D(1,2)
    by (cases "o_side x"; simp add: rest1_def Let_def)+
  ultimately show "wf_book1 (rest1 b x)" by (simp add: wf_book1_def abs)
qed

section \<open>Matching against the book\<close>

lemma match1_ok:
  assumes wf: "wf_book1 b"
  shows "\<exists>b' q' ts. match1 b t = (b', t\<lparr>o_qty := q'\<rparr>, ts) \<and> wf_book1 b' \<and>
    spec_take (o_id t) (o_side t) (o_type t) (o_price t) (o_qty t) (book1_abs b) = (book1_abs b', ts, q')"
proof -
  note D = wf_book1D [OF wf]
  let ?sd = "o_side t"
  define m where "m = (if ?sd = Buy then asks1 b else bids1 b)"
  have m: "levels_ok (opposite ?sd) m" "side_abs m = s_side (opposite ?sd) (book1_abs b)"
    using D(1,2) by (cases ?sd; simp add: m_def book1_abs_def)+
  obtain ts m' q' d where r:
    "match_against m t (?sd = Buy) (index1 b) [] = (m', t\<lparr>o_qty := q'\<rparr>, index1 b |` (- set (map fst d)), [] @ ts)"
    "spec_match (crosses ?sd (o_type t) (o_price t)) (o_id t) (o_qty t) (side_abs m) = (side_abs m', ts, q')"
    "map r_key (side_abs m) = d @ map r_key (side_abs m')" "levels_ok (opposite ?sd) m'"
    using match_against_ok [OF m(1) refl, of "index1 b" "[]"] by (elim exE conjE) (rule that)
  define b' where "b' = (if ?sd = Buy then b\<lparr>asks1 := m', index1 := index1 b |` (- set (map fst d))\<rparr>
    else b\<lparr>bids1 := m', index1 := index1 b |` (- set (map fst d))\<rparr>)"
  have run: "match1 b t = (b', t\<lparr>o_qty := q'\<rparr>, ts)"
    using r(1) by (cases ?sd) (simp_all add: match1_def m_def b'_def)
  have abs': "book1_abs b' = set_side (opposite ?sd) (side_abs m') (book1_abs b)"
    by (cases ?sd) (simp_all add: b'_def book1_abs_def)
  have take: "spec_take (o_id t) ?sd (o_type t) (o_price t) (o_qty t) (book1_abs b) = (book1_abs b', ts, q')"
    using r(2) by (simp add: spec_take_def abs' flip: m(2))
  have wfs: "wf_spec (book1_abs b')" by (rule wf_spec_take [OF D(4) take])
  have dist: "distinct (map fst (d @ map r_key (side_abs m')))"
    using wf_spec_parts(2) [OF D(4), of "opposite ?sd"] unfolding m(2) [symmetric] distinct_ids_map r(3) .
  have other: "fst ` set d \<inter> r_id ` set (s_side ?sd (book1_abs b)) = {}"
  proof -
    have "fst ` set d \<subseteq> r_id ` set (s_side (opposite ?sd) (book1_abs b))"
    proof -
      have "fst ` set d \<subseteq> fst ` set (map r_key (side_abs m))" unfolding r(3) by auto
      also have "\<dots> = r_id ` set (side_abs m)" by (simp add: r_key_def image_image)
      finally show ?thesis unfolding m(2) .
    qed
    then show ?thesis using wf_spec_parts(3) [OF D(4), of ?sd] by blast
  qed
  have "index1_ok (index1 b |` (- set (map fst d))) (book1_abs b')"
    unfolding index1_ok_def
  proof (intro allI)
    fix k sd p
    have old: "index1 b k = Some (sd, p) \<longleftrightarrow> (k, p) \<in> r_key ` set (s_side sd (book1_abs b))"
      using D(3) by (simp add: index1_ok_def)
    show "(index1 b |` (- set (map fst d))) k = Some (sd, p) \<longleftrightarrow> (k, p) \<in> r_key ` set (s_side sd (book1_abs b'))"
    proof (cases "sd = ?sd")
      case True
      then have "s_side sd (book1_abs b') = s_side sd (book1_abs b)" by (simp add: abs')
      moreover have "k \<notin> fst ` set d" if "(k, p) \<in> r_key ` set (s_side sd (book1_abs b))"
        using other that True by (force simp: r_key_def)
      ultimately show ?thesis using old by (auto simp: restrict_map_def)
    next
      case False
      then have sd: "sd = opposite ?sd" by (cases sd; cases ?sd) simp_all
      have new: "r_key ` set (s_side sd (book1_abs b')) = set (map r_key (side_abs m'))" by (simp add: sd abs')
      have all: "r_key ` set (s_side sd (book1_abs b)) = set d \<union> set (map r_key (side_abs m'))"
        unfolding sd m(2) [symmetric] set_map [symmetric] r(3) by simp
      have "k \<notin> fst ` set d" if "(k, p) \<in> set (map r_key (side_abs m'))"
        using dist that by (force simp: r_key_def)
      then show ?thesis
        unfolding new using old unfolding all by (force simp: restrict_map_def)
    qed
  qed
  moreover have "levels_ok Buy (bids1 b')" "levels_ok Sell (asks1 b')"
    using D(1,2) r(4) by (cases ?sd; simp add: b'_def)+
  moreover have "index1 b' = index1 b |` (- set (map fst d))" by (simp add: b'_def)
  ultimately have "wf_book1 b'" using wfs by (simp add: wf_book1_def)
  then show ?thesis using run take by blast
qed

section \<open>The fill-or-kill answer\<close>

lemma fold_qty: "fold (\<lambda>x a. a + o_qty x) q n = n + sum_list (map o_qty q)"
  by (induction q arbitrary: n) (simp_all add: add.assoc)

lemma total_qty_queue:
  assumes "total_qty (queue_abs p q) < 2 ^ 64"
  shows "unat (sum_list (map o_qty q)) = total_qty (queue_abs p q)"
proof -
  have "total_qty (queue_abs p q) = sum_list (map unat (map o_qty q))"
    by (simp add: total_qty_def queue_abs_def comp_def)
  then show ?thesis using unat_sum_list [of "map o_qty q"] assms by simp
qed

lemma fill_levels_ok:
  assumes "levels_ok (opposite sd) m" "unat available + total_qty (side_abs m) < 2 ^ 64" "available < qty"
  shows "fill_levels sd price qty available m \<longleftrightarrow>
    unat qty \<le> unat available + total_qty (takeWhile (\<lambda>x. crosses sd FOK price (r_price x)) (side_abs m))"
  using assms
proof (induction m arbitrary: available)
  case Nil
  then show ?case by (simp add: word_less_nat_alt)
next
  case (Cons l m)
  obtain p q where l: "l = (p, q)" by (cases l)
  have ok: "q \<noteq> []" "levels_ok (opposite sd) m" using Cons.prems(1) by (auto simp: l levels_ok_Cons)
  let ?t = "sum_list (map o_qty q)" and ?cr = "crosses sd FOK price"
  have u: "unat ?t = total_qty (queue_abs p q)" using Cons.prems(2) by (intro total_qty_queue) (simp add: l)
  have add: "unat (available + ?t) = unat available + unat ?t"
    "qty \<le> available + ?t \<longleftrightarrow> unat qty \<le> unat available + unat ?t"
    using add_le_step [of available ?t] Cons.prems(2) by (simp_all add: l u)
  have cond: "(if sd = Buy then price < p else p < price) \<longleftrightarrow> \<not> ?cr p"
    by (cases sd) (auto simp: crosses_def)
  show ?case
  proof (cases "?cr p")
    case False
    have "takeWhile (\<lambda>x. ?cr (r_price x)) (side_abs (l # m)) = []"
      using ok(1) False by (cases q) (simp_all add: l)
    moreover have "\<not> fill_levels sd price qty available (l # m)" using False cond by (simp add: l)
    ultimately show ?thesis using Cons.prems(3) by (simp add: word_less_nat_alt)
  next
    case True
    have "\<forall>x \<in> set (queue_abs p q). ?cr (r_price x)" using True by (auto simp: in_queue_abs)
    then have tw: "takeWhile (\<lambda>x. ?cr (r_price x)) (side_abs (l # m)) =
        queue_abs p q @ takeWhile (\<lambda>x. ?cr (r_price x)) (side_abs m)"
      by (simp add: l takeWhile_append2)
    have step: "fill_levels sd price qty available (l # m) \<longleftrightarrow>
        qty \<le> available + ?t \<or> fill_levels sd price qty (available + ?t) m"
      using True cond by (simp add: l fold_qty Let_def)
    show ?thesis
    proof (cases "qty \<le> available + ?t")
      case True
      then show ?thesis using step add u tw by simp
    next
      case nle: False
      then show ?thesis
        using Cons.IH [OF ok(2), of "available + ?t"] Cons.prems(2) step add u tw
        by (simp add: l add.assoc)
    qed
  qed
qed

lemma can_fully_fill1_ok:
  assumes wf: "wf_book1 b" and q: "0 < o_qty t"
    and small: "total_qty (s_side (opposite (o_side t)) (book1_abs b)) < 2 ^ 64"
  shows "can_fully_fill1 b t \<longleftrightarrow>
    spec_fillable (crosses (o_side t) FOK (o_price t)) (o_qty t) (s_side (opposite (o_side t)) (book1_abs b))"
  using fill_levels_ok [of Buy "asks1 b" 0 "o_qty t" "o_price t"]
    fill_levels_ok [of Sell "bids1 b" 0 "o_qty t" "o_price t"] wf_book1D(1,2) [OF wf] q small
  by (cases "o_side t") (simp_all add: can_fully_fill1_def spec_fillable_def book1_abs_def)

section \<open>Cancel\<close>

lemma absent_queue: "k \<notin> o_id ` set q \<Longrightarrow> filter (\<lambda>x. r_id x \<noteq> k) (queue_abs p q) = queue_abs p q"
  by (induction q) auto

lemma filter_queue: "filter (\<lambda>x. r_id x \<noteq> k) (queue_abs p q) = queue_abs p (filter (\<lambda>x. o_id x \<noteq> k) q)"
  by (induction q) auto

lemma level_cancel_ok:
  assumes "levels_ok sd m" "distinct (map r_id (side_abs m))" "(k, p) \<in> r_key ` set (side_abs m)"
  shows "\<exists>m'. level_cancel p k m = (m', True) \<and> levels_ok sd m' \<and>
    side_abs m' = filter (\<lambda>x. r_id x \<noteq> k) (side_abs m) \<and> fst ` set m' \<subseteq> fst ` set m"
  using assms
proof (induction m)
  case Nil
  then show ?case by simp
next
  case (Cons l m)
  obtain r q where l: "l = (r, q)" by (cases l)
  have ok: "q \<noteq> []" "levels_ok sd m" "\<forall>a \<in> fst ` set m. before sd r a"
    using Cons.prems(1) by (auto simp: l levels_ok_Cons)
  have ids: "r_id ` set (queue_abs r q) = o_id ` set q" by (auto simp: queue_abs_def image_iff)
  have tail: "before sd r (r_price y)" if "y \<in> set (side_abs m)" for y
    using levels_ok_tail_price Cons.prems(1) that unfolding l by blast
  have dist: "distinct (map r_id (side_abs m))" "o_id ` set q \<inter> r_id ` set (side_abs m) = {}"
    using Cons.prems(2) by (auto simp: l simp flip: ids)
  show ?case
  proof (cases "r = p")
    case True
    have irr: "\<not> before sd r r" by (cases sd) (simp_all add: before_def)
    have notin: "\<forall>a \<in> fst ` set m. a \<noteq> p" using ok(3) irr True by blast
    have "(k, p) \<notin> r_key ` set (side_abs m)" using tail irr True by (auto simp: r_key_def)
    then have "k \<in> o_id ` set q"
      using Cons.prems(3) by (auto simp: l in_queue_abs)
    then have k: "k \<notin> r_id ` set (side_abs m)" using dist(2) by blast
    then have rest: "filter (\<lambda>x. r_id x \<noteq> k) (side_abs m) = side_abs m"
      by (intro filter_True) auto
    have same: "filter (\<lambda>(a, _). a \<noteq> p) m = m" "map (\<lambda>(a, q). if a = p then (a, q1) else (a, q)) m = m" for q1
      using notin by (auto intro!: filter_True map_idI)
    let ?q1 = "filter (\<lambda>x. o_id x \<noteq> k) q"
    have "level_cancel p k (l # m) = (if ?q1 = [] then m else (p, ?q1) # m, True)"
      using True same by (simp add: level_cancel_def l Let_def)
    moreover have "levels_ok sd (if ?q1 = [] then m else (p, ?q1) # m)"
      using ok True by (auto simp: levels_ok_Cons)
    moreover have "side_abs (if ?q1 = [] then m else (p, ?q1) # m) = filter (\<lambda>x. r_id x \<noteq> k) (side_abs (l # m))"
      using rest True by (simp add: l filter_queue)
    moreover have "fst ` set (if ?q1 = [] then m else (p, ?q1) # m) \<subseteq> fst ` set (l # m)"
      using True by (auto simp: l)
    ultimately show ?thesis by blast
  next
    case False
    have key: "(k, p) \<in> r_key ` set (side_abs m)"
      using Cons.prems(3) False by (auto simp: l in_queue_abs)
    then have "k \<notin> o_id ` set q" using dist(2) by (auto simp: r_key_def)
    then have q: "filter (\<lambda>x. r_id x \<noteq> k) (queue_abs r q) = queue_abs r q" by (rule absent_queue)
    obtain m' where m': "level_cancel p k m = (m', True)" "levels_ok sd m'"
      "side_abs m' = filter (\<lambda>x. r_id x \<noteq> k) (side_abs m)" "fst ` set m' \<subseteq> fst ` set m"
      using Cons.IH [OF ok(2) dist(1) key] by blast
    have "level_cancel p k (l # m) = (l # m', True)"
      using m'(1) False by (auto simp: level_cancel_def l Let_def split: option.splits if_splits)
    moreover have "levels_ok sd (l # m')"
    proof -
      have "\<forall>a \<in> fst ` set m'. before sd r a" using ok(3) m'(4) by blast
      then show ?thesis using ok m'(2) by (auto simp: l levels_ok_Cons)
    qed
    ultimately show ?thesis using m'(3,4) q by (intro exI [of _ "l # m'"]) (auto simp: l)
  qed
qed

lemma keys_filter: "r_key ` {x \<in> S. r_id x \<noteq> k} = {y \<in> r_key ` S. fst y \<noteq> k}"
proof -
  have "{y \<in> r_key ` S. fst y \<noteq> k} = r_key ` {x \<in> S. fst (r_key x) \<noteq> k}" by blast
  then show ?thesis by (simp add: r_key_def)
qed

lemma book1_cancel_ok:
  assumes wf: "wf_book1 b"
  shows "\<exists>b'. book1_cancel b k = (b', is_resting k (book1_abs b)) \<and> wf_book1 b' \<and>
    book1_abs b' = spec_cancel k (book1_abs b)"
proof (cases "index1 b k")
  case None
  then have "\<not> is_resting k (book1_abs b)"
    using index1_dom [OF wf_book1D(3) [OF wf]] by (auto simp: is_resting_iff)
  moreover from this have "spec_cancel k (book1_abs b) = book1_abs b"
    by (cases "book1_abs b") (auto simp: spec_cancel_def is_resting_def filter_id_conv)
  ultimately show ?thesis using None wf by (simp add: book1_cancel_def)
next
  case (Some e)
  obtain sd p where e: "e = (sd, p)" by (cases e)
  note D = wf_book1D [OF wf]
  have rest: "is_resting k (book1_abs b)"
    using index1_dom [OF D(3)] Some by (auto simp: is_resting_iff)
  have key: "(k, p) \<in> r_key ` set (s_side sd (book1_abs b))"
    using D(3) Some e by (simp add: index1_ok_def)
  define m where "m = (if sd = Buy then bids1 b else asks1 b)"
  have m: "levels_ok sd m" "side_abs m = s_side sd (book1_abs b)"
    using D(1,2) by (cases sd; simp add: m_def book1_abs_def)+
  obtain m' where m': "level_cancel p k m = (m', True)" "levels_ok sd m'"
      "side_abs m' = filter (\<lambda>x. r_id x \<noteq> k) (side_abs m)"
    using level_cancel_ok [OF m(1)] wf_spec_parts(2) [OF D(4), of sd] key unfolding m(2) by blast
  define b' where "b' = (if sd = Buy then b\<lparr>bids1 := m', index1 := (index1 b)(k := None)\<rparr>
    else b\<lparr>asks1 := m', index1 := (index1 b)(k := None)\<rparr>)"
  have run: "book1_cancel b k = (b', True)"
    using Some e m'(1) by (cases sd) (simp_all add: book1_cancel_def b'_def m_def)
  have other: "k \<notin> r_id ` set (s_side (opposite sd) (book1_abs b))"
  proof -
    have "k \<in> r_id ` set (s_side sd (book1_abs b))" using key by (auto simp: r_key_def)
    then show ?thesis using wf_spec_parts(3) [OF D(4), of sd] by blast
  qed
  then have "filter (\<lambda>x. r_id x \<noteq> k) (s_side (opposite sd) (book1_abs b)) = s_side (opposite sd) (book1_abs b)"
    by (intro filter_True) auto
  then have abs: "book1_abs b' = spec_cancel k (book1_abs b)"
    using m'(3) unfolding m(2) by (cases sd) (simp_all add: b'_def book1_abs_def spec_cancel_def)
  have "wf_spec (spec_cancel k (book1_abs b))" by (rule wf_spec_cancel [OF D(4)])
  moreover have "index1_ok ((index1 b)(k := None)) (spec_cancel k (book1_abs b))"
    unfolding index1_ok_def
  proof (intro allI)
    fix j s q
    have "r_key ` set (s_side s (spec_cancel k (book1_abs b))) =
        {x \<in> r_key ` set (s_side s (book1_abs b)). fst x \<noteq> k}"
      by (cases s) (simp_all add: spec_cancel_def keys_filter)
    moreover have "index1 b j = Some (s, q) \<longleftrightarrow> (j, q) \<in> r_key ` set (s_side s (book1_abs b))"
      using D(3) by (simp add: index1_ok_def)
    ultimately show "((index1 b)(k := None)) j = Some (s, q) \<longleftrightarrow>
        (j, q) \<in> r_key ` set (s_side s (spec_cancel k (book1_abs b)))"
      by simp
  qed
  moreover have "levels_ok Buy (bids1 b')" "levels_ok Sell (asks1 b')" "index1 b' = (index1 b)(k := None)"
    using D(1,2) m'(2) by (cases sd; simp add: b'_def)+
  ultimately have "wf_book1 b'" using abs by (simp add: wf_book1_def)
  then show ?thesis using run rest abs by simp
qed

section \<open>Add\<close>

definition add1_pre :: "'p::linorder order \<Rightarrow> 'p sbook \<Rightarrow> bool" where
  "add1_pre x s \<longleftrightarrow> (o_type x = Limit \<or> o_type x = PostOnly \<longrightarrow> \<not> is_resting (o_id x) s) \<and>
     (o_type x = FOK \<longrightarrow> int (total_qty (s_side (opposite (o_side x)) s)) < 2 ^ 64)"

abbreviation spec_add_order :: "'p::linorder order \<Rightarrow> 'p sbook \<Rightarrow> 'p sbook \<times> 'p trade list" where
  "spec_add_order x s \<equiv> spec_add (o_id x) (o_side x) (o_type x) (o_price x) (o_qty x) s"

lemma would_cross1_ok:
  assumes "wf_book1 b"
  shows "would_cross1 b x = spec_would_cross (o_side x) (o_price x) (book1_abs b)"
proof -
  have "(case m of [] \<Rightarrow> False | (p, _) # _ \<Rightarrow> P p) = (case side_abs m of [] \<Rightarrow> False | y # _ \<Rightarrow> P (r_price y))"
    if lv: "levels_ok sd m" for m :: "'a level_map" and P sd
  proof (cases m)
    case (Cons l m')
    then obtain p q where "l = (p, q)" "q \<noteq> []" using lv Cons by (cases l) (auto simp: levels_ok_def)
    then show ?thesis using Cons by (cases q) simp_all
  qed simp
  from this [OF wf_book1D(1) [OF assms]] this [OF wf_book1D(2) [OF assms]] show ?thesis
    by (cases "o_side x") (simp_all add: would_cross1_def spec_would_cross_def book1_abs_def crosses_def split: list.split)
qed

lemma book1_add_ok:
  assumes wf: "wf_book1 b" and pre: "add1_pre x (book1_abs b)"
  shows "\<exists>b' ts. book1_add b x = (b', ts) \<and> wf_book1 b' \<and> spec_add_order x (book1_abs b) = (book1_abs b', ts)"
proof -
  let ?S = "book1_abs b"
  obtain b1 q' ts where m: "match1 b x = (b1, x\<lparr>o_qty := q'\<rparr>, ts)" "wf_book1 b1"
    "spec_take (o_id x) (o_side x) (o_type x) (o_price x) (o_qty x) ?S = (book1_abs b1, ts, q')"
    using match1_ok [OF wf, of x] by (elim exE conjE) (rule that)
  have take: ?thesis
    if "o_type x \<noteq> Cancel" "o_type x \<noteq> PostOnly" "o_type x \<noteq> FOK \<or> can_fully_fill1 b x"
      "o_type x \<noteq> FOK \<or> spec_fillable (crosses (o_side x) (o_type x) (o_price x)) (o_qty x)
         (s_side (opposite (o_side x)) ?S)"
  proof (cases "o_type x = Limit \<and> 0 < q'")
    case True
    let ?x = "x\<lparr>o_qty := q'\<rparr>"
    have fresh: "\<not> is_resting (o_id ?x) (book1_abs b1)"
      using pre True spec_take_ids [OF m(3)] by (auto simp: add1_pre_def is_resting_iff)
    have nc: "\<not> spec_would_cross (o_side ?x) (o_price ?x) (book1_abs b1)"
      using spec_take_stuck [OF m(3)] True by simp
    have "book1_add b x = (rest1 b1 ?x, ts)" using True m(1) by (simp add: book1_add_def)
    then show ?thesis
      using rest1_ok [OF m(2) fresh nc] True m(3) by (simp add: spec_add_def)
  next
    case False
    then have "book1_add b x = (b1, ts)" using that m(1) by (auto simp: book1_add_def)
    moreover have "spec_add_order x ?S = (book1_abs b1, ts)" using that False m(3) by (auto simp: spec_add_def)
    ultimately show ?thesis using m(2) by simp
  qed
  consider "o_type x = Cancel" | "o_type x = PostOnly" "spec_would_cross (o_side x) (o_price x) ?S"
    | "o_type x = PostOnly" "\<not> spec_would_cross (o_side x) (o_price x) ?S"
    | "o_type x = FOK" "o_qty x = 0" | "o_type x = FOK" "0 < o_qty x"
    | "o_type x \<noteq> Cancel" "o_type x \<noteq> PostOnly" "o_type x \<noteq> FOK"
    using word_zero_or_pos [of "o_qty x"] by blast
  then show ?thesis
  proof cases
    case 1
    obtain b' where "book1_cancel b (o_id x) = (b', is_resting (o_id x) ?S)" "wf_book1 b'"
        "book1_abs b' = spec_cancel (o_id x) ?S"
      using book1_cancel_ok [OF wf] by blast
    then show ?thesis using 1 by (simp add: book1_add_def spec_add_def)
  next
    case 2
    then show ?thesis using wf by (simp add: book1_add_def spec_add_def would_cross1_ok [OF wf])
  next
    case 3
    have "\<not> is_resting (o_id x) ?S" using pre 3(1) by (simp add: add1_pre_def)
    then show ?thesis
      using rest1_ok [OF wf _ 3(2)] 3 by (simp add: book1_add_def spec_add_def would_cross1_ok [OF wf])
  next
    case 4
    have "spec_add_order x ?S = (?S, [])" using 4 by (simp add: spec_add_def spec_take_def)
    moreover have "match1 b x = (b, x, [])"
    proof -
      have "match_against k x c (index1 b) [] = (k, x, index1 b, [])" for k c
        using 4 by (cases k; (cases "hd k")?) (simp_all add: match_against.simps)
      then show ?thesis by (simp add: match1_def)
    qed
    ultimately show ?thesis using wf 4 by (simp add: book1_add_def)
  next
    case 5
    have eq: "can_fully_fill1 b x \<longleftrightarrow> spec_fillable (crosses (o_side x) FOK (o_price x)) (o_qty x)
         (s_side (opposite (o_side x)) ?S)"
      by (rule can_fully_fill1_ok [OF wf 5(2)]) (use pre 5(1) in \<open>simp add: add1_pre_def\<close>)
    show ?thesis
    proof (cases "can_fully_fill1 b x")
      case True
      then show ?thesis using eq 5 by (intro take) simp_all
    next
      case False
      then show ?thesis using eq 5 wf by (simp add: book1_add_def spec_add_def)
    qed
  next
    case 6
    then show ?thesis by (intro take) simp_all
  qed
qed

lemma new_book1_wf: "wf_book1 new_book1" "book1_abs new_book1 = spec_empty"
  by (auto simp: wf_book1_def new_book1_def book1_abs_def levels_ok_def index1_ok_def wf_spec_def
      spec_empty_def priority_sorted_def uncrossed_def s_side_def split: side.splits)

section \<open>Queries\<close>

lemma depth1_ok: "depth1 b = length (s_bids (book1_abs b)) + length (s_asks (book1_abs b))"
proof -
  have "length (side_abs m) = sum_list (map (\<lambda>(p, q). length q) m)" for m :: "'a level_map"
    by (induction m) (auto simp: queue_abs_def)
  then show ?thesis by (simp add: depth1_def book1_abs_def)
qed

lemma best_prices1:
  fixes b :: "'p::{linorder, zero} book1"
  assumes "wf_book1 b"
  shows "best_bid1 b = (case s_bids (book1_abs b) of [] \<Rightarrow> 0 | r # _ \<Rightarrow> r_price r)"
    and "best_ask1 b = (case s_asks (book1_abs b) of [] \<Rightarrow> 0 | r # _ \<Rightarrow> r_price r)"
proof -
  have *: "(case m of [] \<Rightarrow> 0 | (p, _) # _ \<Rightarrow> p) = (case side_abs m of [] \<Rightarrow> 0 | r # _ \<Rightarrow> r_price r)"
    if lv: "levels_ok sd m" for m :: "'p level_map" and sd
  proof (cases m)
    case (Cons l m')
    then obtain p q where "l = (p, q)" "q \<noteq> []" using lv Cons by (cases l) (auto simp: levels_ok_def)
    then show ?thesis using Cons by (cases q) simp_all
  qed simp
  show "best_bid1 b = (case s_bids (book1_abs b) of [] \<Rightarrow> 0 | r # _ \<Rightarrow> r_price r)"
    using * [OF wf_book1D(1) [OF assms]] by (simp add: best_bid1_def book1_abs_def)
  show "best_ask1 b = (case s_asks (book1_abs b) of [] \<Rightarrow> 0 | r # _ \<Rightarrow> r_price r)"
    using * [OF wf_book1D(2) [OF assms]] by (simp add: best_ask1_def book1_abs_def)
qed

section \<open>Properties\<close>

definition demo_book1 :: "int book1" where
  "demo_book1 =
     fst (book1_add (fst (book1_add (fst (book1_add new_book1
       \<lparr>o_id = 1, o_side = Buy, o_type = Limit, o_price = 99, o_qty = 5, o_timestamp_ns = 0\<rparr>))
       \<lparr>o_id = 2, o_side = Sell, o_type = Limit, o_price = 101, o_qty = 4, o_timestamp_ns = 1\<rparr>))
       \<lparr>o_id = 3, o_side = Sell, o_type = Limit, o_price = 102, o_qty = 6, o_timestamp_ns = 2\<rparr>)"

lemma add1_wf: "wf_book1 b \<Longrightarrow> add1_pre x (book1_abs b) \<Longrightarrow> wf_book1 (fst (book1_add b x))"
  using book1_add_ok [of b x] by auto

lemma demo_book1_ok:
  "wf_book1 demo_book1"
  "book1_abs demo_book1 = \<lparr>s_bids = [Resting 1 99 5], s_asks = [Resting 2 101 4, Resting 3 102 6]\<rparr>"
proof -
  show "book1_abs demo_book1 = \<lparr>s_bids = [Resting 1 99 5], s_asks = [Resting 2 101 4, Resting 3 102 6]\<rparr>"
    by code_simp
  show "wf_book1 demo_book1"
    unfolding demo_book1_def by (intro add1_wf new_book1_wf; code_simp)
qed

text \<open>C40: \<open>OrderBook::add\<close> (v1) does what price-time priority says, for every order type, and keeps
  the book well formed (levels in order and non-empty, index exact, uncrossed).\<close>

theorem v1_add_refines:
  assumes "wf_book1 b" "add1_pre x (book1_abs b)"
  shows "\<exists>b' ts. book1_add b x = (b', ts) \<and> wf_book1 b' \<and> spec_add_order x (book1_abs b) = (book1_abs b', ts)"
  by (rule book1_add_ok [OF assms])

theorem v1_add_refines_witness:
  "\<exists>b' ts. book1_add demo_book1
      \<lparr>o_id = 9, o_side = Buy, o_type = Limit, o_price = 101, o_qty = 7, o_timestamp_ns = 3\<rparr> = (b', ts) \<and>
    wf_book1 b' \<and> spec_add 9 Buy Limit 101 7 (book1_abs demo_book1) = (book1_abs b', ts)"
  using v1_add_refines [OF demo_book1_ok(1),
      of "\<lparr>o_id = 9, o_side = Buy, o_type = Limit, o_price = 101, o_qty = 7, o_timestamp_ns = 3\<rparr>"]
  by (simp add: add1_pre_def is_resting_def demo_book1_ok(2))

text \<open>\<open>OrderBook::cancel\<close> (v1) answers whether the id was resting and removes exactly that order.\<close>

theorem v1_cancel_refines:
  assumes "wf_book1 b"
  shows "\<exists>b'. book1_cancel b k = (b', is_resting k (book1_abs b)) \<and> wf_book1 b' \<and>
    book1_abs b' = spec_cancel k (book1_abs b)"
  by (rule book1_cancel_ok [OF assms])

theorem v1_cancel_refines_witness:
  "\<exists>b'. book1_cancel demo_book1 2 = (b', True) \<and> wf_book1 b' \<and>
    book1_abs b' = \<lparr>s_bids = [Resting 1 99 5], s_asks = [Resting 3 102 6]\<rparr>"
  using v1_cancel_refines [OF demo_book1_ok(1), of 2]
  by (simp add: demo_book1_ok(2) is_resting_def spec_cancel_def)

end
