(* ===== verification/Book_Equiv.thy ===== *)
theory Book_Equiv
  imports Book_V2_Main Book_V1_Refine
begin

text \<open>
  The differential-fuzzing claim of the repository as a theorem: on the same calls the map-based
  book v1 and the array-and-arena book v2 answer alike. \<open>cpp/fuzz/fuzz_v1.cpp\<close> and
  \<open>cpp/fuzz/fuzz_v2.cpp\<close> compare trades, depth and the two best prices; here the equality is
  proved for every call sequence on which v2 does not throw.
\<close>

definition to_order :: "order_request \<Rightarrow> int order" where
  "to_order t = \<lparr>o_id = req_id t, o_side = req_side t, o_type = req_type t, o_price = req_price t,
                 o_qty = req_qty t, o_timestamp_ns = 0\<rparr>"

text \<open>v1 is a matching engine too.\<close>

definition engine1_add :: "int book1 \<Rightarrow> order_request \<Rightarrow> (int book1 \<times> int trade list) option" where
  "engine1_add b t = Some (book1_add b (to_order t))"

definition engine1_cancel :: "int book1 \<Rightarrow> u64 \<Rightarrow> (int book1 \<times> bool) option" where
  "engine1_cancel b k = Some (book1_cancel b k)"

lemma to_order_pre: "add_pre t s \<Longrightarrow> add1_pre (to_order t) s"
  by (simp add: add_pre_def add1_pre_def to_order_def may_rest_def)

interpretation v1e: matching_engine engine1_add engine1_cancel book1_abs wf_book1
proof unfold_locales
  fix b :: "int book1" and t :: order_request and k :: u64
  show "wf_book1 b \<Longrightarrow> wf_spec (book1_abs b)" by (simp add: wf_book1_def)
  show "\<exists>b' ts. engine1_add b t = Some (b', ts) \<and> wf_book1 b' \<and>
      (spec_add_req t (book1_abs b) = (book1_abs b', ts) \<or> may_rest t \<and> spec_unrested t (book1_abs b) = (book1_abs b', ts))"
    if "wf_book1 b" "add_pre t (book1_abs b)"
    using book1_add_ok [OF that(1) to_order_pre [OF that(2)]] by (auto simp: engine1_add_def to_order_def)
  show "wf_book1 b \<Longrightarrow> \<exists>b'. engine1_cancel b k = Some (b', is_resting k (book1_abs b)) \<and> wf_book1 b' \<and>
      book1_abs b' = spec_cancel k (book1_abs b)"
    using book1_cancel_ok [of b k] by (auto simp: engine1_cancel_def)
qed

text \<open>v1 has no \<open>reduce\<close>; such a call has no v1 answer.\<close>

definition book1_step :: "int book1 \<Rightarrow> book_op \<Rightarrow> (response \<times> int book1) option" where
  "book1_step b op =
     (case op of
        OpAdd t \<Rightarrow> (case book1_add b (to_order t) of (b', ts) \<Rightarrow> Some (Filled ts, b'))
      | OpCancel k \<Rightarrow> (case book1_cancel b k of (b', r) \<Rightarrow> Some (Found r, b'))
      | OpReduce k d \<Rightarrow> None)"

fun book1_run :: "int book1 \<Rightarrow> book_op list \<Rightarrow> (response list \<times> int book1) option" where
  "book1_run b [] = Some ([], b)"
| "book1_run b (op # ops) =
     (case book1_step b op of None \<Rightarrow> None
      | Some (r, b') \<Rightarrow> map_option (\<lambda>(rs, b''). (r # rs, b'')) (book1_run b' ops))"

definition has_v1 :: "book_op \<Rightarrow> bool" where
  "has_v1 op = (case op of OpReduce _ _ \<Rightarrow> False | _ \<Rightarrow> True)"

definition threw :: "response \<Rightarrow> bool" where
  "threw r = (case r of Threw _ \<Rightarrow> True | _ \<Rightarrow> False)"

lemma book1_step_ok:
  assumes "wf_book1 b" "op_pre op (book1_abs b)" "has_v1 op" "\<not> threw r"
    and "spec_step (book1_abs b) op r s'"
  obtains b' where "book1_step b op = Some (r, b')" "wf_book1 b'" "book1_abs b' = s'"
proof (cases op)
  case (OpAdd t)
  have pre: "add1_pre (to_order t) (book1_abs b)"
    using assms(2) OpAdd by (simp add: op_pre_def to_order_pre)
  obtain b' ts where add: "book1_add b (to_order t) = (b', ts)" "wf_book1 b'"
    "spec_add_order (to_order t) (book1_abs b) = (book1_abs b', ts)"
    using book1_add_ok [OF assms(1) pre] by blast
  have spec: "spec_add_req t (book1_abs b) = (book1_abs b', ts)"
    using add(3) by (simp add: to_order_def)
  have "r = Filled ts \<and> s' = book1_abs b'"
    using assms(4,5) spec unfolding OpAdd by (auto elim!: spec_step_addE simp: threw_def)
  then show ?thesis using that add OpAdd by (simp add: book1_step_def)
next
  case (OpCancel k)
  obtain b' where c: "book1_cancel b k = (b', is_resting k (book1_abs b))" "wf_book1 b'"
    "book1_abs b' = spec_cancel k (book1_abs b)"
    using book1_cancel_ok [OF assms(1)] by blast
  have "r = Found (is_resting k (book1_abs b)) \<and> s' = spec_cancel k (book1_abs b)"
    using assms(5) unfolding OpCancel by (auto elim: spec_step.cases)
  then show ?thesis using that c OpCancel by (simp add: book1_step_def)
qed (use assms(3) in \<open>simp add: has_v1_def\<close>)

lemma same_answers:
  assumes "wf_book b" "run_pre b ops" "wf_book1 b1" "book1_abs b1 = book_abs b" "list_all has_v1 ops"
    and "book_run b ops = Some (rs, b')" "\<not> list_ex threw rs"
  shows "\<exists>b1'. book1_run b1 ops = Some (rs, b1') \<and> wf_book1 b1' \<and> wf_book b' \<and> book1_abs b1' = book_abs b'"
  using assms
proof (induction ops arbitrary: b b1 rs)
  case Nil
  then show ?case by simp
next
  case (Cons op ops)
  have pre: "op_pre op (book_abs b)" using Cons.prems(2) by simp
  obtain r b2 where step: "book_step b op = Some (r, b2)" "wf_book b2"
      "spec_step (book_abs b) op r (book_abs b2)"
    using book_step_ok [OF Cons.prems(1) pre] .
  obtain rs2 where rs: "rs = r # rs2" "book_run b2 ops = Some (rs2, b')"
    using Cons.prems(6) step(1) by auto
  have "op_pre op (book1_abs b1)" "has_v1 op" "\<not> threw r" "spec_step (book1_abs b1) op r (book_abs b2)"
    using pre Cons.prems(4,5,7) step(3) rs(1) by simp_all
  from book1_step_ok [OF Cons.prems(3) this] obtain b1' where
    s1: "book1_step b1 op = Some (r, b1')" "wf_book1 b1'" "book1_abs b1' = book_abs b2" .
  have "run_pre b2 ops" "list_all has_v1 ops" "\<not> list_ex threw rs2"
    using Cons.prems(2,5,7) step(1) rs(1) by simp_all
  from Cons.IH [OF step(2) this(1) s1(2,3) this(2) rs(2) this(3)] show ?case
    using s1(1) rs(1) by auto
qed

text \<open>C8: v1 and v2 started empty and driven by the same adds and cancels return the same trades and
  cancel answers, and end with the same depth and best prices, as long as v2 does not throw.\<close>

theorem v1_v2_equivalent:
  assumes "new_book capacity window = Some b" "0 \<le> window" "run_pre b ops" "list_all has_v1 ops"
    and "book_run b ops = Some (rs, b')" "\<not> list_ex threw rs"
  shows "\<exists>b1'. book1_run new_book1 ops = Some (rs, b1') \<and> book1_abs b1' = book_abs b' \<and>
    best_bid1 b1' = best_bid b' \<and> best_ask1 b1' = best_ask b' \<and> depth1 b1' = depth b'"
proof -
  have b: "wf_book b" "book_abs b = spec_empty" using new_book_ok [OF assms(2), of capacity] assms(1) by auto
  obtain b1' where r: "book1_run new_book1 ops = Some (rs, b1')" "wf_book1 b1'" "wf_book b'"
      "book1_abs b1' = book_abs b'"
    using same_answers [OF b(1) assms(3) new_book1_wf(1) _ assms(4-6)] b(2) new_book1_wf(2) by auto
  note inv = r(3) [unfolded wf_book_def]
  show ?thesis
    using r best_prices1 [OF r(2)] depth1_ok [of b1'] best_prices [OF book_invD(4) [OF inv]] depth_abs [OF inv]
    by (simp flip: book_abs_def)
qed

theorem v1_v2_equivalent_witness:
  "\<exists>b rs b' b1'. new_book 8 4 = Some b \<and>
    book_run b (demo_ops @ [OpAdd (order 9 Buy IOC 101 5), OpCancel 5]) = Some (rs, b') \<and>
    book1_run new_book1 (demo_ops @ [OpAdd (order 9 Buy IOC 101 5), OpCancel 5]) = Some (rs, b1') \<and>
    depth1 b1' = depth b'"
proof -
  let ?ops = "demo_ops @ [OpAdd (order 9 Buy IOC 101 5), OpCancel 5]"
  obtain b where b: "new_book 8 4 = Some b" using new_book_ok [of 4 8] by auto
  have "case new_book 8 4 of None \<Rightarrow> False | Some b \<Rightarrow> run_pre b ?ops" by code_simp
  then have pre: "run_pre b ?ops" using b by simp
  have "case new_book 8 4 of None \<Rightarrow> False | Some b \<Rightarrow>
      (case book_run b ?ops of None \<Rightarrow> False | Some (rs, _) \<Rightarrow> \<not> list_ex threw rs)" by code_simp
  then obtain rs b' where run: "book_run b ?ops = Some (rs, b')" "\<not> list_ex threw rs"
    using b by (auto split: option.splits)
  have "list_all has_v1 ?ops" by code_simp
  from v1_v2_equivalent [OF b _ pre this run] b run(1) show ?thesis by auto
qed

text \<open>C28: no share comes from nowhere, in either engine: a session of adds and cancels that keeps the contract
  returns, whether or not adds throw on the way, and the shares resting after it plus both sides of all its
  trades are at most the shares resting before it plus those submitted.\<close>

theorem engines_create_no_shares:
  assumes "wf_book b" "engine_pre engine_add book_cancel book_abs ops b"
    and "wf_book1 b1" "engine_pre engine1_add engine1_cancel book1_abs ops b1"
  shows "(\<exists>ts b'. engine_run engine_add book_cancel ops b = Some (ts, b') \<and> wf_book b' \<and>
      resting_qty (book_abs b') + 2 * volume ts \<le> resting_qty (book_abs b) + submitted ops) \<and>
    (\<exists>ts b'. engine_run engine1_add engine1_cancel ops b1 = Some (ts, b') \<and> wf_book1 b' \<and>
      resting_qty (book1_abs b') + 2 * volume ts \<le> resting_qty (book1_abs b1) + submitted ops)"
  using v2e.session [OF assms(1,2)] v1e.session [OF assms(3,4)] by blast

theorem engines_create_no_shares_witness:
  "\<exists>ts b'. engine_run engine_add book_cancel [Withdraw 1, Submit (order 9 Buy Limit 102 12)] demo_book = Some (ts, b') \<and>
     resting_qty (book_abs b') + 2 * volume ts \<le> 43"
proof -
  let ?ops = "[Withdraw 1, Submit (order 9 Buy Limit 102 12)]"
  have pre: "engine_pre engine_add book_cancel book_abs ?ops demo_book" by code_simp
  have pre1: "engine_pre engine1_add engine1_cancel book1_abs ?ops new_book1" by code_simp
  have "resting_qty (book_abs demo_book) + submitted ?ops = 43"
    by (simp add: demo_book_ok(2) resting_qty_def order_def)
  with engines_create_no_shares [OF demo_book_ok(1) pre new_book1_wf(1) pre1] show ?thesis by metis
qed

end
