(* ===== verification/Hash_Map_Trace.thy ===== *)
theory Hash_Map_Trace
  imports Flat_Hash_Map
begin

text \<open>
  Whole runs of \<open>FlatHashMap\<close> (\<open>cpp/include/flat_hash_map.h\<close>): any sequence of calls on a new table
  answers as a finite map does, and a reserved table does not grow while it holds no more entries
  than were reserved for. The capacity loops are also run on 64-bit words.
\<close>

section \<open>Calls and answers\<close>

datatype 'v map_call = Put u64 'v | Erase u64 | Find u64 | Reserve nat | Each "'v \<Rightarrow> 'v" | Size

definition is_reserve :: "'v map_call \<Rightarrow> bool" where
  "is_reserve c = (case c of Reserve n \<Rightarrow> True | _ \<Rightarrow> False)"

datatype 'v map_answer = Done | Erased bool | Found "'v option" | Sized nat

definition fhm_call :: "'v \<Rightarrow> 'v map_call \<Rightarrow> 'v fhm \<Rightarrow> ('v fhm \<times> 'v map_answer) option" where
  "fhm_call d c t =
     (case c of
        Put k v \<Rightarrow> map_option (\<lambda>t'. (t', Done)) (fhm_put d t k v)
      | Erase k \<Rightarrow> map_option (\<lambda>(t', found). (t', Erased found)) (fhm_erase t k)
      | Find k \<Rightarrow> map_option (\<lambda>r. (t, Found r)) (fhm_find t k)
      | Reserve n \<Rightarrow> map_option (\<lambda>t'. (t', Done)) (fhm_reserve d t n)
      | Each f \<Rightarrow> Some (fhm_for_each_mut f t, Done)
      | Size \<Rightarrow> Some (t, Sized (fhm_size t)))"

fun fhm_run :: "'v \<Rightarrow> 'v map_call list \<Rightarrow> 'v fhm \<Rightarrow> ('v fhm \<times> 'v map_answer list) option" where
  "fhm_run d [] t = Some (t, [])"
| "fhm_run d (c # cs) t = do {
     (t1, a) \<leftarrow> fhm_call d c t;
     (t2, as) \<leftarrow> fhm_run d cs t1;
     Some (t2, a # as)
   }"

text \<open>The same calls on a partial map.\<close>

definition map_call :: "'v map_call \<Rightarrow> (u64 \<Rightarrow> 'v option) \<Rightarrow> (u64 \<Rightarrow> 'v option) \<times> 'v map_answer" where
  "map_call c m =
     (case c of
        Put k v \<Rightarrow> (m(k \<mapsto> v), Done)
      | Erase k \<Rightarrow> (m(k := None), Erased (m k \<noteq> None))
      | Find k \<Rightarrow> (m, Found (m k))
      | Reserve n \<Rightarrow> (m, Done)
      | Each f \<Rightarrow> (\<lambda>k. map_option f (m k), Done)
      | Size \<Rightarrow> (m, Sized (card (dom m))))"

fun map_run :: "'v map_call list \<Rightarrow> (u64 \<Rightarrow> 'v option) \<Rightarrow> (u64 \<Rightarrow> 'v option) \<times> 'v map_answer list" where
  "map_run [] m = (m, [])"
| "map_run (c # cs) m =
     (let (m1, a) = map_call c m; (m2, as) = map_run cs m1 in (m2, a # as))"

lemma fhm_call_ok:
  assumes "fhm_inv t"
  shows "\<exists>t'. fhm_call d c t = Some (t', snd (map_call c (fhm_map t))) \<and> fhm_inv t' \<and>
    fhm_map t' = fst (map_call c (fhm_map t))"
proof (cases c)
  case (Put k v)
  then show ?thesis using fm.put_law [OF assms, of d k v] by (auto simp: fhm_call_def map_call_def)
next
  case (Erase k)
  then show ?thesis using fm.erase_law [OF assms, of k] by (auto simp: fhm_call_def map_call_def)
next
  case (Find k)
  then show ?thesis using fm.find_law [OF assms, of k] assms by (auto simp: fhm_call_def map_call_def)
next
  case (Reserve n)
  then show ?thesis using fhm_reserve_ok [OF assms, of d n] by (auto simp: fhm_call_def map_call_def)
next
  case (Each f)
  then show ?thesis using fm.each_law [OF assms, of f] fm.each_ok [OF assms, of f]
    by (auto simp: fhm_call_def map_call_def)
next
  case Size
  then show ?thesis using fm.count_law [OF assms] assms by (auto simp: fhm_call_def map_call_def)
qed

lemma fhm_run_ok:
  "fhm_inv t \<Longrightarrow> \<exists>t'. fhm_run d cs t = Some (t', snd (map_run cs (fhm_map t))) \<and> fhm_inv t' \<and>
     fhm_map t' = fst (map_run cs (fhm_map t))"
proof (induction cs arbitrary: t)
  case (Cons c cs)
  obtain t1 where t1: "fhm_call d c t = Some (t1, snd (map_call c (fhm_map t)))" "fhm_inv t1"
    "fhm_map t1 = fst (map_call c (fhm_map t))"
    using fhm_call_ok [OF Cons.prems] by blast
  from Cons.IH [OF t1(2)] show ?case by (auto simp: t1 case_prod_unfold Let_def)
qed simp

section \<open>Reserved tables\<close>

lemma reserve_cap_fits: "0 < cap \<Longrightarrow> \<not> over_load n (reserve_cap n cap)"
  by (induction n cap rule: reserve_cap.induct) (subst reserve_cap.simps, auto)

lemma over_load_mono: "\<not> over_load n cap \<Longrightarrow> m \<le> n \<Longrightarrow> \<not> over_load m cap"
  by (auto simp: over_load_def)

lemma fhm_put_capacity:
  assumes "\<not> over_load (fhm_live t + 1) (length (fhm_slots t))" "fhm_put d t k v = Some t'"
  shows "length (fhm_slots t') = length (fhm_slots t)"
  using assms
  by (auto simp: fhm_put_def fhm_subscript_def maybe_grow_def split: bind_splits if_splits)

lemma backward_shift_length: "backward_shift ss m i j = Some ss' \<Longrightarrow> length ss' = length ss"
  by (rule backward_shift.raw_induct [of "\<lambda>ss m i j ss'. length ss' = length ss"])
     (auto simp: Let_def split: if_splits)

lemma fhm_erase_capacity: "fhm_erase t k = Some (t', found) \<Longrightarrow> length (fhm_slots t') = length (fhm_slots t)"
  by (auto simp: fhm_erase_def split: bind_splits option.splits dest!: backward_shift_length)

lemma fhm_run_capacity:
  assumes "fhm_inv t" "\<not> over_load n (length (fhm_slots t))" "fhm_size t + length cs \<le> n"
    "list_all (\<lambda>c. \<not> is_reserve c) cs"
  shows "\<exists>t' as. fhm_run d cs t = Some (t', as) \<and> length (fhm_slots t') = length (fhm_slots t)"
  using assms
proof (induction cs arbitrary: t)
  case (Cons c cs)
  obtain t1 where t1: "fhm_call d c t = Some (t1, snd (map_call c (fhm_map t)))" "fhm_inv t1"
    using fhm_call_ok [OF Cons.prems(1)] by blast
  have room: "\<not> over_load (fhm_live t + 1) (length (fhm_slots t))"
    using Cons.prems(2,3) by (intro over_load_mono [OF Cons.prems(2)]) (simp add: fhm_size_def)
  have "length (fhm_slots t1) = length (fhm_slots t) \<and> fhm_size t1 \<le> Suc (fhm_size t)"
  proof (cases c)
    case (Put k v)
    then show ?thesis
      using t1(1) fhm_put_capacity [OF room] fhm_put_ok [OF Cons.prems(1), of d k v]
      by (auto simp: fhm_call_def)
  next
    case (Erase k)
    then show ?thesis
      using t1(1) fhm_erase_capacity [of t k] fm.count_erase [OF Cons.prems(1), of k]
      by (auto simp: fhm_call_def split: if_splits)
  next
    case (Each f)
    then show ?thesis
      using t1(1) fm.count_each [OF Cons.prems(1), of f] by (auto simp: fhm_call_def fhm_for_each_mut_def)
  qed (use t1(1) Cons.prems(4) in \<open>auto simp: fhm_call_def is_reserve_def\<close>)
  then show ?case
    using Cons.IH [OF t1(2)] Cons.prems by (fastforce simp: t1(1))
qed simp

section \<open>The capacity loops in \<open>size_t\<close>\<close>

text \<open>
  \<open>init_cap\<close> and \<open>reserve_cap\<close> double a natural number; the loops of the C++ double a
  \<open>size_t\<close>, whose \<open>cap <<= 1\<close> drops the top bit. Here are the two loops on 64-bit words, a loop that
  does not end being \<open>None\<close>. They return the capacities of the natural numbers as long as the request is at
  most \<open>2 ^ 63\<close> (the constructor) and \<open>2 ^ 53\<close> (\<open>reserve\<close>, where also the conversions to
  double are exact), far above the \<open>uint32_t\<close> capacities of the books. Beyond, the capacity can wrap to 0,
  from which neither loop returns.
\<close>

partial_function (option) init_cap_w :: "u64 \<Rightarrow> u64 \<Rightarrow> u64 option" where
  "init_cap_w n cap = (if cap < n then init_cap_w n (push_bit 1 cap) else Some cap)"

partial_function (option) reserve_cap_w :: "u64 \<Rightarrow> u64 \<Rightarrow> u64 option" where
  "reserve_cap_w n cap =
     (if over_load (unat n) (unat cap) then reserve_cap_w n (push_bit 1 cap) else Some cap)"

lemma double_w: "k < 63 \<Longrightarrow> push_bit 1 (word_of_nat (2 ^ k) :: u64) = word_of_nat (2 ^ Suc k)"
  by (simp add: push_bit_eq_mult)

lemma unat_pow_w: "k < 64 \<Longrightarrow> unat (word_of_nat (2 ^ k) :: u64) = 2 ^ k"
  using power_strict_increasing [of k 64 "2 :: nat"] by (simp only: unat_of_nat) simp

lemma init_cap_w_pow:
  assumes "unat n \<le> 2 ^ 63" "k \<le> 63"
  shows "init_cap_w n (word_of_nat (2 ^ k)) = Some (word_of_nat (init_cap (unat n) (2 ^ k))) \<and>
    init_cap (unat n) (2 ^ k) \<le> 2 ^ 63"
  using assms(2)
proof (induction "63 - k" arbitrary: k)
  case 0
  then have "k = 63" by simp
  then show ?case
    using assms(1) unat_pow_w [of 63] by (subst init_cap_w.simps, subst (1 2) init_cap.simps) (simp add: word_less_nat_alt)
next
  case (Suc j)
  then have k: "k < 63" and j: "j = 63 - Suc k" by auto
  have less: "(word_of_nat (2 ^ k) :: u64) < n \<longleftrightarrow> 2 ^ k < unat n"
    using k by (simp only: word_less_nat_alt unat_pow_w)
  have small: "(2 :: nat) ^ k \<le> 2 ^ 63" using k by (intro power_increasing) auto
  have next_k: "2 * (2 :: nat) ^ k = 2 ^ Suc k" by simp
  show ?case
    using Suc.hyps(1) [OF j] k small
    by (subst init_cap_w.simps, subst (1 2) init_cap.simps) (simp only: less double_w next_k, simp)
qed

lemma reserve_cap_w_pow:
  assumes "unat n \<le> 2 ^ 53" "k \<le> 54"
  shows "reserve_cap_w n (word_of_nat (2 ^ k)) = Some (word_of_nat (reserve_cap (unat n) (2 ^ k))) \<and>
    reserve_cap (unat n) (2 ^ k) \<le> 2 ^ 54"
  using assms(2)
proof (induction "54 - k" arbitrary: k)
  case 0
  then have "k = 54" by simp
  moreover have "\<not> over_load (unat n) (2 ^ 54)" using assms(1) of_nat_mono [OF assms(1), where ?'a = int] by (simp add: over_load_def)
  ultimately show ?case
    using unat_pow_w [of 54] by (subst reserve_cap_w.simps, subst (1 2) reserve_cap.simps) simp
next
  case (Suc j)
  then have k: "k < 54" and j: "j = 54 - Suc k" by auto
  have cap: "unat (word_of_nat (2 ^ k) :: u64) = 2 ^ k" using k by (intro unat_pow_w) simp
  have small: "(2 :: nat) ^ k \<le> 2 ^ 54" using k by (intro power_increasing) auto
  have next_k: "2 * (2 :: nat) ^ k = 2 ^ Suc k" by simp
  have dbl: "push_bit 1 (word_of_nat (2 ^ k) :: u64) = word_of_nat (2 ^ Suc k)" using k by (intro double_w) simp
  show ?case
    using Suc.hyps(1) [OF j] k small
    by (subst reserve_cap_w.simps, subst (1 2) reserve_cap.simps) (simp only: cap dbl next_k, simp)
qed

text \<open>What the constructor and \<open>reserve\<close> run.\<close>

lemma init_cap_w_returns:
  "unat n \<le> 2 ^ 63 \<Longrightarrow> \<exists>cap. init_cap_w n 16 = Some cap \<and> unat cap = init_cap (unat n) 16"
  using init_cap_w_pow [of n 4] by (auto simp: unat_of_nat take_bit_nat_eq_self)

lemma reserve_cap_w_returns:
  assumes "fhm_inv t" "length (fhm_slots t) \<le> 2 ^ 54" "unat n \<le> 2 ^ 53"
  shows "\<exists>cap. reserve_cap_w n (word_of_nat (length (fhm_slots t))) = Some cap \<and>
    unat cap = reserve_cap (unat n) (length (fhm_slots t))"
proof -
  obtain k where k: "length (fhm_slots t) = 2 ^ k" using assms(1) by (auto simp: fhm_inv_def)
  then have "k \<le> 54" using assms(2) by (simp only: power_increasing_iff one_less_numeral_iff semiring_norm(76))
  from reserve_cap_w_pow [OF assms(3) this] show ?thesis
    by (auto simp: k unat_of_nat take_bit_nat_eq_self)
qed

lemma init_cap_w_stuck: "0 < n \<Longrightarrow> init_cap_w n 0 = None"
proof (rule ccontr)
  have stuck: "cap = 0 \<longrightarrow> \<not> 0 < n" if "init_cap_w n cap = Some y" for n cap y
    by (rule init_cap_w.raw_induct [OF _ that]) (auto split: if_splits)
  assume "0 < n" "init_cap_w n 0 \<noteq> None"
  then show False using stuck by blast
qed

lemma reserve_cap_w_stuck: "0 < n \<Longrightarrow> reserve_cap_w n 0 = None"
proof (rule ccontr)
  have stuck: "cap = 0 \<longrightarrow> \<not> 0 < n" if "reserve_cap_w n cap = Some y" for n cap y
    by (rule reserve_cap_w.raw_induct [OF _ that]) (auto simp: over_load_def word_less_def split: if_splits)
  assume "0 < n" "reserve_cap_w n 0 \<noteq> None"
  then show False using stuck by blast
qed

section \<open>Properties\<close>

text \<open>C16: any sequence of \<open>operator[]\<close> assignments, erases, finds, reserves, value updates and size
  queries on a new table (of any requested capacity) returns, none of its probe loops running
  forever, and answers exactly as the finite map does; growth, rehashing and backward-shift deletion
  lose no entry and resurrect none. (Capacities are natural numbers; \<open>init_cap_w_returns\<close> and
  \<open>reserve_cap_w_returns\<close> say up to which requests the loops on \<open>size_t\<close> compute them.)\<close>

theorem fhm_run_is_map:
  "\<exists>t. fhm_run d cs (fhm_new d n) = Some (t, snd (map_run cs Map.empty)) \<and> fhm_inv t \<and>
     fhm_map t = fst (map_run cs Map.empty)"
  using fhm_run_ok [OF fhm_new_ok(1), of d cs d n] by (simp add: fhm_new_ok(2))

text \<open>once \<open>reserve(n)\<close> has run, the table neither grows nor rehashes while the calls made can not
  take it past \<open>n\<close> live entries, so references and timings are stable on the hot path.\<close>

theorem fhm_reserve_holds:
  assumes "fhm_inv t" "fhm_reserve d t n = Some t0" "fhm_size t0 + length cs \<le> n"
    "list_all (\<lambda>c. \<not> is_reserve c) cs"
  shows "\<exists>t' as. fhm_run d cs t0 = Some (t', as) \<and> length (fhm_slots t') = length (fhm_slots t0)"
proof -
  have t0: "fhm_inv t0" using fhm_reserve_ok [OF assms(1), of d n] assms(2) by auto
  obtain k where k: "length (fhm_slots t) = 2 ^ k" using assms(1) by (rule fhm_invE)
  let ?cap = "reserve_cap n (length (fhm_slots t))"
  obtain j where j: "?cap = 2 ^ j" using reserve_cap_pow2 k by blast
  have fits: "\<not> over_load n ?cap" using k by (intro reserve_cap_fits) simp
  have "length (fhm_slots t0) = (if length (fhm_slots t) < ?cap then ?cap else length (fhm_slots t))"
    using assms(2) rehash_ok [OF assms(1) j, of d] by (auto simp: fhm_reserve_def Let_def split: if_splits)
  then have "\<not> over_load n (length (fhm_slots t0))"
    using fits by (auto simp: over_load_def)
  from fhm_run_capacity [OF t0 this assms(3,4)] show ?thesis .
qed

theorem fhm_reserve_holds_witness:
  "\<exists>t' as. fhm_run 0 [Put 7 (1::nat), Put 23 2, Erase 7, Find 23] (fhm_new 0 16) = Some (t', as) \<and>
     length (fhm_slots t') = length (fhm_slots (fhm_new (0::nat) 16))"
proof (rule fhm_reserve_holds [OF fhm_new_ok(1)])
  show "fhm_reserve 0 (fhm_new 0 16) 11 = Some (fhm_new (0::nat) 16)"
    by (simp add: fhm_reserve_def fhm_new_def init_cap.simps reserve_cap.simps over_load_def)
qed (simp_all add: fhm_size_def fhm_new_def is_reserve_def Let_def)

end
