(* ===== verification/Bytes.thy ===== *)
theory Bytes
  imports Prelude
begin

text \<open>
  Byte buffers and big-endian integers. A buffer (\<open>std::vector<uint8_t>\<close>, a \<open>uint8_t*\<close> with its
  length, a \<open>std::string\<close> or \<open>char\<close> array) is the list of its bytes. \<open>put_be64\<close>/\<open>get_be64\<close> and
  \<open>put_be16\<close>/\<open>get_be16\<close> are those of \<open>cpp/feed/moldudp64.h\<close>; \<open>market_data.h\<close> has the same loops
  under the names \<open>put_be64_\<close>/\<open>get_be64_\<close>.
\<close>

type_synonym bytes = "u8 list"

section \<open>Reading and writing at an offset\<close>

definition write_at :: "nat \<Rightarrow> bytes \<Rightarrow> bytes \<Rightarrow> bytes" where
  "write_at p bs out = take p out @ bs @ drop (p + length bs) out"

definition read_at :: "nat \<Rightarrow> nat \<Rightarrow> bytes \<Rightarrow> bytes" where
  "read_at p n data = take n (drop p data)"

lemma length_write_at [simp]: "p + length bs \<le> length out \<Longrightarrow> length (write_at p bs out) = length out"
  by (simp add: write_at_def)

lemma length_read_at [simp]: "p + n \<le> length data \<Longrightarrow> length (read_at p n data) = n"
  by (simp add: read_at_def)

lemma read_at_skip [simp]: "length as \<le> p \<Longrightarrow> read_at p n (as @ bs) = read_at (p - length as) n bs"
  by (simp add: read_at_def)

lemma read_at_Cons [simp]: "0 < p \<Longrightarrow> read_at p n (x # xs) = read_at (p - 1) n xs"
  by (cases p) (simp_all add: read_at_def)

lemma read_at_all: "length as = n \<Longrightarrow> read_at 0 n (as @ bs) = as"
  by (simp add: read_at_def)

lemma read_at_here: "length as = n \<Longrightarrow> read_at 0 n as = as"
  by (simp add: read_at_def)

text \<open>Filling a zeroed buffer field by field from the front.\<close>

lemma write_at_next:
  "length filled = p \<Longrightarrow> length bs \<le> n \<Longrightarrow>
     write_at p bs (filled @ replicate n 0) = (filled @ bs) @ replicate (n - length bs) 0"
  by (simp add: write_at_def)

lemma write_at_front: "length bs \<le> n \<Longrightarrow> write_at 0 bs (replicate n 0) = bs @ replicate (n - length bs) 0"
  by (simp add: write_at_def)

section \<open>Interface of the record encodings\<close>

text \<open>What the users of a wire format rely on: on valid values, decoding what was encoded gives the
  value back.\<close>

locale codec =
  fixes enc :: "'a \<Rightarrow> bytes" and dec :: "bytes \<Rightarrow> 'a option" and valid :: "'a \<Rightarrow> bool"
  assumes dec_enc: "valid x \<Longrightarrow> dec (enc x) = Some x"
begin

lemma enc_inj: "valid x \<Longrightarrow> valid y \<Longrightarrow> enc x = enc y \<Longrightarrow> x = y"
  using dec_enc by (metis option.inject)

lemma dec_enc_list: "list_all valid xs \<Longrightarrow> map (\<lambda>x. dec (enc x)) xs = map Some xs"
  by (induction xs) (auto simp: dec_enc)

end

text \<open>Records of one fixed length can be laid out back to back and found again by their index.\<close>

locale record_codec = codec +
  fixes len :: nat
  assumes enc_length: "valid x \<Longrightarrow> length (enc x) = len"
begin

lemma concat_length: "list_all valid xs \<Longrightarrow> length (concat (map enc xs)) = length xs * len"
  by (induction xs) (auto simp: enc_length)

lemma record_at:
  "list_all valid xs \<Longrightarrow> i < length xs \<Longrightarrow> read_at (i * len) len (concat (map enc xs)) = enc (xs ! i)"
proof (induction xs arbitrary: i)
  case (Cons x xs)
  then show ?case
    by (cases i) (simp_all add: read_at_def enc_length algebra_simps)
qed simp

lemma decode_all:
  assumes "list_all valid xs"
  shows "map (\<lambda>i. dec (read_at (i * len) len (concat (map enc xs)))) [0..<length xs] = map Some xs"
proof (rule nth_equalityI)
  fix i assume "i < length (map (\<lambda>i. dec (read_at (i * len) len (concat (map enc xs)))) [0..<length xs])"
  then show "map (\<lambda>i. dec (read_at (i * len) len (concat (map enc xs)))) [0..<length xs] ! i = map Some xs ! i"
    using record_at [OF assms, of i] assms by (simp add: dec_enc list_all_length)
qed simp

end

section \<open>Big-endian integers\<close>

text \<open>\<open>for (i = n - 1; i >= 0; --i) { p[i] = (uint8_t)v; v >>= 8; }\<close>\<close>

fun put_be_loop :: "nat \<Rightarrow> 'a::len word \<Rightarrow> bytes" where
  "put_be_loop 0 v = []"
| "put_be_loop (Suc i) v = put_be_loop i (drop_bit 8 v) @ [ucast v]"

definition put_be64 :: "u64 \<Rightarrow> bytes" where
  "put_be64 v = put_be_loop 8 v"

text \<open>\<open>for (i = 0; i < n; ++i) v = (v << 8) | p[i];\<close>\<close>

definition get_be :: "bytes \<Rightarrow> u64" where
  "get_be bs = fold (\<lambda>b v. push_bit 8 v OR ucast b) bs 0"

definition get_be64 :: "bytes \<Rightarrow> nat \<Rightarrow> u64" where
  "get_be64 data p = get_be (read_at p 8 data)"

definition put_be16 :: "u16 \<Rightarrow> bytes" where
  "put_be16 v = [ucast (drop_bit 8 v), ucast v]"

definition get_be16 :: "bytes \<Rightarrow> nat \<Rightarrow> u16" where
  "get_be16 data p = ucast (push_bit 8 (ucast (data ! p) :: u32) OR ucast (data ! (p + 1)))"

lemma length_put_be_loop [simp]: "length (put_be_loop n v) = n"
  by (induction n arbitrary: v) auto

lemma length_put [simp]: "length (put_be64 v) = 8" "length (put_be16 w) = 2"
  by (simp_all add: put_be64_def put_be16_def)

lemma get_be_snoc: "get_be (bs @ [b]) = push_bit 8 (get_be bs) OR ucast b"
  by (simp add: get_be_def)

lemma take_bit_split:
  "push_bit 8 (take_bit n (drop_bit 8 v)) OR ucast (ucast v :: u8) = take_bit (n + 8) v" for v :: u64
proof (rule bit_word_eqI)
  fix i assume "i < LENGTH(64)"
  then show "bit (push_bit 8 (take_bit n (drop_bit 8 v)) OR ucast (ucast v :: u8)) i \<longleftrightarrow> bit (take_bit (n + 8) v) i"
    by (auto simp: bit_simps)
qed

lemma get_put_loop: "get_be (put_be_loop n v) = take_bit (8 * n) v" for v :: u64
proof (induction n arbitrary: v)
  case 0
  then show ?case by (simp add: get_be_def)
next
  case (Suc n)
  then show ?case using take_bit_split [of "8 * n" v] by (simp add: get_be_snoc add.commute)
qed

lemma get_put_be64 [simp]: "get_be (put_be64 v) = v"
  by (simp add: put_be64_def get_put_loop) (rule bit_word_eqI, simp add: bit_simps)

text \<open>Reading a number and writing it back gives the same bytes.\<close>

lemma get_be_bound: "length bs \<le> 8 \<Longrightarrow> bit (get_be bs) i \<Longrightarrow> i < 8 * length bs"
proof (induction bs arbitrary: i rule: rev_induct)
  case Nil
  then show ?case by (simp add: get_be_def)
next
  case (snoc b bs)
  then show ?case by (auto simp: get_be_snoc bit_simps dest: bit_imp_le_length) fastforce+
qed

lemma put_get_loop: "length bs = n \<Longrightarrow> n \<le> 8 \<Longrightarrow> put_be_loop n (get_be bs) = bs"
proof (induction n arbitrary: bs)
  case 0
  then show ?case by simp
next
  case (Suc n)
  from Suc.prems obtain cs b where bs: "bs = cs @ [b]" by (cases bs rule: rev_exhaust) auto
  have len: "length cs = n" "n \<le> 8" using Suc.prems bs by simp_all
  have "drop_bit 8 (push_bit 8 (get_be cs) OR ucast b) = get_be cs"
  proof (rule bit_word_eqI)
    fix i assume "i < LENGTH(64)"
    then show "bit (drop_bit 8 (push_bit 8 (get_be cs) OR ucast b)) i \<longleftrightarrow> bit (get_be cs) i"
      using get_be_bound [of cs i] len Suc.prems(2) bit_imp_le_length [of b "8 + i"]
      by (auto simp: bit_simps)
  qed
  moreover have "ucast (push_bit 8 (get_be cs) OR ucast b :: u64) = b"
    by (rule bit_word_eqI) (simp add: bit_simps)
  ultimately show ?case using Suc.IH [OF len] by (simp add: bs get_be_snoc)
qed

lemma put_get_be64: "length bs = 8 \<Longrightarrow> put_be64 (get_be bs) = bs"
  by (simp add: put_be64_def put_get_loop)

lemma get_put_be16: "get_be16 (put_be16 v @ rest) 0 = v"
  unfolding get_be16_def put_be16_def
  by (rule bit_word_eqI) (auto simp: bit_simps)

lemma put_get_be16: "put_be16 (get_be16 [a, b] 0) = [a, b]"
proof -
  have "ucast (drop_bit 8 (get_be16 [a, b] 0)) = a"
    unfolding get_be16_def by (rule bit_word_eqI) (auto simp: bit_simps dest: bit_imp_le_length)
  moreover have "ucast (get_be16 [a, b] 0) = b"
    unfolding get_be16_def by (rule bit_word_eqI) (auto simp: bit_simps)
  ultimately show ?thesis by (simp add: put_be16_def)
qed

text \<open>Four bytes, as \<open>(uint32_t(p[0]) << 24) | ...\<close> reads them.\<close>

lemma u32_bytes:
  fixes c :: u32
  shows "push_bit 24 (ucast (ucast (drop_bit 24 c) :: u8)) OR push_bit 16 (ucast (ucast (drop_bit 16 c) :: u8)) OR
     push_bit 8 (ucast (ucast (drop_bit 8 c) :: u8)) OR ucast (ucast c :: u8) = c" (is "?l = c")
proof (rule bit_word_eqI)
  fix i assume "i < LENGTH(32)"
  then consider "i < 8" | "8 \<le> i" "i < 16" | "16 \<le> i" "i < 24" | "24 \<le> i" "i < 32" by fastforce
  then show "bit ?l i \<longleftrightarrow> bit c i"
    by cases (auto simp: bit_simps)
qed

end
