(* ===== verification/Market_Data.thy ===== *)
theory Market_Data
  imports Bytes Order_Types
begin

text \<open>
  Market data events and their 50-byte wire record (\<open>cpp/feed/market_data.h\<close>). An \<open>EventType\<close> is an
  enum over \<open>uint8_t\<close> that \<open>decode\<close> casts from any byte, so it is the byte; \<open>symbol\<close> is the
  space-padded \<open>char[8]\<close>. \<open>Price\<close> is \<open>int64_t\<close>: the cast to \<open>uint64_t\<close> is the two's complement
  pattern and the cast back reads it as signed.
\<close>

section \<open>Events\<close>

definition evAdd :: u8 where "evAdd = 65"
definition evCancel :: u8 where "evCancel = 88"
definition evDelete :: u8 where "evDelete = 68"
definition evTrade :: u8 where "evTrade = 84"
definition evReplace :: u8 where "evReplace = 82"

lemmas event_codes = evAdd_def evCancel_def evDelete_def evTrade_def evReplace_def

lemma event_codes_distinct [simp]:
  "evAdd \<noteq> evCancel" "evAdd \<noteq> evDelete" "evAdd \<noteq> evTrade" "evAdd \<noteq> evReplace"
  "evCancel \<noteq> evAdd" "evCancel \<noteq> evDelete" "evCancel \<noteq> evTrade" "evCancel \<noteq> evReplace"
  "evDelete \<noteq> evAdd" "evDelete \<noteq> evCancel" "evDelete \<noteq> evTrade" "evDelete \<noteq> evReplace"
  "evTrade \<noteq> evAdd" "evTrade \<noteq> evCancel" "evTrade \<noteq> evDelete" "evTrade \<noteq> evReplace"
  "evReplace \<noteq> evAdd" "evReplace \<noteq> evCancel" "evReplace \<noteq> evDelete" "evReplace \<noteq> evTrade"
  by (simp_all add: event_codes)

record md_event =
  ev_type :: u8
  ev_side :: side
  ev_timestamp_ns :: u64
  ev_order_id :: u64
  ev_new_order_id :: u64
  ev_symbol :: bytes
  ev_price :: int
  ev_qty :: u64

definition kRecordLen :: nat where "kRecordLen = 50"

text \<open>The default member initialisers; \<open>std::array<char, 8>{}\<close> is zeroed.\<close>

definition md_default :: md_event where
  "md_default = \<lparr>ev_type = evAdd, ev_side = Buy, ev_timestamp_ns = 0, ev_order_id = 0,
     ev_new_order_id = 0, ev_symbol = replicate 8 0, ev_price = 0, ev_qty = 0\<rparr>"

definition charB :: u8 where "charB = 66"
definition charS :: u8 where "charS = 83"
definition space :: u8 where "space = 32"

definition side_byte :: "side \<Rightarrow> u8" where
  "side_byte sd = (if sd = Buy then charB else charS)"

definition byte_side :: "u8 \<Rightarrow> side" where
  "byte_side b = (if b = charB then Buy else Sell)"

lemma byte_side_inv [simp]: "byte_side (side_byte sd) = sd"
  by (cases sd) (simp_all add: byte_side_def side_byte_def charB_def charS_def)

definition md_encode :: "md_event \<Rightarrow> bytes" where
  "md_encode e =
     (let out0 = replicate kRecordLen 0;
          out1 = write_at 0 [ev_type e] out0;
          out2 = write_at 1 [side_byte (ev_side e)] out1;
          out3 = write_at 2 (put_be64 (ev_timestamp_ns e)) out2;
          out4 = write_at 10 (put_be64 (ev_order_id e)) out3;
          out5 = write_at 18 (put_be64 (ev_new_order_id e)) out4;
          out6 = write_at 26 (ev_symbol e) out5;
          out7 = write_at 34 (put_be64 (word_of_int (ev_price e))) out6
      in write_at 42 (put_be64 (ev_qty e)) out7)"

definition md_decode :: "bytes \<Rightarrow> md_event option" where
  "md_decode data =
     (if length data \<noteq> kRecordLen then None
      else Some \<lparr>ev_type = data ! 0, ev_side = byte_side (data ! 1),
        ev_timestamp_ns = get_be64 data 2, ev_order_id = get_be64 data 10,
        ev_new_order_id = get_be64 data 18, ev_symbol = read_at 26 8 data,
        ev_price = sint (get_be64 data 34), ev_qty = get_be64 data 42\<rparr>)"

text \<open>An \<open>int64_t\<close>; the symbol array has its eight bytes.\<close>

definition is_int64 :: "int \<Rightarrow> bool" where
  "is_int64 p \<longleftrightarrow> - (2 ^ 63) \<le> p \<and> p < 2 ^ 63"

definition md_valid :: "md_event \<Rightarrow> bool" where
  "md_valid e \<longleftrightarrow> length (ev_symbol e) = 8 \<and> is_int64 (ev_price e)"

lemma sint_word_of_int64: "is_int64 p \<Longrightarrow> sint (word_of_int p :: u64) = p"
  by (simp add: is_int64_def sint_word_ariths signed_take_bit_int_eq_self_iff sint_sbintrunc')

lemma is_int64_sint: "is_int64 (sint (w :: u64))"
  using sint_range_size [of w] by (simp add: is_int64_def word_size)

lemma md_encode_fields:
  assumes "length (ev_symbol e) = 8"
  shows "md_encode e = [ev_type e, side_byte (ev_side e)] @ put_be64 (ev_timestamp_ns e) @
    put_be64 (ev_order_id e) @ put_be64 (ev_new_order_id e) @ ev_symbol e @
    put_be64 (word_of_int (ev_price e)) @ put_be64 (ev_qty e)"
  using assms
  by (simp add: md_encode_def Let_def kRecordLen_def write_at_front write_at_next
      del: append_assoc append_Cons append_Nil)

lemma md_encode_length: "md_valid e \<Longrightarrow> length (md_encode e) = kRecordLen"
  by (simp add: md_encode_fields md_valid_def kRecordLen_def)

lemma md_decode_encode:
  assumes "md_valid e"
  shows "md_decode (md_encode e) = Some e"
proof -
  note v = assms [unfolded md_valid_def]
  have "md_decode (md_encode e) = Some \<lparr>ev_type = ev_type e, ev_side = ev_side e,
      ev_timestamp_ns = ev_timestamp_ns e, ev_order_id = ev_order_id e,
      ev_new_order_id = ev_new_order_id e, ev_symbol = ev_symbol e,
      ev_price = ev_price e, ev_qty = ev_qty e\<rparr>"
    using v unfolding md_decode_def md_encode_length [OF assms]
    by (simp add: md_encode_fields get_be64_def read_at_all read_at_here sint_word_of_int64)
  then show ?thesis by simp
qed

text \<open>A record of the right length that is some event's encoding is that event's only encoding.\<close>

lemma md_encode_decode:
  assumes "length data = kRecordLen" "data ! 1 = charB \<or> data ! 1 = charS"
  shows "\<exists>e. md_decode data = Some e \<and> md_valid e \<and> md_encode e = data"
proof -
  let ?e = "\<lparr>ev_type = data ! 0, ev_side = byte_side (data ! 1),
        ev_timestamp_ns = get_be64 data 2, ev_order_id = get_be64 data 10,
        ev_new_order_id = get_be64 data 18, ev_symbol = read_at 26 8 data,
        ev_price = sint (get_be64 data 34), ev_qty = get_be64 data 42\<rparr>"
  have len: "length data = 50" using assms(1) by (simp add: kRecordLen_def)
  have side: "side_byte (byte_side (data ! 1)) = data ! 1"
    using assms(2) by (auto simp: side_byte_def byte_side_def charB_def charS_def)
  have num: "put_be64 (get_be64 data p) = read_at p 8 data" if "p + 8 \<le> 50" for p
    using that len by (simp add: get_be64_def put_get_be64)
  have "data = take 2 data @ drop 2 data" by simp
  also have "take 2 data = [data ! 0, data ! 1]"
    using len by (cases data; cases "tl data") simp_all
  also have "drop 2 data = read_at 2 8 data @ read_at 10 8 data @ read_at 18 8 data @ read_at 26 8 data @
      read_at 34 8 data @ read_at 42 8 data"
  proof -
    have chop: "drop p data = read_at p 8 data @ drop (p + 8) data" for p
      unfolding read_at_def by (metis append_take_drop_id drop_drop add.commute)
    show ?thesis
      using chop [of 2] chop [of 10] chop [of 18] chop [of 26] chop [of 34] chop [of 42] len by simp
  qed
  finally have "md_encode ?e = data"
    using len side num by (simp add: md_encode_fields)
  moreover have "md_valid ?e" using len by (simp add: md_valid_def is_int64_sint)
  moreover have "md_decode data = Some ?e" using assms(1) by (simp add: md_decode_def)
  ultimately show ?thesis by blast
qed

interpretation md: record_codec md_encode md_decode md_valid kRecordLen
  by unfold_locales (simp_all add: md_decode_encode md_encode_length)

section \<open>Symbols\<close>

text \<open>\<open>end = 8; while (end > 0 && raw[end - 1] == ' ') --end;\<close>\<close>

fun strip_end :: "bytes \<Rightarrow> nat \<Rightarrow> nat" where
  "strip_end raw 0 = 0"
| "strip_end raw (Suc n) = (if raw ! n = space then strip_end raw n else Suc n)"

definition symbol_str :: "bytes \<Rightarrow> bytes" where
  "symbol_str raw = take (strip_end raw 8) raw"

definition symbol_pad :: "bytes \<Rightarrow> bytes" where
  "symbol_pad s = write_at 0 (take (min 8 (length s)) s) (replicate 8 space)"

text \<open>What a symbol looks like after \<open>symbol_str\<close>: at most eight bytes, the last one no space.\<close>

definition symbol_ok :: "bytes \<Rightarrow> bool" where
  "symbol_ok s \<longleftrightarrow> length s \<le> 8 \<and> (s \<noteq> [] \<longrightarrow> last s \<noteq> space)"

lemma strip_end_le: "strip_end raw n \<le> n"
  by (induction n) auto

lemma strip_end_stop: "strip_end raw n \<noteq> 0 \<Longrightarrow> raw ! (strip_end raw n - 1) \<noteq> space"
  by (induction n) auto

lemma strip_end_spaces: "strip_end raw n \<le> i \<Longrightarrow> i < n \<Longrightarrow> raw ! i = space"
  by (induction n) (auto simp: less_Suc_eq split: if_splits)

lemma strip_end_unique:
  "m \<le> n \<Longrightarrow> (\<And>i. m \<le> i \<Longrightarrow> i < n \<Longrightarrow> raw ! i = space) \<Longrightarrow> (m \<noteq> 0 \<Longrightarrow> raw ! (m - 1) \<noteq> space) \<Longrightarrow>
     strip_end raw n = m"
proof (induction n)
  case (Suc n)
  then show ?case by (cases "m = Suc n") auto
qed simp

lemma length_symbol_pad [simp]: "length (symbol_pad s) = 8"
  by (simp add: symbol_pad_def)

lemma symbol_pad_short: "length s \<le> 8 \<Longrightarrow> symbol_pad s = s @ replicate (8 - length s) space"
  by (simp add: symbol_pad_def write_at_def min_absorb2)

lemma symbol_str_pad: "symbol_ok s \<Longrightarrow> symbol_str (symbol_pad s) = s"
proof -
  assume ok: "symbol_ok s"
  then have len: "length s \<le> 8" by (simp add: symbol_ok_def)
  have "strip_end (symbol_pad s) 8 = length s"
    using ok len
    by (intro strip_end_unique) (auto simp: symbol_pad_short nth_append symbol_ok_def last_conv_nth)
  then show ?thesis using len by (simp add: symbol_str_def symbol_pad_short)
qed

lemma symbol_str_ok: "length raw = 8 \<Longrightarrow> symbol_ok (symbol_str raw)"
  using strip_end_le [of raw 8] strip_end_stop [of raw 8]
  by (auto simp: symbol_ok_def symbol_str_def last_conv_nth)

lemma symbol_pad_str: "length raw = 8 \<Longrightarrow> symbol_pad (symbol_str raw) = raw"
proof (rule nth_equalityI)
  fix i assume len: "length raw = 8" and "i < length (symbol_pad (symbol_str raw))"
  then have i: "i < 8" by simp
  have "length (symbol_str raw) = strip_end raw 8"
    using strip_end_le [of raw 8] len by (simp add: symbol_str_def)
  then show "symbol_pad (symbol_str raw) ! i = raw ! i"
    using strip_end_le [of raw 8] strip_end_spaces [of raw 8 i] i len
    by (cases "i < strip_end raw 8") (simp_all add: symbol_pad_short nth_append, simp_all add: symbol_str_def)
qed simp

end
