(* ===== verification/Snapshot.thy ===== *)
theory Snapshot
  imports Market_Data "HOL-Library.AList"
begin

text \<open>
  Snapshot recovery (\<open>cpp/feed/snapshot.h\<close>): the wire format of a full-book snapshot and the
  \<open>Builder\<close> that keeps the per-symbol shadow books from the market data events.

  An \<open>unordered_map\<close> is an association list without repeated keys, in the (unspecified) iteration
  order of the table; the theorems do not depend on that order.
\<close>

section \<open>Rows and snapshots on the wire\<close>

record resting_order =
  ro_side :: side
  ro_price :: int
  ro_qty :: u64

record snapshot_row =
  sr_symbol :: bytes
  sr_order_id :: u64
  sr_side :: side
  sr_price :: int
  sr_qty :: u64

definition kRowLen :: nat where "kRowLen = 8 + 8 + 1 + 8 + 8"

definition encode_row :: "snapshot_row \<Rightarrow> bytes" where
  "encode_row r =
     (let out0 = replicate kRowLen 0;
          out1 = write_at 0 (sr_symbol r) out0;
          out2 = write_at 8 (put_be64 (sr_order_id r)) out1;
          out3 = write_at 16 [side_byte (sr_side r)] out2;
          out4 = write_at 17 (put_be64 (word_of_int (sr_price r))) out3
      in write_at 25 (put_be64 (sr_qty r)) out4)"

definition decode_row :: "bytes \<Rightarrow> snapshot_row" where
  "decode_row data =
     \<lparr>sr_symbol = read_at 0 8 data, sr_order_id = get_be64 data 8, sr_side = byte_side (data ! 16),
      sr_price = sint (get_be64 data 17), sr_qty = get_be64 data 25\<rparr>"

definition encode_snapshot :: "u64 \<Rightarrow> snapshot_row list \<Rightarrow> bytes" where
  "encode_snapshot as_of_seq rows =
     (let count = (word_of_nat (length rows) :: u32);
          out = write_at 0 (put_be64 as_of_seq) (replicate 12 0);
          out = write_at 8 [ucast (drop_bit 24 count), ucast (drop_bit 16 count),
                            ucast (drop_bit 8 count), ucast count] out
      in fold (\<lambda>r out. out @ encode_row r) rows out)"

definition get_count :: "bytes \<Rightarrow> u32" where
  "get_count buf = push_bit 24 (ucast (buf ! 8)) OR push_bit 16 (ucast (buf ! 9)) OR
     push_bit 8 (ucast (buf ! 10)) OR ucast (buf ! 11)"

text \<open>The out-parameters are passed in and returned: \<open>out_as_of_seq\<close> is already written when the
  length check fails.\<close>

definition decode_snapshot :: "bytes \<Rightarrow> u64 \<Rightarrow> snapshot_row list \<Rightarrow> bool \<times> u64 \<times> snapshot_row list" where
  "decode_snapshot buf seq rows =
     (if length buf < 12 then (False, seq, rows)
      else let seq1 = get_be64 buf 0; count = get_count buf in
        if length buf \<noteq> 12 + unat count * kRowLen then (False, seq1, rows)
        else (True, seq1, map (\<lambda>i. decode_row (read_at (12 + i * kRowLen) kRowLen buf)) [0..<unat count]))"

definition row_valid :: "snapshot_row \<Rightarrow> bool" where
  "row_valid r \<longleftrightarrow> length (sr_symbol r) = 8 \<and> is_int64 (sr_price r)"

lemma encode_row_fields:
  assumes "length (sr_symbol r) = 8"
  shows "encode_row r = sr_symbol r @ put_be64 (sr_order_id r) @ [side_byte (sr_side r)] @
    put_be64 (word_of_int (sr_price r)) @ put_be64 (sr_qty r)"
  using assms
  by (simp add: encode_row_def Let_def kRowLen_def write_at_front write_at_next
      del: append_assoc append_Cons append_Nil)

lemma encode_row_length: "row_valid r \<Longrightarrow> length (encode_row r) = kRowLen"
  by (simp add: encode_row_fields row_valid_def kRowLen_def)

lemma decode_encode_row:
  assumes "row_valid r"
  shows "decode_row (encode_row r) = r"
proof -
  note v = assms [unfolded row_valid_def]
  have "decode_row (encode_row r) = \<lparr>sr_symbol = sr_symbol r, sr_order_id = sr_order_id r,
      sr_side = sr_side r, sr_price = sr_price r, sr_qty = sr_qty r\<rparr>"
    using v unfolding decode_row_def
    by (simp add: encode_row_fields get_be64_def read_at_all read_at_here sint_word_of_int64 nth_append)
  then show ?thesis by simp
qed

interpretation rowc: record_codec encode_row "Some \<circ> decode_row" row_valid kRowLen
  by unfold_locales (simp_all add: decode_encode_row encode_row_length)

lemma fold_append: "fold (\<lambda>r out. out @ f r) rs out = out @ concat (map f rs)"
  by (induction rs arbitrary: out) simp_all

lemma decode_encode_snapshot:
  assumes "list_all row_valid rows" "length rows < 2 ^ 32"
  shows "decode_snapshot (encode_snapshot seq rows) seq0 rows0 = (True, seq, rows)"
proof -
  let ?c = "word_of_nat (length rows) :: u32"
  let ?h = "put_be64 seq @ [ucast (drop_bit 24 ?c), ucast (drop_bit 16 ?c), ucast (drop_bit 8 ?c), ucast ?c] :: bytes"
  let ?body = "concat (map encode_row rows)"
  have enc: "encode_snapshot seq rows = ?h @ ?body"
    by (simp add: encode_snapshot_def Let_def fold_append write_at_front write_at_next
        del: append_assoc append_Cons append_Nil)
  have count: "unat ?c = length rows" using assms(2) by (simp add: unat_of_nat)
  have body: "length ?body = length rows * kRowLen" by (rule rowc.concat_length [OF assms(1)])
  have gc: "get_count (?h @ ?body) = ?c"
    using u32_bytes [of ?c] by (simp add: get_count_def nth_append)
  have seq: "get_be64 (?h @ ?body) 0 = seq" by (simp add: get_be64_def read_at_all)
  have "map (\<lambda>i. decode_row (read_at (12 + i * kRowLen) kRowLen (?h @ ?body))) [0..<length rows] =
      map (\<lambda>i. decode_row (read_at (i * kRowLen) kRowLen ?body)) [0..<length rows]"
    by simp
  also have "map Some \<dots> = map Some rows"
    using rowc.decode_all [OF assms(1)] by (simp add: comp_def)
  ultimately have rows: "map (\<lambda>i. decode_row (read_at (12 + i * kRowLen) kRowLen (?h @ ?body))) [0..<length rows] = rows"
    by (metis inj_map_eq_map inj_Some)
  show ?thesis
    unfolding decode_snapshot_def enc gc seq Let_def count rows using body by simp
qed

section \<open>The builder\<close>

record builder =
  books :: "(bytes \<times> (u64 \<times> resting_order) list) list"
  last_seq :: u64

definition new_builder :: builder where
  "new_builder = \<lparr>books = [], last_seq = 0\<rparr>"

text \<open>\<open>books_[symbol]\<close>: an empty book when there is none yet.\<close>

definition book_for_symbol :: "bytes \<Rightarrow> builder \<Rightarrow> (u64 \<times> resting_order) list" where
  "book_for_symbol s b = (case map_of (books b) s of None \<Rightarrow> [] | Some bk \<Rightarrow> bk)"

definition event_order :: "md_event \<Rightarrow> resting_order" where
  "event_order e = \<lparr>ro_side = ev_side e, ro_price = ev_price e, ro_qty = ev_qty e\<rparr>"

definition apply_book :: "md_event \<Rightarrow> (u64 \<times> resting_order) list \<Rightarrow> (u64 \<times> resting_order) list" where
  "apply_book e bk =
     (if ev_type e = evAdd then AList.update (ev_order_id e) (event_order e) bk
      else if ev_type e = evCancel \<or> ev_type e = evTrade then
        (case map_of bk (ev_order_id e) of None \<Rightarrow> bk
         | Some r \<Rightarrow> if ro_qty r \<le> ev_qty e then AList.delete (ev_order_id e) bk
                      else AList.update (ev_order_id e) (r\<lparr>ro_qty := ro_qty r - ev_qty e\<rparr>) bk)
      else if ev_type e = evDelete then AList.delete (ev_order_id e) bk
      else if ev_type e = evReplace then
        AList.update (ev_new_order_id e) (event_order e) (AList.delete (ev_order_id e) bk)
      else bk)"

definition builder_apply :: "u64 \<Rightarrow> md_event \<Rightarrow> builder \<Rightarrow> builder" where
  "builder_apply seq e b =
     (let symbol = symbol_str (ev_symbol e)
      in b\<lparr>books := AList.update symbol (apply_book e (book_for_symbol symbol b)) (books b), last_seq := seq\<rparr>)"

definition row_order :: "snapshot_row \<Rightarrow> resting_order" where
  "row_order r = \<lparr>ro_side = sr_side r, ro_price = sr_price r, ro_qty = sr_qty r\<rparr>"

definition load_row :: "snapshot_row \<Rightarrow> builder \<Rightarrow> builder" where
  "load_row r b =
     (let symbol = symbol_str (sr_symbol r)
      in b\<lparr>books := AList.update symbol
             (AList.update (sr_order_id r) (row_order r) (book_for_symbol symbol b)) (books b)\<rparr>)"

definition builder_load :: "u64 \<Rightarrow> snapshot_row list \<Rightarrow> builder \<Rightarrow> builder" where
  "builder_load as_of_seq rows b = (fold load_row rows (b\<lparr>books := []\<rparr>))\<lparr>last_seq := as_of_seq\<rparr>"

definition book_rows :: "bytes \<Rightarrow> (u64 \<times> resting_order) list \<Rightarrow> snapshot_row list" where
  "book_rows symbol bk =
     map (\<lambda>(i, r). \<lparr>sr_symbol = symbol_pad symbol, sr_order_id = i, sr_side = ro_side r,
                    sr_price = ro_price r, sr_qty = ro_qty r\<rparr>)
       (filter (\<lambda>(i, r). ro_qty r \<noteq> 0) bk)"

definition builder_rows :: "builder \<Rightarrow> snapshot_row list" where
  "builder_rows b = concat (map (\<lambda>(symbol, bk). book_rows symbol bk) (books b))"

text \<open>What a builder knows of an order.\<close>

definition view :: "builder \<Rightarrow> bytes \<Rightarrow> u64 \<Rightarrow> resting_order option" where
  "view b s i = map_of (book_for_symbol s b) i"

text \<open>The event's effect on the map from symbol and id to resting order.\<close>

definition event_effect ::
    "md_event \<Rightarrow> (bytes \<Rightarrow> u64 \<Rightarrow> resting_order option) \<Rightarrow> bytes \<Rightarrow> u64 \<Rightarrow> resting_order option" where
  "event_effect e v =
     (let s = symbol_str (ev_symbol e); m = v s; i = ev_order_id e
      in v(s := (if ev_type e = evAdd then m(i \<mapsto> event_order e)
                 else if ev_type e = evCancel \<or> ev_type e = evTrade then
                   (case m i of None \<Rightarrow> m
                    | Some r \<Rightarrow> if ro_qty r \<le> ev_qty e then m(i := None)
                                 else m(i \<mapsto> r\<lparr>ro_qty := ro_qty r - ev_qty e\<rparr>))
                 else if ev_type e = evDelete then m(i := None)
                 else if ev_type e = evReplace then m(i := None, ev_new_order_id e \<mapsto> event_order e)
                 else m)))"

lemma map_of_book: "map_of (books (b\<lparr>books := AList.update s bk (books b)\<rparr>)) = (map_of (books b))(s \<mapsto> bk)"
  by (simp add: update_conv')

lemma book_for_update:
  "book_for_symbol s' (b\<lparr>books := AList.update s bk (books b)\<rparr>) = (if s' = s then bk else book_for_symbol s' b)"
  by (simp add: book_for_symbol_def update_conv')

lemma book_for_seq [simp]: "book_for_symbol s (b\<lparr>last_seq := q\<rparr>) = book_for_symbol s b"
  by (simp add: book_for_symbol_def)

lemma apply_view: "view (builder_apply seq e b) = event_effect e (view b)"
proof -
  let ?s = "symbol_str (ev_symbol e)"
  have "map_of (apply_book e (book_for_symbol ?s b)) = event_effect e (view b) ?s"
    by (simp add: apply_book_def event_effect_def Let_def view_def update_conv' delete_conv' fun_eq_iff
        split: option.split)
  moreover have "event_effect e (view b) s = view b s" if "s \<noteq> ?s" for s
    using that by (simp add: event_effect_def Let_def)
  ultimately show ?thesis
    by (auto simp: fun_eq_iff view_def builder_apply_def Let_def book_for_symbol_def update_conv')
qed

section \<open>The builder's invariant\<close>

definition book_ok :: "(u64 \<times> resting_order) list \<Rightarrow> bool" where
  "book_ok bk \<longleftrightarrow> distinct (map fst bk) \<and> (\<forall>(i, r) \<in> set bk. is_int64 (ro_price r))"

definition builder_ok :: "builder \<Rightarrow> bool" where
  "builder_ok b \<longleftrightarrow> distinct (map fst (books b)) \<and> (\<forall>(s, bk) \<in> set (books b). symbol_ok s \<and> book_ok bk)"

lemma book_ok_Nil [simp]: "book_ok []"
  by (simp add: book_ok_def)

lemma set_update_sub: "x \<in> set (AList.update k v al) \<Longrightarrow> x = (k, v) \<or> x \<in> set al"
  by (induction al) (auto split: if_splits)

lemma set_delete_sub: "x \<in> set (AList.delete k al) \<Longrightarrow> x \<in> set al"
  by (simp add: AList.delete_eq)

lemma book_ok_update: "book_ok bk \<Longrightarrow> is_int64 (ro_price r) \<Longrightarrow> book_ok (AList.update i r bk)"
  by (auto simp: book_ok_def distinct_update dest!: set_update_sub)

lemma book_ok_delete: "book_ok bk \<Longrightarrow> book_ok (AList.delete i bk)"
  by (auto simp: book_ok_def distinct_delete dest!: set_delete_sub)

lemma book_ok_lookup: "book_ok bk \<Longrightarrow> map_of bk i = Some r \<Longrightarrow> is_int64 (ro_price r)"
  by (auto simp: book_ok_def dest!: map_of_SomeD)

lemma apply_book_ok: "book_ok bk \<Longrightarrow> md_valid e \<Longrightarrow> book_ok (apply_book e bk)"
  by (auto simp: apply_book_def event_order_def md_valid_def book_ok_delete
      intro!: book_ok_update dest: book_ok_lookup split: option.split)

lemma book_for_ok: "builder_ok b \<Longrightarrow> book_ok (book_for_symbol s b)"
  by (auto simp: builder_ok_def book_for_symbol_def dest!: map_of_SomeD split: option.split)

lemma builder_apply_ok:
  assumes "builder_ok b" "md_valid e"
  shows "builder_ok (builder_apply seq e b)"
  using assms apply_book_ok [OF book_for_ok [OF assms(1)] assms(2)] symbol_str_ok [of "ev_symbol e"]
  by (auto simp: builder_ok_def builder_apply_def Let_def distinct_update md_valid_def dest!: set_update_sub)

lemma new_builder_ok: "builder_ok new_builder"
  by (simp add: builder_ok_def new_builder_def)

section \<open>Taking and loading a snapshot\<close>

definition row_key :: "snapshot_row \<Rightarrow> bytes \<times> u64" where
  "row_key r = (symbol_str (sr_symbol r), sr_order_id r)"

lemma load_row_view: "(\<lambda>(s, i). view (load_row r b) s i) = (\<lambda>(s, i). view b s i)(row_key r \<mapsto> row_order r)"
  by (auto simp: fun_eq_iff view_def load_row_def Let_def book_for_update row_key_def update_conv')

lemma load_fold_view:
  "(\<lambda>(s, i). view (fold load_row rows b) s i) =
   (\<lambda>(s, i). view b s i) ++ map_of (rev (map (\<lambda>r. (row_key r, row_order r)) rows))"
proof (induction rows arbitrary: b)
  case Nil
  then show ?case by simp
next
  case (Cons r rows)
  let ?m = "map_of (rev (map (\<lambda>r. (row_key r, row_order r)) rows))"
  have "(\<lambda>(s, i). view (fold load_row (r # rows) b) s i) =
      (\<lambda>(s, i). view b s i)(row_key r \<mapsto> row_order r) ++ ?m"
    unfolding fold_simps Cons.IH [of "load_row r b"] load_row_view by (rule refl)
  also have "\<dots> = (\<lambda>(s, i). view b s i) ++ ([row_key r \<mapsto> row_order r] ++ ?m)"
    by (simp add: map_add_assoc)
  finally show ?case by simp
qed

lemma map_of_rev_distinct: "distinct (map fst xs) \<Longrightarrow> map_of (rev xs) = map_of xs"
  by (rule map_eq_Some_I) (simp flip: rev_map)

lemma load_view:
  assumes "distinct (map row_key rows)"
  shows "view (builder_load q rows b) s i = map_of (map (\<lambda>r. (row_key r, row_order r)) rows) (s, i)"
proof -
  have "(\<lambda>(s, i). view (builder_load q rows b) s i) =
      Map.empty ++ map_of (rev (map (\<lambda>r. (row_key r, row_order r)) rows))"
  proof -
    have "(\<lambda>(s, i). view (b\<lparr>books := []\<rparr>) s i) = Map.empty"
      by (auto simp: fun_eq_iff view_def book_for_symbol_def)
    then show ?thesis
      using load_fold_view [of rows "b\<lparr>books := []\<rparr>"] by (simp add: builder_load_def view_def)
  qed
  also have "\<dots> = map_of (map (\<lambda>r. (row_key r, row_order r)) rows)"
    using assms by (simp add: map_of_rev_distinct comp_def)
  finally show ?thesis by (metis (mono_tags, lifting) case_prod_conv)
qed

text \<open>An order of quantity zero is not written to a snapshot.\<close>

definition live :: "(bytes \<Rightarrow> u64 \<Rightarrow> resting_order option) \<Rightarrow> bytes \<Rightarrow> u64 \<Rightarrow> resting_order option" where
  "live v s i = (case v s i of None \<Rightarrow> None | Some r \<Rightarrow> if ro_qty r = 0 then None else Some r)"

lemma row_of_book:
  assumes "symbol_ok s"
  shows "map (\<lambda>r. (row_key r, row_order r)) (book_rows s bk) =
    map (\<lambda>(i, r). ((s, i), r)) (filter (\<lambda>(i, r). ro_qty r \<noteq> 0) bk)"
  by (auto simp: book_rows_def row_key_def row_order_def symbol_str_pad [OF assms])

lemma rows_member:
  assumes "builder_ok b"
  shows "(k, v) \<in> set (map (\<lambda>r. (row_key r, row_order r)) (builder_rows b)) \<longleftrightarrow>
    (\<exists>bk. (fst k, bk) \<in> set (books b) \<and> (snd k, v) \<in> set bk \<and> ro_qty v \<noteq> 0)"
proof -
  let ?kv = "\<lambda>r. (row_key r, row_order r)"
  have one: "(k, v) \<in> set (map ?kv (book_rows s bk)) \<longleftrightarrow> s = fst k \<and> (snd k, v) \<in> set bk \<and> ro_qty v \<noteq> 0"
    if "(s, bk) \<in> set (books b)" for s bk
  proof -
    have "symbol_ok s" using assms that by (auto simp: builder_ok_def)
    then show ?thesis by (cases k) (auto simp: row_of_book)
  qed
  have "(k, v) \<in> set (map ?kv (builder_rows b)) \<longleftrightarrow>
      (\<exists>s bk. (s, bk) \<in> set (books b) \<and> (k, v) \<in> set (map ?kv (book_rows s bk)))"
    by (auto simp: builder_rows_def)
  also have "\<dots> \<longleftrightarrow> (\<exists>s bk. (s, bk) \<in> set (books b) \<and> s = fst k \<and> (snd k, v) \<in> set bk \<and> ro_qty v \<noteq> 0)"
    using one by (simp cong: conj_cong)
  finally show ?thesis by simp
qed

lemma rows_distinct:
  assumes "builder_ok b"
  shows "distinct (map row_key (builder_rows b))"
proof -
  have "distinct (map row_key (concat (map (\<lambda>(s, bk). book_rows s bk) bks))) \<and>
      fst ` row_key ` set (concat (map (\<lambda>(s, bk). book_rows s bk) bks)) \<subseteq> fst ` set bks"
    if "distinct (map fst bks)" "\<forall>(s, bk) \<in> set bks. symbol_ok s \<and> book_ok bk" for bks
    using that
  proof (induction bks)
    case (Cons x bks)
    obtain s bk where x: "x = (s, bk)" by (cases x)
    have ok: "symbol_ok s" "book_ok bk" using Cons.prems(2) x by auto
    have keys: "map row_key (book_rows s bk) = map (Pair s) (map fst (filter (\<lambda>(i, r). ro_qty r \<noteq> 0) bk))"
      using arg_cong [OF row_of_book [OF ok(1), of bk], of "map fst"]
      by (simp add: comp_def case_prod_unfold)
    have "distinct (map fst (filter (\<lambda>(i, r). ro_qty r \<noteq> 0) bk))"
      using ok(2) by (simp add: book_ok_def distinct_map_filter)
    then have d: "distinct (map row_key (book_rows s bk))"
      unfolding keys distinct_map [of "Pair s"] by (simp add: inj_on_def)
    have sub: "fst ` row_key ` set (book_rows s bk) \<subseteq> {s}"
      using arg_cong [OF keys, of set] by (auto simp: image_iff)
    have tail: "distinct (map row_key (concat (map (\<lambda>(s, bk). book_rows s bk) bks)))"
      "fst ` row_key ` set (concat (map (\<lambda>(s, bk). book_rows s bk) bks)) \<subseteq> fst ` set bks" "s \<notin> fst ` set bks"
      using Cons.IH Cons.prems x by auto
    have "row_key ` set (book_rows s bk) \<inter>
        row_key ` set (concat (map (\<lambda>(s, bk). book_rows s bk) bks)) = {}"
      using sub tail(2,3) by blast
    then have "distinct (map row_key (book_rows s bk) @
        map row_key (concat (map (\<lambda>(s, bk). book_rows s bk) bks)))"
      unfolding distinct_append set_map using d tail(1) by (intro conjI)
    moreover have "fst ` row_key ` (set (book_rows s bk) \<union>
        set (concat (map (\<lambda>(s, bk). book_rows s bk) bks))) \<subseteq> fst ` set (x # bks)"
      unfolding image_Un x list.set image_insert fst_conv using sub tail(2) by blast
    ultimately show ?case
      by (simp only: x list.map prod.case concat.simps map_append set_append simp_thms)
  qed simp
  then show ?thesis using assms by (simp add: builder_ok_def builder_rows_def)
qed

lemma load_rows:
  assumes "builder_ok b"
  shows "view (builder_load q (builder_rows b) b0) = live (view b)"
proof (intro ext)
  fix s i
  let ?kv = "map (\<lambda>r. (row_key r, row_order r)) (builder_rows b)"
  have d: "distinct (map fst ?kv)" using rows_distinct [OF assms] by (simp add: comp_def)
  have kv: "map_of ?kv (s, i) = Some v \<longleftrightarrow> live (view b) s i = Some v" for v
  proof -
    have "map_of ?kv (s, i) = Some v \<longleftrightarrow> ((s, i), v) \<in> set ?kv"
      by (rule map_of_eq_Some_iff [OF d])
    also have "\<dots> \<longleftrightarrow> (\<exists>bk. (s, bk) \<in> set (books b) \<and> (i, v) \<in> set bk \<and> ro_qty v \<noteq> 0)"
      by (simp only: rows_member [OF assms] fst_conv snd_conv)
    also have "\<dots> \<longleftrightarrow> (\<exists>bk. map_of (books b) s = Some bk \<and> (i, v) \<in> set bk \<and> ro_qty v \<noteq> 0)"
      using assms by (simp add: builder_ok_def)
    also have "\<dots> \<longleftrightarrow> (i, v) \<in> set (book_for_symbol s b) \<and> ro_qty v \<noteq> 0"
      by (cases "map_of (books b) s") (simp_all add: book_for_symbol_def)
    also have "\<dots> \<longleftrightarrow> view b s i = Some v \<and> ro_qty v \<noteq> 0"
      using book_for_ok [OF assms, of s] by (simp add: view_def book_ok_def)
    also have "\<dots> \<longleftrightarrow> live (view b) s i = Some v"
      by (auto simp: live_def split: option.split)
    finally show ?thesis .
  qed
  show "view (builder_load q (builder_rows b) b0) s i = live (view b) s i"
    unfolding load_view [OF rows_distinct [OF assms]]
    by (cases "map_of ?kv (s, i)"; cases "live (view b) s i") (use kv in auto)
qed

lemma rows_valid:
  assumes "builder_ok b"
  shows "list_all row_valid (builder_rows b)"
  using assms
  by (fastforce simp: list_all_iff builder_rows_def book_rows_def row_valid_def builder_ok_def book_ok_def)

section \<open>Recovery\<close>

definition apply_all :: "(u64 \<times> md_event) list \<Rightarrow> builder \<Rightarrow> builder" where
  "apply_all es b = fold (\<lambda>(seq, e). builder_apply seq e) es b"

lemma effect_live: "live (event_effect e v) = live (event_effect e (live v))"
  by (auto simp: fun_eq_iff live_def event_effect_def Let_def split: option.splits)

lemma live_idem [simp]: "live (live v) = live v"
  by (auto simp: fun_eq_iff live_def split: option.splits)

lemma apply_all_live:
  "live (view a) = live (view b) \<Longrightarrow> live (view (apply_all es a)) = live (view (apply_all es b))"
proof (induction es arbitrary: a b)
  case (Cons x es)
  obtain q e where x: "x = (q, e)" by (cases x)
  have "live (view (builder_apply q e a)) = live (view (builder_apply q e b))"
    unfolding apply_view using effect_live [of e "view a"] effect_live [of e "view b"] Cons.prems by simp
  from Cons.IH [OF this] show ?case by (simp add: apply_all_def x)
qed (simp add: apply_all_def)

lemma apply_all_ok: "builder_ok b \<Longrightarrow> list_all (\<lambda>(q, e). md_valid e) es \<Longrightarrow> builder_ok (apply_all es b)"
  by (induction es arbitrary: b) (auto simp: apply_all_def builder_apply_ok)

lemma apply_all_seq: "last_seq (apply_all es b) = (if es = [] then last_seq b else fst (last es))"
  by (induction es rule: rev_induct) (auto simp: apply_all_def builder_apply_def Let_def)

lemma apply_all_append: "apply_all (es @ fs) b = apply_all fs (apply_all es b)"
  by (simp add: apply_all_def)

section \<open>Properties\<close>

text \<open>A market data event survives the wire: encoding gives a record of exactly 50 bytes that decodes
  to the event; a buffer of another length is refused; and every 50-byte buffer whose side byte is
  \<open>'B'\<close> or \<open>'S'\<close> is the encoding of the event it decodes to.\<close>

theorem md_event_roundtrip:
  "(md_valid e \<longrightarrow> length (md_encode e) = kRecordLen \<and> md_decode (md_encode e) = Some e) \<and>
   (length data \<noteq> kRecordLen \<longrightarrow> md_decode data = None) \<and>
   (length data = kRecordLen \<and> data ! 1 \<in> {charB, charS} \<longrightarrow>
      (\<exists>e'. md_decode data = Some e' \<and> md_valid e' \<and> md_encode e' = data))"
  using md.dec_enc [of e] md.enc_length [of e] md_encode_decode [of data]
  by (auto simp: md_decode_def)

definition demo_event :: "u8 \<Rightarrow> u64 \<Rightarrow> u64 \<Rightarrow> u64 \<Rightarrow> int \<Rightarrow> md_event" where
  "demo_event t i j q p = \<lparr>ev_type = t, ev_side = Sell, ev_timestamp_ns = 77, ev_order_id = i,
     ev_new_order_id = j, ev_symbol = symbol_pad [65, 66], ev_price = p, ev_qty = q\<rparr>"

lemma demo_event_valid: "md_valid (demo_event t i j q p) \<longleftrightarrow> is_int64 p"
  by (simp add: md_valid_def demo_event_def)

theorem md_event_roundtrip_witness:
  "md_decode (md_encode (demo_event evAdd 5 0 10 (- 3))) = Some (demo_event evAdd 5 0 10 (- 3)) \<and>
   md_decode [1, 2, 3] = None \<and>
   (\<exists>e'. md_decode (replicate 50 charB) = Some e' \<and> md_valid e' \<and> md_encode e' = replicate 50 charB)"
proof -
  have v: "md_valid (demo_event evAdd 5 0 10 (- 3))" by (simp add: demo_event_valid is_int64_def)
  show ?thesis
    using md_event_roundtrip [of "demo_event evAdd 5 0 10 (- 3)" "[1, 2, 3]"]
      md_event_roundtrip [of "demo_event evAdd 5 0 10 (- 3)" "replicate 50 charB"] v
    by (simp add: kRecordLen_def)
qed

text \<open>A snapshot survives the wire: the rows and the sequence number that \<open>encode_snapshot\<close> writes are
  what \<open>decode_snapshot\<close> reads back, in order, for up to 2^32 - 1 rows; and a buffer that is cut
  short, anywhere, or has extra bytes is refused with the caller's rows untouched.\<close>

theorem snapshot_roundtrip:
  assumes "list_all row_valid rows" "length rows < 2 ^ 32"
  shows "decode_snapshot (encode_snapshot seq rows) seq0 rows0 = (True, seq, rows) \<and>
    (\<forall>n < length (encode_snapshot seq rows).
       \<exists>q. decode_snapshot (take n (encode_snapshot seq rows)) seq0 rows0 = (False, q, rows0)) \<and>
    (extra \<noteq> [] \<longrightarrow>
       decode_snapshot (encode_snapshot seq rows @ extra) seq0 rows0 = (False, seq, rows0))"
proof -
  note dec = decode_encode_snapshot [OF assms, of seq seq0 rows0]
  let ?e = "encode_snapshot seq rows"
  have len: "12 \<le> length ?e" "length ?e = 12 + unat (get_count ?e) * kRowLen" "get_be64 ?e 0 = seq"
    using dec by (auto simp: decode_snapshot_def Let_def split: if_splits)
  have "\<exists>q. decode_snapshot (take n ?e) seq0 rows0 = (False, q, rows0)" if n: "n < length ?e" for n
  proof (cases "n < 12")
    case False
    then have "get_count (take n ?e) = get_count ?e" using n by (simp add: get_count_def)
    then show ?thesis using n len(2) by (simp add: decode_snapshot_def Let_def)
  qed (use n in \<open>simp add: decode_snapshot_def\<close>)
  moreover have "decode_snapshot (?e @ extra) seq0 rows0 = (False, seq, rows0)" if "extra \<noteq> []"
  proof -
    have "get_count (?e @ extra) = get_count ?e" using len(1) by (simp add: get_count_def nth_append)
    moreover have "get_be64 (?e @ extra) 0 = get_be64 ?e 0"
      using len(1) by (simp add: get_be64_def read_at_def)
    ultimately show ?thesis using that len by (simp add: decode_snapshot_def Let_def)
  qed
  ultimately show ?thesis using dec by blast
qed

definition demo_row :: snapshot_row where
  "demo_row = \<lparr>sr_symbol = symbol_pad [65, 66], sr_order_id = 5, sr_side = Sell, sr_price = - 3, sr_qty = 9\<rparr>"

theorem snapshot_roundtrip_witness:
  "decode_snapshot (encode_snapshot 42 [demo_row, demo_row]) 0 [] = (True, 42, [demo_row, demo_row])"
  using snapshot_roundtrip [of "[demo_row, demo_row]" 42 0 "[]" "[]"]
  by (simp add: demo_row_def row_valid_def is_int64_def)

text \<open>C20: snapshot recovery: a subscriber that loads the snapshot a builder wrote after the events \<open>es\<close>, and
  then applies the later events \<open>fs\<close>, knows the same live orders (same side, price and quantity,
  for every symbol and id) and the same sequence number as one that applied \<open>es\<close> and \<open>fs\<close> from the
  start, whatever it held before loading.\<close>

theorem snapshot_recovery:
  assumes "list_all (\<lambda>(q, e). md_valid e) es"
    and "length (builder_rows (apply_all es new_builder)) < 2 ^ 32"
  shows "\<exists>q rows. decode_snapshot (encode_snapshot (last_seq (apply_all es new_builder))
        (builder_rows (apply_all es new_builder))) seq0 rows0 = (True, q, rows) \<and>
      live (view (apply_all fs (builder_load q rows b0))) = live (view (apply_all (es @ fs) new_builder)) \<and>
      last_seq (apply_all fs (builder_load q rows b0)) = last_seq (apply_all (es @ fs) new_builder)"
proof -
  let ?b = "apply_all es new_builder"
  have ok: "builder_ok ?b" by (rule apply_all_ok [OF new_builder_ok assms(1)])
  note dec = decode_encode_snapshot [OF rows_valid [OF ok] assms(2), of "last_seq ?b" seq0 rows0]
  have "live (view (builder_load (last_seq ?b) (builder_rows ?b) b0)) = live (view ?b)"
    by (simp add: load_rows [OF ok])
  note run = apply_all_live [OF this, of fs]
  have "last_seq (apply_all fs (builder_load (last_seq ?b) (builder_rows ?b) b0)) = last_seq (apply_all (es @ fs) new_builder)"
    by (simp add: apply_all_append apply_all_seq [of fs] builder_load_def)
  with dec run show ?thesis by (auto simp: apply_all_append)
qed

theorem snapshot_recovery_witness:
  "\<exists>q rows. decode_snapshot (encode_snapshot (last_seq (apply_all [(1, demo_event evAdd 5 0 10 7)] new_builder))
        (builder_rows (apply_all [(1, demo_event evAdd 5 0 10 7)] new_builder))) 0 [] = (True, q, rows) \<and>
      live (view (apply_all [(2, demo_event evTrade 5 0 4 7)] (builder_load q rows new_builder))) =
      live (view (apply_all ([(1, demo_event evAdd 5 0 10 7)] @ [(2, demo_event evTrade 5 0 4 7)]) new_builder)) \<and>
      last_seq (apply_all [(2, demo_event evTrade 5 0 4 7)] (builder_load q rows new_builder)) =
      last_seq (apply_all ([(1, demo_event evAdd 5 0 10 7)] @ [(2, demo_event evTrade 5 0 4 7)]) new_builder)"
  by (rule snapshot_recovery)
     (simp_all add: demo_event_valid [unfolded demo_event_def] is_int64_def apply_all_def builder_apply_def apply_book_def
        builder_rows_def book_rows_def new_builder_def Let_def demo_event_def book_for_symbol_def event_order_def)

end
