(* ===== verification/Mold_UDP64.thy ===== *)
theory Mold_UDP64
  imports Bytes
begin

text \<open>
  MoldUDP64 packets (\<open>cpp/feed/moldudp64.h\<close>): downstream packets with their message blocks, the control
  packets and the retransmission requests. A \<open>MessageBlockView\<close> points into the packet's buffer: it is
  the offset and the length. Out-parameters are passed in and returned.
\<close>

section \<open>Packets\<close>

definition kSessionLen :: nat where "kSessionLen = 10"
definition kHeartbeat :: u16 where "kHeartbeat = 0"
definition kEndOfSession :: u16 where "kEndOfSession = 0xFFFF"
definition kDownstreamHeaderLen :: nat where "kDownstreamHeaderLen = kSessionLen + 8 + 2"
definition kRequestLen :: nat where "kRequestLen = kSessionLen + 8 + 2"

lemmas mold_consts = kSessionLen_def kDownstreamHeaderLen_def kRequestLen_def

record downstream_header =
  dh_session :: bytes
  dh_sequence_number :: u64
  dh_message_count :: u16

record block_view =
  bv_data :: nat
  bv_length :: u16

record request_packet =
  rq_session :: bytes
  rq_sequence_number :: u64
  rq_requested_message_count :: u16

text \<open>The bytes a view shows.\<close>

definition view_bytes :: "bytes \<Rightarrow> block_view \<Rightarrow> bytes" where
  "view_bytes buf v = read_at (bv_data v) (unat (bv_length v)) buf"

definition is_control :: "u16 \<Rightarrow> bool" where
  "is_control c \<longleftrightarrow> c = kHeartbeat \<or> c = kEndOfSession"

fun decode_blocks :: "bytes \<Rightarrow> nat \<Rightarrow> nat \<Rightarrow> block_view list \<Rightarrow> bool \<times> block_view list" where
  "decode_blocks buf 0 offset out = (True, out)"
| "decode_blocks buf (Suc n) offset out =
     (if length buf < offset + 2 then (False, out)
      else let mlen = get_be16 buf offset; offset = offset + 2
        in if length buf < offset + unat mlen then (False, out)
           else decode_blocks buf n (offset + unat mlen) (out @ [\<lparr>bv_data = offset, bv_length = mlen\<rparr>]))"

definition decode_downstream ::
    "bytes \<Rightarrow> downstream_header \<Rightarrow> bool \<times> downstream_header \<times> block_view list" where
  "decode_downstream buf header0 =
     (if length buf < kDownstreamHeaderLen then (False, header0, [])
      else let header = \<lparr>dh_session = read_at 0 kSessionLen buf, dh_sequence_number = get_be64 buf kSessionLen,
                         dh_message_count = get_be16 buf (kSessionLen + 8)\<rparr>
        in if is_control (dh_message_count header) then (True, header, [])
           else let (ok, blocks) = decode_blocks buf (unat (dh_message_count header)) kDownstreamHeaderLen []
             in (ok, header, blocks))"

definition encode_control :: "bytes \<Rightarrow> u64 \<Rightarrow> u16 \<Rightarrow> bytes" where
  "encode_control session next_expected_seq message_count_value =
     (let out = write_at 0 session (replicate kDownstreamHeaderLen 0);
          out = write_at kSessionLen (put_be64 next_expected_seq) out
      in write_at (kSessionLen + 8) (put_be16 message_count_value) out)"

definition encode_heartbeat :: "bytes \<Rightarrow> u64 \<Rightarrow> bytes" where
  "encode_heartbeat session next_expected_seq = encode_control session next_expected_seq kHeartbeat"

definition encode_end_of_session :: "bytes \<Rightarrow> u64 \<Rightarrow> bytes" where
  "encode_end_of_session session next_expected_seq = encode_control session next_expected_seq kEndOfSession"

text \<open>\<open>out.resize(base + 2 + m.size())\<close>, then the length and the bytes are written at \<open>base\<close>.\<close>

definition append_message :: "bytes \<Rightarrow> bytes \<Rightarrow> bytes" where
  "append_message m out =
     (let base = length out;
          out = out @ replicate (2 + length m) 0;
          out = write_at base (put_be16 (word_of_nat (length m))) out
      in write_at (base + 2) m out)"

definition encode_downstream :: "bytes \<Rightarrow> u64 \<Rightarrow> bytes list \<Rightarrow> bytes" where
  "encode_downstream session sequence_number messages =
     (let out = write_at 0 session (replicate kDownstreamHeaderLen 0);
          out = write_at kSessionLen (put_be64 sequence_number) out;
          out = write_at (kSessionLen + 8) (put_be16 (word_of_nat (length messages))) out
      in fold append_message messages out)"

definition encode_request :: "request_packet \<Rightarrow> bytes" where
  "encode_request r =
     (let out = write_at 0 (rq_session r) (replicate kRequestLen 0);
          out = write_at kSessionLen (put_be64 (rq_sequence_number r)) out
      in write_at (kSessionLen + 8) (put_be16 (rq_requested_message_count r)) out)"

definition decode_request :: "bytes \<Rightarrow> request_packet \<Rightarrow> bool \<times> request_packet" where
  "decode_request buf out =
     (if length buf < kRequestLen then (False, out)
      else (True, \<lparr>rq_session = read_at 0 kSessionLen buf, rq_sequence_number = get_be64 buf kSessionLen,
                   rq_requested_message_count = get_be16 buf (kSessionLen + 8)\<rparr>))"

section \<open>What the encoders write\<close>

definition header_bytes :: "bytes \<Rightarrow> u64 \<Rightarrow> u16 \<Rightarrow> bytes" where
  "header_bytes session seq count = session @ put_be64 seq @ put_be16 count"

definition block_bytes :: "bytes \<Rightarrow> bytes" where
  "block_bytes m = put_be16 (word_of_nat (length m)) @ m"

lemma length_header_bytes [simp]: "length s = kSessionLen \<Longrightarrow> length (header_bytes s q c) = kDownstreamHeaderLen"
  by (simp add: header_bytes_def mold_consts)

lemma length_block_bytes [simp]: "length (block_bytes m) = 2 + length m"
  by (simp add: block_bytes_def)

lemma header_written:
  assumes "length s = kSessionLen"
  shows "write_at (kSessionLen + 8) (put_be16 c)
    (write_at kSessionLen (put_be64 q) (write_at 0 s (replicate kDownstreamHeaderLen 0))) = header_bytes s q c"
  using assms
  by (simp add: header_bytes_def mold_consts write_at_front write_at_next del: append_assoc)

lemma append_message_eq: "append_message m out = out @ block_bytes m"
  by (simp add: append_message_def block_bytes_def write_at_def Let_def)

lemma encode_downstream_eq:
  "length s = kSessionLen \<Longrightarrow>
     encode_downstream s q ms = header_bytes s q (word_of_nat (length ms)) @ concat (map block_bytes ms)"
proof -
  have "fold append_message ms out = out @ concat (map block_bytes ms)" for out
    by (induction ms arbitrary: out) (simp_all add: append_message_eq)
  then show "length s = kSessionLen \<Longrightarrow> ?thesis"
    by (simp add: encode_downstream_def Let_def header_written)
qed

lemma encode_control_eq: "length s = kSessionLen \<Longrightarrow> encode_control s q c = header_bytes s q c"
  by (simp add: encode_control_def Let_def header_written)

lemma encode_request_eq:
  "length (rq_session r) = kSessionLen \<Longrightarrow>
     encode_request r = header_bytes (rq_session r) (rq_sequence_number r) (rq_requested_message_count r)"
  using header_written [of "rq_session r" "rq_requested_message_count r" "rq_sequence_number r"]
  by (simp add: encode_request_def Let_def kRequestLen_def kDownstreamHeaderLen_def)

section \<open>Reading a header and blocks back\<close>

lemma get_be16_skip: "length as = p \<Longrightarrow> get_be16 (as @ put_be16 v @ rest) p = v"
  using get_put_be16 [of v rest] by (simp add: get_be16_def nth_append)

lemma header_read:
  assumes "length s = kSessionLen"
  shows "read_at 0 kSessionLen (header_bytes s q c @ rest) = s"
    "get_be64 (header_bytes s q c @ rest) kSessionLen = q"
    "get_be16 (header_bytes s q c @ rest) (kSessionLen + 8) = c"
  using assms get_be16_skip [of "s @ put_be64 q" "kSessionLen + 8" c rest]
  by (simp_all add: header_bytes_def read_at_all get_be64_def)

text \<open>Where the views of consecutive blocks lie.\<close>

fun views_at :: "nat \<Rightarrow> bytes list \<Rightarrow> block_view list" where
  "views_at p [] = []"
| "views_at p (m # ms) =
     \<lparr>bv_data = p + 2, bv_length = word_of_nat (length m)\<rparr> # views_at (p + 2 + length m) ms"

lemma decode_blocks_encoded:
  assumes "list_all (\<lambda>m. length m < 2 ^ 16) ms"
  shows "decode_blocks (pre @ concat (map block_bytes ms) @ rest) (length ms) (length pre) out =
    (True, out @ views_at (length pre) ms)"
  using assms
proof (induction ms arbitrary: pre out)
  case (Cons m ms)
  have len: "unat (word_of_nat (length m) :: u16) = length m"
    using Cons.prems by (simp add: unat_of_nat)
  have mlen: "get_be16 (pre @ block_bytes m @ concat (map block_bytes ms) @ rest) (length pre) =
      word_of_nat (length m)"
    by (simp add: block_bytes_def get_be16_skip)
  show ?case
    using Cons.IH [of "pre @ block_bytes m"] Cons.prems
    by (simp add: mlen len Let_def add.assoc)
qed simp

lemma view_bytes_encoded:
  assumes "list_all (\<lambda>m. length m < 2 ^ 16) ms"
  shows "map (view_bytes (pre @ concat (map block_bytes ms) @ rest)) (views_at (length pre) ms) = ms"
  using assms
proof (induction ms arbitrary: pre)
  case (Cons m ms)
  have len: "unat (word_of_nat (length m) :: u16) = length m"
    using Cons.prems by (simp add: unat_of_nat)
  show ?case
    using Cons.IH [of "pre @ block_bytes m"] Cons.prems
    by (simp add: len view_bytes_def block_bytes_def read_at_all)
qed simp

text \<open>Every view handed out lies in the buffer, behind the header, whatever the bytes are.\<close>

definition view_in :: "bytes \<Rightarrow> nat \<Rightarrow> block_view \<Rightarrow> bool" where
  "view_in buf p v \<longleftrightarrow> p + 2 \<le> bv_data v \<and> bv_data v + unat (bv_length v) \<le> length buf"

lemma decode_blocks_in:
  "decode_blocks buf n p out = (ok, vs) \<Longrightarrow> \<exists>ws. vs = out @ ws \<and> list_all (view_in buf p) ws \<and>
     length ws \<le> n \<and> (ok \<longrightarrow> length ws = n) \<and>
     sorted_wrt (\<lambda>v w. bv_data v + unat (bv_length v) \<le> bv_data w) ws"
proof (induction n arbitrary: p out)
  case (Suc n)
  show ?case
  proof (cases "length buf < p + 2 \<or> length buf < p + 2 + unat (get_be16 buf p)")
    case True
    then show ?thesis using Suc.prems by (auto simp: Let_def split: if_splits)
  next
    case False
    let ?m = "get_be16 buf p"
    let ?v = "\<lparr>bv_data = p + 2, bv_length = ?m\<rparr>"
    obtain ws where ws: "vs = (out @ [?v]) @ ws" "list_all (view_in buf (p + 2 + unat ?m)) ws"
      "length ws \<le> n" "ok \<longrightarrow> length ws = n"
      "sorted_wrt (\<lambda>v w. bv_data v + unat (bv_length v) \<le> bv_data w) ws"
      using Suc.IH [of "p + 2 + unat ?m" "out @ [?v]"] Suc.prems False by (auto simp: Let_def)
    have "list_all (view_in buf p) (?v # ws)"
      using ws(2) False by (auto simp: list_all_iff view_in_def)
    moreover have "\<forall>w \<in> set ws. p + 2 + unat ?m \<le> bv_data w"
      using ws(2) by (auto simp: list_all_iff view_in_def)
    ultimately show ?thesis using ws by (intro exI [of _ "?v # ws"]) auto
  qed
qed simp

lemma get_be16_cong: "data ! p = data' ! p \<Longrightarrow> data ! (p + 1) = data' ! (p + 1) \<Longrightarrow> get_be16 data p = get_be16 data' p"
  by (simp add: get_be16_def)

lemma decode_blocks_step:
  "p + 2 \<le> length buf \<Longrightarrow> get_be16 buf p = c \<Longrightarrow>
     decode_blocks buf (Suc n) p out =
       (if length buf < p + 2 + unat c then (False, out)
        else decode_blocks buf n (p + 2 + unat c) (out @ [\<lparr>bv_data = p + 2, bv_length = c\<rparr>]))"
  by (simp add: Let_def)

lemma decode_blocks_cut:
  assumes "list_all (\<lambda>m. length m < 2 ^ 16) ms" "length pre \<le> n"
    "n < length pre + length (concat (map block_bytes ms))"
  shows "\<not> fst (decode_blocks (take n (pre @ concat (map block_bytes ms))) (length ms) (length pre) out)"
  using assms
proof (induction ms arbitrary: pre out)
  case (Cons m ms)
  define buf where "buf = take n (pre @ concat (map block_bytes (m # ms)))"
  have len: "unat (word_of_nat (length m) :: u16) = length m"
    using Cons.prems by (simp add: unat_of_nat)
  have n: "length buf = n" using Cons.prems by (simp add: buf_def)
  have again: "buf = take n ((pre @ block_bytes m) @ concat (map block_bytes ms))" by (simp add: buf_def)
  show ?case
  proof (cases "n < length pre + 2")
    case True
    then have "decode_blocks buf (length (m # ms)) (length pre) out = (False, out)" by (simp add: n)
    then show ?thesis by (simp add: buf_def)
  next
    case False
    have "get_be16 buf (length pre) =
        get_be16 (pre @ put_be16 (word_of_nat (length m)) @ m @ concat (map block_bytes ms)) (length pre)"
      by (rule get_be16_cong) (use False in \<open>simp_all add: buf_def block_bytes_def nth_append\<close>)
    then have mlen: "get_be16 buf (length pre) = word_of_nat (length m)" by (simp add: get_be16_skip)
    have step: "decode_blocks buf (length (m # ms)) (length pre) out =
        (if n < length pre + 2 + length m then (False, out)
         else decode_blocks buf (length ms) (length (pre @ block_bytes m))
           (out @ [\<lparr>bv_data = length pre + 2, bv_length = word_of_nat (length m)\<rparr>]))"
      using decode_blocks_step [OF _ mlen, of "length ms" out] False by (simp add: n len)
    show ?thesis
      using Cons.IH [of "pre @ block_bytes m"] Cons.prems
      unfolding buf_def [symmetric] again [symmetric] step by simp
  qed
qed simp

lemma message_count:
  assumes "length ms < 65535"
  shows "unat (word_of_nat (length ms) :: u16) = length ms" "is_control (word_of_nat (length ms)) \<longleftrightarrow> ms = []"
proof -
  let ?c = "word_of_nat (length ms) :: u16"
  show count: "unat ?c = length ms" using assms by (simp add: unat_of_nat)
  have "?c = kEndOfSession \<longleftrightarrow> False" using count assms by (auto simp: kEndOfSession_def)
  moreover have "?c = kHeartbeat \<longleftrightarrow> ms = []" using count by (auto simp: kHeartbeat_def)
  ultimately show "is_control ?c \<longleftrightarrow> ms = []" by (simp add: is_control_def)
qed

lemma decode_encoded:
  assumes "length session = kSessionLen" "length ms < 65535" "list_all (\<lambda>m. length m < 2 ^ 16) ms"
  shows "\<exists>vs. decode_downstream (encode_downstream session seq ms @ rest) h0 =
      (True, \<lparr>dh_session = session, dh_sequence_number = seq, dh_message_count = word_of_nat (length ms)\<rparr>, vs) \<and>
    map (view_bytes (encode_downstream session seq ms @ rest)) vs = ms"
proof -
  let ?c = "word_of_nat (length ms) :: u16"
  let ?pre = "header_bytes session seq ?c"
  have pre: "length ?pre = kDownstreamHeaderLen" using assms(1) by simp
  show ?thesis
    using decode_blocks_encoded [OF assms(3), of ?pre rest "[]"] view_bytes_encoded [OF assms(3), of ?pre rest]
      header_read [OF assms(1), of seq ?c "concat (map block_bytes ms) @ rest"]
    by (simp add: encode_downstream_eq [OF assms(1)] decode_downstream_def pre message_count [OF assms(2)] Let_def)
qed

lemma mold_control_roundtrip:
  assumes "length session = kSessionLen"
  shows "decode_downstream (encode_heartbeat session seq) h0 =
      (True, \<lparr>dh_session = session, dh_sequence_number = seq, dh_message_count = kHeartbeat\<rparr>, [])"
    "decode_downstream (encode_end_of_session session seq) h0 =
      (True, \<lparr>dh_session = session, dh_sequence_number = seq, dh_message_count = kEndOfSession\<rparr>, [])"
  using header_read [OF assms, of seq kHeartbeat "[]"] header_read [OF assms, of seq kEndOfSession "[]"]
    length_header_bytes [OF assms]
  by (simp_all add: encode_heartbeat_def encode_end_of_session_def encode_control_eq [OF assms]
      decode_downstream_def is_control_def)

section \<open>Properties\<close>

text \<open>C30: what \<open>encode_downstream\<close> writes, \<open>decode_downstream\<close> reads: the session, the sequence number, the
  count, and one view per message, in order, showing exactly the message's bytes (fewer than 65535
  messages of fewer than 65536 bytes each); bytes after the packet are ignored, and a packet cut
  short anywhere is refused.\<close>

theorem mold_downstream_roundtrip:
  assumes "length session = kSessionLen" "length ms < 65535" "list_all (\<lambda>m. length m < 2 ^ 16) ms"
  shows "(\<exists>vs. decode_downstream (encode_downstream session seq ms @ rest) h0 =
        (True, \<lparr>dh_session = session, dh_sequence_number = seq, dh_message_count = word_of_nat (length ms)\<rparr>, vs) \<and>
      map (view_bytes (encode_downstream session seq ms @ rest)) vs = ms) \<and>
    (\<forall>n < length (encode_downstream session seq ms).
       \<not> fst (decode_downstream (take n (encode_downstream session seq ms)) h0))"
proof -
  let ?c = "word_of_nat (length ms) :: u16"
  let ?pre = "header_bytes session seq ?c"
  let ?e = "?pre @ concat (map block_bytes ms)"
  have pre: "length ?pre = kDownstreamHeaderLen" using assms(1) by simp
  note count = message_count(1) [OF assms(2)] and control = message_count(2) [OF assms(2)]
  have "\<not> fst (decode_downstream (take n ?e) h0)" if n: "n < length ?e" for n
  proof (cases "n < kDownstreamHeaderLen")
    case False
    have ms: "ms \<noteq> []" using n False pre by auto
    have take: "take n ?e = ?pre @ take (n - kDownstreamHeaderLen) (concat (map block_bytes ms))"
      using False pre by simp
    have "\<not> fst (decode_blocks (take n ?e) (length ms) kDownstreamHeaderLen [])"
      using decode_blocks_cut [OF assms(3), of ?pre n "[]"] n False pre by simp
    then show ?thesis
      using header_read [OF assms(1), of seq ?c "take (n - kDownstreamHeaderLen) (concat (map block_bytes ms))"]
        False n ms
      by (simp add: decode_downstream_def take [symmetric] control count case_prod_unfold del: take_append)
  qed (use n in \<open>simp add: decode_downstream_def del: take_append length_append\<close>)
  with decode_encoded [OF assms] show ?thesis by (simp add: encode_downstream_eq [OF assms(1)])
qed

theorem mold_downstream_roundtrip_witness:
  "\<exists>vs. decode_downstream (encode_downstream (replicate 10 7) 5 [[1, 2], [], [3]] @ [9])
        \<lparr>dh_session = [], dh_sequence_number = 0, dh_message_count = 0\<rparr> =
      (True, \<lparr>dh_session = replicate 10 7, dh_sequence_number = 5, dh_message_count = 3\<rparr>, vs) \<and>
      map (view_bytes (encode_downstream (replicate 10 7) 5 [[1, 2], [], [3]] @ [9])) vs = [[1, 2], [], [3]]"
  using mold_downstream_roundtrip [of "replicate 10 7" "[[1, 2], [], [3]]" 5 "[9]"
      "\<lparr>dh_session = [], dh_sequence_number = 0, dh_message_count = 0\<rparr>"]
  by (simp add: kSessionLen_def)

text \<open>C31: memory safety of \<open>decode_downstream\<close> on any bytes at all, corrupt ones included: it returns, every
  view it hands out (also when it then fails) lies inside the buffer behind the header, the views do
  not overlap, and on success there is one for each message the header counts.\<close>

theorem mold_decode_in_bounds:
  "\<exists>ok h vs. decode_downstream buf h0 = (ok, h, vs) \<and>
     list_all (view_in buf kDownstreamHeaderLen) vs \<and>
     sorted_wrt (\<lambda>v w. bv_data v + unat (bv_length v) \<le> bv_data w) vs \<and>
     (if ok \<and> \<not> is_control (dh_message_count h) then length vs = unat (dh_message_count h)
      else if ok then vs = [] else length vs \<le> unat (dh_message_count h))"
proof (cases "length buf < kDownstreamHeaderLen")
  case False
  let ?c = "get_be16 buf (kSessionLen + 8)"
  obtain ok vs where d: "decode_blocks buf (unat ?c) kDownstreamHeaderLen [] = (ok, vs)"
    by (cases "decode_blocks buf (unat ?c) kDownstreamHeaderLen []")
  from decode_blocks_in [OF d] False d show ?thesis by (auto simp: decode_downstream_def Let_def)
next
  case True
  then show ?thesis
    by (intro exI [of _ False] exI [of _ h0] exI [of _ "[]"]) (simp add: decode_downstream_def)
qed

text \<open>The control packets and the retransmission requests survive the wire, and short buffers are
  refused with the caller's header or request untouched.\<close>

theorem mold_control_request_roundtrip:
  assumes "length session = kSessionLen" "length (rq_session r) = kSessionLen"
  shows "decode_downstream (encode_heartbeat session seq) h0 =
      (True, \<lparr>dh_session = session, dh_sequence_number = seq, dh_message_count = kHeartbeat\<rparr>, []) \<and>
    decode_downstream (encode_end_of_session session seq) h0 =
      (True, \<lparr>dh_session = session, dh_sequence_number = seq, dh_message_count = kEndOfSession\<rparr>, []) \<and>
    decode_request (encode_request r @ rest) r0 = (True, r) \<and>
    (length buf < 20 \<longrightarrow> decode_request buf r0 = (False, r0) \<and> decode_downstream buf h0 = (False, h0, []))"
  using header_read [OF assms(2), of "rq_sequence_number r" "rq_requested_message_count r" rest]
    length_header_bytes [OF assms(2)] mold_control_roundtrip [OF assms(1)] assms(2)
  by (simp add: encode_request_eq decode_downstream_def decode_request_def mold_consts)

theorem mold_control_request_roundtrip_witness:
  "decode_request (encode_request \<lparr>rq_session = replicate 10 7, rq_sequence_number = 9,
       rq_requested_message_count = 3\<rparr> @ []) \<lparr>rq_session = [], rq_sequence_number = 0, rq_requested_message_count = 0\<rparr>
     = (True, \<lparr>rq_session = replicate 10 7, rq_sequence_number = 9, rq_requested_message_count = 3\<rparr>)"
  using mold_control_request_roundtrip [of "replicate 10 7" "\<lparr>rq_session = replicate 10 7, rq_sequence_number = 9,
       rq_requested_message_count = 3\<rparr>"]
  by (simp add: kSessionLen_def del: append_Nil2)

end
