(* ===== verification/Mold_Session.thy ===== *)
theory Mold_Session
  imports Mold_UDP64 "HOL-Library.AList"
begin

text \<open>
  The receiver's sequencing state (\<open>cpp/feed/moldudp64_session.h\<close>): \<open>Session::on_packet\<close> takes packets in
  whatever order they arrive, holds messages ahead of a gap, asks for retransmission and delivers
  messages in sequence order. The two callbacks are the list of calls made, in order. \<open>pending_\<close> is a
  \<open>std::map\<close> that is only searched, inserted into and erased from: an association list without
  repeated keys.
\<close>

section \<open>The session\<close>

datatype mold_callback =
    Message u64 bytes u16
  | Request request_packet

record mold_session =
  ms_session :: bytes
  next_expected :: u64
  ended :: bool
  gaps_detected :: u64
  pending :: "(u64 \<times> bytes) list"

definition new_session :: "bytes \<Rightarrow> u64 \<Rightarrow> mold_session" where
  "new_session session start_seq =
     \<lparr>ms_session = session, next_expected = start_seq, ended = False, gaps_detected = 0, pending = []\<rparr>"

definition maybe_request_gap :: "u64 \<Rightarrow> mold_session \<Rightarrow> mold_session \<times> mold_callback list" where
  "maybe_request_gap observed_seq s =
     (if next_expected s < observed_seq then
        (s\<lparr>gaps_detected := gaps_detected s + 1\<rparr>,
         [Request \<lparr>rq_session = ms_session s, rq_sequence_number = next_expected s,
                   rq_requested_message_count = ucast (min (observed_seq - next_expected s) 0xFFFF)\<rparr>])
      else (s, []))"

lemma length_delete_found: "map_of al k = Some v \<Longrightarrow> length (AList.delete k al) < length al"
proof (induction al)
  case (Cons x al)
  then show ?case using AList.length_delete_le [of k al] by (auto split: if_splits)
qed simp

function deliver_ready :: "u64 \<Rightarrow> (u64 \<times> bytes) list \<Rightarrow> u64 \<times> (u64 \<times> bytes) list \<times> mold_callback list" where
  "deliver_ready n p =
     (case map_of p n of None \<Rightarrow> (n, p, [])
      | Some d \<Rightarrow>
          (let (n', p', out) = deliver_ready (n + 1) (AList.delete n p)
           in (n', p', Message n d (word_of_nat (length d)) # out)))"
  by pat_completeness auto
termination
  by (relation "measure (\<lambda>(n, p). length p)") (auto simp: length_delete_found)

declare deliver_ready.simps [simp del]

text \<open>\<open>pending_.emplace\<close> keeps the entry it finds.\<close>

definition hold_block :: "u64 \<Rightarrow> u64 \<Rightarrow> bytes \<Rightarrow> (u64 \<times> bytes) list \<Rightarrow> (u64 \<times> bytes) list" where
  "hold_block expected seq d p =
     (if seq < expected then p else if map_of p seq \<noteq> None then p else (seq, d) # p)"

fun hold_blocks :: "u64 \<Rightarrow> u64 \<Rightarrow> nat \<Rightarrow> bytes list \<Rightarrow> (u64 \<times> bytes) list \<Rightarrow> (u64 \<times> bytes) list" where
  "hold_blocks expected seq i [] p = p"
| "hold_blocks expected seq i (d # ds) p =
     hold_blocks expected seq (Suc i) ds (hold_block expected (seq + word_of_nat i) d p)"

definition on_packet :: "downstream_header \<Rightarrow> bytes list \<Rightarrow> mold_session \<Rightarrow> mold_session \<times> mold_callback list" where
  "on_packet hdr blocks s =
     (if dh_message_count hdr = kHeartbeat \<or> dh_message_count hdr = kEndOfSession then
        (let (s1, out) = maybe_request_gap (dh_sequence_number hdr) s
         in (if dh_message_count hdr = kEndOfSession then s1\<lparr>ended := True\<rparr> else s1, out))
      else
        (let p = hold_blocks (next_expected s) (dh_sequence_number hdr) 0 blocks (pending s);
             s1 = s\<lparr>pending := p\<rparr>;
             (s2, out) = (if blocks \<noteq> [] then maybe_request_gap (dh_sequence_number hdr) s1 else (s1, []));
             (n, p', out') = deliver_ready (next_expected s2) (pending s2)
         in (s2\<lparr>next_expected := n, pending := p'\<rparr>, out @ out')))"

fun run_packets :: "(downstream_header \<times> bytes list) list \<Rightarrow> mold_session \<Rightarrow> mold_session \<times> mold_callback list" where
  "run_packets [] s = (s, [])"
| "run_packets (pk # pks) s =
     (let (s1, out1) = on_packet (fst pk) (snd pk) s; (s2, out2) = run_packets pks s1 in (s2, out1 @ out2))"

section \<open>What a session has seen\<close>

text \<open>The sequence numbers below \<open>next_expected\<close> and those held.\<close>

definition seen :: "mold_session \<Rightarrow> u64 set" where
  "seen s = {k. k < next_expected s} \<union> fst ` set (pending s)"

text \<open>The sequence numbers of a packet's messages, and the packets whose numbers do not wrap.\<close>

definition packet_seqs :: "downstream_header \<times> bytes list \<Rightarrow> u64 set" where
  "packet_seqs pk =
     (if is_control (dh_message_count (fst pk)) then {}
      else {k. unat (dh_sequence_number (fst pk)) \<le> unat k \<and>
               unat k < unat (dh_sequence_number (fst pk)) + length (snd pk)})"

definition no_wrap :: "downstream_header \<times> bytes list \<Rightarrow> bool" where
  "no_wrap pk \<longleftrightarrow> int (unat (dh_sequence_number (fst pk))) + int (length (snd pk)) < 2 ^ 64"

text \<open>Every message a packet carries is the feed's message of that sequence number.\<close>

definition authentic :: "(u64 \<Rightarrow> bytes) \<Rightarrow> downstream_header \<times> bytes list \<Rightarrow> bool" where
  "authentic feed pk \<longleftrightarrow>
     list_all (\<lambda>i. snd pk ! i = feed (dh_sequence_number (fst pk) + word_of_nat i)) [0..<length (snd pk)]"

definition session_ok :: "(u64 \<Rightarrow> bytes) \<Rightarrow> mold_session \<Rightarrow> bool" where
  "session_ok feed s \<longleftrightarrow>
     distinct (map fst (pending s)) \<and>
     (\<forall>(k, d) \<in> set (pending s). next_expected s < k \<and> k \<noteq> - 1 \<and> d = feed k)"

definition messages :: "mold_callback list \<Rightarrow> (u64 \<times> bytes) list" where
  "messages cs = concat (map (\<lambda>c. case c of Message k d l \<Rightarrow> [(k, d)] | Request r \<Rightarrow> []) cs)"

definition requests :: "mold_callback list \<Rightarrow> request_packet list" where
  "requests cs = concat (map (\<lambda>c. case c of Message k d l \<Rightarrow> [] | Request r \<Rightarrow> [r]) cs)"

text \<open>The feed's messages from a sequence number on.\<close>

definition feed_from :: "(u64 \<Rightarrow> bytes) \<Rightarrow> u64 \<Rightarrow> nat \<Rightarrow> (u64 \<times> bytes) list" where
  "feed_from feed start n = map (\<lambda>i. (start + word_of_nat i, feed (start + word_of_nat i))) [0..<n]"

lemma messages_simps [simp]:
  "messages [] = []" "messages (Message k d l # cs) = (k, d) # messages cs"
  "messages (Request r # cs) = messages cs" "messages (cs @ cs') = messages cs @ messages cs'"
  by (simp_all add: messages_def)

lemma requests_simps [simp]:
  "requests [] = []" "requests (Message k d l # cs) = requests cs"
  "requests (Request r # cs) = r # requests cs" "requests (cs @ cs') = requests cs @ requests cs'"
  by (simp_all add: requests_def)

lemma feed_from_Suc: "feed_from feed start (Suc n) = (start, feed start) # feed_from feed (start + 1) n"
  by (simp add: feed_from_def upt_conv_Cons map_Suc_upt [symmetric] add.assoc del: upt_Suc)

lemma feed_from_add: "feed_from feed start (m + n) = feed_from feed start m @ feed_from feed (start + word_of_nat m) n"
  by (induction m arbitrary: start) (simp_all add: feed_from_Suc add.assoc, simp add: feed_from_def)

section \<open>Delivery\<close>

lemma set_delete: "set (AList.delete k al) = {x \<in> set al. fst x \<noteq> k}"
  by (auto simp: AList.delete_eq)

lemma deliver_ready_ok:
  assumes "distinct (map fst p)" "\<forall>(k, d) \<in> set p. n \<le> k \<and> k \<noteq> - 1 \<and> d = feed k"
  shows "\<exists>m p' out. deliver_ready n p = (n + word_of_nat m, p', out) \<and> messages out = feed_from feed n m \<and>
    requests out = [] \<and> unat (n + word_of_nat m) = unat n + m \<and> distinct (map fst p') \<and>
    (\<forall>(k, d) \<in> set p'. n + word_of_nat m < k \<and> k \<noteq> - 1 \<and> d = feed k) \<and>
    {k. k < n + word_of_nat m} \<union> fst ` set p' = {k. k < n} \<union> fst ` set p"
  using assms
proof (induction n p rule: deliver_ready.induct)
  case (1 n p)
  show ?case
  proof (cases "map_of p n")
    case None
    have "n < k" if "(k, d) \<in> set p" for k d
      using that None 1(3) by (auto simp: map_of_eq_None_iff order_less_le rev_image_eqI)
    then show ?thesis
      using None 1(2,3)
      by (intro exI [of _ 0] exI [of _ p] exI [of _ "[]"])
         (auto simp: deliver_ready.simps [of n p] feed_from_def)
  next
    case (Some d)
    then have mem: "(n, d) \<in> set p" by (rule map_of_SomeD)
    then have n: "n \<noteq> - 1" "d = feed n" using 1(3) by auto
    note step = word_inc_le_iff [OF n(1)] word_less_inc_iff [OF n(1)]
    let ?p = "AList.delete n p"
    have "distinct (map fst ?p)" using 1(2) by (rule distinct_delete)
    moreover have "\<forall>(k, d) \<in> set ?p. n + 1 \<le> k \<and> k \<noteq> - 1 \<and> d = feed k"
      using 1(3) by (auto simp: set_delete step order_less_le)
    ultimately obtain m p' out where r: "deliver_ready (n + 1) ?p = (n + 1 + word_of_nat m, p', out)"
      "messages out = feed_from feed (n + 1) m" "requests out = []" "unat (n + 1 + word_of_nat m) = unat (n + 1) + m"
      "distinct (map fst p')" "\<forall>(k, d) \<in> set p'. n + 1 + word_of_nat m < k \<and> k \<noteq> - 1 \<and> d = feed k"
      "{k. k < n + 1 + word_of_nat m} \<union> fst ` set p' = {k. k < n + 1} \<union> fst ` set ?p"
      using 1(1) [OF Some] by blast
    have "n < - 1" using n(1) by (simp add: order_less_le)
    then have inc: "unat (n + 1) + m = unat n + Suc m" using word_inc_bounds(3) [of n "- 1"] by simp
    have below: "{k. k < n + 1} = insert n {k. k < n}"
      by (rule set_eqI) (simp only: mem_Collect_eq insert_iff step disj_commute)
    have keys: "fst ` set p = insert n (fst ` set ?p)" using mem by (force simp: set_delete)
    have "{k. k < n + 1} \<union> fst ` set ?p = {k. k < n} \<union> fst ` set p"
      by (simp only: below keys Un_insert_left Un_insert_right)
    moreover have assoc: "n + 1 + word_of_nat m = n + word_of_nat (Suc m)" by (simp only: of_nat_Suc add.assoc)
    moreover have "deliver_ready n p = (n + word_of_nat (Suc m), p', Message n d (word_of_nat (length d)) # out)"
      using r(1) unfolding assoc by (simp add: deliver_ready.simps [of n p] Some)
    moreover have "messages (Message n d (word_of_nat (length d)) # out) = feed_from feed n (Suc m)"
      using r(2) n(2) by (simp add: feed_from_Suc)
    ultimately show ?thesis
      using r(3-) unfolding assoc inc
      by (intro exI [of _ "Suc m"] exI [of _ p'] exI [of _ "Message n d (word_of_nat (length d)) # out"] conjI)
         (simp_all only: requests_simps)
  qed
qed

section \<open>One packet\<close>

lemma word_offset:
  fixes a :: u64
  assumes "int (unat a) + int i < 2 ^ 64"
  shows "unat (a + word_of_nat i) = unat a + i"
proof -
  have "int (unat a + i) < int (2 ^ 64)" using assms by simp
  then have "unat a + i < 2 ^ 64" by (simp only: of_nat_less_iff)
  then show ?thesis by (simp add: unat_word_ariths unat_of_nat)
qed

lemma hold_block_ok:
  assumes "distinct (map fst p)" "\<forall>(k, d) \<in> set p. e \<le> k \<and> k \<noteq> - 1 \<and> d = feed k" "k' \<noteq> - 1"
  shows "distinct (map fst (hold_block e k' (feed k') p)) \<and>
    (\<forall>(k, d) \<in> set (hold_block e k' (feed k') p). e \<le> k \<and> k \<noteq> - 1 \<and> d = feed k) \<and>
    {k. k < e} \<union> fst ` set (hold_block e k' (feed k') p) = {k. k < e} \<union> fst ` set p \<union> {k'}"
proof (cases "k' < e \<or> map_of p k' \<noteq> None")
  case True
  then have "k' \<in> {k. k < e} \<union> fst ` set p" by (auto simp: map_of_eq_None_iff)
  then show ?thesis using True assms by (auto simp: hold_block_def)
next
  case False
  then show ?thesis using assms by (auto simp: hold_block_def map_of_eq_None_iff)
qed

lemma hold_blocks_ok:
  assumes "distinct (map fst p)" "\<forall>(k, d) \<in> set p. e \<le> k \<and> k \<noteq> - 1 \<and> d = feed k"
    "int (unat q) + int i + int (length ds) < 2 ^ 64"
    "\<forall>j < length ds. ds ! j = feed (q + word_of_nat (i + j))"
  shows "distinct (map fst (hold_blocks e q i ds p)) \<and>
    (\<forall>(k, d) \<in> set (hold_blocks e q i ds p). e \<le> k \<and> k \<noteq> - 1 \<and> d = feed k) \<and>
    {k. k < e} \<union> fst ` set (hold_blocks e q i ds p) = {k. k < e} \<union> fst ` set p \<union>
      {k. unat q + i \<le> unat k \<and> unat k < unat q + i + length ds}"
  using assms
proof (induction ds arbitrary: i p)
  case Nil
  then show ?case by auto
next
  case (Cons d ds)
  let ?k = "q + word_of_nat i"
  let ?p = "hold_block e ?k d p"
  have k: "unat ?k = unat q + i" using Cons.prems(3) by (intro word_offset) simp
  have "int (unat ?k) + 1 < 2 ^ 64" using k Cons.prems(3) by simp
  then have "?k \<noteq> - 1" by (auto simp: unsigned_minus_1_eq_mask mask_eq_exp_minus_1)
  moreover have d: "d = feed ?k" using Cons.prems(4) by (metis add_0_right length_greater_0_conv list.distinct(1) nth_Cons_0)
  ultimately have one: "distinct (map fst ?p)" "\<forall>(k, d) \<in> set ?p. e \<le> k \<and> k \<noteq> - 1 \<and> d = feed k"
    "{k. k < e} \<union> fst ` set ?p = {k. k < e} \<union> fst ` set p \<union> {?k}"
    using hold_block_ok [OF Cons.prems(1,2), of ?k] by simp_all
  have rest: "\<forall>j < length ds. ds ! j = feed (q + word_of_nat (Suc i + j))"
  proof (intro allI impI)
    fix j assume "j < length ds"
    then show "ds ! j = feed (q + word_of_nat (Suc i + j))"
      using Cons.prems(4) [rule_format, of "Suc j"] by simp
  qed
  have room: "int (unat q) + int (Suc i) + int (length ds) < 2 ^ 64" using Cons.prems(3) by simp
  have split: "{x. unat q + i \<le> unat x \<and> unat x < unat q + i + length (d # ds)} =
      {?k} \<union> {x. unat q + Suc i \<le> unat x \<and> unat x < unat q + Suc i + length ds}"
  proof (rule set_eqI)
    fix x :: u64
    have "x = ?k \<longleftrightarrow> unat x = unat q + i" by (metis k unat_inject_iff)
    then show "x \<in> {x. unat q + i \<le> unat x \<and> unat x < unat q + i + length (d # ds)} \<longleftrightarrow>
        x \<in> {?k} \<union> {x. unat q + Suc i \<le> unat x \<and> unat x < unat q + Suc i + length ds}"
      by auto
  qed
  show ?case
    unfolding split hold_blocks.simps using Cons.IH [OF one(1,2) room rest] one(3) by (simp add: Un_assoc)
qed

definition gap_request :: "mold_session \<Rightarrow> downstream_header \<times> bytes list \<Rightarrow> request_packet list" where
  "gap_request s pk =
     (if next_expected s < dh_sequence_number (fst pk) \<and> (is_control (dh_message_count (fst pk)) \<or> snd pk \<noteq> [])
      then [\<lparr>rq_session = ms_session s, rq_sequence_number = next_expected s,
             rq_requested_message_count = ucast (min (dh_sequence_number (fst pk) - next_expected s) 0xFFFF)\<rparr>]
      else [])"

lemma next_not_seen: "session_ok feed s \<Longrightarrow> next_expected s \<notin> seen s"
  by (auto simp: session_ok_def seen_def)

text \<open>What one packet does.\<close>

definition packet_done ::
    "(u64 \<Rightarrow> bytes) \<Rightarrow> mold_session \<Rightarrow> u64 set \<Rightarrow> request_packet list \<Rightarrow> mold_session \<times> mold_callback list \<Rightarrow> bool" where
  "packet_done feed s ks rs r \<longleftrightarrow>
     (\<exists>m. messages (snd r) = feed_from feed (next_expected s) m \<and>
          next_expected (fst r) = next_expected s + word_of_nat m \<and>
          unat (next_expected (fst r)) = unat (next_expected s) + m) \<and>
     session_ok feed (fst r) \<and> seen (fst r) = seen s \<union> ks \<and> requests (snd r) = rs"

lemma maybe_request_gap_simps:
  "messages (snd (maybe_request_gap q s)) = []"
  "next_expected (fst (maybe_request_gap q s)) = next_expected s"
  "pending (fst (maybe_request_gap q s)) = pending s"
  "requests (snd (maybe_request_gap q s)) =
     (if next_expected s < q
      then [\<lparr>rq_session = ms_session s, rq_sequence_number = next_expected s,
             rq_requested_message_count = ucast (min (q - next_expected s) 0xFFFF)\<rparr>] else [])"
  by (simp_all add: maybe_request_gap_def)

lemma seen_cong: "next_expected s = next_expected t \<Longrightarrow> pending s = pending t \<Longrightarrow> seen s = seen t"
  by (simp add: seen_def)

lemma session_ok_cong:
  "next_expected s = next_expected t \<Longrightarrow> pending s = pending t \<Longrightarrow> session_ok f s = session_ok f t"
  by (simp add: session_ok_def)

lemma on_packet_control:
  assumes "session_ok feed s" "is_control (dh_message_count (fst pk))"
  shows "packet_done feed s {} (gap_request s pk) (on_packet (fst pk) (snd pk) s)"
proof -
  let ?q = "dh_sequence_number (fst pk)"
  obtain s1 out where m: "maybe_request_gap ?q s = (s1, out)" by (cases "maybe_request_gap ?q s")
  note f = maybe_request_gap_simps [of ?q s, unfolded m fst_conv snd_conv]
  let ?s = "if dh_message_count (fst pk) = kEndOfSession then s1\<lparr>ended := True\<rparr> else s1"
  have "next_expected ?s = next_expected s" "pending ?s = pending s" using f by simp_all
  moreover have "on_packet (fst pk) (snd pk) s = (?s, out)"
    using assms(2) by (simp add: on_packet_def is_control_def m)
  ultimately show ?thesis
    using f assms seen_cong [of ?s s] session_ok_cong [of ?s s feed]
    by (auto simp: packet_done_def gap_request_def feed_from_def intro!: exI [of _ 0])
qed

lemma on_packet_data:
  assumes "session_ok feed s" "\<not> is_control (dh_message_count (fst pk))" "no_wrap pk" "authentic feed pk"
  shows "packet_done feed s (packet_seqs pk) (gap_request s pk) (on_packet (fst pk) (snd pk) s)"
proof -
  let ?q = "dh_sequence_number (fst pk)" and ?n = "next_expected s"
  let ?p = "hold_blocks ?n ?q 0 (snd pk) (pending s)"
  have p0: "distinct (map fst (pending s))"
    "\<forall>(k, d) \<in> set (pending s). ?n \<le> k \<and> k \<noteq> - 1 \<and> d = feed k"
    using assms(1) by (auto simp: session_ok_def)
  have "distinct (map fst ?p) \<and> (\<forall>(k, d) \<in> set ?p. ?n \<le> k \<and> k \<noteq> - 1 \<and> d = feed k) \<and>
    {k. k < ?n} \<union> fst ` set ?p = {k. k < ?n} \<union> fst ` set (pending s) \<union>
      {k. unat ?q + 0 \<le> unat k \<and> unat k < unat ?q + 0 + length (snd pk)}"
    using assms(3,4) by (intro hold_blocks_ok [OF p0]) (simp_all add: no_wrap_def authentic_def list_all_iff)
  then have p: "distinct (map fst ?p)" "\<forall>(k, d) \<in> set ?p. ?n \<le> k \<and> k \<noteq> - 1 \<and> d = feed k"
    "{k. k < ?n} \<union> fst ` set ?p = seen s \<union> packet_seqs pk"
    using assms(2) by (simp_all add: seen_def packet_seqs_def)
  let ?g = "if snd pk \<noteq> [] then maybe_request_gap ?q (s\<lparr>pending := ?p\<rparr>) else (s\<lparr>pending := ?p\<rparr>, [])"
  have g: "messages (snd ?g) = []" "next_expected (fst ?g) = ?n" "pending (fst ?g) = ?p"
    "requests (snd ?g) = gap_request s pk"
    using assms(2) maybe_request_gap_simps [of ?q "s\<lparr>pending := ?p\<rparr>"] by (auto simp: gap_request_def)
  obtain m p' out where d: "deliver_ready ?n ?p = (?n + word_of_nat m, p', out)"
    "messages out = feed_from feed ?n m" "requests out = []" "unat (?n + word_of_nat m) = unat ?n + m"
    "distinct (map fst p')" "\<forall>(k, d) \<in> set p'. ?n + word_of_nat m < k \<and> k \<noteq> - 1 \<and> d = feed k"
    "{k. k < ?n + word_of_nat m} \<union> fst ` set p' = {k. k < ?n} \<union> fst ` set ?p"
    using deliver_ready_ok [OF p(1,2)] by blast
  have "on_packet (fst pk) (snd pk) s =
      ((fst ?g)\<lparr>next_expected := ?n + word_of_nat m, pending := p'\<rparr>, snd ?g @ out)"
    using assms(2) g(2,3) d(1) by (simp add: on_packet_def is_control_def Let_def case_prod_unfold)
  then show ?thesis
    using d(2-) p(3) g(1,4) by (auto simp: packet_done_def session_ok_def seen_def)
qed

lemma on_packet_done:
  assumes "session_ok feed s" "no_wrap pk" "authentic feed pk"
  shows "packet_done feed s (packet_seqs pk) (gap_request s pk) (on_packet (fst pk) (snd pk) s)"
  using on_packet_control [OF assms(1)] on_packet_data [OF assms(1) _ assms(2,3)]
  by (cases "is_control (dh_message_count (fst pk))") (simp_all add: packet_seqs_def)

section \<open>Runs\<close>

definition seqs_of :: "(downstream_header \<times> bytes list) list \<Rightarrow> u64 set" where
  "seqs_of pks = (\<Union>pk \<in> set pks. packet_seqs pk)"

lemma run_packets_done:
  assumes "session_ok feed s" "list_all (\<lambda>pk. no_wrap pk \<and> authentic feed pk) pks"
  shows "packet_done feed s (seqs_of pks) (requests (snd (run_packets pks s))) (run_packets pks s)"
  using assms
proof (induction pks arbitrary: s)
  case Nil
  then show ?case by (auto simp: packet_done_def seqs_of_def feed_from_def intro!: exI [of _ 0])
next
  case (Cons pk pks)
  obtain s1 out1 where o: "on_packet (fst pk) (snd pk) s = (s1, out1)" by (cases "on_packet (fst pk) (snd pk) s")
  obtain s2 out2 where r: "run_packets pks s1 = (s2, out2)" by (cases "run_packets pks s1")
  have one: "packet_done feed s (packet_seqs pk) (gap_request s pk) (s1, out1)"
    using on_packet_done [of feed s pk] Cons.prems by (simp add: o)
  then have "session_ok feed s1" by (simp add: packet_done_def)
  then have two: "packet_done feed s1 (seqs_of pks) (requests out2) (s2, out2)"
    using Cons.IH [of s1] Cons.prems by (simp add: r)
  obtain m where m: "messages out1 = feed_from feed (next_expected s) m"
    "next_expected s1 = next_expected s + word_of_nat m" "unat (next_expected s1) = unat (next_expected s) + m"
    using one by (auto simp: packet_done_def)
  obtain n where n: "messages out2 = feed_from feed (next_expected s1) n"
    "next_expected s2 = next_expected s1 + word_of_nat n" "unat (next_expected s2) = unat (next_expected s1) + n"
    using two by (auto simp: packet_done_def)
  have "messages (out1 @ out2) = feed_from feed (next_expected s) (m + n)"
    by (simp only: messages_simps feed_from_add m n(1))
  moreover have "next_expected s2 = next_expected s + word_of_nat (m + n)"
    by (simp only: n(2) m(2) of_nat_add add.assoc)
  moreover have "unat (next_expected s2) = unat (next_expected s) + (m + n)" using m(3) n(3) by simp
  moreover have "seen s2 = seen s \<union> seqs_of (pk # pks)"
    using one two by (simp add: packet_done_def seqs_of_def Un_assoc)
  ultimately show ?case
    using two by (auto simp: packet_done_def o r)
qed

lemma new_session_ok: "session_ok feed (new_session sid start)" "seen (new_session sid start) = {k. k < start}"
  by (simp_all add: session_ok_def seen_def new_session_def)

lemma next_beyond:
  assumes "session_ok feed s" "\<And>k. next0 \<le> k \<Longrightarrow> unat k < n \<Longrightarrow> k \<in> seen s" "next0 \<le> next_expected s"
  shows "n \<le> unat (next_expected s)"
  using assms next_not_seen [OF assms(1)] by (meson not_le)

lemma next_mono:
  assumes "session_ok feed s" "packet_done feed s ks rs r"
  shows "next_expected s \<le> next_expected (fst r)"
proof (rule ccontr)
  assume "\<not> ?thesis"
  then have "next_expected (fst r) \<in> seen s" by (simp add: seen_def not_le)
  moreover have "next_expected (fst r) \<notin> seen (fst r)" "seen s \<subseteq> seen (fst r)"
    using assms(2) next_not_seen [of feed "fst r"] by (auto simp: packet_done_def)
  ultimately show False by blast
qed

lemma session_delivers:
  assumes "list_all (\<lambda>pk. no_wrap pk \<and> authentic feed pk) pks"
  shows "\<exists>m. messages (snd (run_packets pks (new_session sid start))) = feed_from feed start m \<and>
    next_expected (fst (run_packets pks (new_session sid start))) = start + word_of_nat m \<and>
    unat (start + word_of_nat m) = unat start + m \<and> start + word_of_nat m \<notin> seqs_of pks \<and>
    {k. start \<le> k \<and> k < start + word_of_nat m} \<subseteq> seqs_of pks"
proof -
  let ?r = "run_packets pks (new_session sid start)"
  note ok = new_session_ok(1) [of feed sid start] new_session_ok(2) [of sid start]
  note done' = run_packets_done [OF ok(1) assms]
  have start: "next_expected (new_session sid start) = start" by (simp add: new_session_def)
  obtain m where m: "messages (snd ?r) = feed_from feed start m" "next_expected (fst ?r) = start + word_of_nat m"
    "unat (start + word_of_nat m) = unat start + m"
    using done' by (auto simp: packet_done_def start)
  have seen: "seen (fst ?r) = {k. k < start} \<union> seqs_of pks"
    using done' ok(2) by (simp add: packet_done_def)
  have "next_expected (fst ?r) \<notin> seen (fst ?r)"
    using done' by (intro next_not_seen [of feed]) (simp add: packet_done_def)
  moreover have "{k. k < next_expected (fst ?r)} \<subseteq> seen (fst ?r)" by (auto simp: seen_def)
  ultimately show ?thesis using m seen by (intro exI [of _ m]) auto
qed

lemma on_packet_session: "ms_session (fst (on_packet hdr blocks s)) = ms_session s"
  by (auto simp: on_packet_def maybe_request_gap_def Let_def split: prod.splits)

lemma run_packets_session: "ms_session (fst (run_packets pks s)) = ms_session s"
  by (induction pks arbitrary: s) (auto simp: Let_def case_prod_unfold on_packet_session)

text \<open>Once the answers to a request are there, delivery is past it.\<close>

lemma gap_answered:
  assumes s: "session_ok feed s" and pk: "no_wrap pk" "authentic feed pk"
    and run: "on_packet (fst pk) (snd pk) s = (s1, out1)" and gap: "next_expected s < dh_sequence_number (fst pk)"
    and count: "count = min (unat (dh_sequence_number (fst pk)) - unat (next_expected s)) 65535"
    and answers: "list_all (\<lambda>pk. no_wrap pk \<and> authentic feed pk) answers"
      "{k. unat (next_expected s) \<le> unat k \<and> unat k < unat (next_expected s) + count} \<subseteq> seqs_of answers"
  shows "unat (next_expected s) + count \<le> unat (next_expected (fst (run_packets answers s1))) \<and>
    (unat (dh_sequence_number (fst pk)) - unat (next_expected s) \<le> 65535 \<longrightarrow>
      unat (dh_sequence_number (fst pk)) + (if is_control (dh_message_count (fst pk)) then 0 else length (snd pk)) \<le>
      unat (next_expected (fst (run_packets answers s1))))"
proof -
  let ?q = "dh_sequence_number (fst pk)" and ?n = "next_expected s" and ?f = "fst (run_packets answers s1)"
  have one: "packet_done feed s (packet_seqs pk) (gap_request s pk) (s1, out1)"
    using on_packet_done [OF s pk] run by simp
  then have s1: "session_ok feed s1" by (simp add: packet_done_def)
  have two: "packet_done feed s1 (seqs_of answers) (requests (snd (run_packets answers s1))) (run_packets answers s1)"
    by (rule run_packets_done [OF s1 answers(1)])
  have ok: "session_ok feed ?f" using two by (simp add: packet_done_def)
  have seen: "seen ?f = seen s \<union> packet_seqs pk \<union> seqs_of answers"
    using one two by (simp add: packet_done_def)
  have mono: "?n \<le> next_expected ?f" using next_mono [OF s one] next_mono [OF s1 two] by simp
  have asked: "k \<in> seen ?f" if "?n \<le> k" "unat k < unat ?n + count" for k
    using answers(2) that seen by (auto simp: word_le_nat_alt)
  have "unat ?n + count \<le> unat (next_expected ?f)" by (rule next_beyond [OF ok asked mono])
  moreover have "unat ?q + (if is_control (dh_message_count (fst pk)) then 0 else length (snd pk)) \<le> unat (next_expected ?f)"
    if "unat ?q - unat ?n \<le> 65535"
  proof (rule next_beyond [OF ok _ mono])
    fix k assume k: "?n \<le> k" "unat k < unat ?q + (if is_control (dh_message_count (fst pk)) then 0 else length (snd pk))"
    have "unat ?n < unat ?q" using gap by (simp add: word_less_nat_alt)
    then have "unat ?n + count = unat ?q" using count that by simp
    then have "k \<in> seen ?f" if "unat k < unat ?q" using asked [OF k(1)] that by simp
    moreover have "k \<in> packet_seqs pk" if "unat ?q \<le> unat k"
      using k(2) that by (auto simp: packet_seqs_def split: if_splits)
    ultimately show "k \<in> seen ?f" using seen by (cases "unat k < unat ?q") auto
  qed
  ultimately show ?thesis by simp
qed

section \<open>Properties\<close>

text \<open>C13: in-order delivery over a network that loses, repeats and reorders: whatever packets of the feed
  arrive, in whatever order, the messages delivered are exactly those of consecutive sequence
  numbers from the start number, each once, with the feed's bytes; delivery stops exactly at the
  first sequence number that no packet has carried, so nothing is skipped and nothing that could be
  delivered is held back.\<close>

theorem session_delivers_in_order:
  assumes "list_all (\<lambda>pk. no_wrap pk \<and> authentic feed pk) pks"
  shows "\<exists>m. messages (snd (run_packets pks (new_session sid start))) = feed_from feed start m \<and>
    next_expected (fst (run_packets pks (new_session sid start))) = start + word_of_nat m \<and>
    unat (start + word_of_nat m) = unat start + m \<and> start + word_of_nat m \<notin> seqs_of pks \<and>
    {k. start \<le> k \<and> k < start + word_of_nat m} \<subseteq> seqs_of pks"
  by (rule session_delivers [OF assms])

definition demo_source :: "u64 \<Rightarrow> bytes" where
  "demo_source k = [ucast k]"

definition data_packet :: "u64 \<Rightarrow> bytes list \<Rightarrow> downstream_header \<times> bytes list" where
  "data_packet seq ds =
     (\<lparr>dh_session = replicate 10 7, dh_sequence_number = seq, dh_message_count = word_of_nat (length ds)\<rparr>, ds)"

lemma demo_packets:
  "list_all (\<lambda>pk. no_wrap pk \<and> authentic demo_source pk) [data_packet 3 [[3], [4]], data_packet 1 [[1]], data_packet 1 [[1], [2]]]"
  by (simp add: no_wrap_def authentic_def data_packet_def demo_source_def upt_rec)

theorem session_delivers_in_order_witness:
  "\<exists>m. messages (snd (run_packets [data_packet 3 [[3], [4]], data_packet 1 [[1]], data_packet 1 [[1], [2]]]
       (new_session (replicate 10 7) 1))) = feed_from demo_source 1 m \<and>
     (1 + word_of_nat m :: u64) \<notin> seqs_of [data_packet 3 [[3], [4]], data_packet 1 [[1]], data_packet 1 [[1], [2]]]"
  using session_delivers_in_order [OF demo_packets, of "replicate 10 7" 1] by blast

text \<open>C18: gap recovery: a packet with messages, a heartbeat or an end of session makes the session ask exactly when its
  sequence number is beyond the next expected one. It asks once, for its own session, from the next expected number
  on, for all that is missing or 65535 of it. Once packets with the requested messages have arrived, in any order and
  mixed with any others, it has delivered past the requested range, and if the whole gap was requested it has also
  delivered the messages of the packet that showed it.\<close>

theorem session_gap_recovery:
  assumes "list_all (\<lambda>pk. no_wrap pk \<and> authentic feed pk) (before @ [pk])"
    and "run_packets before (new_session sid start) = (s, out0)"
    and "on_packet (fst pk) (snd pk) s = (s1, out1)"
    and "count = min (unat (dh_sequence_number (fst pk)) - unat (next_expected s)) 65535"
  shows "if unat (next_expected s) < unat (dh_sequence_number (fst pk)) \<and>
      (dh_message_count (fst pk) = kHeartbeat \<or> dh_message_count (fst pk) = kEndOfSession \<or> snd pk \<noteq> [])
    then requests out1 = [\<lparr>rq_session = sid, rq_sequence_number = next_expected s,
        rq_requested_message_count = word_of_nat count\<rparr>] \<and>
      (\<forall>answers. list_all (\<lambda>pk. no_wrap pk \<and> authentic feed pk) answers \<longrightarrow>
        {k. unat (next_expected s) \<le> unat k \<and> unat k < unat (next_expected s) + count} \<subseteq> seqs_of answers \<longrightarrow>
        unat (next_expected s) + count \<le> unat (next_expected (fst (run_packets answers s1))) \<and>
        (unat (dh_sequence_number (fst pk)) - unat (next_expected s) \<le> 65535 \<longrightarrow>
          unat (dh_sequence_number (fst pk)) + (if is_control (dh_message_count (fst pk)) then 0 else length (snd pk)) \<le>
          unat (next_expected (fst (run_packets answers s1)))))
    else requests out1 = []"
proof -
  let ?q = "dh_sequence_number (fst pk)" and ?n = "next_expected s"
  have s: "session_ok feed s"
    using run_packets_done [OF new_session_ok(1), of feed before sid start] assms(1,2) by (simp add: packet_done_def)
  have sid: "ms_session s = sid"
    using run_packets_session [of before "new_session sid start"] assms(2) by (simp add: new_session_def)
  have pk: "no_wrap pk" "authentic feed pk" using assms(1) by simp_all
  have asks: "requests out1 = gap_request s pk"
    using on_packet_done [OF s pk] assms(3) by (simp add: packet_done_def)
  have "word_of_nat count = (ucast (min (?q - ?n) 0xFFFF) :: u16)" if "?n < ?q"
  proof -
    have "unat (?q - ?n) = unat ?q - unat ?n" using that by (intro unat_sub) simp
    then have "unat (min (?q - ?n) 0xFFFF) = count" using assms(4) by (simp add: min_def word_le_nat_alt)
    then show ?thesis by (metis of_nat_unat)
  qed
  then have "gap_request s pk = (if unat ?n < unat ?q \<and>
      (dh_message_count (fst pk) = kHeartbeat \<or> dh_message_count (fst pk) = kEndOfSession \<or> snd pk \<noteq> [])
    then [\<lparr>rq_session = sid, rq_sequence_number = ?n, rq_requested_message_count = word_of_nat count\<rparr>] else [])"
    by (auto simp: gap_request_def is_control_def sid word_less_nat_alt)
  moreover note gap_answered [OF s pk assms(3) _ assms(4)]
  ultimately show ?thesis using asks by (simp add: word_less_nat_alt)
qed

theorem session_gap_recovery_witness:
  "\<exists>s out0 s1 out1. run_packets [data_packet 1 [[1]]] (new_session (replicate 10 7) 1) = (s, out0) \<and>
     on_packet (fst (data_packet 3 [[3], [4]])) [[3], [4]] s = (s1, out1) \<and>
     requests out1 = [\<lparr>rq_session = replicate 10 7, rq_sequence_number = 2, rq_requested_message_count = 1\<rparr>] \<and>
     5 \<le> unat (next_expected (fst (run_packets [data_packet 2 [[2]]] s1)))"
proof -
  define s where "s = fst (run_packets [data_packet 1 [[1]]] (new_session (replicate 10 7) 1))"
  define out0 where "out0 = snd (run_packets [data_packet 1 [[1]]] (new_session (replicate 10 7) 1))"
  define s1 where "s1 = fst (on_packet (fst (data_packet 3 [[3], [4]])) [[3], [4]] s)"
  define out1 where "out1 = snd (on_packet (fst (data_packet 3 [[3], [4]])) [[3], [4]] s)"
  have pks: "list_all (\<lambda>pk. no_wrap pk \<and> authentic demo_source pk) ([data_packet 1 [[1]]] @ [data_packet 3 [[3], [4]]])"
    "list_all (\<lambda>pk. no_wrap pk \<and> authentic demo_source pk) [data_packet 2 [[2]]]"
    by (simp_all add: no_wrap_def authentic_def data_packet_def demo_source_def upt_rec)
  have n: "next_expected s = 2"
    by (simp add: s_def on_packet_def data_packet_def new_session_def kHeartbeat_def kEndOfSession_def
        hold_block_def maybe_request_gap_def deliver_ready.simps)
  have cover: "{k :: u64. unat (next_expected s) \<le> unat k \<and> unat k < unat (next_expected s) + 1} \<subseteq> seqs_of [data_packet 2 [[2]]]"
    by (simp add: n seqs_of_def packet_seqs_def data_packet_def is_control_def kHeartbeat_def kEndOfSession_def)
  have runs: "run_packets [data_packet 1 [[1]]] (new_session (replicate 10 7) 1) = (s, out0)"
    "on_packet (fst (data_packet 3 [[3], [4]])) (snd (data_packet 3 [[3], [4]])) s = (s1, out1)"
    by (simp_all add: s_def out0_def s1_def out1_def data_packet_def)
  have fields: "dh_sequence_number (fst (data_packet 3 [[3], [4]])) = 3"
    "\<not> is_control (dh_message_count (fst (data_packet 3 [[3], [4]])))" "snd (data_packet 3 [[3], [4]]) = [[3], [4]]"
    by (simp_all add: data_packet_def is_control_def kHeartbeat_def kEndOfSession_def)
  note rec = session_gap_recovery [OF pks(1) runs refl]
  from rec have "requests out1 = [\<lparr>rq_session = replicate 10 7, rq_sequence_number = 2, rq_requested_message_count = 1\<rparr>]"
    by (simp add: fields n)
  moreover from rec have "5 \<le> unat (next_expected (fst (run_packets [data_packet 2 [[2]]] s1)))"
    using pks(2) cover by (simp add: fields n del: run_packets.simps)
  ultimately show ?thesis using runs by (intro exI [of _ s] exI [of _ out0] exI [of _ s1] exI [of _ out1]) (simp add: fields)
qed

end
