(* ===== verification/Itch_Messages.thy ===== *)
theory Itch_Messages
  imports Bytes
begin

text \<open>
  Nasdaq TotalView-ITCH 5.0 messages (\<open>cpp/feed/itch_messages.h\<close>): one record per message type, with the
  fields of the source's struct, the variant \<open>Message\<close> over them, and the readers of the big-endian
  wire fields. A \<open>char\<close> is its byte and an \<open>Alpha<N>\<close> the list of its \<open>N\<close> characters.
\<close>

section \<open>Wire fields\<close>

definition be16 :: "bytes \<Rightarrow> nat \<Rightarrow> u16" where
  "be16 data p = ucast (push_bit 8 (ucast (data ! p) :: u32) OR ucast (data ! (p + 1)))"

definition be32 :: "bytes \<Rightarrow> nat \<Rightarrow> u32" where
  "be32 data p = push_bit 24 (ucast (data ! p)) OR push_bit 16 (ucast (data ! (p + 1))) OR
     push_bit 8 (ucast (data ! (p + 2))) OR ucast (data ! (p + 3))"

definition be48 :: "bytes \<Rightarrow> nat \<Rightarrow> u64" where
  "be48 data p = fold (\<lambda>b v. push_bit 8 v OR ucast b) (read_at p 6 data) 0"

definition be64 :: "bytes \<Rightarrow> nat \<Rightarrow> u64" where
  "be64 data p = fold (\<lambda>b v. push_bit 8 v OR ucast b) (read_at p 8 data) 0"

definition read_alpha :: "nat \<Rightarrow> bytes \<Rightarrow> nat \<Rightarrow> bytes" where
  "read_alpha n data p = map (\<lambda>i. data ! (p + i)) [0..<n]"

text \<open>\<open>Alpha<N>::str\<close>: \<open>end = N; while (end > 0 && raw[end - 1] == ' ') --end;\<close>\<close>

fun alpha_end :: "bytes \<Rightarrow> nat \<Rightarrow> nat" where
  "alpha_end raw 0 = 0"
| "alpha_end raw (Suc n) = (if raw ! n = 0x20 then alpha_end raw n else Suc n)"

definition alpha_str :: "bytes \<Rightarrow> bytes" where
  "alpha_str raw = take (alpha_end raw (length raw)) raw"

record common_header =
  stock_locate :: u16
  tracking_number :: u16
  timestamp_ns :: u64

definition read_common_header :: "bytes \<Rightarrow> common_header" where
  "read_common_header p = \<lparr>stock_locate = be16 p 1, tracking_number = be16 p 3, timestamp_ns = be48 p 5\<rparr>"

section \<open>Messages\<close>

record system_event =
  se_h :: common_header
  se_event_code :: u8

record stock_directory =
  sd_h :: common_header
  sd_stock :: bytes
  sd_market_category :: u8
  sd_financial_status_indicator :: u8
  sd_round_lot_size :: u32
  sd_round_lots_only :: u8
  sd_issue_classification :: u8
  sd_issue_subtype :: bytes
  sd_authenticity :: u8
  sd_short_sale_threshold_indicator :: u8
  sd_ipo_flag :: u8
  sd_luld_reference_price_tier :: u8
  sd_etp_flag :: u8
  sd_etp_leverage_factor :: u32
  sd_inverse_indicator :: u8

record stock_trading_action =
  sta_h :: common_header
  sta_stock :: bytes
  sta_trading_state :: u8
  sta_reserved :: u8
  sta_reason :: bytes

record reg_sho_restriction =
  rsr_h :: common_header
  rsr_stock :: bytes
  rsr_reg_sho_action :: u8

record market_participant_position =
  mpp_h :: common_header
  mpp_mpid :: bytes
  mpp_stock :: bytes
  mpp_primary_market_maker :: u8
  mpp_market_maker_mode :: u8
  mpp_market_participant_state :: u8

record mwcb_decline_level =
  mdl_h :: common_header
  mdl_level1 :: u64
  mdl_level2 :: u64
  mdl_level3 :: u64

record mwcb_status =
  mws_h :: common_header
  mws_breached_level :: u8

record ipo_quoting_period_update =
  ipo_h :: common_header
  ipo_stock :: bytes
  ipo_ipo_quotation_release_time :: u32
  ipo_ipo_quotation_release_qualifier :: u8
  ipo_ipo_price :: u32

record luld_auction_collar =
  lac_h :: common_header
  lac_stock :: bytes
  lac_auction_collar_reference_price :: u32
  lac_upper_auction_collar_price :: u32
  lac_lower_auction_collar_price :: u32
  lac_auction_collar_extension :: u32

record operational_halt =
  oh_h :: common_header
  oh_stock :: bytes
  oh_market_code :: u8
  oh_operational_halt_action :: u8

record add_order_no_mpid =
  ao_h :: common_header
  ao_order_ref_number :: u64
  ao_buy_sell_indicator :: u8
  ao_shares :: u32
  ao_stock :: bytes
  ao_price :: u32

record add_order_mpid =
  aom_h :: common_header
  aom_order_ref_number :: u64
  aom_buy_sell_indicator :: u8
  aom_shares :: u32
  aom_stock :: bytes
  aom_price :: u32
  aom_attribution :: bytes

record order_executed =
  oe_h :: common_header
  oe_order_ref_number :: u64
  oe_executed_shares :: u32
  oe_match_number :: u64

record order_executed_with_price =
  oep_h :: common_header
  oep_order_ref_number :: u64
  oep_executed_shares :: u32
  oep_match_number :: u64
  oep_printable :: u8
  oep_execution_price :: u32

record order_cancel =
  oc_h :: common_header
  oc_order_ref_number :: u64
  oc_canceled_shares :: u32

record order_delete =
  od_h :: common_header
  od_order_ref_number :: u64

record order_replace =
  or_h :: common_header
  or_original_order_ref_number :: u64
  or_new_order_ref_number :: u64
  or_shares :: u32
  or_price :: u32

record trade_non_cross =
  tn_h :: common_header
  tn_order_ref_number :: u64
  tn_buy_sell_indicator :: u8
  tn_shares :: u32
  tn_stock :: bytes
  tn_price :: u32
  tn_match_number :: u64

record cross_trade =
  ct_h :: common_header
  ct_shares :: u64
  ct_stock :: bytes
  ct_cross_price :: u32
  ct_match_number :: u64
  ct_cross_type :: u8

record broken_trade =
  bt_h :: common_header
  bt_match_number :: u64

record noii =
  noi_h :: common_header
  noi_paired_shares :: u64
  noi_imbalance_shares :: u64
  noi_imbalance_direction :: u8
  noi_stock :: bytes
  noi_far_price :: u32
  noi_near_price :: u32
  noi_current_reference_price :: u32
  noi_cross_type :: u8
  noi_price_variation_indicator :: u8

record rpii =
  rpi_h :: common_header
  rpi_stock :: bytes
  rpi_interest_flag :: u8

record direct_listing_capital_raise =
  dl_h :: common_header
  dl_stock :: bytes
  dl_open_eligibility_status :: u8
  dl_minimum_allowable_price :: u32
  dl_maximum_allowable_price :: u32
  dl_near_execution_price :: u32
  dl_near_execution_time :: u64
  dl_lower_price_range_collar :: u32
  dl_upper_price_range_collar :: u32

datatype message =
    SystemEvent system_event
  | StockDirectory stock_directory
  | StockTradingAction stock_trading_action
  | RegSHORestriction reg_sho_restriction
  | MarketParticipantPosition market_participant_position
  | MWCBDeclineLevel mwcb_decline_level
  | MWCBStatus mwcb_status
  | IPOQuotingPeriodUpdate ipo_quoting_period_update
  | LULDAuctionCollar luld_auction_collar
  | OperationalHalt operational_halt
  | AddOrderNoMPID add_order_no_mpid
  | AddOrderMPID add_order_mpid
  | OrderExecuted order_executed
  | OrderExecutedWithPrice order_executed_with_price
  | OrderCancel order_cancel
  | OrderDelete order_delete
  | OrderReplace order_replace
  | TradeNonCross trade_non_cross
  | CrossTrade cross_trade
  | BrokenTrade broken_trade
  | NOII noii
  | RPII rpii
  | DirectListingCapitalRaise direct_listing_capital_raise

end
