(* ===== verification/Itch_Parser.thy ===== *)
theory Itch_Parser
  imports Itch_Messages
begin

text \<open>
  The ITCH parser (\<open>cpp/feed/itch_parser.cpp\<close>): the wire length of each message type, and
  \<open>parse_message\<close>, one definition per case of its switch. \<open>data\<close> and \<open>len\<close> are one list.
\<close>

section \<open>Type codes\<close>

abbreviation type_S :: u8 where "type_S \<equiv> 83"
abbreviation type_R :: u8 where "type_R \<equiv> 82"
abbreviation type_H :: u8 where "type_H \<equiv> 72"
abbreviation type_Y :: u8 where "type_Y \<equiv> 89"
abbreviation type_L :: u8 where "type_L \<equiv> 76"
abbreviation type_V :: u8 where "type_V \<equiv> 86"
abbreviation type_W :: u8 where "type_W \<equiv> 87"
abbreviation type_K :: u8 where "type_K \<equiv> 75"
abbreviation type_J :: u8 where "type_J \<equiv> 74"
abbreviation type_h_lower :: u8 where "type_h_lower \<equiv> 104"
abbreviation type_A :: u8 where "type_A \<equiv> 65"
abbreviation type_F :: u8 where "type_F \<equiv> 70"
abbreviation type_E :: u8 where "type_E \<equiv> 69"
abbreviation type_C :: u8 where "type_C \<equiv> 67"
abbreviation type_X :: u8 where "type_X \<equiv> 88"
abbreviation type_D :: u8 where "type_D \<equiv> 68"
abbreviation type_U :: u8 where "type_U \<equiv> 85"
abbreviation type_P :: u8 where "type_P \<equiv> 80"
abbreviation type_Q :: u8 where "type_Q \<equiv> 81"
abbreviation type_B :: u8 where "type_B \<equiv> 66"
abbreviation type_I :: u8 where "type_I \<equiv> 73"
abbreviation type_N :: u8 where "type_N \<equiv> 78"
abbreviation type_O :: u8 where "type_O \<equiv> 79"

definition expected_length :: "u8 \<Rightarrow> nat" where
  "expected_length type =
     (if type = type_S then 12
      else if type = type_R then 39
      else if type = type_H then 25
      else if type = type_Y then 20
      else if type = type_L then 26
      else if type = type_V then 35
      else if type = type_W then 12
      else if type = type_K then 28
      else if type = type_J then 35
      else if type = type_h_lower then 21
      else if type = type_A then 36
      else if type = type_F then 40
      else if type = type_E then 31
      else if type = type_C then 36
      else if type = type_X then 23
      else if type = type_D then 19
      else if type = type_U then 35
      else if type = type_P then 44
      else if type = type_Q then 40
      else if type = type_B then 19
      else if type = type_I then 50
      else if type = type_N then 20
      else if type = type_O then 48
      else 0)"

section \<open>The cases\<close>

definition decode_system_event :: "common_header \<Rightarrow> bytes \<Rightarrow> system_event" where
  "decode_system_event h data =
     \<lparr>se_h = h,
      se_event_code = data ! 11\<rparr>"

definition decode_stock_directory :: "common_header \<Rightarrow> bytes \<Rightarrow> stock_directory" where
  "decode_stock_directory h data =
     \<lparr>sd_h = h,
      sd_stock = read_alpha 8 data 11,
      sd_market_category = data ! 19,
      sd_financial_status_indicator = data ! 20,
      sd_round_lot_size = be32 data 21,
      sd_round_lots_only = data ! 25,
      sd_issue_classification = data ! 26,
      sd_issue_subtype = read_alpha 2 data 27,
      sd_authenticity = data ! 29,
      sd_short_sale_threshold_indicator = data ! 30,
      sd_ipo_flag = data ! 31,
      sd_luld_reference_price_tier = data ! 32,
      sd_etp_flag = data ! 33,
      sd_etp_leverage_factor = be32 data 34,
      sd_inverse_indicator = data ! 38\<rparr>"

definition decode_stock_trading_action :: "common_header \<Rightarrow> bytes \<Rightarrow> stock_trading_action" where
  "decode_stock_trading_action h data =
     \<lparr>sta_h = h,
      sta_stock = read_alpha 8 data 11,
      sta_trading_state = data ! 19,
      sta_reserved = data ! 20,
      sta_reason = read_alpha 4 data 21\<rparr>"

definition decode_reg_sho_restriction :: "common_header \<Rightarrow> bytes \<Rightarrow> reg_sho_restriction" where
  "decode_reg_sho_restriction h data =
     \<lparr>rsr_h = h,
      rsr_stock = read_alpha 8 data 11,
      rsr_reg_sho_action = data ! 19\<rparr>"

definition decode_market_participant_position :: "common_header \<Rightarrow> bytes \<Rightarrow> market_participant_position" where
  "decode_market_participant_position h data =
     \<lparr>mpp_h = h,
      mpp_mpid = read_alpha 4 data 11,
      mpp_stock = read_alpha 8 data 15,
      mpp_primary_market_maker = data ! 23,
      mpp_market_maker_mode = data ! 24,
      mpp_market_participant_state = data ! 25\<rparr>"

definition decode_mwcb_decline_level :: "common_header \<Rightarrow> bytes \<Rightarrow> mwcb_decline_level" where
  "decode_mwcb_decline_level h data =
     \<lparr>mdl_h = h,
      mdl_level1 = be64 data 11,
      mdl_level2 = be64 data 19,
      mdl_level3 = be64 data 27\<rparr>"

definition decode_mwcb_status :: "common_header \<Rightarrow> bytes \<Rightarrow> mwcb_status" where
  "decode_mwcb_status h data =
     \<lparr>mws_h = h,
      mws_breached_level = data ! 11\<rparr>"

definition decode_ipo_quoting_period_update :: "common_header \<Rightarrow> bytes \<Rightarrow> ipo_quoting_period_update" where
  "decode_ipo_quoting_period_update h data =
     \<lparr>ipo_h = h,
      ipo_stock = read_alpha 8 data 11,
      ipo_ipo_quotation_release_time = be32 data 19,
      ipo_ipo_quotation_release_qualifier = data ! 23,
      ipo_ipo_price = be32 data 24\<rparr>"

definition decode_luld_auction_collar :: "common_header \<Rightarrow> bytes \<Rightarrow> luld_auction_collar" where
  "decode_luld_auction_collar h data =
     \<lparr>lac_h = h,
      lac_stock = read_alpha 8 data 11,
      lac_auction_collar_reference_price = be32 data 19,
      lac_upper_auction_collar_price = be32 data 23,
      lac_lower_auction_collar_price = be32 data 27,
      lac_auction_collar_extension = be32 data 31\<rparr>"

definition decode_operational_halt :: "common_header \<Rightarrow> bytes \<Rightarrow> operational_halt" where
  "decode_operational_halt h data =
     \<lparr>oh_h = h,
      oh_stock = read_alpha 8 data 11,
      oh_market_code = data ! 19,
      oh_operational_halt_action = data ! 20\<rparr>"

definition decode_add_order_scalar :: "bytes \<Rightarrow> add_order_no_mpid" where
  "decode_add_order_scalar data =
     \<lparr>ao_h = read_common_header data,
      ao_order_ref_number = be64 data 11,
      ao_buy_sell_indicator = data ! 19,
      ao_shares = be32 data 20,
      ao_stock = read_alpha 8 data 24,
      ao_price = be32 data 32\<rparr>"

definition decode_add_order_mpid :: "common_header \<Rightarrow> bytes \<Rightarrow> add_order_mpid" where
  "decode_add_order_mpid h data =
     \<lparr>aom_h = h,
      aom_order_ref_number = be64 data 11,
      aom_buy_sell_indicator = data ! 19,
      aom_shares = be32 data 20,
      aom_stock = read_alpha 8 data 24,
      aom_price = be32 data 32,
      aom_attribution = read_alpha 4 data 36\<rparr>"

definition decode_order_executed :: "common_header \<Rightarrow> bytes \<Rightarrow> order_executed" where
  "decode_order_executed h data =
     \<lparr>oe_h = h,
      oe_order_ref_number = be64 data 11,
      oe_executed_shares = be32 data 19,
      oe_match_number = be64 data 23\<rparr>"

definition decode_order_executed_with_price :: "common_header \<Rightarrow> bytes \<Rightarrow> order_executed_with_price" where
  "decode_order_executed_with_price h data =
     \<lparr>oep_h = h,
      oep_order_ref_number = be64 data 11,
      oep_executed_shares = be32 data 19,
      oep_match_number = be64 data 23,
      oep_printable = data ! 31,
      oep_execution_price = be32 data 32\<rparr>"

definition decode_order_cancel :: "common_header \<Rightarrow> bytes \<Rightarrow> order_cancel" where
  "decode_order_cancel h data =
     \<lparr>oc_h = h,
      oc_order_ref_number = be64 data 11,
      oc_canceled_shares = be32 data 19\<rparr>"

definition decode_order_delete :: "common_header \<Rightarrow> bytes \<Rightarrow> order_delete" where
  "decode_order_delete h data =
     \<lparr>od_h = h,
      od_order_ref_number = be64 data 11\<rparr>"

definition decode_order_replace :: "common_header \<Rightarrow> bytes \<Rightarrow> order_replace" where
  "decode_order_replace h data =
     \<lparr>or_h = h,
      or_original_order_ref_number = be64 data 11,
      or_new_order_ref_number = be64 data 19,
      or_shares = be32 data 27,
      or_price = be32 data 31\<rparr>"

definition decode_trade_non_cross :: "common_header \<Rightarrow> bytes \<Rightarrow> trade_non_cross" where
  "decode_trade_non_cross h data =
     \<lparr>tn_h = h,
      tn_order_ref_number = be64 data 11,
      tn_buy_sell_indicator = data ! 19,
      tn_shares = be32 data 20,
      tn_stock = read_alpha 8 data 24,
      tn_price = be32 data 32,
      tn_match_number = be64 data 36\<rparr>"

definition decode_cross_trade :: "common_header \<Rightarrow> bytes \<Rightarrow> cross_trade" where
  "decode_cross_trade h data =
     \<lparr>ct_h = h,
      ct_shares = be64 data 11,
      ct_stock = read_alpha 8 data 19,
      ct_cross_price = be32 data 27,
      ct_match_number = be64 data 31,
      ct_cross_type = data ! 39\<rparr>"

definition decode_broken_trade :: "common_header \<Rightarrow> bytes \<Rightarrow> broken_trade" where
  "decode_broken_trade h data =
     \<lparr>bt_h = h,
      bt_match_number = be64 data 11\<rparr>"

definition decode_noii :: "common_header \<Rightarrow> bytes \<Rightarrow> noii" where
  "decode_noii h data =
     \<lparr>noi_h = h,
      noi_paired_shares = be64 data 11,
      noi_imbalance_shares = be64 data 19,
      noi_imbalance_direction = data ! 27,
      noi_stock = read_alpha 8 data 28,
      noi_far_price = be32 data 36,
      noi_near_price = be32 data 40,
      noi_current_reference_price = be32 data 44,
      noi_cross_type = data ! 48,
      noi_price_variation_indicator = data ! 49\<rparr>"

definition decode_rpii :: "common_header \<Rightarrow> bytes \<Rightarrow> rpii" where
  "decode_rpii h data =
     \<lparr>rpi_h = h,
      rpi_stock = read_alpha 8 data 11,
      rpi_interest_flag = data ! 19\<rparr>"

definition decode_direct_listing_capital_raise :: "common_header \<Rightarrow> bytes \<Rightarrow> direct_listing_capital_raise" where
  "decode_direct_listing_capital_raise h data =
     \<lparr>dl_h = h,
      dl_stock = read_alpha 8 data 11,
      dl_open_eligibility_status = data ! 19,
      dl_minimum_allowable_price = be32 data 20,
      dl_maximum_allowable_price = be32 data 24,
      dl_near_execution_price = be32 data 28,
      dl_near_execution_time = be64 data 32,
      dl_lower_price_range_collar = be32 data 40,
      dl_upper_price_range_collar = be32 data 44\<rparr>"

definition parse_switch :: "u8 \<Rightarrow> common_header \<Rightarrow> bytes \<Rightarrow> message option" where
  "parse_switch type h data =
     (if type = type_S then Some (SystemEvent (decode_system_event h data))
      else if type = type_R then Some (StockDirectory (decode_stock_directory h data))
      else if type = type_H then Some (StockTradingAction (decode_stock_trading_action h data))
      else if type = type_Y then Some (RegSHORestriction (decode_reg_sho_restriction h data))
      else if type = type_L then Some (MarketParticipantPosition (decode_market_participant_position h data))
      else if type = type_V then Some (MWCBDeclineLevel (decode_mwcb_decline_level h data))
      else if type = type_W then Some (MWCBStatus (decode_mwcb_status h data))
      else if type = type_K then Some (IPOQuotingPeriodUpdate (decode_ipo_quoting_period_update h data))
      else if type = type_J then Some (LULDAuctionCollar (decode_luld_auction_collar h data))
      else if type = type_h_lower then Some (OperationalHalt (decode_operational_halt h data))
      else if type = type_A then Some (AddOrderNoMPID (decode_add_order_scalar data))
      else if type = type_F then Some (AddOrderMPID (decode_add_order_mpid h data))
      else if type = type_E then Some (OrderExecuted (decode_order_executed h data))
      else if type = type_C then Some (OrderExecutedWithPrice (decode_order_executed_with_price h data))
      else if type = type_X then Some (OrderCancel (decode_order_cancel h data))
      else if type = type_D then Some (OrderDelete (decode_order_delete h data))
      else if type = type_U then Some (OrderReplace (decode_order_replace h data))
      else if type = type_P then Some (TradeNonCross (decode_trade_non_cross h data))
      else if type = type_Q then Some (CrossTrade (decode_cross_trade h data))
      else if type = type_B then Some (BrokenTrade (decode_broken_trade h data))
      else if type = type_I then Some (NOII (decode_noii h data))
      else if type = type_N then Some (RPII (decode_rpii h data))
      else if type = type_O then Some (DirectListingCapitalRaise (decode_direct_listing_capital_raise h data))
      else None)"

definition parse_message :: "bytes \<Rightarrow> message option" where
  "parse_message data =
     (if data = [] then None
      else let type = data ! 0; need = expected_length type in
        if need = 0 \<or> length data < need then None
        else parse_switch type (read_common_header data) data)"

end
