(* ===== verification/Itch_Wire.thy ===== *)
theory Itch_Wire
  imports Itch_Parser
begin

text \<open>
  The ITCH wire layout as a specification (message type, header, then the fields of the message in
  order), and the parser against it: parsing is the inverse of writing the layout, in both directions,
  for all 23 message types; and what the parser does with unknown types, short and long buffers.
\<close>

section \<open>The layout\<close>

datatype wire = W8 u8 | W32 u32 | W64 u64 | WA nat bytes

fun enc_wire :: "wire \<Rightarrow> bytes" where
  "enc_wire (W8 c) = [c]"
| "enc_wire (W32 v) = put_be_loop 4 v"
| "enc_wire (W64 v) = put_be_loop 8 v"
| "enc_wire (WA n s) = s"

fun wire_ok :: "wire \<Rightarrow> bool" where
  "wire_ok (WA n s) \<longleftrightarrow> length s = n"
| "wire_ok _ \<longleftrightarrow> True"

fun message_type :: "message \<Rightarrow> u8" where
  "message_type (SystemEvent m) = type_S"
| "message_type (StockDirectory m) = type_R"
| "message_type (StockTradingAction m) = type_H"
| "message_type (RegSHORestriction m) = type_Y"
| "message_type (MarketParticipantPosition m) = type_L"
| "message_type (MWCBDeclineLevel m) = type_V"
| "message_type (MWCBStatus m) = type_W"
| "message_type (IPOQuotingPeriodUpdate m) = type_K"
| "message_type (LULDAuctionCollar m) = type_J"
| "message_type (OperationalHalt m) = type_h_lower"
| "message_type (AddOrderNoMPID m) = type_A"
| "message_type (AddOrderMPID m) = type_F"
| "message_type (OrderExecuted m) = type_E"
| "message_type (OrderExecutedWithPrice m) = type_C"
| "message_type (OrderCancel m) = type_X"
| "message_type (OrderDelete m) = type_D"
| "message_type (OrderReplace m) = type_U"
| "message_type (TradeNonCross m) = type_P"
| "message_type (CrossTrade m) = type_Q"
| "message_type (BrokenTrade m) = type_B"
| "message_type (NOII m) = type_I"
| "message_type (RPII m) = type_N"
| "message_type (DirectListingCapitalRaise m) = type_O"

fun message_header :: "message \<Rightarrow> common_header" where
  "message_header (SystemEvent m) = se_h m"
| "message_header (StockDirectory m) = sd_h m"
| "message_header (StockTradingAction m) = sta_h m"
| "message_header (RegSHORestriction m) = rsr_h m"
| "message_header (MarketParticipantPosition m) = mpp_h m"
| "message_header (MWCBDeclineLevel m) = mdl_h m"
| "message_header (MWCBStatus m) = mws_h m"
| "message_header (IPOQuotingPeriodUpdate m) = ipo_h m"
| "message_header (LULDAuctionCollar m) = lac_h m"
| "message_header (OperationalHalt m) = oh_h m"
| "message_header (AddOrderNoMPID m) = ao_h m"
| "message_header (AddOrderMPID m) = aom_h m"
| "message_header (OrderExecuted m) = oe_h m"
| "message_header (OrderExecutedWithPrice m) = oep_h m"
| "message_header (OrderCancel m) = oc_h m"
| "message_header (OrderDelete m) = od_h m"
| "message_header (OrderReplace m) = or_h m"
| "message_header (TradeNonCross m) = tn_h m"
| "message_header (CrossTrade m) = ct_h m"
| "message_header (BrokenTrade m) = bt_h m"
| "message_header (NOII m) = noi_h m"
| "message_header (RPII m) = rpi_h m"
| "message_header (DirectListingCapitalRaise m) = dl_h m"

fun message_fields :: "message \<Rightarrow> wire list" where
  "message_fields (SystemEvent m) =
     [W8 (se_event_code m)]"
| "message_fields (StockDirectory m) =
     [WA 8 (sd_stock m), W8 (sd_market_category m), W8 (sd_financial_status_indicator m),
      W32 (sd_round_lot_size m), W8 (sd_round_lots_only m),
      W8 (sd_issue_classification m), WA 2 (sd_issue_subtype m), W8 (sd_authenticity m),
      W8 (sd_short_sale_threshold_indicator m), W8 (sd_ipo_flag m),
      W8 (sd_luld_reference_price_tier m), W8 (sd_etp_flag m),
      W32 (sd_etp_leverage_factor m), W8 (sd_inverse_indicator m)]"
| "message_fields (StockTradingAction m) =
     [WA 8 (sta_stock m), W8 (sta_trading_state m), W8 (sta_reserved m),
      WA 4 (sta_reason m)]"
| "message_fields (RegSHORestriction m) =
     [WA 8 (rsr_stock m), W8 (rsr_reg_sho_action m)]"
| "message_fields (MarketParticipantPosition m) =
     [WA 4 (mpp_mpid m), WA 8 (mpp_stock m), W8 (mpp_primary_market_maker m),
      W8 (mpp_market_maker_mode m), W8 (mpp_market_participant_state m)]"
| "message_fields (MWCBDeclineLevel m) =
     [W64 (mdl_level1 m), W64 (mdl_level2 m), W64 (mdl_level3 m)]"
| "message_fields (MWCBStatus m) =
     [W8 (mws_breached_level m)]"
| "message_fields (IPOQuotingPeriodUpdate m) =
     [WA 8 (ipo_stock m), W32 (ipo_ipo_quotation_release_time m),
      W8 (ipo_ipo_quotation_release_qualifier m), W32 (ipo_ipo_price m)]"
| "message_fields (LULDAuctionCollar m) =
     [WA 8 (lac_stock m), W32 (lac_auction_collar_reference_price m),
      W32 (lac_upper_auction_collar_price m), W32 (lac_lower_auction_collar_price m),
      W32 (lac_auction_collar_extension m)]"
| "message_fields (OperationalHalt m) =
     [WA 8 (oh_stock m), W8 (oh_market_code m), W8 (oh_operational_halt_action m)]"
| "message_fields (AddOrderNoMPID m) =
     [W64 (ao_order_ref_number m), W8 (ao_buy_sell_indicator m), W32 (ao_shares m),
      WA 8 (ao_stock m), W32 (ao_price m)]"
| "message_fields (AddOrderMPID m) =
     [W64 (aom_order_ref_number m), W8 (aom_buy_sell_indicator m), W32 (aom_shares m),
      WA 8 (aom_stock m), W32 (aom_price m), WA 4 (aom_attribution m)]"
| "message_fields (OrderExecuted m) =
     [W64 (oe_order_ref_number m), W32 (oe_executed_shares m), W64 (oe_match_number m)]"
| "message_fields (OrderExecutedWithPrice m) =
     [W64 (oep_order_ref_number m), W32 (oep_executed_shares m), W64 (oep_match_number m),
      W8 (oep_printable m), W32 (oep_execution_price m)]"
| "message_fields (OrderCancel m) =
     [W64 (oc_order_ref_number m), W32 (oc_canceled_shares m)]"
| "message_fields (OrderDelete m) =
     [W64 (od_order_ref_number m)]"
| "message_fields (OrderReplace m) =
     [W64 (or_original_order_ref_number m), W64 (or_new_order_ref_number m),
      W32 (or_shares m), W32 (or_price m)]"
| "message_fields (TradeNonCross m) =
     [W64 (tn_order_ref_number m), W8 (tn_buy_sell_indicator m), W32 (tn_shares m),
      WA 8 (tn_stock m), W32 (tn_price m), W64 (tn_match_number m)]"
| "message_fields (CrossTrade m) =
     [W64 (ct_shares m), WA 8 (ct_stock m), W32 (ct_cross_price m),
      W64 (ct_match_number m), W8 (ct_cross_type m)]"
| "message_fields (BrokenTrade m) =
     [W64 (bt_match_number m)]"
| "message_fields (NOII m) =
     [W64 (noi_paired_shares m), W64 (noi_imbalance_shares m),
      W8 (noi_imbalance_direction m), WA 8 (noi_stock m), W32 (noi_far_price m),
      W32 (noi_near_price m), W32 (noi_current_reference_price m), W8 (noi_cross_type m),
      W8 (noi_price_variation_indicator m)]"
| "message_fields (RPII m) =
     [WA 8 (rpi_stock m), W8 (rpi_interest_flag m)]"
| "message_fields (DirectListingCapitalRaise m) =
     [WA 8 (dl_stock m), W8 (dl_open_eligibility_status m),
      W32 (dl_minimum_allowable_price m), W32 (dl_maximum_allowable_price m),
      W32 (dl_near_execution_price m), W64 (dl_near_execution_time m),
      W32 (dl_lower_price_range_collar m), W32 (dl_upper_price_range_collar m)]"

definition enc_header :: "common_header \<Rightarrow> bytes" where
  "enc_header h = put_be_loop 2 (stock_locate h) @ put_be_loop 2 (tracking_number h) @ put_be_loop 6 (timestamp_ns h)"

definition encode_message :: "message \<Rightarrow> bytes" where
  "encode_message m =
     message_type m # enc_header (message_header m) @ concat (map enc_wire (message_fields m))"

text \<open>Timestamps have 48 bits, alpha fields their fixed length.\<close>

definition message_ok :: "message \<Rightarrow> bool" where
  "message_ok m \<longleftrightarrow> timestamp_ns (message_header m) < 2 ^ 48 \<and> list_all wire_ok (message_fields m)"

section \<open>Reading what was written\<close>

named_theorems reads

lemma readers_get_be:
  "be48 data p = get_be (read_at p 6 data)" "be64 data p = get_be (read_at p 8 data)"
  by (simp_all add: be48_def be64_def get_be_def)

lemma nth_skip:
  "length as \<le> p \<Longrightarrow> (as @ bs) ! p = bs ! (p - length as)"
  "length as \<le> p \<Longrightarrow> (as @ bs) ! (p + i) = bs ! (p - length as + i)"
  by (simp_all add: nth_append)

lemma nth_next:
  "0 < p \<Longrightarrow> (x # xs) ! p = xs ! (p - 1)"
  "0 < p \<Longrightarrow> (x # xs) ! (p + i) = xs ! (p - 1 + i)"
  by (cases p; simp)+

lemma reads_skip [reads]:
  assumes "length as \<le> p"
  shows "(as @ bs) ! p = bs ! (p - length as)"
    "be16 (as @ bs) p = be16 bs (p - length as)" "be32 (as @ bs) p = be32 bs (p - length as)"
    "be48 (as @ bs) p = be48 bs (p - length as)" "be64 (as @ bs) p = be64 bs (p - length as)"
    "read_alpha n (as @ bs) p = read_alpha n bs (p - length as)"
  by (simp_all only: be16_def be32_def read_alpha_def readers_get_be read_at_skip [OF assms] nth_skip [OF assms])

lemma reads_Cons [reads]:
  assumes "0 < p"
  shows "(x # xs) ! p = xs ! (p - 1)"
    "be16 (x # xs) p = be16 xs (p - 1)" "be32 (x # xs) p = be32 xs (p - 1)"
    "be48 (x # xs) p = be48 xs (p - 1)" "be64 (x # xs) p = be64 xs (p - 1)"
    "read_alpha n (x # xs) p = read_alpha n xs (p - 1)"
  by (simp_all only: be16_def be32_def read_alpha_def readers_get_be read_at_Cons [OF assms] nth_next [OF assms])

lemma be16_here: "be16 (put_be_loop 2 v @ r) 0 = v"
  by (rule bit_word_eqI) (auto simp: be16_def numeral_2_eq_2 bit_simps)

lemma put_be_loop_4: "put_be_loop 4 v = [ucast (drop_bit 24 v), ucast (drop_bit 16 v), ucast (drop_bit 8 v), ucast v]"
proof -
  have "put_be_loop (Suc (Suc (Suc (Suc 0)))) v =
      [ucast (drop_bit 24 v), ucast (drop_bit 16 v), ucast (drop_bit 8 v), ucast v]"
    by (simp only: put_be_loop.simps drop_bit_drop_bit append.simps) simp
  moreover have "(4::nat) = Suc (Suc (Suc (Suc 0)))" by simp
  ultimately show ?thesis by (simp only:)
qed

lemma be32_here: "be32 (put_be_loop 4 v @ r) 0 = v"
  using u32_bytes [of v] by (simp add: be32_def put_be_loop_4)

lemma be64_here: "be64 (put_be_loop 8 v @ r) 0 = v"
  using get_put_be64 [of v] by (simp add: readers_get_be read_at_all put_be64_def)

lemma be48_here:
  assumes "v < 2 ^ 48"
  shows "be48 (put_be_loop 6 v @ r) 0 = v"
proof -
  have "unat v < 2 ^ 48" using assms by (simp add: word_less_nat_alt)
  then have "take_bit 48 v = v"
    by (simp add: word_unat_eq_iff unsigned_take_bit_eq take_bit_nat_eq_self)
  then show ?thesis by (simp add: readers_get_be read_at_all get_put_loop)
qed

lemma read_alpha_here: "length s = n \<Longrightarrow> read_alpha n (s @ r) 0 = s"
  by (rule nth_equalityI) (simp_all add: read_alpha_def nth_append)

lemmas reads_here [reads] =
  be16_here be32_here be48_here be64_here read_alpha_here

lemma header_here:
  "timestamp_ns h < 2 ^ 48 \<Longrightarrow> read_common_header (c # enc_header h @ r) = h"
  by (simp add: read_common_header_def enc_header_def reads)

lemma length_enc_header [simp]: "length (enc_header h) = 10"
  by (simp add: enc_header_def)

lemma decode_read [reads]:
  "enc_wire (W8 c) @ r = c # r" "enc_wire (W32 v) @ r = put_be_loop 4 v @ r"
  "enc_wire (W64 w) @ r = put_be_loop 8 w @ r" "enc_wire (WA n s) @ r = s @ r"
  by simp_all

lemma length_encode_message:
  "message_ok m \<Longrightarrow> length (encode_message m) = expected_length (message_type m)"
  by (cases m) (simp_all add: encode_message_def message_ok_def expected_length_def)

lemma expected_length_type: "expected_length (message_type m) \<noteq> 0"
  by (cases m) (simp_all add: expected_length_def)

lemmas decode_defs =
  decode_system_event_def decode_stock_directory_def decode_stock_trading_action_def
  decode_reg_sho_restriction_def decode_market_participant_position_def decode_mwcb_decline_level_def
  decode_mwcb_status_def decode_ipo_quoting_period_update_def decode_luld_auction_collar_def
  decode_operational_halt_def decode_add_order_scalar_def decode_add_order_mpid_def
  decode_order_executed_def decode_order_executed_with_price_def decode_order_cancel_def
  decode_order_delete_def decode_order_replace_def decode_trade_non_cross_def decode_cross_trade_def
  decode_broken_trade_def decode_noii_def decode_rpii_def decode_direct_listing_capital_raise_def

lemma length_read_alpha [simp]: "length (read_alpha n d p) = n"
  by (simp add: read_alpha_def)

lemma parse_switch_encode:
  assumes "message_ok m"
  shows "parse_switch (message_type m) (message_header m) (encode_message m @ rest) = Some m"
proof -
  have h: "timestamp_ns (message_header m) < 2 ^ 48" using assms by (simp add: message_ok_def)
  show ?thesis
    using assms
    by (cases m)
       (simp_all add: parse_switch_def encode_message_def message_ok_def reads header_here decode_defs)
qed

lemma parse_encode:
  assumes "message_ok m"
  shows "parse_message (encode_message m @ rest) = Some m"
proof -
  have "timestamp_ns (message_header m) < 2 ^ 48" using assms by (simp add: message_ok_def)
  then have "read_common_header (encode_message m @ rest) = message_header m"
    by (simp add: encode_message_def header_here)
  moreover have "(encode_message m @ rest) ! 0 = message_type m" "encode_message m @ rest \<noteq> []"
    by (simp_all add: encode_message_def)
  ultimately show ?thesis
    using length_encode_message [OF assms] expected_length_type [of m] parse_switch_encode [OF assms]
    by (simp add: parse_message_def Let_def)
qed

section \<open>Writing what was read\<close>

named_theorems glue

lemma read_at_join [glue]:
  "q = p + n \<Longrightarrow> read_at p n d @ read_at q m d = read_at p (n + m) d"
  "q = p + n \<Longrightarrow> read_at p n d @ read_at q m d @ r = read_at p (n + m) d @ r"
proof -
  have "read_at p n d @ read_at (p + n) m d = read_at p (n + m) d"
    by (simp only: read_at_def take_add drop_drop add.commute [of p n])
  then show "q = p + n \<Longrightarrow> read_at p n d @ read_at q m d = read_at p (n + m) d"
    "q = p + n \<Longrightarrow> read_at p n d @ read_at q m d @ r = read_at p (n + m) d @ r"
    by (simp_all flip: append_assoc)
qed

lemma read_at_nth: "p < length d \<Longrightarrow> [d ! p] = read_at p 1 d"
  by (simp add: read_at_def take_Suc_conv_app_nth [of 0] hd_drop_conv_nth)

lemma nth_join [glue]:
  assumes "p < length d" 
  shows "[d ! p] = read_at p 1 d"
    "q = p + 1 \<Longrightarrow> d ! p # read_at q m d = read_at p (1 + m) d"
    "q = p + 1 \<Longrightarrow> d ! p # read_at q m d @ r = read_at p (1 + m) d @ r"
proof -
  have one: "d ! p # xs = read_at p 1 d @ xs" for xs using read_at_nth [OF assms] by (metis append_Cons append_Nil)
  show "[d ! p] = read_at p 1 d" by (rule read_at_nth [OF assms])
  show "q = p + 1 \<Longrightarrow> d ! p # read_at q m d = read_at p (1 + m) d"
    "q = p + 1 \<Longrightarrow> d ! p # read_at q m d @ r = read_at p (1 + m) d @ r"
    unfolding one by (rule read_at_join; assumption)+
qed

lemma read_at_list: "p + n \<le> length d \<Longrightarrow> read_at p n d = map (\<lambda>i. d ! (p + i)) [0..<n]"
  by (rule nth_equalityI) (simp_all add: read_at_def)

lemma put_read16: "put_be_loop 2 (be16 [a, b] 0) = [a, b]"
  using put_get_be16 [of a b] by (simp add: be16_def get_be16_def put_be16_def numeral_2_eq_2)

lemma put_read32:
  "put_be_loop 4 (be32 [a, b, c, e] 0) = [a, b, c, e]"
proof -
  let ?v = "be32 [a, b, c, e] 0"
  note bits = be32_def bit_simps
  have "ucast (drop_bit 24 ?v) = a" "ucast (drop_bit 16 ?v) = b" "ucast (drop_bit 8 ?v) = c" "ucast ?v = e"
    by (rule bit_word_eqI, auto simp: bits dest: bit_imp_le_length)+
  then show ?thesis by (simp add: put_be_loop_4)
qed

lemma put_reads [glue]:
  "p + 2 \<le> length d \<Longrightarrow> put_be_loop 2 (be16 d p) = read_at p 2 d"
  "p + 4 \<le> length d \<Longrightarrow> put_be_loop 4 (be32 d p) = read_at p 4 d"
  "p + 6 \<le> length d \<Longrightarrow> put_be_loop 6 (be48 d p) = read_at p 6 d"
  "p + 8 \<le> length d \<Longrightarrow> put_be_loop 8 (be64 d p) = read_at p 8 d"
  "p + n \<le> length d \<Longrightarrow> read_alpha n d p = read_at p n d"
proof -
  show "put_be_loop 2 (be16 d p) = read_at p 2 d" if "p + 2 \<le> length d"
    using put_read16 [of "d ! p" "d ! (p + 1)"] read_at_list [OF that]
    by (simp add: be16_def upt_rec)
  show "put_be_loop 4 (be32 d p) = read_at p 4 d" if "p + 4 \<le> length d"
    using put_read32 [of "d ! p" "d ! (p + 1)" "d ! (p + 2)" "d ! (p + 3)"] read_at_list [OF that]
    by (simp add: be32_def upt_rec numeral_3_eq_3)
  show "p + 6 \<le> length d \<Longrightarrow> put_be_loop 6 (be48 d p) = read_at p 6 d"
    "p + 8 \<le> length d \<Longrightarrow> put_be_loop 8 (be64 d p) = read_at p 8 d"
    by (simp_all add: readers_get_be put_get_loop)
  show "p + n \<le> length d \<Longrightarrow> read_alpha n d p = read_at p n d"
    by (simp add: read_alpha_def read_at_list)
qed

lemma be48_bound: "p + 6 \<le> length d \<Longrightarrow> be48 d p < 2 ^ 48"
proof -
  assume len: "p + 6 \<le> length d"
  let ?v = "be48 d p"
  have "take_bit 48 ?v = ?v"
  proof (rule bit_word_eqI)
    fix i assume "i < LENGTH(64)"
    show "bit (take_bit 48 ?v) i \<longleftrightarrow> bit ?v i"
      using get_be_bound [of "read_at p 6 d" i] len by (auto simp: bit_simps readers_get_be)
  qed
  then have "unat ?v = take_bit 48 (unat ?v)" by (metis unsigned_take_bit_eq)
  then have "unat ?v < 2 ^ 48" by (metis take_bit_nat_less_exp)
  then show ?thesis by (simp add: word_less_nat_alt)
qed

lemma if_SomeE: "(if c then Some a else r) = Some m \<Longrightarrow> (c \<Longrightarrow> m = a \<Longrightarrow> P) \<Longrightarrow> (r = Some m \<Longrightarrow> P) \<Longrightarrow> P"
  by (cases c) simp_all

lemma head_join:
  assumes "data ! 0 = c" "data \<noteq> []" "n = Suc m"
  shows "c # read_at (Suc 0) m data = read_at 0 n data"
  using assms by (cases data) (simp_all add: read_at_def)

lemma header_join [glue]:
  assumes "11 \<le> length d"
  shows "enc_header (read_common_header d) = read_at 1 10 d"
  using assms by (simp add: enc_header_def read_common_header_def glue)

lemma header_bound: "11 \<le> length d \<Longrightarrow> timestamp_ns (read_common_header d) < 2 ^ 48"
  using be48_bound [of 5 d] by (simp add: read_common_header_def)

lemmas header_bound' = header_bound [simplified]

lemma parse_switch_decode:
  assumes "parse_switch (data ! 0) (read_common_header data) data = Some m"
    "expected_length (data ! 0) \<le> length data" "data \<noteq> []"
  shows "message_ok m \<and> encode_message m = read_at 0 (expected_length (data ! 0)) data"
  using assms unfolding parse_switch_def
  by (elim if_SomeE;
      simp add: expected_length_def encode_message_def message_ok_def glue head_join header_bound' decode_defs)

lemma parse_switch_known:
  "expected_length t \<noteq> 0 \<Longrightarrow> \<exists>m. parse_switch t h data = Some m \<and> message_type m = t"
  by (simp add: expected_length_def parse_switch_def split: if_splits)

lemma parse_decode:
  assumes "parse_message data = Some m"
  shows "message_ok m \<and> message_type m = data ! 0 \<and> expected_length (data ! 0) \<noteq> 0 \<and>
    expected_length (data ! 0) \<le> length data \<and> encode_message m = take (expected_length (data ! 0)) data"
proof -
  have s: "parse_switch (data ! 0) (read_common_header data) data = Some m" "data \<noteq> []"
    "expected_length (data ! 0) \<noteq> 0" "expected_length (data ! 0) \<le> length data"
    using assms by (auto simp: parse_message_def Let_def split: if_splits)
  have "take n data = read_at 0 n data" for n by (simp add: read_at_def)
  then show ?thesis
    using parse_switch_decode [OF s(1,4,2)] parse_switch_known [OF s(3), of "read_common_header data" data] s by auto
qed

section \<open>Properties\<close>

text \<open>C25: every message of each of the 23 types, laid out on the wire as the specification orders its
  fields, parses back to itself, whatever bytes follow it; and it takes exactly the
  \<open>expected_length\<close> of its type.\<close>

theorem itch_parse_encode:
  assumes "message_ok m"
  shows "parse_message (encode_message m @ rest) = Some m \<and>
    length (encode_message m) = expected_length (message_type m)"
  using parse_encode [OF assms] length_encode_message [OF assms] by blast

definition demo_add :: message where
  "demo_add = AddOrderNoMPID \<lparr>ao_h = \<lparr>stock_locate = 1, tracking_number = 2, timestamp_ns = 34200000000000\<rparr>,
     ao_order_ref_number = 77, ao_buy_sell_indicator = 66, ao_shares = 100,
     ao_stock = [65, 65, 80, 76, 32, 32, 32, 32], ao_price = 5853300\<rparr>"

theorem itch_parse_encode_witness:
  "parse_message (encode_message demo_add @ [1, 2, 3]) = Some demo_add \<and> length (encode_message demo_add) = 36"
  using itch_parse_encode [of demo_add "[1, 2, 3]"]
  by (simp add: message_ok_def demo_add_def expected_length_def)

text \<open>C17: parsing loses nothing and invents nothing: whenever the parser returns a message, writing the
  message on the wire gives back exactly the bytes of the record it was read from, up to the type's
  length, and the message has the type of the first byte.\<close>

theorem itch_parse_lossless:
  assumes "parse_message data = Some m"
  shows "message_type m = data ! 0 \<and> message_ok m \<and> expected_length (data ! 0) \<le> length data \<and>
    encode_message m = take (expected_length (data ! 0)) data"
  using parse_decode [OF assms] by blast

theorem itch_parse_lossless_witness:
  "\<exists>m. parse_message (68 # replicate 18 (7::u8)) = Some m \<and> encode_message m = 68 # replicate 18 7"
proof -
  have "expected_length 68 = 19" by (simp add: expected_length_def)
  moreover obtain m where m: "parse_message (68 # replicate 18 (7::u8)) = Some m"
    using parse_switch_known [of 68 "read_common_header (68 # replicate 18 7)" "68 # replicate 18 7"] calculation
    by (auto simp: parse_message_def Let_def)
  ultimately show ?thesis using itch_parse_lossless [OF m] m by simp
qed

text \<open>C36: the parser accepts a buffer exactly when its first byte is one of the 23 known type codes and the
  buffer has at least that type's length; everything else (empty, unknown type, truncated) is
  refused without reading on, and the bytes behind the record do not matter.\<close>

theorem itch_parse_accepts:
  "(parse_message data = None \<longleftrightarrow>
     data = [] \<or> expected_length (data ! 0) = 0 \<or> length data < expected_length (data ! 0)) \<and>
   (data \<noteq> [] \<and> expected_length (data ! 0) \<noteq> 0 \<and> expected_length (data ! 0) \<le> length data \<longrightarrow>
      parse_message (take (expected_length (data ! 0)) data @ rest) = parse_message data)"
proof -
  have accepts: "parse_message data = None \<longleftrightarrow>
      data = [] \<or> expected_length (data ! 0) = 0 \<or> length data < expected_length (data ! 0)"
    using parse_switch_known [of "data ! 0" "read_common_header data" data]
    by (auto simp: parse_message_def Let_def)
  let ?n = "expected_length (data ! 0)"
  have "parse_message (take ?n data @ rest) = parse_message data"
    if n: "data \<noteq> []" "?n \<noteq> 0" "?n \<le> length data"
  proof -
    have "parse_message data \<noteq> None" using accepts n by auto
    then obtain m where m: "parse_message data = Some m" by blast
    from parse_encode [of m rest] parse_decode [OF m] m show ?thesis by simp
  qed
  with accepts show ?thesis by blast
qed

theorem itch_parse_accepts_witness:
  "parse_message [65, 1, 2] = None \<and> parse_message [90, 1, 2] = None \<and>
   parse_message (take 19 (68 # replicate 40 (7::u8)) @ [9]) = parse_message (68 # replicate 40 7)"
  using itch_parse_accepts [of "[65, 1, 2]" "[]"] itch_parse_accepts [of "[90, 1, 2]" "[]"]
    itch_parse_accepts [of "68 # replicate 40 (7::u8)" "[9]"]
  by (simp add: expected_length_def)

end
