(* ===== verification/Itch_Simd.thy ===== *)
theory Itch_Simd
  imports Itch_Wire
begin

text \<open>
  The NEON batch decoder of Add Order messages (\<open>cpp/feed/itch_simd_neon.cpp\<close>). The byte-reversal
  instructions \<open>vrev64q_u8\<close> and \<open>vrev32q_u8\<close> are parameters; loads, \<open>vcombine\<close>, reinterpretations and lane
  reads are bytes in memory order, read little-endian as on the ARM64 target. A \<open>std::get\<close> of another
  alternative throws \<open>bad_variant_access\<close>.
\<close>

datatype simd_error = Bad_Variant_Access

text \<open>A lane of a register, and \<open>memcpy\<close> into a native integer: little-endian.\<close>

definition lane64 :: "bytes \<Rightarrow> nat \<Rightarrow> u64" where
  "lane64 v i = be64 (rev (read_at (8 * i) 8 v)) 0"

definition lane32 :: "bytes \<Rightarrow> nat \<Rightarrow> u32" where
  "lane32 v i = be32 (rev (read_at (4 * i) 4 v)) 0"

definition decode_four :: "(bytes \<Rightarrow> bytes) \<Rightarrow> (bytes \<Rightarrow> bytes) \<Rightarrow> bytes list \<Rightarrow> add_order_no_mpid list" where
  "decode_four vrev64q_u8 vrev32q_u8 m =
     (let ref01 = read_at 11 8 (m ! 0) @ read_at 11 8 (m ! 1);
          ref23 = read_at 11 8 (m ! 2) @ read_at 11 8 (m ! 3);
          refs01 = vrev64q_u8 ref01;
          refs23 = vrev64q_u8 ref23;
          refs = [lane64 refs01 0, lane64 refs01 1, lane64 refs23 0, lane64 refs23 1];
          shares_raw = concat (map (\<lambda>k. read_at 20 4 (m ! k)) [0..<4]);
          price_raw = concat (map (\<lambda>k. read_at 32 4 (m ! k)) [0..<4]);
          shares_v = vrev32q_u8 shares_raw;
          price_v = vrev32q_u8 price_raw
      in map (\<lambda>k. \<lparr>ao_h = read_common_header (m ! k), ao_order_ref_number = refs ! k,
                   ao_buy_sell_indicator = m ! k ! 19, ao_shares = lane32 shares_v k,
                   ao_stock = read_alpha 8 (m ! k) 24, ao_price = lane32 price_v k\<rparr>) [0..<4])"

text \<open>The scalar tail parses the 36 bytes at the pointer.\<close>

fun decode_tail :: "bytes list \<Rightarrow> add_order_no_mpid list \<Rightarrow> simd_error + add_order_no_mpid list" where
  "decode_tail [] out = Inr out"
| "decode_tail (m # ms) out =
     (case parse_message (take (expected_length type_A) m) of
        None \<Rightarrow> decode_tail ms out
      | Some (AddOrderNoMPID a) \<Rightarrow> decode_tail ms (out @ [a])
      | Some _ \<Rightarrow> Inl Bad_Variant_Access)"

fun decode_batch_loop ::
    "(bytes \<Rightarrow> bytes) \<Rightarrow> (bytes \<Rightarrow> bytes) \<Rightarrow> bytes list \<Rightarrow> add_order_no_mpid list \<Rightarrow> simd_error + add_order_no_mpid list" where
  "decode_batch_loop r64 r32 (m0 # m1 # m2 # m3 # ms) out =
     decode_batch_loop r64 r32 ms (out @ decode_four r64 r32 [m0, m1, m2, m3])"
| "decode_batch_loop r64 r32 ms out = decode_tail ms out"

definition decode_add_order_batch ::
    "(bytes \<Rightarrow> bytes) \<Rightarrow> (bytes \<Rightarrow> bytes) \<Rightarrow> bytes list \<Rightarrow> simd_error + add_order_no_mpid list" where
  "decode_add_order_batch r64 r32 msgs = decode_batch_loop r64 r32 msgs []"

text \<open>What the instructions do to a 128-bit register: they reverse the bytes of each 64-bit, 32-bit lane.\<close>

definition reverses_lanes :: "nat \<Rightarrow> (bytes \<Rightarrow> bytes) \<Rightarrow> bool" where
  "reverses_lanes n f \<longleftrightarrow>
     (\<forall>v. length v = 16 \<longrightarrow> length (f v) = 16 \<and> (\<forall>i < 16 div n. read_at (n * i) n (f v) = rev (read_at (n * i) n v)))"

text \<open>A complete Add Order message.\<close>

definition is_add_order :: "bytes \<Rightarrow> bool" where
  "is_add_order m \<longleftrightarrow> expected_length type_A \<le> length m \<and> m ! 0 = type_A"

lemma be_read_at: "be64 (read_at p 8 m) 0 = be64 m p" "p + 4 \<le> length m \<Longrightarrow> be32 (read_at p 4 m) 0 = be32 m p"
  by (simp_all add: be64_def be32_def read_at_def)

lemma decode_four_scalar:
  assumes "reverses_lanes 8 r64" "reverses_lanes 4 r32" "list_all is_add_order [a, b, c, d]"
  shows "decode_four r64 r32 [a, b, c, d] = map decode_add_order_scalar [a, b, c, d]"
proof -
  have len: "36 \<le> length a" "36 \<le> length b" "36 \<le> length c" "36 \<le> length d"
    using assms(3) by (simp_all add: is_add_order_def expected_length_def)
  have lane8: "lane64 (r64 (x @ y)) 0 = be64 x 0" "lane64 (r64 (x @ y)) 1 = be64 y 0"
    if "length x = 8" "length y = 8" for x y
  proof -
    have r: "read_at (8 * i) 8 (r64 (x @ y)) = rev (read_at (8 * i) 8 (x @ y))" if "i < 2" for i
      using assms(1) \<open>length x = 8\<close> \<open>length y = 8\<close> that by (simp add: reverses_lanes_def)
    show "lane64 (r64 (x @ y)) 0 = be64 x 0" "lane64 (r64 (x @ y)) 1 = be64 y 0"
      using r [of 0] r [of 1] that by (simp_all add: lane64_def read_at_all read_at_here)
  qed
  have lane4: "lane32 (r32 (w @ x @ y @ z)) 0 = be32 w 0" "lane32 (r32 (w @ x @ y @ z)) 1 = be32 x 0"
    "lane32 (r32 (w @ x @ y @ z)) 2 = be32 y 0" "lane32 (r32 (w @ x @ y @ z)) 3 = be32 z 0"
    if "length w = 4" "length x = 4" "length y = 4" "length z = 4" for w x y z
  proof -
    have r: "read_at (4 * i) 4 (r32 (w @ x @ y @ z)) = rev (read_at (4 * i) 4 (w @ x @ y @ z))" if "i < 4" for i
      using assms(2) \<open>length w = 4\<close> \<open>length x = 4\<close> \<open>length y = 4\<close> \<open>length z = 4\<close> that
      by (simp add: reverses_lanes_def)
    show "lane32 (r32 (w @ x @ y @ z)) 0 = be32 w 0" "lane32 (r32 (w @ x @ y @ z)) 1 = be32 x 0"
      "lane32 (r32 (w @ x @ y @ z)) 2 = be32 y 0" "lane32 (r32 (w @ x @ y @ z)) 3 = be32 z 0"
      using r [of 0] r [of 1] r [of 2] r [of 3] that
      by (simp_all add: lane32_def read_at_all read_at_here)
  qed
  have four: "[0..<4] = [0, 1, 2, 3::nat]" by (simp add: upt_rec)
  have nth: "[a, b, c, d] ! 0 = a" "[a, b, c, d] ! 1 = b" "[a, b, c, d] ! 2 = c" "[a, b, c, d] ! 3 = d" by simp_all
  show ?thesis
    unfolding decode_four_def Let_def four list.map nth concat.simps append_Nil2
    using len by (simp add: lane8 [simplified] lane4 [simplified] be_read_at decode_add_order_scalar_def)
qed

lemma parse_add_order:
  "is_add_order m \<Longrightarrow> parse_message (take (expected_length type_A) m) = Some (AddOrderNoMPID (decode_add_order_scalar m))"
proof -
  assume m: "is_add_order m"
  then have "m \<noteq> []" "m ! 0 = 65" "36 \<le> length m" by (auto simp: is_add_order_def expected_length_def)
  then have "parse_message m = Some (AddOrderNoMPID (decode_add_order_scalar m))"
    by (simp add: parse_message_def Let_def parse_switch_def expected_length_def)
  then obtain a where "parse_message m = Some a" "a = AddOrderNoMPID (decode_add_order_scalar m)" by blast
  moreover have "parse_message (take (expected_length (m ! 0)) m @ []) = Some a"
    using parse_encode [of a "[]"] parse_decode [of m a] calculation by simp
  ultimately show ?thesis using m by (simp add: is_add_order_def)
qed

lemma decode_tail_scalar:
  "list_all is_add_order ms \<Longrightarrow> decode_tail ms out = Inr (out @ map decode_add_order_scalar ms)"
  by (induction ms arbitrary: out) (simp_all add: parse_add_order)

lemma decode_batch_loop_scalar:
  "reverses_lanes 8 r64 \<Longrightarrow> reverses_lanes 4 r32 \<Longrightarrow> list_all is_add_order ms \<Longrightarrow>
     decode_batch_loop r64 r32 ms out = Inr (out @ map decode_add_order_scalar ms)"
  by (induction r64 r32 ms out rule: decode_batch_loop.induct)
     (simp_all add: decode_four_scalar parse_add_order decode_tail_scalar)

text \<open>C26: the vectorised decoder is the scalar one: on a batch of complete Add Order messages, of any
  number, it returns the structs that decoding each message on its own gives, in order, and these
  are what \<open>parse_message\<close> returns for them.\<close>

theorem simd_batch_is_scalar:
  assumes "reverses_lanes 8 vrev64q_u8" "reverses_lanes 4 vrev32q_u8" "list_all is_add_order msgs"
  shows "decode_add_order_batch vrev64q_u8 vrev32q_u8 msgs = Inr (map decode_add_order_scalar msgs) \<and>
    list_all (\<lambda>m. parse_message m = Some (AddOrderNoMPID (decode_add_order_scalar m))) msgs"
proof -
  have "parse_message m = Some (AddOrderNoMPID (decode_add_order_scalar m))" if "is_add_order m" for m
    using that by (auto simp: is_add_order_def parse_message_def Let_def parse_switch_def expected_length_def)
  then show ?thesis
    using decode_batch_loop_scalar [OF assms(1,2,3), of "[]"] assms(3)
    by (auto simp: decode_add_order_batch_def list_all_iff)
qed

definition rev_lanes :: "nat \<Rightarrow> bytes \<Rightarrow> bytes" where
  "rev_lanes n v = concat (map (\<lambda>i. rev (read_at (n * i) n v)) [0..<16 div n])"

lemma rev_lanes_ok: "reverses_lanes 8 (rev_lanes 8)" "reverses_lanes 4 (rev_lanes 4)"
proof -
  have "i < 2 \<Longrightarrow> i = 0 \<or> i = 1" "i < 4 \<Longrightarrow> i = 0 \<or> i = 1 \<or> i = 2 \<or> i = 3" for i :: nat by auto
  then show "reverses_lanes 8 (rev_lanes 8)" "reverses_lanes 4 (rev_lanes 4)"
    by (auto simp: reverses_lanes_def rev_lanes_def upt_rec read_at_all read_at_here
        dest!: \<open>\<And>i :: nat. i < 2 \<Longrightarrow> i = 0 \<or> i = 1\<close> \<open>\<And>i :: nat. i < 4 \<Longrightarrow> i = 0 \<or> i = 1 \<or> i = 2 \<or> i = 3\<close>)
qed

theorem simd_batch_is_scalar_witness:
  "decode_add_order_batch (rev_lanes 8) (rev_lanes 4) (replicate 5 (65 # replicate 35 7)) =
     Inr (replicate 5 (decode_add_order_scalar (65 # replicate 35 7)))"
  using simd_batch_is_scalar [OF rev_lanes_ok, of "replicate 5 (65 # replicate 35 7)"]
  by (simp add: is_add_order_def expected_length_def list_all_iff)

end
