(* ===== verification/Itch_File.thy ===== *)
theory Itch_File
  imports Itch_Wire
begin

text \<open>
  Nasdaq's historical files (\<open>cpp/feed/itch_binaryfile_reader.h\<close>): records behind a two-byte big-endian
  length. The open file is the bytes not yet read; \<open>fread\<close> returns fewer bytes only at the end of the
  file. Opening and closing the file are not modelled.
\<close>

definition fread :: "nat \<Rightarrow> bytes \<Rightarrow> bytes \<times> bytes" where
  "fread n f = (take n f, drop n f)"

definition next_raw :: "bytes \<Rightarrow> bytes option \<times> bytes" where
  "next_raw f =
     (let (len_bytes, f1) = fread 2 f
      in if length len_bytes \<noteq> 2 then (None, f1)
         else let len = unat (push_bit 8 (ucast (len_bytes ! 0)) OR ucast (len_bytes ! 1) :: u64)
           in if len = 0 then (None, f1)
              else let (buf, f2) = fread len f1
                in if length buf \<noteq> len then (None, f2) else (Some buf, f2))"

lemma next_raw_shorter: "next_raw f = (Some r, f') \<Longrightarrow> length f' < length f"
  by (auto simp: next_raw_def fread_def Let_def split: if_splits)

text \<open>The loop of the reader's users: \<open>while (auto rec = reader.next_raw())\<close>.\<close>

function read_all :: "bytes \<Rightarrow> bytes list" where
  "read_all f = (case next_raw f of (None, _) \<Rightarrow> [] | (Some r, f') \<Rightarrow> r # read_all f')"
  by pat_completeness auto
termination
  by (relation "measure length") (auto dest!: next_raw_shorter [OF sym])

declare read_all.simps [simp del]

section \<open>Framed files\<close>

definition frame :: "bytes \<Rightarrow> bytes" where
  "frame r = put_be16 (word_of_nat (length r)) @ r"

definition record_ok :: "bytes \<Rightarrow> bool" where
  "record_ok r \<longleftrightarrow> r \<noteq> [] \<and> length r < 2 ^ 16"

lemma record_length:
  "unat (push_bit 8 (ucast a) OR ucast b :: u64) = unat (get_be16 [a, b] 0)" for a b :: u8
proof -
  have "push_bit 8 (ucast a) OR ucast b = (ucast (get_be16 [a, b] 0) :: u64)"
    unfolding get_be16_def by (rule bit_word_eqI) (auto simp: bit_simps dest: bit_imp_le_length)
  moreover have "unat (get_be16 [a, b] 0) < 2 ^ 64"
    using unsigned_less [of "get_be16 [a, b] 0", where ?'a = nat] by simp
  ultimately show ?thesis by (simp only: unsigned_ucast_eq take_bit_nat_eq_self) (simp add: take_bit_nat_eq_self)
qed

lemma frame_length:
  assumes "length r < 2 ^ 16"
  shows "unat (get_be16 (put_be16 (word_of_nat (length r)) @ f) 0) = length r"
  using assms by (simp add: get_put_be16 unat_of_nat)

lemma next_raw_frame_prefix:
  assumes "record_ok r" "2 \<le> n"
  shows "next_raw (take n (frame r) @ f) =
    (if length r \<le> n - 2 + length f then (Some (take (length r) (take (n - 2) r @ f)), drop (length r) (take (n - 2) r @ f))
     else (None, []))"
proof -
  let ?w = "word_of_nat (length r) :: u16"
  obtain a b where ab: "put_be16 ?w = [a, b]" by (simp add: put_be16_def)
  have w: "unat (get_be16 [a, b] 0) = length r"
    using frame_length [of r "[]"] assms(1) ab by (simp add: record_ok_def)
  have f: "take n (frame r) = a # b # take (n - 2) r"
    using assms(2) by (simp add: frame_def ab take_Cons' numeral_2_eq_2)
  show ?thesis
    unfolding f next_raw_def fread_def Let_def
    using assms(1) by (auto simp: record_ok_def w record_length min_def)
qed

lemma next_raw_frame:
  assumes "record_ok r"
  shows "next_raw (frame r @ f) = (Some r, f)"
proof -
  have "length (frame r) = length r + 2" by (simp add: frame_def)
  then show ?thesis using next_raw_frame_prefix [OF assms, of "length r + 2" f] by simp
qed

lemma next_raw_truncated:
  assumes "record_ok r" "n < length (frame r)"
  shows "fst (next_raw (take n (frame r))) = None"
proof (cases "n < 2")
  case False
  moreover have "length (frame r) = length r + 2" by (simp add: frame_def)
  ultimately show ?thesis using next_raw_frame_prefix [OF assms(1), of n "[]"] assms(2) by simp
qed (simp add: next_raw_def fread_def min_def)

lemma read_all_frames:
  assumes "list_all record_ok rs" "fst (next_raw f) = None"
  shows "read_all (concat (map frame rs) @ f) = rs"
  using assms(1)
proof (induction rs)
  case Nil
  then show ?case using assms(2) by (subst read_all.simps) (auto split: prod.split option.split)
next
  case (Cons r rs)
  then show ?case by (subst read_all.simps) (simp add: next_raw_frame)
qed

section \<open>Properties\<close>

text \<open>C35: reading a historical file gives back the records it was framed from, in order, and stops cleanly at
  the end, also when the last record was cut off anywhere; and a file of ITCH messages, read and
  parsed, gives exactly those messages.\<close>

theorem binary_file_roundtrip:
  assumes "list_all record_ok rs" "record_ok r" "n < length (frame r)" "list_all message_ok ms"
  shows "read_all (concat (map frame rs)) = rs \<and> read_all (concat (map frame rs) @ take n (frame r)) = rs \<and>
    map parse_message (read_all (concat (map (\<lambda>m. frame (encode_message m)) ms) @ take n (frame r))) = map Some ms"
proof -
  have none: "fst (next_raw []) = None" by (simp add: next_raw_def fread_def)
  note tail = next_raw_truncated [OF assms(2,3)]
  have recs: "list_all record_ok (map encode_message ms)"
    using assms(4)
  proof (induction ms)
    case (Cons m ms)
    have "length (encode_message m) \<le> 50" "encode_message m \<noteq> []"
      using length_encode_message [of m] Cons.prems by (auto simp: expected_length_def encode_message_def)
    then show ?case using Cons by (simp add: record_ok_def)
  qed simp
  have "map frame (map encode_message ms) = map (\<lambda>m. frame (encode_message m)) ms" by simp
  from read_all_frames [OF recs tail, unfolded this] have "read_all (concat (map (\<lambda>m. frame (encode_message m)) ms) @ take n (frame r)) = map encode_message ms" .
  moreover have "map parse_message (map encode_message ms) = map Some ms"
    using assms(4)
  proof (induction ms)
    case (Cons m ms)
    then show ?case using parse_encode [of m "[]"] by simp
  qed simp
  ultimately show ?thesis
    using read_all_frames [OF assms(1) none] read_all_frames [OF assms(1) tail] by simp
qed

theorem binary_file_roundtrip_witness:
  "read_all ([0, 2, 7, 8] @ take 3 [0, 3, 9, 9, 9]) = [[7, 8]] \<and>
   map parse_message (read_all (frame (encode_message demo_add) @ [0, 3, 9])) = [Some demo_add]"
proof -
  have "record_ok [7, 8]" "record_ok [9, 9, 9]" "message_ok demo_add" by (simp_all add: record_ok_def message_ok_def demo_add_def)
  moreover have f: "frame [7, 8] = [0, 2, 7, 8]" "frame [9, 9, 9] = [0, 3, 9, 9, 9]" by code_simp+
  ultimately show ?thesis using binary_file_roundtrip [of "[[7, 8]]" "[9, 9, 9]" 3 "[demo_add]"] by simp
qed

end
