(* ===== verification/Risk.thy ===== *)
theory Risk
  imports Complex_Main Book_V2 Bytes
begin

text \<open>
  Pre-trade risk (\<open>cpp/feed/risk.h\<close>, \<open>risk.cpp\<close>). The \<open>unordered_map\<close>s are partial maps. The price band is
  computed in \<open>double\<close>: every conversion and operation rounds, by the parameter \<open>rnd\<close>, the rounding of the
  floating-point unit, on rational values. The text of a rejection is the values it prints.
\<close>

section \<open>The engine\<close>

record risk_config =
  max_order_size :: u64
  min_price :: int
  max_price :: int
  price_band_pct :: rat

definition default_config :: risk_config where
  "default_config = \<lparr>max_order_size = 1000000, min_price = 1, max_price = 2000000000, price_band_pct = 1 / 4\<rparr>"

datatype reject_reason = NoReason | OrderTooLarge | PriceOutOfBounds | PriceBandViolation | SelfTrade

datatype detail =
    NoDetail
  | QtyExceeds u64 u64
  | PriceOutside int int int
  | PriceAway int rat int rat
  | MpidRests bytes bytes
  | BookError book_error

record verdict =
  accepted :: bool
  reason :: reject_reason
  detail :: detail

record risk_engine =
  cfg :: risk_config
  last_trade_price :: "bytes \<Rightarrow> int option"
  resting_count :: "bytes \<Rightarrow> int option"

definition new_risk_engine :: "risk_config \<Rightarrow> risk_engine" where
  "new_risk_engine c = \<lparr>cfg = c, last_trade_price = Map.empty, resting_count = Map.empty\<rparr>"

definition risk_key :: "bytes \<Rightarrow> bytes \<Rightarrow> side \<Rightarrow> bytes" where
  "risk_key symbol mpid sd = symbol @ [1] @ mpid @ [1] @ [if sd = Buy then 66 else 83]"

definition reference_price :: "risk_engine \<Rightarrow> bytes \<Rightarrow> book \<Rightarrow> int option" where
  "reference_price eng symbol book =
     (case last_trade_price eng symbol of Some p \<Rightarrow> Some p
      | None \<Rightarrow>
          if has_bid book \<and> has_ask book then Some ((best_bid book + best_ask book) sdiv 2)
          else if has_bid book then Some (best_bid book)
          else if has_ask book then Some (best_ask book)
          else None)"

text \<open>\<open>abs(double(price) - double(reference)) / double(reference)\<close>\<close>

definition price_deviation :: "(rat \<Rightarrow> rat) \<Rightarrow> int \<Rightarrow> int \<Rightarrow> rat" where
  "price_deviation rnd price ref =
     rnd (\<bar>rnd (rnd (of_int price) - rnd (of_int ref))\<bar> / rnd (of_int ref))"

definition risk_check :: "(rat \<Rightarrow> rat) \<Rightarrow> risk_engine \<Rightarrow> order_request \<Rightarrow> bytes \<Rightarrow> bytes \<Rightarrow> book \<Rightarrow> verdict" where
  "risk_check rnd eng req symbol mpid book =
     (if max_order_size (cfg eng) < req_qty req then
        \<lparr>accepted = False, reason = OrderTooLarge, detail = QtyExceeds (req_qty req) (max_order_size (cfg eng))\<rparr>
      else if req_price req < min_price (cfg eng) \<or> max_price (cfg eng) < req_price req then
        \<lparr>accepted = False, reason = PriceOutOfBounds,
         detail = PriceOutside (req_price req) (min_price (cfg eng)) (max_price (cfg eng))\<rparr>
      else
        let band = (case reference_price eng symbol book of
                      Some ref \<Rightarrow> if 0 < ref then Some (ref, price_deviation rnd (req_price req) ref) else None
                    | None \<Rightarrow> None);
            violation = (case band of Some (ref, deviation) \<Rightarrow> price_band_pct (cfg eng) < deviation | None \<Rightarrow> False)
        in if violation then
             \<lparr>accepted = False, reason = PriceBandViolation,
              detail = PriceAway (req_price req) (snd (the band)) (fst (the band)) (price_band_pct (cfg eng))\<rparr>
           else if mpid \<noteq> [] \<and>
               (case resting_count eng (risk_key symbol mpid (if req_side req = Buy then Sell else Buy)) of
                  Some n \<Rightarrow> 0 < n | None \<Rightarrow> False) then
             \<lparr>accepted = False, reason = SelfTrade, detail = MpidRests mpid symbol\<rparr>
           else \<lparr>accepted = True, reason = NoReason, detail = NoDetail\<rparr>)"

definition on_trade :: "bytes \<Rightarrow> int \<Rightarrow> risk_engine \<Rightarrow> risk_engine" where
  "on_trade symbol price eng = eng\<lparr>last_trade_price := (last_trade_price eng)(symbol \<mapsto> price)\<rparr>"

text \<open>\<open>++resting_count_[key]\<close> starts from 0 for a new key.\<close>

definition note_resting :: "bytes \<Rightarrow> bytes \<Rightarrow> side \<Rightarrow> risk_engine \<Rightarrow> risk_engine" where
  "note_resting symbol mpid sd eng =
     (if mpid = [] then eng
      else let k = risk_key symbol mpid sd;
               n = (case resting_count eng k of Some n \<Rightarrow> n | None \<Rightarrow> 0)
           in eng\<lparr>resting_count := (resting_count eng)(k \<mapsto> n + 1)\<rparr>)"

definition note_removed :: "bytes \<Rightarrow> bytes \<Rightarrow> side \<Rightarrow> risk_engine \<Rightarrow> risk_engine" where
  "note_removed symbol mpid sd eng =
     (if mpid = [] then eng
      else let k = risk_key symbol mpid sd in
        case resting_count eng k of
          Some n \<Rightarrow> if 0 < n then eng\<lparr>resting_count := (resting_count eng)(k \<mapsto> n - 1)\<rparr> else eng
        | None \<Rightarrow> eng)"

section \<open>Keys\<close>

text \<open>The separator keeps the parts of a key apart as long as the symbol does not contain it.\<close>

lemma sep_split: "x \<notin> set as \<Longrightarrow> x \<notin> set bs \<Longrightarrow> as @ x # as' = bs @ x # bs' \<longleftrightarrow> as = bs \<and> as' = bs'"
proof (induction as arbitrary: bs)
  case Nil
  then show ?case by (cases bs) auto
next
  case (Cons a as)
  then show ?case by (cases bs) auto
qed

lemma risk_key_inj:
  assumes "1 \<notin> set s" "1 \<notin> set s'"
  shows "risk_key s m sd = risk_key s' m' sd' \<longleftrightarrow> s = s' \<and> m = m' \<and> sd = sd'"
  using sep_split [OF assms, of "m @ [1, if sd = Buy then 66 else 83]" "m' @ [1, if sd' = Buy then 66 else 83]"]
  by (cases sd; cases sd') (auto simp: risk_key_def)

definition count_of :: "risk_engine \<Rightarrow> bytes \<Rightarrow> bytes \<Rightarrow> side \<Rightarrow> int" where
  "count_of eng symbol mpid sd = (case resting_count eng (risk_key symbol mpid sd) of Some n \<Rightarrow> n | None \<Rightarrow> 0)"

lemma on_trade_count [simp]: "count_of (on_trade s p eng) = count_of eng" "cfg (on_trade s p eng) = cfg eng"
  by (simp_all add: on_trade_def count_of_def fun_eq_iff)

lemma cfg_notes [simp]: "cfg (note_resting s m sd eng) = cfg eng" "cfg (note_removed s m sd eng) = cfg eng"
  by (simp_all add: note_resting_def note_removed_def Let_def split: option.split)

lemma count_note_resting:
  assumes "1 \<notin> set s" "1 \<notin> set s'"
  shows "count_of (note_resting s m sd eng) s' m' sd' =
    count_of eng s' m' sd' + (if m \<noteq> [] \<and> s = s' \<and> m = m' \<and> sd = sd' then 1 else 0)"
proof (cases "s = s' \<and> m = m' \<and> sd = sd'")
  case False
  then have "risk_key s' m' sd' \<noteq> risk_key s m sd" using risk_key_inj [OF assms, of m sd m' sd'] by metis
  then show ?thesis using False by (simp add: count_of_def note_resting_def Let_def)
qed (simp add: count_of_def note_resting_def Let_def)

lemma count_note_removed:
  assumes "1 \<notin> set s" "1 \<notin> set s'"
  shows "count_of (note_removed s m sd eng) s' m' sd' =
    count_of eng s' m' sd' -
      (if m \<noteq> [] \<and> s = s' \<and> m = m' \<and> sd = sd' \<and> 0 < count_of eng s m sd then 1 else 0)"
proof (cases "s = s' \<and> m = m' \<and> sd = sd'")
  case False
  then have "risk_key s' m' sd' \<noteq> risk_key s m sd" using risk_key_inj [OF assms, of m sd m' sd'] by metis
  then show ?thesis using False by (auto simp: count_of_def note_removed_def Let_def split: option.split)
qed (auto simp: count_of_def note_removed_def Let_def split: option.split)

section \<open>The price band in floating point\<close>

text \<open>Some of the values a \<open>double\<close> has exactly, and what IEEE 754 says of rounding to nearest: it is
  monotone and no double is nearer.\<close>

definition is_double :: "rat \<Rightarrow> bool" where
  "is_double y \<longleftrightarrow> (\<exists>m k. \<bar>m\<bar> \<le> 2 ^ 53 \<and> k \<le> 1000 \<and> y = of_int m / 2 ^ k)"

definition rounds_to_nearest :: "(rat \<Rightarrow> rat) \<Rightarrow> bool" where
  "rounds_to_nearest rnd \<longleftrightarrow>
     (\<forall>x y. x \<le> y \<longrightarrow> rnd x \<le> rnd y) \<and> (\<forall>x y. is_double y \<longrightarrow> \<bar>rnd x - x\<bar> \<le> \<bar>y - x\<bar>)"

lemma is_double_int: "\<bar>m\<bar> \<le> 2 ^ 53 \<Longrightarrow> is_double (of_int m)"
  unfolding is_double_def by (intro exI [of _ m] exI [of _ 0]) simp

lemma rnd_double: "rounds_to_nearest rnd \<Longrightarrow> is_double y \<Longrightarrow> rnd y = y"
  by (fastforce simp: rounds_to_nearest_def dest: spec [of _ y])

lemma nearest_above: "0 < e \<Longrightarrow> a + e < x \<Longrightarrow> \<bar>rx - x\<bar> \<le> \<bar>a + 2 * e - x\<bar> \<Longrightarrow> a < rx" for a e x rx :: rat
  by (cases "a + 2 * e \<le> x") (simp_all add: abs_if split: if_splits)

lemma rnd_quarter:
  assumes r: "rounds_to_nearest rnd" and n: "0 \<le> n" and d: "0 < d" "d < 2 ^ 53"
  shows "1 / 4 < rnd (of_int n / of_int d) \<longleftrightarrow> d < 4 * n"
proof -
  let ?x = "of_int n / of_int d :: rat"
  have quarter: "is_double (1 / 4)" unfolding is_double_def by (intro exI [of _ 1] exI [of _ 2]) simp
  let ?y = "1 / 4 + 2 * (1 / 2 ^ 55) :: rat"
  have "is_double (of_int (2 ^ 52 + 1) / 2 ^ 54)"
    unfolding is_double_def by (rule exI [of _ "2 ^ 52 + 1"], rule exI [of _ 54]) (intro conjI refl; simp)
  moreover have "?y = of_int (2 ^ 52 + 1) / 2 ^ 54" by simp
  ultimately have y: "is_double ?y" by (simp only:)
  show ?thesis
  proof
    assume more: "d < 4 * n"
    have above: "1 / 4 + 1 / 2 ^ 55 < ?x"
    proof -
      have dr: "0 < (of_int d :: rat)" "(of_int d :: rat) < 2 ^ 53" using d of_int_less_iff [of d "2 ^ 53", where ?'a = rat] by simp_all
      have "(of_int d + 1 :: rat) \<le> 4 * of_int n" using more of_int_le_iff [of "d + 1" "4 * n", where ?'a = rat] by simp
      then have "(of_int d + 1) / (4 * of_int d) \<le> 4 * of_int n / (4 * (of_int d :: rat))"
        using dr(1) by (intro divide_right_mono) simp_all
      moreover have "1 / 4 + 1 / (4 * of_int d) = (of_int d + 1) / (4 * (of_int d :: rat))"
        using dr(1) by (simp add: field_simps)
      ultimately have "1 / 4 + 1 / (4 * of_int d) \<le> ?x" by simp
      moreover have "1 / 2 ^ 55 < 1 / (4 * of_int d :: rat)" using dr by (simp add: field_simps)
      ultimately show ?thesis
        using add_strict_left_mono [of "1 / 2 ^ 55" "1 / (4 * of_int d)" "1 / 4 :: rat"] by (meson less_le_trans)
    qed
    have near: "\<bar>rnd ?x - ?x\<bar> \<le> \<bar>?y - ?x\<bar>" using r y unfolding rounds_to_nearest_def by blast
    show "1 / 4 < rnd ?x" by (rule nearest_above [OF _ above near]) simp
  next
    assume more: "1 / 4 < rnd ?x"
    show "d < 4 * n"
    proof (rule ccontr)
      assume "\<not> d < 4 * n"
      then have "4 * (of_int n :: rat) \<le> of_int d" using of_int_le_iff [of "4 * n" d, where ?'a = rat] by simp
      then have "?x \<le> 1 / 4" using d(1) by (simp add: field_simps)
      then have "rnd ?x \<le> rnd (1 / 4)" using r by (simp add: rounds_to_nearest_def)
      then show False using more rnd_double [OF r quarter] by simp
    qed
  qed
qed

lemma price_deviation_quarter:
  assumes "rounds_to_nearest rnd" "0 \<le> p" "p < 2 ^ 53" "0 < r" "r < 2 ^ 53"
  shows "1 / 4 < price_deviation rnd p r \<longleftrightarrow> r < 4 * \<bar>p - r\<bar>"
proof -
  have "rnd (of_int p) = of_int p" "rnd (of_int r) = of_int r" "rnd (of_int (p - r)) = of_int (p - r)"
    using assms(2-) by (simp_all add: rnd_double [OF assms(1)] is_double_int del: of_int_diff)
  then have "price_deviation rnd p r = rnd (of_int \<bar>p - r\<bar> / of_int r)"
    by (simp add: price_deviation_def)
  then show ?thesis using rnd_quarter [OF assms(1) _ assms(4,5), of "\<bar>p - r\<bar>"] by simp
qed

section \<open>Properties\<close>

text \<open>C22: the verdict on an order, with the default limits, is exactly this: too large above 1,000,000;
  out of bounds outside 1 to 2,000,000,000; outside the band when the price is more than a quarter of
  the reference away from it, the reference being the last trade, else the midpoint or the touch of
  the book; a self trade when the same participant rests on the opposite side; and accepted
  otherwise. The floating-point band check decides exactly that, with no rounding error, for
  references below 2^53.\<close>

theorem risk_check_verdict:
  assumes "rounds_to_nearest rnd" "cfg eng = default_config"
    "\<And>r. reference_price eng symbol book = Some r \<Longrightarrow> r < 2 ^ 53"
  shows "reason (risk_check rnd eng req symbol mpid book) =
      (if 1000000 < req_qty req then OrderTooLarge
       else if req_price req < 1 \<or> 2000000000 < req_price req then PriceOutOfBounds
       else if (case reference_price eng symbol book of None \<Rightarrow> False
                | Some r \<Rightarrow> 0 < r \<and> r < 4 * \<bar>req_price req - r\<bar>) then PriceBandViolation
       else if mpid \<noteq> [] \<and> 0 < count_of eng symbol mpid (opposite (req_side req)) then SelfTrade
       else NoReason) \<and>
    (accepted (risk_check rnd eng req symbol mpid book) \<longleftrightarrow>
       reason (risk_check rnd eng req symbol mpid book) = NoReason)"
proof -
  have opp: "(if req_side req = Buy then Sell else Buy) = opposite (req_side req)"
    by (cases "req_side req") simp_all
  have count: "(case resting_count eng k of Some n \<Rightarrow> 0 < n | None \<Rightarrow> False) \<longleftrightarrow>
      0 < (case resting_count eng k of Some n \<Rightarrow> n | None \<Rightarrow> 0)" for k
    by (simp split: option.split)
  have band: "1 / 4 < price_deviation rnd (req_price req) r \<longleftrightarrow> r < 4 * \<bar>req_price req - r\<bar>"
    if "1 \<le> req_price req" "req_price req \<le> 2000000000" "reference_price eng symbol book = Some r" "0 < r" for r
    using that assms(3) [OF that(3)] by (intro price_deviation_quarter [OF assms(1)]) simp_all
  show ?thesis
    using band
    by (auto simp: risk_check_def Let_def assms(2) default_config_def opp count count_of_def split: option.split)
qed

theorem risk_check_verdict_witness:
  "reason (risk_check id (new_risk_engine default_config) \<lparr>req_id = 1, req_side = Buy, req_type = Limit,
     req_price = 100, req_qty = 2000000\<rparr> [65] [] (the (new_book 4 4))) = OrderTooLarge \<and>
   reason (risk_check id (on_trade [65] 1000 (new_risk_engine default_config)) \<lparr>req_id = 1, req_side = Buy,
     req_type = Limit, req_price = 1251, req_qty = 5\<rparr> [65] [] (the (new_book 4 4))) = PriceBandViolation \<and>
   accepted (risk_check id (on_trade [65] 1000 (new_risk_engine default_config)) \<lparr>req_id = 1, req_side = Buy,
     req_type = Limit, req_price = 1250, req_qty = 5\<rparr> [65] [] (the (new_book 4 4)))"
proof -
  have r: "rounds_to_nearest id" by (simp add: rounds_to_nearest_def)
  have none: "reference_price (new_risk_engine default_config) [65] (the (new_book 4 4)) = None" by code_simp
  have some: "reference_price (on_trade [65] 1000 (new_risk_engine default_config)) [65] b = Some 1000" for b
    by (simp add: reference_price_def on_trade_def)
  have c: "cfg (new_risk_engine default_config) = default_config" by (simp add: new_risk_engine_def)
  show ?thesis
    using risk_check_verdict [OF r, of "new_risk_engine default_config" "[65]" "the (new_book 4 4)"
        "\<lparr>req_id = 1, req_side = Buy, req_type = Limit, req_price = 100, req_qty = 2000000\<rparr>" "[]"]
      risk_check_verdict [OF r, of "on_trade [65] 1000 (new_risk_engine default_config)" "[65]" "the (new_book 4 4)"
        "\<lparr>req_id = 1, req_side = Buy, req_type = Limit, req_price = 1251, req_qty = 5\<rparr>" "[]"]
      risk_check_verdict [OF r, of "on_trade [65] 1000 (new_risk_engine default_config)" "[65]" "the (new_book 4 4)"
        "\<lparr>req_id = 1, req_side = Buy, req_type = Limit, req_price = 1250, req_qty = 5\<rparr>" "[]"]
    by (simp add: none some c)
qed

end
