(* ===== verification/Sequencer.thy ===== *)
theory Sequencer
  imports Risk Market_Data Itch_Messages
begin

text \<open>
  The sequencer (\<open>cpp/feed/sequencer.h\<close>, \<open>sequencer.cpp\<close>) and its execution reports
  (\<open>execution_report.h\<close>): it remembers which symbol, side and participant each order reference belongs
  to, routes every ITCH message to the book of its symbol through the risk stage, and emits execution
  reports and market data events.

  The books behind \<open>BookForSymbol\<close>, the risk engine (\<open>nullptr\<close> is \<open>None\<close>) and the sequencer's own members
  are one state; the calls of the two callbacks are the returned list, in order. Whether a callback is
  set is a flag. \<open>scratch_trades_\<close> is cleared by every \<open>add\<close> and only read after it, so it is the list
  \<open>book_add\<close> returns. The outer \<open>None\<close> is a book operation that does not return. Callbacks do not throw.
\<close>

section \<open>State and outputs\<close>

datatype exec_report_type = Ack | Reject | Fill

record execution_report =
  er_order_id :: u64
  er_type :: exec_report_type
  er_symbol :: bytes
  er_qty :: u64
  er_price :: int
  er_reason :: detail

datatype seq_output = Report execution_report | Publish md_event

record callbacks =
  has_report :: bool
  has_md :: bool

record seq_stats =
  add_orders :: u64
  cancels :: u64
  deletes :: u64
  executes :: u64
  non_printable_skipped :: u64
  replaces :: u64
  unrouted :: u64
  other_message_types :: u64
  trades_produced :: u64
  add_rejected :: u64
  risk_rejected :: u64

record order_info =
  oi_symbol :: bytes
  oi_side :: side
  oi_mpid :: bytes

record seq_state =
  order_symbol :: "u64 \<Rightarrow> order_info option"
  sq_stats :: seq_stats
  sq_books :: "bytes \<Rightarrow> book"
  sq_risk :: "risk_engine option"

definition zero_stats :: seq_stats where
  "zero_stats = \<lparr>add_orders = 0, cancels = 0, deletes = 0, executes = 0, non_printable_skipped = 0, replaces = 0,
     unrouted = 0, other_message_types = 0, trades_produced = 0, add_rejected = 0, risk_rejected = 0\<rparr>"

definition new_sequencer :: "(bytes \<Rightarrow> book) \<Rightarrow> risk_engine option \<Rightarrow> seq_state" where
  "new_sequencer bks r = \<lparr>order_symbol = Map.empty, sq_stats = zero_stats, sq_books = bks, sq_risk = r\<rparr>"

definition side_from_indicator :: "u8 \<Rightarrow> side" where
  "side_from_indicator c = (if c = 66 then Buy else Sell)"

definition count1 :: "((u64 \<Rightarrow> u64) \<Rightarrow> seq_stats \<Rightarrow> seq_stats) \<Rightarrow> seq_state \<Rightarrow> seq_state" where
  "count1 field st = st\<lparr>sq_stats := field (\<lambda>n. n + 1) (sq_stats st)\<rparr>"

definition set_book :: "bytes \<Rightarrow> book \<Rightarrow> seq_state \<Rightarrow> seq_state" where
  "set_book s bk st = st\<lparr>sq_books := (sq_books st)(s := bk)\<rparr>"

definition with_risk :: "(risk_engine \<Rightarrow> risk_engine) \<Rightarrow> seq_state \<Rightarrow> seq_state" where
  "with_risk f st = st\<lparr>sq_risk := map_option f (sq_risk st)\<rparr>"

definition calls :: "bool \<Rightarrow> seq_output \<Rightarrow> seq_output list" where
  "calls b x = (if b then [x] else [])"

definition report :: "u64 \<Rightarrow> exec_report_type \<Rightarrow> bytes \<Rightarrow> u64 \<Rightarrow> int \<Rightarrow> detail \<Rightarrow> seq_output" where
  "report i t s q p d =
     Report \<lparr>er_order_id = i, er_type = t, er_symbol = s, er_qty = q, er_price = p, er_reason = d\<rparr>"

section \<open>Steps shared by Add Order and Order Replace\<close>

definition risk_verdict :: "(rat \<Rightarrow> rat) \<Rightarrow> seq_state \<Rightarrow> order_request \<Rightarrow> bytes \<Rightarrow> bytes \<Rightarrow> verdict" where
  "risk_verdict rnd st req symbol mpid =
     (case sq_risk st of None \<Rightarrow> \<lparr>accepted = True, reason = NoReason, detail = NoDetail\<rparr>
      | Some eng \<Rightarrow> risk_check rnd eng req symbol mpid (sq_books st symbol))"

definition taker_filled :: "u64 \<Rightarrow> int trade list \<Rightarrow> u64" where
  "taker_filled i ts = fold (\<lambda>t filled. if taker_id t = i then filled + trade_qty t else filled) ts 0"

definition trade_event :: "bytes \<Rightarrow> side \<Rightarrow> u64 \<Rightarrow> int trade \<Rightarrow> md_event" where
  "trade_event symbol sd ts t =
     md_default\<lparr>ev_type := evTrade, ev_side := sd, ev_timestamp_ns := ts, ev_order_id := maker_id t,
       ev_new_order_id := taker_id t, ev_symbol := symbol_pad symbol, ev_price := trade_price t,
       ev_qty := trade_qty t\<rparr>"

fun publish_trades ::
    "callbacks \<Rightarrow> u64 \<Rightarrow> bytes \<Rightarrow> side \<Rightarrow> u64 \<Rightarrow> int trade list \<Rightarrow> seq_state \<Rightarrow> seq_state \<times> seq_output list" where
  "publish_trades cb i symbol sd ts [] st = (st, [])"
| "publish_trades cb i symbol sd ts (t # trades) st =
     (let st1 = with_risk (on_trade symbol (trade_price t)) st;
          out1 = calls (has_report cb) (report i Fill symbol (trade_qty t) (trade_price t) NoDetail);
          out2 = calls (has_md cb) (Publish (trade_event symbol sd ts t));
          (st2, out3) = publish_trades cb i symbol sd ts trades st1
      in (st2, out1 @ out2 @ out3))"

section \<open>The branches\<close>

definition on_add ::
    "callbacks \<Rightarrow> (rat \<Rightarrow> rat) \<Rightarrow> common_header \<Rightarrow> u64 \<Rightarrow> u8 \<Rightarrow> u32 \<Rightarrow> bytes \<Rightarrow> u32 \<Rightarrow> bytes \<Rightarrow> seq_state \<Rightarrow>
       (seq_state \<times> seq_output list) option" where
  "on_add cb rnd h order_ref indicator shares stock price mpid st =
     (let symbol = alpha_str stock;
          sd = side_from_indicator indicator;
          req = \<lparr>req_id = order_ref, req_side = sd, req_type = Limit, req_price = uint price, req_qty = ucast shares\<rparr>;
          v = risk_verdict rnd st req symbol mpid
      in if \<not> accepted v then
           Some (count1 risk_rejected_update st,
                 calls (has_report cb) (report (req_id req) Reject symbol (req_qty req) 0 (detail v)))
         else do {
           (r, book, trades) \<leftarrow> book_add (sq_books st symbol) req;
           let st1 = set_book symbol book
             (st\<lparr>order_symbol := (order_symbol st)(order_ref \<mapsto> \<lparr>oi_symbol = symbol, oi_side = sd, oi_mpid = mpid\<rparr>)\<rparr>);
           case r of
             Inr _ \<Rightarrow>
               let st2 = count1 add_orders_update st1;
                   st3 = st2\<lparr>sq_stats := trades_produced_update (\<lambda>n. n + word_of_nat (length trades)) (sq_stats st2)\<rparr>;
                   st4 = with_risk (note_resting symbol mpid sd) st3;
                   ack = calls (has_report cb) (report (req_id req) Ack symbol (req_qty req) 0 NoDetail);
                   resting_qty = req_qty req - taker_filled (req_id req) trades;
                   add = calls (has_md cb \<and> 0 < resting_qty)
                     (Publish (md_default\<lparr>ev_type := evAdd, ev_side := sd, ev_timestamp_ns := timestamp_ns h,
                        ev_order_id := req_id req, ev_symbol := symbol_pad symbol, ev_price := req_price req,
                        ev_qty := resting_qty\<rparr>));
                   (st5, fills) = publish_trades cb (req_id req) symbol sd (timestamp_ns h) trades st4
               in Some (st5, ack @ add @ fills)
           | Inl e \<Rightarrow>
               let st2 = count1 add_rejected_update st1
               in Some (st2\<lparr>order_symbol := (order_symbol st2)(order_ref := None)\<rparr>,
                        calls (has_report cb) (report (req_id req) Reject symbol (req_qty req) 0 (BookError e)))
         })"

definition on_cancel :: "callbacks \<Rightarrow> order_cancel \<Rightarrow> seq_state \<Rightarrow> (seq_state \<times> seq_output list) option" where
  "on_cancel cb m st =
     (case order_symbol st (oc_order_ref_number m) of
        None \<Rightarrow> Some (count1 unrouted_update st, [])
      | Some info \<Rightarrow> do {
          (book, _) \<leftarrow> book_reduce (sq_books st (oi_symbol info)) (oc_order_ref_number m) (ucast (oc_canceled_shares m));
          Some (count1 cancels_update (set_book (oi_symbol info) book st),
                calls (has_md cb)
                  (Publish (md_default\<lparr>ev_type := evCancel, ev_side := oi_side info,
                     ev_timestamp_ns := timestamp_ns (oc_h m), ev_order_id := oc_order_ref_number m,
                     ev_symbol := symbol_pad (oi_symbol info), ev_qty := ucast (oc_canceled_shares m)\<rparr>)))
        })"

definition on_delete :: "callbacks \<Rightarrow> order_delete \<Rightarrow> seq_state \<Rightarrow> (seq_state \<times> seq_output list) option" where
  "on_delete cb m st =
     (case order_symbol st (od_order_ref_number m) of
        None \<Rightarrow> Some (count1 unrouted_update st, [])
      | Some info \<Rightarrow> do {
          (book, _) \<leftarrow> book_cancel (sq_books st (oi_symbol info)) (od_order_ref_number m);
          let st1 = with_risk (note_removed (oi_symbol info) (oi_mpid info) (oi_side info))
                      (set_book (oi_symbol info) book st);
          let out = calls (has_md cb)
                (Publish (md_default\<lparr>ev_type := evDelete, ev_side := oi_side info,
                   ev_timestamp_ns := timestamp_ns (od_h m), ev_order_id := od_order_ref_number m,
                   ev_symbol := symbol_pad (oi_symbol info)\<rparr>));
          Some (count1 deletes_update
                  (st1\<lparr>order_symbol := (order_symbol st1)(od_order_ref_number m := None)\<rparr>), out)
        })"

definition on_executed :: "callbacks \<Rightarrow> order_executed \<Rightarrow> seq_state \<Rightarrow> (seq_state \<times> seq_output list) option" where
  "on_executed cb m st =
     (case order_symbol st (oe_order_ref_number m) of
        None \<Rightarrow> Some (count1 unrouted_update st, [])
      | Some info \<Rightarrow> do {
          (book, _) \<leftarrow> book_reduce (sq_books st (oi_symbol info)) (oe_order_ref_number m) (ucast (oe_executed_shares m));
          Some (count1 executes_update (set_book (oi_symbol info) book st),
                calls (has_md cb)
                  (Publish (md_default\<lparr>ev_type := evTrade, ev_side := oi_side info,
                     ev_timestamp_ns := timestamp_ns (oe_h m), ev_order_id := oe_order_ref_number m,
                     ev_symbol := symbol_pad (oi_symbol info), ev_price := 0,
                     ev_qty := ucast (oe_executed_shares m)\<rparr>)))
        })"

definition on_executed_with_price ::
    "callbacks \<Rightarrow> order_executed_with_price \<Rightarrow> seq_state \<Rightarrow> (seq_state \<times> seq_output list) option" where
  "on_executed_with_price cb m st =
     (if oep_printable m = 78 then Some (count1 non_printable_skipped_update st, [])
      else case order_symbol st (oep_order_ref_number m) of
        None \<Rightarrow> Some (count1 unrouted_update st, [])
      | Some info \<Rightarrow> do {
          (book, _) \<leftarrow> book_reduce (sq_books st (oi_symbol info)) (oep_order_ref_number m) (ucast (oep_executed_shares m));
          let st1 = with_risk (on_trade (oi_symbol info) (uint (oep_execution_price m))) (set_book (oi_symbol info) book st);
          Some (count1 executes_update st1,
                calls (has_md cb)
                  (Publish (md_default\<lparr>ev_type := evTrade, ev_side := oi_side info,
                     ev_timestamp_ns := timestamp_ns (oep_h m), ev_order_id := oep_order_ref_number m,
                     ev_symbol := symbol_pad (oi_symbol info), ev_price := uint (oep_execution_price m),
                     ev_qty := ucast (oep_executed_shares m)\<rparr>)))
        })"

definition on_replace ::
    "callbacks \<Rightarrow> (rat \<Rightarrow> rat) \<Rightarrow> order_replace \<Rightarrow> seq_state \<Rightarrow> (seq_state \<times> seq_output list) option" where
  "on_replace cb rnd m st =
     (case order_symbol st (or_original_order_ref_number m) of
        None \<Rightarrow> Some (count1 unrouted_update st, [])
      | Some info \<Rightarrow> do {
          let symbol = oi_symbol info;
          let sd = oi_side info;
          (book0, _) \<leftarrow> book_cancel (sq_books st symbol) (or_original_order_ref_number m);
          let st0 = with_risk (note_removed symbol (oi_mpid info) sd) (set_book symbol book0 st);
          let st1 = st0\<lparr>order_symbol := (order_symbol st0)(or_original_order_ref_number m := None)\<rparr>;
          let req = \<lparr>req_id = or_new_order_ref_number m, req_side = sd, req_type = Limit,
                     req_price = uint (or_price m), req_qty = ucast (or_shares m)\<rparr>;
          let v = risk_verdict rnd st1 req symbol (oi_mpid info);
          if \<not> accepted v then
            Some (count1 risk_rejected_update st1,
                  calls (has_report cb) (report (req_id req) Reject symbol (req_qty req) 0 (detail v)))
          else do {
            (r, book, trades) \<leftarrow> book_add (sq_books st1 symbol) req;
            let st2 = set_book symbol book st1;
            case r of
              Inr _ \<Rightarrow>
                let st3 = count1 replaces_update
                      (st2\<lparr>order_symbol := (order_symbol st2)(or_new_order_ref_number m \<mapsto> info)\<rparr>);
                    st4 = st3\<lparr>sq_stats := trades_produced_update (\<lambda>n. n + word_of_nat (length trades)) (sq_stats st3)\<rparr>;
                    st5 = with_risk (note_resting symbol (oi_mpid info) sd) st4;
                    ack = calls (has_report cb) (report (req_id req) Ack symbol (req_qty req) 0 NoDetail);
                    resting_qty = req_qty req - taker_filled (req_id req) trades;
                    ev = (if 0 < resting_qty
                          then md_default\<lparr>ev_type := evReplace, ev_side := sd, ev_timestamp_ns := timestamp_ns (or_h m),
                                 ev_order_id := or_original_order_ref_number m,
                                 ev_new_order_id := or_new_order_ref_number m, ev_symbol := symbol_pad symbol,
                                 ev_price := req_price req, ev_qty := resting_qty\<rparr>
                          else md_default\<lparr>ev_type := evDelete, ev_side := sd, ev_timestamp_ns := timestamp_ns (or_h m),
                                 ev_order_id := or_original_order_ref_number m, ev_symbol := symbol_pad symbol\<rparr>);
                    (st6, fills) = publish_trades cb (req_id req) symbol sd (timestamp_ns (or_h m)) trades st5
                in Some (st6, ack @ calls (has_md cb) (Publish ev) @ fills)
            | Inl e \<Rightarrow>
                Some (count1 add_rejected_update st2,
                      calls (has_report cb) (report (req_id req) Reject symbol (req_qty req) 0 (BookError e)))
          }
        })"

definition on_message ::
    "callbacks \<Rightarrow> (rat \<Rightarrow> rat) \<Rightarrow> message \<Rightarrow> seq_state \<Rightarrow> (seq_state \<times> seq_output list) option" where
  "on_message cb rnd msg st =
     (case msg of
        AddOrderNoMPID m \<Rightarrow>
          on_add cb rnd (ao_h m) (ao_order_ref_number m) (ao_buy_sell_indicator m) (ao_shares m) (ao_stock m)
            (ao_price m) [] st
      | AddOrderMPID m \<Rightarrow>
          on_add cb rnd (aom_h m) (aom_order_ref_number m) (aom_buy_sell_indicator m) (aom_shares m) (aom_stock m)
            (aom_price m) (alpha_str (aom_attribution m)) st
      | OrderCancel m \<Rightarrow> on_cancel cb m st
      | OrderDelete m \<Rightarrow> on_delete cb m st
      | OrderExecuted m \<Rightarrow> on_executed cb m st
      | OrderExecutedWithPrice m \<Rightarrow> on_executed_with_price cb m st
      | OrderReplace m \<Rightarrow> on_replace cb rnd m st
      | _ \<Rightarrow> Some (count1 other_message_types_update st, []))"

fun on_messages ::
    "callbacks \<Rightarrow> (rat \<Rightarrow> rat) \<Rightarrow> message list \<Rightarrow> seq_state \<Rightarrow> (seq_state \<times> seq_output list) option" where
  "on_messages cb rnd [] st = Some (st, [])"
| "on_messages cb rnd (m # ms) st = do {
     (st1, out1) \<leftarrow> on_message cb rnd m st;
     (st2, out2) \<leftarrow> on_messages cb rnd ms st1;
     Some (st2, out1 @ out2)
   }"

end
