(* ===== verification/Book_Orders.thy ===== *)
theory Book_Orders
  imports Book_Spec Snapshot
begin

text \<open>
  The specification book as the map from order ids to resting orders that a market data subscriber
  keeps, and what each operation of the book does to that map.
\<close>

definition entries :: "side \<Rightarrow> int resting list \<Rightarrow> (u64 \<times> resting_order) list" where
  "entries sd xs = map (\<lambda>r. (r_id r, \<lparr>ro_side = sd, ro_price = r_price r, ro_qty = r_qty r\<rparr>)) xs"

definition order_map :: "int sbook \<Rightarrow> u64 \<Rightarrow> resting_order option" where
  "order_map s = map_of (entries Buy (s_bids s) @ entries Sell (s_asks s))"

text \<open>An execution or a partial cancel of \<open>d\<close> shares of order \<open>i\<close>.\<close>

definition fill :: "u64 \<Rightarrow> u64 \<Rightarrow> (u64 \<Rightarrow> resting_order option) \<Rightarrow> u64 \<Rightarrow> resting_order option" where
  "fill i d m =
     (case m i of None \<Rightarrow> m
      | Some r \<Rightarrow> if ro_qty r \<le> d then m(i := None) else m(i \<mapsto> r\<lparr>ro_qty := ro_qty r - d\<rparr>))"

lemma entries_simps [simp]:
  "entries sd [] = []"
  "entries sd (Resting i p q # xs) = (i, \<lparr>ro_side = sd, ro_price = p, ro_qty = q\<rparr>) # entries sd xs"
  "entries sd (xs @ ys) = entries sd xs @ entries sd ys"
  "map fst (entries sd xs) = map r_id xs" "fst ` set (entries sd xs) = r_id ` set xs"
  by (simp_all add: entries_def comp_def image_image)

lemma entries_member [dest]: "(i, b) \<in> set (entries sd xs) \<Longrightarrow> i \<in> r_id ` set xs"
  by (auto simp: entries_def)

lemma order_map_dom: "order_map s i = None \<longleftrightarrow> \<not> is_resting i s"
  unfolding order_map_def map_of_eq_None_iff is_resting_def set_append image_Un entries_simps by auto

lemma order_map_distinct: "wf_spec s \<Longrightarrow> distinct (map fst (entries Buy (s_bids s) @ entries Sell (s_asks s)))"
  by (simp add: wf_spec_def)

lemma order_map_side:
  assumes "wf_spec s" "order_map s i = Some r"
  shows "\<exists>x \<in> set (s_side (ro_side r) s). r_id x = i \<and> r_price x = ro_price r \<and> r_qty x = ro_qty r"
proof -
  have "(i, r) \<in> set (entries Buy (s_bids s) @ entries Sell (s_asks s))"
    using assms(2) unfolding order_map_def by (rule map_of_SomeD)
  then show ?thesis by (auto simp: entries_def)
qed

lemma order_map_member:
  assumes "wf_spec s" "x \<in> set (s_side sd s)"
  shows "order_map s (r_id x) = Some \<lparr>ro_side = sd, ro_price = r_price x, ro_qty = r_qty x\<rparr>"
  unfolding order_map_def map_of_eq_Some_iff [OF order_map_distinct [OF assms(1)]]
  using assms(2) by (cases sd) (auto simp: entries_def)

lemma order_map_empty: "order_map spec_empty = Map.empty"
  by (simp add: order_map_def spec_empty_def)

section \<open>Cancel and reduce\<close>

lemma map_of_filter_key: "map_of (filter (\<lambda>x. fst x \<noteq> i) es) = (map_of es)(i := None)"
  by (induction es) (auto simp: fun_eq_iff)

lemma order_map_cancel: "order_map (spec_cancel i s) = (order_map s)(i := None)"
proof -
  have "entries sd (filter (\<lambda>x. r_id x \<noteq> i) xs) = filter (\<lambda>x. fst x \<noteq> i) (entries sd xs)" for sd xs
    by (induction xs) (simp_all add: entries_def)
  then show ?thesis
    by (simp add: order_map_def spec_cancel_def map_of_filter_key del: map_of_append flip: filter_append)
qed

definition reduce_entries :: "u64 \<Rightarrow> u64 \<Rightarrow> (u64 \<times> resting_order) list \<Rightarrow> (u64 \<times> resting_order) list" where
  "reduce_entries i d es =
     map (\<lambda>(k, r). if k = i then (k, r\<lparr>ro_qty := ro_qty r - d\<rparr>) else (k, r))
       (filter (\<lambda>(k, r). \<not> (k = i \<and> ro_qty r \<le> d)) es)"

lemma map_of_reduce_entries: "distinct (map fst es) \<Longrightarrow> map_of (reduce_entries i d es) = fill i d (map_of es)"
proof (induction es)
  case (Cons e es)
  obtain k r where e: "e = (k, r)" by (cases e)
  have IH: "map_of (reduce_entries i d es) = fill i d (map_of es)" using Cons by simp
  show ?case
  proof (cases "k = i")
    case True
    then have "map_of es i = None" using Cons.prems e by (simp add: map_of_eq_None_iff)
    then show ?thesis using IH True e by (auto simp: reduce_entries_def fill_def fun_eq_iff)
  next
    case False
    then show ?thesis
      using IH e by (auto simp: reduce_entries_def fill_def fun_eq_iff split: option.splits)
  qed
qed (simp add: reduce_entries_def fill_def)

lemma order_map_reduce:
  assumes "wf_spec s"
  shows "order_map (spec_reduce i d s) = fill i d (order_map s)"
proof -
  have "entries sd (reduce_list i d xs) = reduce_entries i d (entries sd xs)" for sd xs
    by (induction xs) (auto simp: entries_def reduce_list_def reduce_entries_def)
  then have "order_map (spec_reduce i d s) = map_of (reduce_entries i d (entries Buy (s_bids s) @ entries Sell (s_asks s)))"
    by (simp add: order_map_def spec_reduce_def reduce_entries_def del: map_of_append)
  then show ?thesis using map_of_reduce_entries [OF order_map_distinct [OF assms]] by (simp add: order_map_def)
qed

section \<open>Resting and matching\<close>

lemma map_of_insert_mid:
  "i \<notin> fst ` set as \<Longrightarrow> map_of (as @ (i, r) # bs) = (map_of (as @ bs))(i \<mapsto> r)"
  by (induction as) (auto simp: fun_eq_iff)

lemma order_map_rest:
  assumes "\<not> is_resting i s"
  shows "order_map (spec_rest sd (Resting i p q) s) =
    (order_map s)(i \<mapsto> \<lparr>ro_side = sd, ro_price = p, ro_qty = q\<rparr>)"
proof -
  have fresh: "i \<notin> r_id ` set (s_bids s)" "i \<notin> r_id ` set (s_asks s)"
    using assms by (auto simp: is_resting_def)
  let ?P = "\<lambda>x. better sd (r_price x) p"
  have ins: "entries sd (spec_insert sd (Resting i p q) xs) =
      entries sd (takeWhile ?P xs) @ (i, \<lparr>ro_side = sd, ro_price = p, ro_qty = q\<rparr>) # entries sd (dropWhile ?P xs)" for xs
    by (simp add: spec_insert_def)
  have split: "entries sd xs = entries sd (takeWhile ?P xs) @ entries sd (dropWhile ?P xs)" for xs
    by (metis entries_simps(3) takeWhile_dropWhile_id)
  show ?thesis
  proof (cases sd)
    case Buy
    have "i \<notin> fst ` set (entries sd (takeWhile ?P (s_bids s)))"
      using fresh(1) by (auto dest!: set_takeWhileD)
    from map_of_insert_mid [OF this] show ?thesis
      using ins [of "s_bids s"] split [of "s_bids s"] Buy
      by (simp add: order_map_def spec_rest_def del: map_of_append)
  next
    case Sell
    have "i \<notin> fst ` set (entries Buy (s_bids s) @ entries sd (takeWhile ?P (s_asks s)))"
      using fresh unfolding set_append image_Un entries_simps by (auto dest!: set_takeWhileD)
    from map_of_insert_mid [OF this] show ?thesis
      using ins [of "s_asks s"] split [of "s_asks s"] Sell
      by (simp add: order_map_def spec_rest_def del: map_of_append)
  qed
qed

definition fills :: "int trade list \<Rightarrow> (u64 \<Rightarrow> resting_order option) \<Rightarrow> u64 \<Rightarrow> resting_order option" where
  "fills ts m = fold (\<lambda>t. fill (maker_id t) (trade_qty t)) ts m"

lemma fills_simps [simp]: "fills [] m = m" "fills (t # ts) m = fills ts (fill (maker_id t) (trade_qty t) m)"
  by (simp_all add: fills_def)

lemma match_entries:
  "spec_match cr tid q xs = (xs', ts, q') \<Longrightarrow> distinct (map fst (as @ entries sd xs @ bs)) \<Longrightarrow>
     map_of (as @ entries sd xs' @ bs) = fills ts (map_of (as @ entries sd xs @ bs))"
proof (induction cr tid q xs arbitrary: xs' ts q' rule: spec_match.induct)
  case (2 cr tid q i p m rs)
  let ?r = "\<lparr>ro_side = sd, ro_price = p, ro_qty = m\<rparr>"
  have i: "i \<notin> fst ` set as" "i \<notin> fst ` set (entries sd rs)" "i \<notin> fst ` set bs"
    and d: "distinct (map fst (as @ entries sd rs @ bs))"
    using "2.prems"(2) by auto
  have mid: "map_of (as @ (i, x) # ys) = (map_of (as @ ys))(i \<mapsto> x)" for x ys by (rule map_of_insert_mid [OF i(1)])
  have absent: "map_of (as @ entries sd rs @ bs) i = None"
    using i unfolding map_of_eq_None_iff set_append image_Un by blast
  show ?case
  proof (cases "q = 0 \<or> \<not> cr p")
    case True
    then show ?thesis using "2.prems"(1) by auto
  next
    case go: False
    show ?thesis
    proof (cases "m \<le> q")
      case True
      obtain ys us r' where rec: "spec_match cr tid (q - m) rs = (ys, us, r')" by (metis prod_cases3)
      have "xs' = ys" "ts = \<lparr>maker_id = i, taker_id = tid, trade_price = p, trade_qty = m\<rparr> # us"
        using "2.prems"(1) go True rec by auto
      moreover have "fill i m (map_of (as @ (i, ?r) # entries sd rs @ bs)) = map_of (as @ entries sd rs @ bs)"
        unfolding mid using absent by (auto simp: fill_def fun_eq_iff simp del: map_of_append)
      ultimately show ?thesis
        using "2.IH" [OF go True rec d] by (simp del: map_of_append)
    next
      case False
      then have "xs' = Resting i p (m - q) # rs"
        "ts = [\<lparr>maker_id = i, taker_id = tid, trade_price = p, trade_qty = q\<rparr>]"
        using "2.prems"(1) go by auto
      moreover have "fill i q (map_of (as @ (i, ?r) # entries sd rs @ bs)) =
          map_of (as @ (i, \<lparr>ro_side = sd, ro_price = p, ro_qty = m - q\<rparr>) # entries sd rs @ bs)"
        unfolding mid using False by (auto simp: fill_def fun_eq_iff simp del: map_of_append)
      ultimately show ?thesis by (simp del: map_of_append)
    qed
  qed
qed simp

lemma order_map_take:
  assumes "wf_spec s" "spec_take i sd ty p q s = (s', ts, q')"
  shows "order_map s' = fills ts (order_map s)"
proof -
  obtain xs where m: "spec_match (crosses sd ty p) i q (s_side (opposite sd) s) = (xs, ts, q')"
    "s' = set_side (opposite sd) xs s"
    using assms(2) by (auto simp: spec_take_def split: prod.splits)
  note d = order_map_distinct [OF assms(1)]
  show ?thesis
  proof (cases sd)
    case Buy
    then show ?thesis
      using match_entries [of _ _ _ "s_asks s" xs ts q' "entries Buy (s_bids s)" Sell "[]"] m d
      by (simp add: order_map_def del: map_of_append)
  next
    case Sell
    then show ?thesis
      using match_entries [of _ _ _ "s_bids s" xs ts q' "[]" Buy "entries Sell (s_asks s)"] m d
      by (simp add: order_map_def del: map_of_append)
  qed
qed

lemma fills_other: "i \<notin> maker_id ` set ts \<Longrightarrow> fills ts (m(i := r)) = (fills ts m)(i := r)"
proof (induction ts arbitrary: m)
  case (Cons t ts)
  then have "fill (maker_id t) (trade_qty t) (m(i := r)) = (fill (maker_id t) (trade_qty t) m)(i := r)"
    by (auto simp: fill_def fun_eq_iff split: option.split)
  moreover have "i \<notin> maker_id ` set ts" using Cons.prems by simp
  ultimately show ?case unfolding fills_simps by (metis Cons.IH)
qed simp

end
