(* ===== verification/Sequencer_Steps.thy ===== *)
theory Sequencer_Steps
  imports Sequencer Book_Orders Book_V2_Main
begin

text \<open>
  What one message does to the sequencer's routes, to the order map of each book and to the market data
  it publishes. The book operations enter through the lemmas of \<open>Book_V2_Main\<close>; from here on a book is
  its order map.
\<close>

section \<open>Books as order maps\<close>

definition orders :: "seq_state \<Rightarrow> bytes \<Rightarrow> u64 \<Rightarrow> resting_order option" where
  "orders st s = order_map (book_abs (sq_books st s))"

lemma book_wf_spec: "wf_book b \<Longrightarrow> wf_spec (book_abs b)"
  using abs_of_wf [of "level_cells b" b] by (simp add: wf_book_def book_abs_def)

lemma taker_filled_match:
  "spec_match cr i q xs = (xs', ts, q') \<Longrightarrow>
     fold (\<lambda>t f. if taker_id t = i then f + trade_qty t else f) ts f0 = f0 + (q - q')"
proof (induction cr i q xs arbitrary: xs' ts q' f0 rule: spec_match.induct)
  case (2 cr i q j p m rs)
  show ?case
  proof (cases "(q = 0 \<or> \<not> cr p) \<or> \<not> m \<le> q")
    case True
    then show ?thesis using "2.prems" by (auto split: if_splits)
  next
    case False
    obtain ys us r' where rec: "spec_match cr i (q - m) rs = (ys, us, r')" by (metis prod_cases3)
    have "q' = r'" "ts = \<lparr>maker_id = j, taker_id = i, trade_price = p, trade_qty = m\<rparr> # us"
      using "2.prems" False rec by auto
    then show ?thesis
      using "2.IH" [OF _ _ rec, of "f0 + m"] False by (simp add: algebra_simps)
  qed
qed auto

lemma taker_filled_take:
  assumes "spec_take i sd ty p q s = (s', ts, q')"
  shows "q - taker_filled i ts = q'"
  using assms taker_filled_match [of "crosses sd ty p" i q "s_side (opposite sd) s" _ ts q' 0]
  by (auto simp: spec_take_def taker_filled_def split: prod.splits)

lemma maker_ids_take:
  assumes "spec_take i sd ty p q s = (s', ts, q')"
  shows "maker_id ` set ts \<subseteq> r_id ` set (s_side (opposite sd) s)" "maker_id ` set ts \<subseteq> resting_ids s"
proof -
  have "map maker_id ts = map r_id (take (length ts) (s_side (opposite sd) s))"
    using arg_cong [OF spec_take_fair [OF assms, THEN conjunct2], of "map fst"] by (simp add: comp_def)
  then show side: "maker_id ` set ts \<subseteq> r_id ` set (s_side (opposite sd) s)"
    by (metis image_mono list.set_map set_take_subset)
  then show "maker_id ` set ts \<subseteq> resting_ids s" by (cases sd) (auto simp: resting_ids_def)
qed

text \<open>What adding a fresh limit order does to the order map.\<close>

lemma limit_add:
  assumes b: "wf_book b" and t: "req_type t = Limit" and fresh: "order_map (book_abs b) (req_id t) = None"
  obtains
    (ok) b' ts where "book_add b t = Some (Inr (), b', ts)" "wf_book b'"
      "req_id t \<notin> maker_id ` set ts"
      "\<forall>j \<in> maker_id ` set ts. \<exists>r. order_map (book_abs b) j = Some r \<and> ro_side r = opposite (req_side t)"
      "order_map (book_abs b') =
         (if 0 < req_qty t - taker_filled (req_id t) ts
          then (fills ts (order_map (book_abs b)))
            (req_id t \<mapsto> \<lparr>ro_side = req_side t, ro_price = req_price t,
                          ro_qty = req_qty t - taker_filled (req_id t) ts\<rparr>)
          else fills ts (order_map (book_abs b)))"
  | (threw) e b' ts where "book_add b t = Some (Inl e, b', ts)" "wf_book b'"
      "order_map (book_abs b') = fills ts (order_map (book_abs b))"
      "\<forall>j \<in> maker_id ` set ts. \<exists>r. order_map (book_abs b) j = Some r \<and> ro_side r = opposite (req_side t)"
proof -
  let ?s = "book_abs b"
  note wf = book_wf_spec [OF b]
  have nr: "\<not> is_resting (req_id t) ?s" using fresh by (simp add: order_map_dom)
  then have pre: "add_pre t ?s" using t by (simp add: add_pre_def)
  obtain s1 ts1 q1 where tk: "spec_take (req_id t) (req_side t) Limit (req_price t) (req_qty t) ?s = (s1, ts1, q1)"
    by (metis prod_cases3)
  have map1: "order_map s1 = fills ts1 (order_map ?s)" by (rule order_map_take [OF wf tk])
  have rest: "req_qty t - taker_filled (req_id t) ts1 = q1" by (rule taker_filled_take [OF tk])
  have makers: "maker_id ` set ts1 \<subseteq> resting_ids ?s" by (rule maker_ids_take(2) [OF tk])
  have ids: "resting_ids s1 \<subseteq> resting_ids ?s" by (rule spec_take_ids [OF tk])
  have makers': "req_id t \<notin> maker_id ` set ts1"
    "\<forall>j \<in> maker_id ` set ts1. \<exists>r. order_map ?s j = Some r \<and> ro_side r = opposite (req_side t)"
    using makers nr maker_ids_take(1) [OF tk] order_map_member [OF wf] by (force simp: is_resting_iff)+
  from add_step [OF b pre] consider
    (filled) b' ts where "book_add b t = Some (Inr (), b', ts)" "wf_book b'" "spec_add_req t ?s = (book_abs b', ts)"
  | (full) e b' ts where "book_add b t = Some (Inl e, b', ts)" "wf_book b'" "spec_unrested t ?s = (book_abs b', ts)"
    by blast
  then show ?thesis
  proof cases
    case filled
    then have b': "ts = ts1" "book_abs b' =
        (if 0 < q1 then spec_rest (req_side t) (Resting (req_id t) (req_price t) q1) s1 else s1)"
      using tk t by (auto simp: spec_add_def split: if_splits)
    have "\<not> is_resting (req_id t) s1" using ids nr by (auto simp: is_resting_iff)
    then have "order_map (book_abs b') =
        (if 0 < q1 then (order_map s1)(req_id t \<mapsto> \<lparr>ro_side = req_side t, ro_price = req_price t, ro_qty = q1\<rparr>)
         else order_map s1)"
      using b'(2) by (simp add: order_map_rest)
    then show ?thesis using ok [OF filled(1,2)] makers' rest b'(1) map1 by simp
  next
    case full
    then have "ts = ts1" "book_abs b' = s1" using tk t by (auto simp: spec_unrested_def)
    then show ?thesis using threw [OF full(1,2)] makers'(2) map1 by simp
  qed
qed

lemma cancel_orders:
  assumes "wf_book b"
  obtains b' found where "book_cancel b k = Some (b', found)" "wf_book b'"
    "order_map (book_abs b') = (order_map (book_abs b))(k := None)"
  using cancel_step [OF assms, of k] order_map_cancel by metis

lemma reduce_orders:
  assumes "wf_book b"
  obtains b' found where "book_reduce b k d = Some (b', found)" "wf_book b'"
    "order_map (book_abs b') = fill k d (order_map (book_abs b))"
  using reduce_step [OF assms, of k d] order_map_reduce [OF book_wf_spec [OF assms]] by metis

text \<open>An order that is no maker is not touched.\<close>

lemma fill_apart: "i \<noteq> j \<Longrightarrow> fill j d m i = m i"
  by (auto simp: fill_def split: option.split)

lemma fills_apart: "i \<notin> maker_id ` set ts \<Longrightarrow> fills ts m i = m i"
  by (induction ts arbitrary: m) (auto simp: fill_apart)

text \<open>Executions change neither the ids' sides nor add ids.\<close>

lemma fill_Some: "fill i d m k = Some r \<Longrightarrow> \<exists>r0. m k = Some r0 \<and> ro_side r0 = ro_side r"
  by (auto simp: fill_def split: option.splits if_splits)

lemma fills_Some: "fills ts m k = Some r \<Longrightarrow> \<exists>r0. m k = Some r0 \<and> ro_side r0 = ro_side r"
proof (induction ts arbitrary: m)
  case (Cons t ts)
  then obtain r1 where "fill (maker_id t) (trade_qty t) m k = Some r1" "ro_side r1 = ro_side r"
    unfolding fills_simps by blast
  then show ?case using fill_Some [of "maker_id t" "trade_qty t" m k r1] by auto
qed simp

section \<open>Projections of the outputs\<close>

definition mds :: "seq_output list \<Rightarrow> md_event list" where
  "mds out = concat (map (\<lambda>x. case x of Publish e \<Rightarrow> [e] | Report r \<Rightarrow> []) out)"

definition reports :: "seq_output list \<Rightarrow> execution_report list" where
  "reports out = concat (map (\<lambda>x. case x of Publish e \<Rightarrow> [] | Report r \<Rightarrow> [r]) out)"

lemma outputs_simps [simp]:
  "mds [] = []" "reports [] = []" "mds (xs @ ys) = mds xs @ mds ys" "reports (xs @ ys) = reports xs @ reports ys"
  "mds (calls c (report i t s q p d)) = []" "reports (calls c (Publish e)) = []"
  "mds (calls c (Publish e)) = (if c then [e] else [])"
  by (simp_all add: mds_def reports_def calls_def report_def)

lemma with_risk_simps [simp]:
  "order_symbol (with_risk f st) = order_symbol st" "sq_books (with_risk f st) = sq_books st"
  "sq_stats (with_risk f st) = sq_stats st" "sq_risk (with_risk f st) = map_option f (sq_risk st)"
  by (simp_all add: with_risk_def)

lemma count1_simps [simp]:
  "order_symbol (count1 f st) = order_symbol st" "sq_books (count1 f st) = sq_books st"
  "sq_risk (count1 f st) = sq_risk st" "sq_stats (count1 f st) = f (\<lambda>n. n + 1) (sq_stats st)"
  by (simp_all add: count1_def)

lemma set_book_simps [simp]:
  "order_symbol (set_book s b st) = order_symbol st" "sq_books (set_book s b st) = (sq_books st)(s := b)"
  "sq_risk (set_book s b st) = sq_risk st" "sq_stats (set_book s b st) = sq_stats st"
  by (simp_all add: set_book_def)

lemma publish_trades_frame:
  "publish_trades cb i s sd ts trades st = (st', out) \<Longrightarrow>
     order_symbol st' = order_symbol st \<and> sq_books st' = sq_books st \<and> sq_stats st' = sq_stats st \<and>
     sq_risk st' = map_option (fold (\<lambda>t. on_trade s (trade_price t)) trades) (sq_risk st) \<and>
     mds out = (if has_md cb then map (trade_event s sd ts) trades else [])"
proof (induction trades arbitrary: st st' out)
  case Nil
  then show ?case by (auto simp: option.map_ident)
next
  case (Cons t trades)
  then show ?case
    by (auto simp: Let_def option.map_comp comp_def split: prod.splits)
qed

end
