(* ===== verification/Sequencer_Inv.thy ===== *)
theory Sequencer_Inv
  imports Sequencer_Steps Itch_Wire
begin

text \<open>
  The sequencer's invariant: every book is well formed and every resting order is routed, in the book of
  the symbol and on the side its route says. Every message with fresh order references keeps it, returns,
  and publishes market data that tells a subscriber exactly what happened to the books.
\<close>

section \<open>The invariant\<close>

definition routed :: "seq_state \<Rightarrow> bool" where
  "routed st \<longleftrightarrow> (\<forall>s i r. orders st s i = Some r \<longrightarrow>
     (\<exists>info. order_symbol st i = Some info \<and> oi_symbol info = s \<and> oi_side info = ro_side r))"

definition seq_ok :: "seq_state \<Rightarrow> bool" where
  "seq_ok st \<longleftrightarrow> (\<forall>s. wf_book (sq_books st s)) \<and> routed st \<and>
     (\<forall>i info. order_symbol st i = Some info \<longrightarrow> symbol_ok (oi_symbol info))"

text \<open>An exchange never reuses a live order reference.\<close>

definition fresh_ids :: "message \<Rightarrow> seq_state \<Rightarrow> bool" where
  "fresh_ids m st =
     (case m of
        AddOrderNoMPID a \<Rightarrow> order_symbol st (ao_order_ref_number a) = None
      | AddOrderMPID a \<Rightarrow> order_symbol st (aom_order_ref_number a) = None
      | OrderReplace a \<Rightarrow> or_new_order_ref_number a = or_original_order_ref_number a \<or>
          order_symbol st (or_new_order_ref_number a) = None
      | _ \<Rightarrow> True)"

lemma seq_okD:
  assumes "seq_ok st"
  shows "wf_book (sq_books st s)"
    "orders st s i = Some r \<Longrightarrow>
       \<exists>info. order_symbol st i = Some info \<and> oi_symbol info = s \<and> oi_side info = ro_side r"
    "order_symbol st i = Some info \<Longrightarrow> symbol_ok (oi_symbol info)"
    "order_symbol st i = None \<Longrightarrow> orders st s i = None"
  using assms by (auto simp: seq_ok_def routed_def) (metis not_None_eq)

lemma seq_ok_cong: "order_symbol st = order_symbol st' \<Longrightarrow> sq_books st = sq_books st' \<Longrightarrow> seq_ok st = seq_ok st'"
  by (simp add: seq_ok_def routed_def orders_def)

lemma orders_set_book:
  "sq_books st' = (sq_books st)(s := b) \<Longrightarrow> orders st' = (orders st)(s := order_map (book_abs b))"
  by (auto simp: orders_def fun_eq_iff)

text \<open>Replacing one book by one with no more orders than its routes cover.\<close>

lemma seq_ok_update:
  assumes ok: "seq_ok st" and books: "sq_books st' = (sq_books st)(s := b)" and b: "wf_book b"
    and here: "\<And>i r. order_map (book_abs b) i = Some r \<Longrightarrow>
      \<exists>info. order_symbol st' i = Some info \<and> oi_symbol info = s \<and> oi_side info = ro_side r"
    and there: "\<And>i s' r. s' \<noteq> s \<Longrightarrow> orders st s' i = Some r \<Longrightarrow> order_symbol st' i = order_symbol st i"
    and syms: "\<And>i info. order_symbol st' i = Some info \<Longrightarrow> symbol_ok (oi_symbol info)"
  shows "seq_ok st'"
proof -
  have "wf_book (sq_books st' s')" for s' using seq_okD(1) [OF ok] b by (simp add: books)
  moreover have "routed st'"
    unfolding routed_def orders_set_book [OF books]
  proof (intro allI impI)
    fix s' i r assume r: "((orders st)(s := order_map (book_abs b))) s' i = Some r"
    show "\<exists>info. order_symbol st' i = Some info \<and> oi_symbol info = s' \<and> oi_side info = ro_side r"
    proof (cases "s' = s")
      case True
      then show ?thesis using here r by simp
    next
      case False
      then have "orders st s' i = Some r" using r by simp
      with seq_okD(2) [OF ok this] there [OF False this] show ?thesis by simp
    qed
  qed
  ultimately show ?thesis using syms by (auto simp: seq_ok_def)
qed

lemma seq_ok_fill:
  assumes ok: "seq_ok st" and books: "sq_books st' = (sq_books st)(s := b)" "order_symbol st' = order_symbol st"
    and b: "wf_book b" "order_map (book_abs b) = fill k d (orders st s)"
  shows "seq_ok st'"
proof (rule seq_ok_update [OF ok books(1) b(1)])
  fix i r assume "order_map (book_abs b) i = Some r"
  then obtain r0 where "orders st s i = Some r0" "ro_side r0 = ro_side r" using b(2) fill_Some by metis
  then show "\<exists>info. order_symbol st' i = Some info \<and> oi_symbol info = s \<and> oi_side info = ro_side r"
    using seq_okD(2) [OF ok] books(2) by metis
qed (use ok books(2) in \<open>auto simp: seq_ok_def\<close>)

lemma seq_ok_remove:
  assumes ok: "seq_ok st" and books: "sq_books st' = (sq_books st)(s := b)" "order_symbol st' = (order_symbol st)(k := None)"
    and b: "wf_book b" "order_map (book_abs b) = (orders st s)(k := None)"
    and info: "order_symbol st k = Some info" "oi_symbol info = s"
  shows "seq_ok st'"
proof (rule seq_ok_update [OF ok books(1) b(1)])
  fix i r assume "order_map (book_abs b) i = Some r"
  then have "orders st s i = Some r" "i \<noteq> k" using b(2) by (auto split: if_splits)
  then show "\<exists>info. order_symbol st' i = Some info \<and> oi_symbol info = s \<and> oi_side info = ro_side r"
    using seq_okD(2) [OF ok] books(2) by simp
next
  fix i s' r assume "s' \<noteq> s" "orders st s' i = Some r"
  then show "order_symbol st' i = order_symbol st i"
    using seq_okD(2) [OF ok, of s' i r] info books(2) by auto
next
  fix i info' assume "order_symbol st' i = Some info'"
  then show "symbol_ok (oi_symbol info')" using seq_okD(3) [OF ok, of i info'] books(2) by (auto split: if_splits)
qed

text \<open>Adding a fresh limit order to one of the books.\<close>

lemma place_ok:
  assumes good: "seq_ok st" and t: "req_type t = Limit" and fresh: "order_symbol st (req_id t) = None" and s: "symbol_ok s"
  obtains
    (ok) b ts where "book_add (sq_books st s) t = Some (Inr (), b, ts)"
      "req_id t \<notin> maker_id ` set ts"
      "\<forall>j \<in> maker_id ` set ts. \<exists>r. orders st s j = Some r \<and> ro_side r = opposite (req_side t)"
      "order_map (book_abs b) =
         (if 0 < req_qty t - taker_filled (req_id t) ts
          then (fills ts (orders st s))(req_id t \<mapsto>
            \<lparr>ro_side = req_side t, ro_price = req_price t, ro_qty = req_qty t - taker_filled (req_id t) ts\<rparr>)
          else fills ts (orders st s))"
      "\<And>(st'::seq_state) m. sq_books st' = (sq_books st)(s := b) \<Longrightarrow>
         order_symbol st' = (order_symbol st)(req_id t \<mapsto> \<lparr>oi_symbol = s, oi_side = req_side t, oi_mpid = m\<rparr>) \<Longrightarrow> seq_ok st'"
  | (threw) e b ts where "book_add (sq_books st s) t = Some (Inl e, b, ts)"
      "\<And>(st'::seq_state). sq_books st' = (sq_books st)(s := b) \<Longrightarrow> order_symbol st' = order_symbol st \<Longrightarrow> seq_ok st'"
      "\<forall>j \<in> maker_id ` set ts. \<exists>r. orders st s j = Some r \<and> ro_side r = opposite (req_side t)"
      "order_map (book_abs b) = fills ts (orders st s)"
proof -
  have none: "orders st s' (req_id t) = None" for s' by (rule seq_okD(4) [OF good fresh])
  have inv: "\<exists>info. order_symbol st i = Some info \<and> oi_symbol info = s \<and> oi_side info = ro_side r"
    if r: "fills ts (orders st s) i = Some r" for ts i r
    using fills_Some [OF r] seq_okD(2) [OF good, of s i] by force
  show ?thesis
  proof (cases rule: limit_add [OF seq_okD(1) [OF good, of s] t none [of s, unfolded orders_def]])
    case (1 b ts)
    note b = 1 [folded orders_def]
    show ?thesis
    proof (rule ok [OF b(1) b(3,4,5)])
      fix st' :: seq_state and m
      assume books: "sq_books st' = (sq_books st)(s := b)"
        and sym: "order_symbol st' = (order_symbol st)(req_id t \<mapsto> \<lparr>oi_symbol = s, oi_side = req_side t, oi_mpid = m\<rparr>)"
      show "seq_ok st'"
      proof (rule seq_ok_update [OF assms(1) books b(2)])
        fix i r assume r: "order_map (book_abs b) i = Some r"
        show "\<exists>info. order_symbol st' i = Some info \<and> oi_symbol info = s \<and> oi_side info = ro_side r"
        proof (cases "i = req_id t")
          case True
          have "fills ts (orders st s) (req_id t) = None"
            using inv [of ts "req_id t"] fresh by (metis not_None_eq option.distinct(1))
          then show ?thesis using r b(5) True sym by (auto split: if_splits)
        next
          case False
          then have "fills ts (orders st s) i = Some r" using r b(5) by (auto split: if_splits)
          from inv [OF this] show ?thesis using sym False by simp
        qed
      next
        fix i s' r assume "s' \<noteq> s" "orders st s' i = Some r"
        then show "order_symbol st' i = order_symbol st i" using none [of s'] sym by auto
      next
        fix i info assume "order_symbol st' i = Some info"
        then show "symbol_ok (oi_symbol info)" using sym s seq_okD(3) [OF assms(1)] by (auto split: if_splits)
      qed
    qed
  next
    case (2 e b ts)
    note b = 2 [folded orders_def]
    show ?thesis
    proof (rule threw [OF b(1) _ b(4,3)])
      fix st' :: seq_state
      assume books: "sq_books st' = (sq_books st)(s := b)" and sym: "order_symbol st' = order_symbol st"
      show "seq_ok st'"
      proof (rule seq_ok_update [OF assms(1) books b(2)])
        fix i r assume "order_map (book_abs b) i = Some r"
        then show "\<exists>info. order_symbol st' i = Some info \<and> oi_symbol info = s \<and> oi_side info = ro_side r"
          using inv [of ts i r] b(3) sym by simp
      qed (use sym seq_okD(3) [OF assms(1)] in auto)
    qed
  qed
qed

section \<open>What a subscriber sees\<close>

text \<open>An event's effect on the orders of its symbol.\<close>

definition book_effect :: "md_event \<Rightarrow> (u64 \<Rightarrow> resting_order option) \<Rightarrow> u64 \<Rightarrow> resting_order option" where
  "book_effect e m =
     (if ev_type e = evAdd then m(ev_order_id e \<mapsto> event_order e)
      else if ev_type e = evCancel \<or> ev_type e = evTrade then fill (ev_order_id e) (ev_qty e) m
      else if ev_type e = evDelete then m(ev_order_id e := None)
      else if ev_type e = evReplace then m(ev_order_id e := None, ev_new_order_id e \<mapsto> event_order e)
      else m)"

lemma event_effect_book:
  "ev_symbol e = symbol_pad s \<Longrightarrow> symbol_ok s \<Longrightarrow> event_effect e v = v(s := book_effect e (v s))"
  by (simp add: event_effect_def Let_def book_effect_def fill_def symbol_str_pad)

lemma trade_events_effect:
  "symbol_ok s \<Longrightarrow> fold event_effect (map (trade_event s sd ts) trades) v = v(s := fills trades (v s))"
proof (induction trades arbitrary: v)
  case (Cons t trades)
  have "event_effect (trade_event s sd ts t) v = v(s := fill (maker_id t) (trade_qty t) (v s))"
    using Cons.prems by (subst event_effect_book [of _ s]) (simp_all add: trade_event_def book_effect_def)
  then show ?case
    unfolding list.map fold_simps using Cons.IH [OF Cons.prems] by (simp only: fun_upd_upd fun_upd_same fills_simps)
qed simp

text \<open>The step published everything: no add threw and no replacement was turned down by risk.\<close>

definition faithful :: "message \<Rightarrow> seq_state \<Rightarrow> seq_state \<Rightarrow> bool" where
  "faithful m st st' \<longleftrightarrow> add_rejected (sq_stats st') = add_rejected (sq_stats st) \<and>
     (case m of OrderReplace r \<Rightarrow> risk_rejected (sq_stats st') = risk_rejected (sq_stats st) | _ \<Rightarrow> True)"

definition step_good :: "callbacks \<Rightarrow> message \<Rightarrow> seq_state \<Rightarrow> (seq_state \<times> seq_output list) option \<Rightarrow> bool" where
  "step_good cb m st res \<longleftrightarrow>
     (\<exists>st' out. res = Some (st', out) \<and> seq_ok st' \<and>
        (has_md cb \<and> faithful m st st' \<longrightarrow> orders st' = fold event_effect (mds out) (orders st)))"

lemma alpha_end_strip: "alpha_end raw n = strip_end raw n"
  by (induction n) (simp_all add: space_def)

lemma alpha_str_ok: "length raw = 8 \<Longrightarrow> symbol_ok (alpha_str raw)"
  using symbol_str_ok [of raw] by (simp add: alpha_str_def symbol_str_def alpha_end_strip)

end
