(* ===== verification/Sequencer_Main.thy ===== *)
theory Sequencer_Main
  imports Sequencer_Inv
begin

text \<open>
  The sequencer's properties: every message returns and keeps the invariant, the published market data
  is enough to follow the books, the counters account for every message, a message touches only the
  book of its symbol, and what the sequencer does not announce when a Replace is turned down.
\<close>

section \<open>The branches keep the invariant and publish what they did\<close>

lemma orders_cong: "sq_books st' = sq_books st \<Longrightarrow> orders st' = orders st"
  by (simp add: orders_def fun_eq_iff)

lemma published_add:
  assumes s: "symbol_ok s" and ids: "i \<notin> maker_id ` set trades"
    and e: "ev_type e = evAdd" "ev_order_id e = i" "ev_symbol e = symbol_pad s"
  shows "fold event_effect ((if 0 < q then [e] else []) @ map (trade_event s sd ts) trades) v =
    v(s := (if 0 < q then (fills trades (v s))(i \<mapsto> event_order e) else fills trades (v s)))"
proof (cases "0 < q")
  case True
  have "event_effect e v = v(s := (v s)(i \<mapsto> event_order e))"
    using e s by (subst event_effect_book [of _ s]) (simp_all add: book_effect_def)
  then show ?thesis using True trade_events_effect [OF s] fills_other [OF ids] by simp
next
  case False
  then show ?thesis using trade_events_effect [OF s] by simp
qed

lemma step_goodI:
  assumes "res = Some (st', out)" "seq_ok st'"
    "has_md cb \<Longrightarrow> faithful m st st' \<Longrightarrow> orders st' = fold event_effect (mds out) (orders st)"
  shows "step_good cb m st res"
  using assms by (auto simp: step_good_def)

lemma step_good_quiet:
  assumes "seq_ok st" "res = Some (st', out)" "order_symbol st' = order_symbol st" "sq_books st' = sq_books st" "mds out = []"
  shows "step_good cb m st res"
proof (rule step_goodI [OF assms(2)])
  show "seq_ok st'" using assms(1) seq_ok_cong [OF assms(3,4)] by simp
  show "orders st' = fold event_effect (mds out) (orders st)" using orders_cong [OF assms(4)] assms(5) by simp
qed

lemma add_good:
  assumes good: "seq_ok st" and fresh: "order_symbol st i = None" and len: "length stock = 8"
  shows "step_good cb m st (on_add cb rnd h i c shares stock price mpid st)"
proof -
  let ?s = "alpha_str stock" and ?sd = "side_from_indicator c"
  define req where "req = \<lparr>req_id = i, req_side = ?sd, req_type = Limit, req_price = uint price, req_qty = ucast shares :: u64\<rparr>"
  have s: "symbol_ok ?s" by (rule alpha_str_ok [OF len])
  have req: "req_type req = Limit" "req_id req = i" "req_side req = ?sd" by (simp_all add: req_def)
  let ?v = "risk_verdict rnd st req ?s mpid"
  show ?thesis
  proof (cases "accepted ?v")
    case False
    then have "on_add cb rnd h i c shares stock price mpid st =
        Some (count1 risk_rejected_update st, calls (has_report cb) (report (req_id req) Reject ?s (req_qty req) 0 (detail ?v)))"
      by (simp add: on_add_def Let_def req_def)
    then show ?thesis by (rule step_good_quiet [OF good]) simp_all
  next
    case acc: True
    show ?thesis
    proof (cases rule: place_ok [OF good req(1) _ s])
      case 1
      then show ?case using fresh req by simp
    next
      case (2 b ts)
      define st4 where "st4 = with_risk (note_resting ?s mpid ?sd)
        ((count1 add_orders_update (set_book ?s b
           (st\<lparr>order_symbol := (order_symbol st)(i \<mapsto> \<lparr>oi_symbol = ?s, oi_side = ?sd, oi_mpid = mpid\<rparr>)\<rparr>)))
          \<lparr>sq_stats := trades_produced_update (\<lambda>n. n + word_of_nat (length ts)) (add_orders_update (\<lambda>n. n + 1) (sq_stats st))\<rparr>)"
      obtain st5 fl where pub: "publish_trades cb i ?s ?sd (timestamp_ns h) ts st4 = (st5, fl)" by fastforce
      note fr = publish_trades_frame [OF pub]
      let ?q = "req_qty req - taker_filled (req_id req) ts"
      let ?e = "md_default\<lparr>ev_type := evAdd, ev_side := ?sd, ev_timestamp_ns := timestamp_ns h,
         ev_order_id := i, ev_symbol := symbol_pad ?s, ev_price := req_price req, ev_qty := ?q\<rparr>"
      have run: "on_add cb rnd h i c shares stock price mpid st = Some (st5,
          calls (has_report cb) (report i Ack ?s (req_qty req) 0 NoDetail) @
          calls (has_md cb \<and> 0 < ?q) (Publish ?e) @ fl)"
        using acc 2(1) pub by (simp add: on_add_def Let_def req_def st4_def)
      show ?thesis
      proof (rule step_goodI [OF run])
        show "seq_ok st5"
          by (rule 2(5) [of _ mpid]) (use fr in \<open>simp_all add: st4_def req\<close>)
        assume "has_md cb"
        then have "mds (calls (has_report cb) (report i Ack ?s (req_qty req) 0 NoDetail) @
            calls (has_md cb \<and> 0 < ?q) (Publish ?e) @ fl) =
            (if 0 < ?q then [?e] else []) @ map (trade_event ?s ?sd (timestamp_ns h)) ts"
          using fr by simp
        moreover have "orders st5 = (orders st)(?s := order_map (book_abs b))"
          using fr by (intro orders_set_book) (simp add: st4_def)
        moreover have "event_order ?e = \<lparr>ro_side = req_side req, ro_price = req_price req, ro_qty = ?q\<rparr>"
          by (simp add: event_order_def req)
        ultimately show "orders st5 = fold event_effect (mds (calls (has_report cb) (report i Ack ?s (req_qty req) 0 NoDetail) @
            calls (has_md cb \<and> 0 < ?q) (Publish ?e) @ fl)) (orders st)"
          using published_add [OF s 2(2), of ?e ?q ?sd "timestamp_ns h" "orders st"] 2(4) req by simp
      qed
    next
      case (3 e b ts)
      then have run: "on_add cb rnd h i c shares stock price mpid st = Some
         ((count1 add_rejected_update (set_book ?s b st))\<lparr>order_symbol := (order_symbol st)(i := None)\<rparr>,
          calls (has_report cb) (report i Reject ?s (req_qty req) 0 (BookError e)))"
        using acc by (simp add: on_add_def Let_def req_def count1_def set_book_def)
      show ?thesis
        by (rule step_goodI [OF run 3(2)]) (use fresh in \<open>auto simp: faithful_def\<close>)
    qed
  qed
qed

text \<open>Cancel and the two executions reduce one routed order.\<close>

lemma reduced_good:
  assumes good: "seq_ok st" and info: "order_symbol st i = Some info"
    and b: "wf_book b" "order_map (book_abs b) = fill i d (orders st (oi_symbol info))"
    and st': "order_symbol st' = order_symbol st" "sq_books st' = (sq_books st)(oi_symbol info := b)"
    and e: "ev_type e = evCancel \<or> ev_type e = evTrade" "ev_order_id e = i" "ev_qty e = d"
      "ev_symbol e = symbol_pad (oi_symbol info)"
    and res: "res = Some (st', calls (has_md cb) (Publish e))"
  shows "step_good cb m st res"
proof (rule step_goodI [OF res])
  show "seq_ok st'" by (rule seq_ok_fill [OF good st'(2,1) b])
  have "event_effect e (orders st) = (orders st)(oi_symbol info := fill i d (orders st (oi_symbol info)))"
    using e by (subst event_effect_book [OF e(4) seq_okD(3) [OF good info]]) (auto simp: book_effect_def)
  then show "orders st' = fold event_effect (mds (calls (has_md cb) (Publish e))) (orders st)" if "has_md cb"
    using that orders_set_book [OF st'(2)] b(2) by simp
qed

lemma reduce_good:
  assumes good: "seq_ok st" and info: "order_symbol st i = Some info"
  obtains b found where "book_reduce (sq_books st (oi_symbol info)) i d = Some (b, found)" "wf_book b"
    "order_map (book_abs b) = fill i d (orders st (oi_symbol info))"
  using reduce_orders [OF seq_okD(1) [OF good, of "oi_symbol info"], of i d] unfolding orders_def by metis

lemma cancel_good: "seq_ok st \<Longrightarrow> step_good cb msg st (on_cancel cb m st)"
proof (cases "order_symbol st (oc_order_ref_number m)")
  case (Some info)
  assume good: "seq_ok st"
  from reduce_good [OF good Some, of "ucast (oc_canceled_shares m)"] obtain b f where
    b: "book_reduce (sq_books st (oi_symbol info)) (oc_order_ref_number m) (ucast (oc_canceled_shares m)) = Some (b, f)"
    "wf_book b" "order_map (book_abs b) = fill (oc_order_ref_number m) (ucast (oc_canceled_shares m)) (orders st (oi_symbol info))"
    by blast
  from b(1) Some show ?thesis
    unfolding on_cancel_def
    by (intro reduced_good [OF good Some b(2,3), where st' = "count1 cancels_update (set_book (oi_symbol info) b st)"])
       (auto simp: Let_def)
qed (auto simp: on_cancel_def intro: step_good_quiet)

lemma executed_good: "seq_ok st \<Longrightarrow> step_good cb msg st (on_executed cb m st)"
proof (cases "order_symbol st (oe_order_ref_number m)")
  case (Some info)
  assume good: "seq_ok st"
  from reduce_good [OF good Some, of "ucast (oe_executed_shares m)"] obtain b f where
    b: "book_reduce (sq_books st (oi_symbol info)) (oe_order_ref_number m) (ucast (oe_executed_shares m)) = Some (b, f)"
    "wf_book b" "order_map (book_abs b) = fill (oe_order_ref_number m) (ucast (oe_executed_shares m)) (orders st (oi_symbol info))"
    by blast
  from b(1) Some show ?thesis
    unfolding on_executed_def
    by (intro reduced_good [OF good Some b(2,3), where st' = "count1 executes_update (set_book (oi_symbol info) b st)"])
       (auto simp: Let_def)
qed (auto simp: on_executed_def intro: step_good_quiet)

lemma executed_with_price_good: "seq_ok st \<Longrightarrow> step_good cb msg st (on_executed_with_price cb m st)"
proof (cases "oep_printable m = 78")
  case True
  assume "seq_ok st"
  then show ?thesis using True by (auto simp: on_executed_with_price_def intro: step_good_quiet)
next
  case printable: False
  assume good: "seq_ok st"
  show ?thesis
  proof (cases "order_symbol st (oep_order_ref_number m)")
    case (Some info)
    from reduce_good [OF good Some, of "ucast (oep_executed_shares m)"] obtain b f where
      b: "book_reduce (sq_books st (oi_symbol info)) (oep_order_ref_number m) (ucast (oep_executed_shares m)) = Some (b, f)"
      "wf_book b" "order_map (book_abs b) = fill (oep_order_ref_number m) (ucast (oep_executed_shares m)) (orders st (oi_symbol info))"
      by blast
    from b(1) Some printable show ?thesis
      unfolding on_executed_with_price_def
      by (intro reduced_good [OF good Some b(2,3), where st' = "count1 executes_update
            (with_risk (on_trade (oi_symbol info) (uint (oep_execution_price m))) (set_book (oi_symbol info) b st))"])
         (auto simp: Let_def)
  qed (use good printable in \<open>auto simp: on_executed_with_price_def intro: step_good_quiet\<close>)
qed

text \<open>Delete, and the first half of Replace: the order leaves its book and its route.\<close>

lemma removed_ok:
  assumes good: "seq_ok st" and info: "order_symbol st i = Some info"
  obtains b found where "book_cancel (sq_books st (oi_symbol info)) i = Some (b, found)"
    "\<And>(st'::seq_state). order_symbol st' = (order_symbol st)(i := None) \<Longrightarrow>
       sq_books st' = (sq_books st)(oi_symbol info := b) \<Longrightarrow>
       seq_ok st' \<and> orders st' = (orders st)(oi_symbol info := (orders st (oi_symbol info))(i := None))"
proof -
  obtain b found where b: "book_cancel (sq_books st (oi_symbol info)) i = Some (b, found)" "wf_book b"
      "order_map (book_abs b) = (orders st (oi_symbol info))(i := None)"
    using cancel_orders [OF seq_okD(1) [OF good, of "oi_symbol info"], of i] unfolding orders_def by metis
  show ?thesis
  proof (rule that [OF b(1)])
    fix st' :: seq_state
    assume st': "order_symbol st' = (order_symbol st)(i := None)" "sq_books st' = (sq_books st)(oi_symbol info := b)"
    show "seq_ok st' \<and> orders st' = (orders st)(oi_symbol info := (orders st (oi_symbol info))(i := None))"
      using seq_ok_remove [OF good st'(2,1) b(2,3) info refl] orders_set_book [OF st'(2)] b(3) by simp
  qed
qed

lemma delete_effect:
  assumes "symbol_ok s" "ev_type e = evDelete" "ev_order_id e = i" "ev_symbol e = symbol_pad s"
  shows "event_effect e v = v(s := (v s)(i := None))"
  using assms by (subst event_effect_book [of _ s]) (auto simp: book_effect_def)

lemma delete_good: "seq_ok st \<Longrightarrow> step_good cb msg st (on_delete cb m st)"
proof (cases "order_symbol st (od_order_ref_number m)")
  case (Some info)
  assume good: "seq_ok st"
  let ?i = "od_order_ref_number m" and ?s = "oi_symbol info"
  from removed_ok [OF good Some] obtain b f where b: "book_cancel (sq_books st ?s) ?i = Some (b, f)"
    "\<And>(st'::seq_state). order_symbol st' = (order_symbol st)(?i := None) \<Longrightarrow> sq_books st' = (sq_books st)(?s := b) \<Longrightarrow>
       seq_ok st' \<and> orders st' = (orders st)(?s := (orders st ?s)(?i := None))"
    by blast
  define st1 where "st1 = with_risk (note_removed ?s (oi_mpid info) (oi_side info)) (set_book ?s b st)"
  let ?e = "md_default\<lparr>ev_type := evDelete, ev_side := oi_side info,
     ev_timestamp_ns := timestamp_ns (od_h m), ev_order_id := ?i, ev_symbol := symbol_pad ?s\<rparr>"
  have run: "on_delete cb m st = Some (count1 deletes_update (st1\<lparr>order_symbol := (order_symbol st1)(?i := None)\<rparr>),
      calls (has_md cb) (Publish ?e))"
    using Some b(1) by (simp add: on_delete_def st1_def Let_def)
  note st' = b(2) [of "count1 deletes_update (st1\<lparr>order_symbol := (order_symbol st1)(?i := None)\<rparr>)"]
  show ?thesis
  proof (rule step_goodI [OF run])
    show "seq_ok (count1 deletes_update (st1\<lparr>order_symbol := (order_symbol st1)(?i := None)\<rparr>))"
      using st' by (simp add: st1_def)
    show "orders (count1 deletes_update (st1\<lparr>order_symbol := (order_symbol st1)(?i := None)\<rparr>)) =
        fold event_effect (mds (calls (has_md cb) (Publish ?e))) (orders st)" if "has_md cb"
      using that st' delete_effect [OF seq_okD(3) [OF good Some], of ?e ?i "orders st"] by (simp add: st1_def)
  qed
qed (auto simp: on_delete_def intro: step_good_quiet)

lemma published_replace:
  assumes s: "symbol_ok s" and ids: "i \<notin> maker_id ` set trades"
    and e: "ev_type e = evReplace" "ev_order_id e = k" "ev_new_order_id e = i" "ev_symbol e = symbol_pad s"
    and d: "ev_type d = evDelete" "ev_order_id d = k" "ev_symbol d = symbol_pad s"
    and m: "m = (v s)(k := None)"
  shows "fold event_effect ((if 0 < q then e else d) # map (trade_event s sd ts) trades) v =
    v(s := (if 0 < q then (fills trades m)(i \<mapsto> event_order e) else fills trades m))"
proof (cases "0 < q")
  case True
  have "event_effect e v = v(s := m(i \<mapsto> event_order e))"
    using e s by (subst event_effect_book [of _ s]) (auto simp: book_effect_def m)
  then show ?thesis using True trade_events_effect [OF s] fills_other [OF ids] by simp
next
  case False
  then show ?thesis using trade_events_effect [OF s] delete_effect [OF s d, of v] by (simp add: m)
qed

lemma replace_good:
  assumes good: "seq_ok st" and fresh: "fresh_ids (OrderReplace m) st"
  shows "step_good cb (OrderReplace m) st (on_replace cb rnd m st)"
proof (cases "order_symbol st (or_original_order_ref_number m)")
  case (Some info)
  let ?k = "or_original_order_ref_number m" and ?i = "or_new_order_ref_number m"
    and ?s = "oi_symbol info" and ?sd = "oi_side info"
  have s: "symbol_ok ?s" by (rule seq_okD(3) [OF good Some])
  define req where "req = \<lparr>req_id = ?i, req_side = ?sd, req_type = Limit, req_price = uint (or_price m), req_qty = ucast (or_shares m) :: u64\<rparr>"
  have req: "req_type req = Limit" "req_id req = ?i" "req_side req = ?sd" by (simp_all add: req_def)
  from removed_ok [OF good Some] obtain b0 f where b0: "book_cancel (sq_books st ?s) ?k = Some (b0, f)"
    "\<And>(st'::seq_state). order_symbol st' = (order_symbol st)(?k := None) \<Longrightarrow> sq_books st' = (sq_books st)(?s := b0) \<Longrightarrow>
       seq_ok st' \<and> orders st' = (orders st)(?s := (orders st ?s)(?k := None))"
    by blast
  define st0 where "st0 = with_risk (note_removed ?s (oi_mpid info) ?sd) (set_book ?s b0 st)"
  define st1 where "st1 = st0\<lparr>order_symbol := (order_symbol st0)(?k := None)\<rparr>"
  have st1: "order_symbol st1 = (order_symbol st)(?k := None)" "sq_books st1 = (sq_books st)(?s := b0)"
    "sq_stats st1 = sq_stats st"
    by (simp_all add: st1_def st0_def)
  note ok1 = b0(2) [OF st1(1,2)]
  let ?v = "risk_verdict rnd st1 req ?s (oi_mpid info)"
  have free: "order_symbol st1 (req_id req) = None" using fresh by (auto simp: fresh_ids_def st1 req)
  note unfolds = on_replace_def Some b0(1) Let_def option.case bind.bind_lunit prod.case st0_def [symmetric] st1_def [symmetric] req_def [symmetric]
  show ?thesis
  proof (cases "accepted ?v")
    case False
    then have run: "on_replace cb rnd m st = Some (count1 risk_rejected_update st1,
        calls (has_report cb) (report ?i Reject ?s (req_qty req) 0 (detail ?v)))"
      unfolding unfolds by (simp add: req)
    show ?thesis
    proof (rule step_goodI [OF run])
      show "seq_ok (count1 risk_rejected_update st1)" using ok1 seq_ok_cong [of st1 "count1 risk_rejected_update st1"] by simp
    qed (simp add: faithful_def st1)
  next
    case acc: True
    show ?thesis
    proof (cases rule: place_ok [OF ok1 [THEN conjunct1] req(1) free s])
      case (1 b ts)
      define st5 where "st5 = with_risk (note_resting ?s (oi_mpid info) ?sd)
        ((count1 replaces_update ((set_book ?s b st1)\<lparr>order_symbol := (order_symbol st1)(?i \<mapsto> info)\<rparr>))
          \<lparr>sq_stats := trades_produced_update (\<lambda>n. n + word_of_nat (length ts)) (replaces_update (\<lambda>n. n + 1) (sq_stats st1))\<rparr>)"
      obtain st6 fl where pub: "publish_trades cb ?i ?s ?sd (timestamp_ns (or_h m)) ts st5 = (st6, fl)" by fastforce
      note fr = publish_trades_frame [OF pub]
      let ?q = "req_qty req - taker_filled (req_id req) ts"
      let ?e = "md_default\<lparr>ev_type := evReplace, ev_side := ?sd, ev_timestamp_ns := timestamp_ns (or_h m), ev_order_id := ?k,
         ev_new_order_id := ?i, ev_symbol := symbol_pad ?s, ev_price := req_price req, ev_qty := ?q\<rparr>"
      let ?d = "md_default\<lparr>ev_type := evDelete, ev_side := ?sd, ev_timestamp_ns := timestamp_ns (or_h m), ev_order_id := ?k,
         ev_symbol := symbol_pad ?s\<rparr>"
      let ?out = "calls (has_report cb) (report ?i Ack ?s (req_qty req) 0 NoDetail) @
          calls (has_md cb) (Publish (if 0 < ?q then ?e else ?d)) @ fl"
      have run: "on_replace cb rnd m st = Some (st6, ?out)"
        unfolding unfolds using acc 1(1) pub by (simp add: st5_def req)
      show ?thesis
      proof (rule step_goodI [OF run])
        show "seq_ok st6"
        proof (rule 1(5) [of _ "oi_mpid info"])
          have "info = \<lparr>oi_symbol = ?s, oi_side = req_side req, oi_mpid = oi_mpid info\<rparr>" by (simp add: req)
          then show "order_symbol st6 = (order_symbol st1)
              (req_id req \<mapsto> \<lparr>oi_symbol = ?s, oi_side = req_side req, oi_mpid = oi_mpid info\<rparr>)"
            using fr by (simp add: st5_def req(2))
        qed (use fr in \<open>simp add: st5_def\<close>)
        assume "has_md cb"
        then have "mds ?out = (if 0 < ?q then ?e else ?d) # map (trade_event ?s ?sd (timestamp_ns (or_h m))) ts"
          using fr by simp
        moreover have "orders st6 = (orders st1)(?s := order_map (book_abs b))"
          using fr by (intro orders_set_book) (simp add: st5_def)
        moreover have "event_order ?e = \<lparr>ro_side = req_side req, ro_price = req_price req, ro_qty = ?q\<rparr>"
          by (simp add: event_order_def req)
        ultimately show "orders st6 = fold event_effect (mds ?out) (orders st)"
          using published_replace [OF s 1(2), of ?e ?k ?d "(orders st ?s)(?k := None)" "orders st" ?q ?sd "timestamp_ns (or_h m)"]
            1(4) req ok1 by simp
      qed
    next
      case (2 e b ts)
      then have run: "on_replace cb rnd m st = Some (count1 add_rejected_update (set_book ?s b st1),
          calls (has_report cb) (report ?i Reject ?s (req_qty req) 0 (BookError e)))"
        unfolding unfolds using acc by (simp add: req)
      show ?thesis
        by (rule step_goodI [OF run 2(2)]) (auto simp: faithful_def st1)
    qed
  qed
qed (use good in \<open>auto simp: on_replace_def intro: step_good_quiet\<close>)

text \<open>Every message.\<close>

lemma message_ok_stock:
  "message_ok (AddOrderNoMPID a) \<Longrightarrow> length (ao_stock a) = 8"
  "message_ok (AddOrderMPID b) \<Longrightarrow> length (aom_stock b) = 8"
  by (simp_all add: message_ok_def)

lemma message_good:
  assumes good: "seq_ok st" and m: "message_ok m" "fresh_ids m st"
  shows "step_good cb m st (on_message cb rnd m st)"
proof (cases m)
  case (AddOrderNoMPID a)
  then show ?thesis
    using add_good [OF good _ message_ok_stock(1)] m by (simp add: on_message_def fresh_ids_def)
next
  case (AddOrderMPID a)
  then show ?thesis
    using add_good [OF good _ message_ok_stock(2)] m by (simp add: on_message_def fresh_ids_def)
next
  case (OrderReplace a)
  then show ?thesis using replace_good [OF good] m by (simp add: on_message_def)
qed (use good in \<open>simp_all add: on_message_def cancel_good delete_good executed_good executed_with_price_good
      step_good_quiet [OF good refl]\<close>)

section \<open>Routes, counters and books of one message\<close>

text \<open>The order references a message introduces.\<close>

fun new_ids :: "message \<Rightarrow> u64 list" where
  "new_ids (AddOrderNoMPID a) = [ao_order_ref_number a]"
| "new_ids (AddOrderMPID a) = [aom_order_ref_number a]"
| "new_ids (OrderReplace a) = [or_new_order_ref_number a]"
| "new_ids _ = []"

text \<open>The symbol whose book a message may touch.\<close>

fun touches :: "message \<Rightarrow> seq_state \<Rightarrow> bytes option" where
  "touches (AddOrderNoMPID a) st = Some (alpha_str (ao_stock a))"
| "touches (AddOrderMPID a) st = Some (alpha_str (aom_stock a))"
| "touches (OrderCancel a) st = map_option oi_symbol (order_symbol st (oc_order_ref_number a))"
| "touches (OrderDelete a) st = map_option oi_symbol (order_symbol st (od_order_ref_number a))"
| "touches (OrderExecuted a) st = map_option oi_symbol (order_symbol st (oe_order_ref_number a))"
| "touches (OrderExecutedWithPrice a) st = map_option oi_symbol (order_symbol st (oep_order_ref_number a))"
| "touches (OrderReplace a) st = map_option oi_symbol (order_symbol st (or_original_order_ref_number a))"
| "touches _ st = None"

text \<open>All counters but the number of trades.\<close>

definition handled :: "seq_stats \<Rightarrow> u64" where
  "handled s = add_orders s + cancels s + deletes s + executes s + non_printable_skipped s + replaces s +
     unrouted s + other_message_types s + add_rejected s + risk_rejected s"

definition accounted :: "message \<Rightarrow> seq_state \<Rightarrow> seq_state \<Rightarrow> bool" where
  "accounted m st st' \<longleftrightarrow> handled (sq_stats st') = handled (sq_stats st) + 1 \<and>
     (\<forall>i. order_symbol st' i \<noteq> None \<longrightarrow> order_symbol st i \<noteq> None \<or> i \<in> set (new_ids m)) \<and>
     (\<forall>s. touches m st \<noteq> Some s \<longrightarrow> sq_books st' s = sq_books st s)"

lemmas branch_defs = on_add_def on_cancel_def on_delete_def on_executed_def on_executed_with_price_def on_replace_def

lemma is_int64_uint [simp]: "is_int64 (uint (p :: u32))" "is_int64 0"
proof -
  have "0 \<le> uint p" "uint p < 4294967296" using unsigned_less [of p, where ?'a = int] by simp_all
  then have "- 9223372036854775808 \<le> uint p" "uint p < 9223372036854775808" by linarith+
  then show "is_int64 (uint p)" by (simp add: is_int64_def)
qed (simp add: is_int64_def)

text \<open>An event other than a trade, that fits its wire record.\<close>

definition quote_valid :: "md_event \<Rightarrow> bool" where
  "quote_valid e \<longleftrightarrow> ev_type e \<noteq> evTrade \<and> md_valid e"

lemma quote_valid_simps [simp]:
  "quote_valid (md_default\<lparr>ev_type := ty, ev_side := sd, ev_timestamp_ns := k, ev_order_id := i, ev_symbol := symbol_pad s\<rparr>) \<longleftrightarrow>
     ty \<noteq> evTrade"
  "quote_valid (md_default\<lparr>ev_type := ty, ev_side := sd, ev_timestamp_ns := k, ev_order_id := i, ev_symbol := symbol_pad s,
     ev_price := p, ev_qty := q\<rparr>) \<longleftrightarrow> ty \<noteq> evTrade \<and> is_int64 p"
  "quote_valid (md_default\<lparr>ev_type := ty, ev_side := sd, ev_timestamp_ns := k, ev_order_id := i, ev_new_order_id := j,
     ev_symbol := symbol_pad s, ev_price := p, ev_qty := q\<rparr>) \<longleftrightarrow> ty \<noteq> evTrade \<and> is_int64 p"
  by (simp_all add: quote_valid_def md_valid_def md_default_def)

lemma trades_of_quotes: "\<forall>e \<in> E. e \<in> T \<or> quote_valid e \<Longrightarrow> \<forall>e \<in> E. ev_type e = evTrade \<longrightarrow> e \<in> T"
  by (auto simp: quote_valid_def)

text \<open>The outcomes of an Add Order and of a Replace.\<close>

lemma add_cases:
  assumes run: "on_add cb rnd h i c shares stock price mpid st = Some (st', out)"
    and s: "s = alpha_str stock" and sd: "sd = side_from_indicator c"
    and req: "req = \<lparr>req_id = i, req_side = sd, req_type = Limit, req_price = uint price, req_qty = ucast shares\<rparr>"
  obtains
    (risk) "\<not> accepted (risk_verdict rnd st req s mpid)" "st' = count1 risk_rejected_update st"
      "out = calls (has_report cb) (report i Reject s (req_qty req) 0 (detail (risk_verdict rnd st req s mpid)))"
  | (placed) b ts where "accepted (risk_verdict rnd st req s mpid)" "book_add (sq_books st s) req = Some (Inr (), b, ts)"
      "order_symbol st' = (order_symbol st)(i \<mapsto> \<lparr>oi_symbol = s, oi_side = sd, oi_mpid = mpid\<rparr>)"
      "sq_books st' = (sq_books st)(s := b)"
      "sq_stats st' = trades_produced_update (\<lambda>n. n + word_of_nat (length ts)) (add_orders_update (\<lambda>n. n + 1) (sq_stats st))"
      "sq_risk st' = map_option (fold (\<lambda>t. on_trade s (trade_price t)) ts) (map_option (note_resting s mpid sd) (sq_risk st))"
      "\<forall>e \<in> set (mds out). e \<in> trade_event s sd (timestamp_ns h) ` set ts \<or> quote_valid e"
  | (threw) e b ts where "accepted (risk_verdict rnd st req s mpid)" "book_add (sq_books st s) req = Some (Inl e, b, ts)"
      "order_symbol st' = (order_symbol st)(i := None)" "sq_books st' = (sq_books st)(s := b)"
      "sq_stats st' = add_rejected_update (\<lambda>n. n + 1) (sq_stats st)" "sq_risk st' = sq_risk st" "mds out = []"
proof (cases "accepted (risk_verdict rnd st req s mpid)")
  case False
  then show ?thesis using run by (intro risk) (simp_all add: on_add_def Let_def s sd req)
next
  case True
  then obtain r b ts where add: "book_add (sq_books st s) req = Some (r, b, ts)"
    using run by (auto simp: on_add_def Let_def s sd req bind_eq_Some_conv)
  show ?thesis
  proof (cases r)
    case (Inl e)
    then show ?thesis
      using run add True by (intro threw [of e b ts]) (auto simp: on_add_def Let_def s sd req)
  next
    case (Inr u)
    then show ?thesis
      using run add True
      by (intro placed [of b ts])
         (auto simp: on_add_def Let_def s sd req split: prod.splits if_splits dest!: publish_trades_frame)
  qed
qed

text \<open>The state between the two halves of a Replace: the original order is gone from book and routes.\<close>

definition withdrawn :: "seq_state \<Rightarrow> u64 \<Rightarrow> order_info \<Rightarrow> seq_state \<Rightarrow> bool" where
  "withdrawn st k info st1 \<longleftrightarrow>
     (\<exists>b found. book_cancel (sq_books st (oi_symbol info)) k = Some (b, found) \<and>
       sq_books st1 = (sq_books st)(oi_symbol info := b)) \<and>
     order_symbol st1 = (order_symbol st)(k := None) \<and> sq_stats st1 = sq_stats st \<and>
     sq_risk st1 = map_option (note_removed (oi_symbol info) (oi_mpid info) (oi_side info)) (sq_risk st)"

lemma withdrawn_ok:
  assumes "seq_ok st" "order_symbol st k = Some info" "withdrawn st k info st1"
  shows "seq_ok st1" "orders st1 = (orders st)(oi_symbol info := (orders st (oi_symbol info))(k := None))"
  by (rule removed_ok [OF assms(1,2)]; use assms(3) in \<open>auto simp: withdrawn_def\<close>)+

lemma replace_cases:
  assumes run: "on_replace cb rnd m st = Some (st', out)"
    and info: "order_symbol st (or_original_order_ref_number m) = Some info"
    and s: "s = oi_symbol info" and sd: "sd = oi_side info"
    and req: "req = \<lparr>req_id = or_new_order_ref_number m, req_side = sd, req_type = Limit,
      req_price = uint (or_price m), req_qty = ucast (or_shares m)\<rparr>"
  obtains
    (risk) st1 where "withdrawn st (or_original_order_ref_number m) info st1"
      "\<not> accepted (risk_verdict rnd st1 req s (oi_mpid info))" "st' = count1 risk_rejected_update st1"
      "out = calls (has_report cb) (report (req_id req) Reject s (req_qty req) 0 (detail (risk_verdict rnd st1 req s (oi_mpid info))))"
  | (placed) st1 b ts where "withdrawn st (or_original_order_ref_number m) info st1"
      "accepted (risk_verdict rnd st1 req s (oi_mpid info))" "book_add (sq_books st1 s) req = Some (Inr (), b, ts)"
      "order_symbol st' = (order_symbol st1)(or_new_order_ref_number m \<mapsto> info)" "sq_books st' = (sq_books st1)(s := b)"
      "sq_stats st' = trades_produced_update (\<lambda>n. n + word_of_nat (length ts)) (replaces_update (\<lambda>n. n + 1) (sq_stats st))"
      "sq_risk st' = map_option (fold (\<lambda>t. on_trade s (trade_price t)) ts) (map_option (note_resting s (oi_mpid info) sd) (sq_risk st1))"
      "\<forall>e \<in> set (mds out). e \<in> trade_event s sd (timestamp_ns (or_h m)) ` set ts \<or> quote_valid e"
  | (threw) st1 e b ts where "withdrawn st (or_original_order_ref_number m) info st1"
      "accepted (risk_verdict rnd st1 req s (oi_mpid info))" "book_add (sq_books st1 s) req = Some (Inl e, b, ts)"
      "order_symbol st' = order_symbol st1" "sq_books st' = (sq_books st1)(s := b)"
      "sq_stats st' = add_rejected_update (\<lambda>n. n + 1) (sq_stats st)" "sq_risk st' = sq_risk st1" "mds out = []"
proof -
  let ?k = "or_original_order_ref_number m"
  from run info obtain b0 found where c: "book_cancel (sq_books st s) ?k = Some (b0, found)"
    by (cases "book_cancel (sq_books st s) ?k") (auto simp: on_replace_def Let_def s)
  define st0 where "st0 = with_risk (note_removed s (oi_mpid info) sd) (set_book s b0 st)"
  define st1 where "st1 = st0\<lparr>order_symbol := (order_symbol st0)(?k := None)\<rparr>"
  have gone: "withdrawn st ?k info st1"
    using c by (simp add: withdrawn_def st1_def st0_def s sd)
  then have stats: "sq_stats st1 = sq_stats st" by (simp add: withdrawn_def)
  note run' = run [unfolded on_replace_def info option.case Let_def s [symmetric] sd [symmetric] c bind.bind_lunit
      prod.case st0_def [symmetric] st1_def [symmetric] req [symmetric]]
  have id: "req_id req = or_new_order_ref_number m" "req_price req = uint (or_price m)" by (simp_all add: req)
  show ?thesis
  proof (cases "accepted (risk_verdict rnd st1 req s (oi_mpid info))")
    case False
    then show ?thesis using run' by (intro risk [OF gone]) simp_all
  next
    case True
    then obtain r b ts where add: "book_add (sq_books st1 s) req = Some (r, b, ts)"
      using run' by (auto simp: bind_eq_Some_conv)
    show ?thesis
    proof (cases r)
      case (Inl e)
      then show ?thesis
        using run' add True stats by (intro threw [OF gone, of e b ts]) auto
    next
      case (Inr u)
      then show ?thesis
        using run' add True id stats
        by (intro placed [OF gone, of b ts]) (auto split: prod.splits if_splits dest!: publish_trades_frame)
    qed
  qed
qed

lemma add_accounted:
  assumes run: "on_add cb rnd h i c shares stock price mpid st = Some (st', out)"
    and m: "new_ids m = [i]" "touches m st = Some (alpha_str stock)"
  shows "accounted m st st'"
  by (rule add_cases [OF run refl refl refl]) (use m in \<open>auto simp: accounted_def handled_def\<close>)

lemma replace_accounted:
  assumes run: "on_replace cb rnd m st = Some (st', out)"
  shows "accounted (OrderReplace m) st st'"
proof (cases "order_symbol st (or_original_order_ref_number m)")
  case None
  then show ?thesis using run by (auto simp: on_replace_def accounted_def handled_def)
next
  case (Some info)
  show ?thesis
    by (rule replace_cases [OF run Some refl refl refl])
       (use Some in \<open>auto simp: accounted_def handled_def withdrawn_def split: if_splits\<close>)
qed

lemma message_accounted:
  assumes "on_message cb rnd m st = Some (st', out)"
  shows "accounted m st st'"
proof (cases m)
  case (AddOrderNoMPID a)
  then show ?thesis using add_accounted [of cb rnd _ _ _ _ _ _ _ st st' out m] assms by (simp add: on_message_def)
next
  case (AddOrderMPID a)
  then show ?thesis using add_accounted [of cb rnd _ _ _ _ _ _ _ st st' out m] assms by (simp add: on_message_def)
next
  case (OrderReplace a)
  then show ?thesis using replace_accounted assms by (simp add: on_message_def)
qed (use assms in \<open>auto simp: on_message_def branch_defs Let_def accounted_def handled_def bind_eq_Some_conv
       split: if_splits option.splits prod.splits\<close>)

section \<open>Feeds\<close>

text \<open>Order reference numbers are unique over the day: no message reuses one that is routed or that an
  earlier message of the feed introduced.\<close>

definition day_unique :: "message list \<Rightarrow> seq_state \<Rightarrow> bool" where
  "day_unique ms st \<longleftrightarrow> distinct (concat (map new_ids ms)) \<and>
     list_all (\<lambda>i. order_symbol st i = None) (concat (map new_ids ms))"

text \<open>Every step publishes all it did: see \<open>faithful\<close>.\<close>

fun announced :: "callbacks \<Rightarrow> (rat \<Rightarrow> rat) \<Rightarrow> message list \<Rightarrow> seq_state \<Rightarrow> bool" where
  "announced cb rnd [] st = True"
| "announced cb rnd (m # ms) st =
     (case on_message cb rnd m st of None \<Rightarrow> True
      | Some (st1, _) \<Rightarrow> faithful m st st1 \<and> announced cb rnd ms st1)"

lemma day_unique_step:
  assumes "day_unique (m # ms) st" "on_message cb rnd m st = Some (st1, out)"
  shows "fresh_ids m st" "day_unique ms st1"
proof -
  show "fresh_ids m st" using assms(1) by (cases m) (simp_all add: day_unique_def fresh_ids_def)
  have "order_symbol st1 i = None" if i: "i \<in> set (concat (map new_ids ms))" for i
  proof (rule ccontr)
    assume "order_symbol st1 i \<noteq> None"
    then have "order_symbol st i \<noteq> None \<or> i \<in> set (new_ids m)"
      using message_accounted [OF assms(2)] by (simp add: accounted_def)
    then show False using assms(1) i by (auto simp: day_unique_def list_all_iff)
  qed
  then show "day_unique ms st1" using assms(1) by (simp add: day_unique_def list_all_iff)
qed

lemma day_unique_fresh: "day_unique (m # ms) st \<Longrightarrow> fresh_ids m st"
  by (cases m) (simp_all add: day_unique_def fresh_ids_def)

lemma run_good:
  assumes "seq_ok st" "list_all message_ok ms" "day_unique ms st"
  obtains st' out where "on_messages cb rnd ms st = Some (st', out)" "seq_ok st'"
    "has_md cb \<Longrightarrow> announced cb rnd ms st \<Longrightarrow> orders st' = fold event_effect (mds out) (orders st)"
proof -
  have "\<exists>st' out. on_messages cb rnd ms st = Some (st', out) \<and> seq_ok st' \<and>
      (has_md cb \<and> announced cb rnd ms st \<longrightarrow> orders st' = fold event_effect (mds out) (orders st))"
    using assms
  proof (induction ms arbitrary: st)
    case (Cons m ms)
    have "step_good cb m st (on_message cb rnd m st)"
      using Cons.prems day_unique_fresh by (intro message_good) auto
    then obtain st1 out1 where one: "on_message cb rnd m st = Some (st1, out1)" "seq_ok st1"
      "has_md cb \<and> faithful m st st1 \<longrightarrow> orders st1 = fold event_effect (mds out1) (orders st)"
      unfolding step_good_def by blast
    with Cons.IH [OF one(2)] day_unique_step [OF Cons.prems(3) one(1)] Cons.prems(2) obtain st' out2 where
      "on_messages cb rnd ms st1 = Some (st', out2)" "seq_ok st'"
      "has_md cb \<and> announced cb rnd ms st1 \<longrightarrow> orders st' = fold event_effect (mds out2) (orders st1)"
      by auto
    with one show ?case by simp
  qed simp
  with that show ?thesis by blast
qed

lemma apply_all_effects: "view (apply_all es b) = fold event_effect (map snd es) (view b)"
  by (induction es arbitrary: b) (auto simp: apply_all_def apply_view)

lemma seq_ok_new:
  assumes "\<And>s. wf_book (bks s)" "\<And>s. book_abs (bks s) = spec_empty"
  shows "seq_ok (new_sequencer bks r)" "orders (new_sequencer bks r) = (\<lambda>s. Map.empty)"
  using assms by (auto simp: seq_ok_def routed_def orders_def new_sequencer_def order_map_empty)

definition demo_books :: "bytes \<Rightarrow> book" where
  "demo_books s = the (new_book 8 4)"

lemma demo_books_ok: "seq_ok (new_sequencer demo_books r)" "orders (new_sequencer demo_books r) = (\<lambda>s. Map.empty)"
proof -
  obtain b where b: "new_book 8 4 = Some b" "wf_book b" "book_abs b = spec_empty" using new_book_ok [of 4 8] by auto
  then have "wf_book (demo_books s)" "book_abs (demo_books s) = spec_empty" for s by (simp_all add: demo_books_def)
  then show "seq_ok (new_sequencer demo_books r)" "orders (new_sequencer demo_books r) = (\<lambda>s. Map.empty)"
    using seq_ok_new [of demo_books r] by simp_all
qed

definition demo_order :: "u64 \<Rightarrow> u8 \<Rightarrow> u32 \<Rightarrow> u32 \<Rightarrow> message" where
  "demo_order i c q p = AddOrderNoMPID \<lparr>ao_h = \<lparr>stock_locate = 1, tracking_number = 2, timestamp_ns = 34200000000000\<rparr>,
     ao_order_ref_number = i, ao_buy_sell_indicator = c, ao_shares = q,
     ao_stock = [65, 65, 80, 76, 32, 32, 32, 32], ao_price = p\<rparr>"

definition demo_replace :: order_replace where
  "demo_replace = \<lparr>or_h = \<lparr>stock_locate = 1, tracking_number = 2, timestamp_ns = 34200000000001\<rparr>,
     or_original_order_ref_number = 77, or_new_order_ref_number = 79, or_shares = 30, or_price = 101\<rparr>"

definition demo_feed :: "message list" where
  "demo_feed = [demo_order 77 66 100 100, demo_order 78 83 40 99, OrderReplace demo_replace]"

abbreviation both :: callbacks where
  "both \<equiv> \<lparr>has_report = True, has_md = True\<rparr>"

lemma demo_feed_ok:
  "list_all message_ok demo_feed" "day_unique demo_feed (new_sequencer demo_books r)"
  by (simp_all add: demo_feed_def demo_order_def demo_replace_def message_ok_def day_unique_def new_sequencer_def)

lemma demo_feed_announced: "announced both id demo_feed (new_sequencer demo_books None)"
  by code_simp

section \<open>Properties\<close>

text \<open>C14: the sequencer processes every feed: whatever well-formed ITCH messages arrive, as long as order
  references are unique over the day, every call returns (risk checks, matching, cancels and replaces
  included) and afterwards every book is well formed, every resting order is routed to the book it
  rests in and to its side, and routed symbols have the form the market data feed can carry.\<close>

theorem sequencer_runs:
  assumes "seq_ok st" "list_all message_ok ms" "day_unique ms st"
  shows "\<exists>st' out. on_messages cb rnd ms st = Some (st', out) \<and> seq_ok st'"
  using run_good [OF assms] by metis

theorem sequencer_runs_witness:
  "\<exists>st' out. on_messages both id demo_feed (new_sequencer demo_books (Some (new_risk_engine default_config))) = Some (st', out) \<and> seq_ok st'"
  by (rule sequencer_runs [OF demo_books_ok(1) demo_feed_ok])

text \<open>C2: a subscriber that starts with the books as they are and applies the published events in order
  holds, after every feed, exactly the resting orders of the books: side, price and remaining
  quantity. The feed may match, fill, cancel and replace; it must not contain a step the sequencer
  does not announce, an add the book threw on or a replacement turned down by risk.\<close>

theorem subscriber_follows_books:
  assumes "seq_ok st" "list_all message_ok ms" "day_unique ms st" "has_md cb" "announced cb rnd ms st"
    "view b = orders st"
  shows "\<exists>st' out. on_messages cb rnd ms st = Some (st', out) \<and>
    (\<forall>es. map snd es = mds out \<longrightarrow> view (apply_all es b) = orders st')"
  using run_good [OF assms(1-3), of cb rnd] assms(4-) by (metis apply_all_effects)

theorem subscriber_follows_books_witness:
  "\<exists>st' out. on_messages both id demo_feed (new_sequencer demo_books None) = Some (st', out) \<and>
    (\<forall>es. map snd es = mds out \<longrightarrow> view (apply_all es new_builder) = orders st')"
  by (rule subscriber_follows_books [OF demo_books_ok(1) demo_feed_ok _ demo_feed_announced])
     (simp_all add: demo_books_ok(2) view_def new_builder_def book_for_symbol_def fun_eq_iff)

text \<open>C33: every message is counted exactly once, under one of the ten outcomes.\<close>

theorem sequencer_accounts:
  assumes "on_messages cb rnd ms st = Some (st', out)"
  shows "handled (sq_stats st') = handled (sq_stats st) + word_of_nat (length ms)"
  using assms
proof (induction ms arbitrary: st out)
  case (Cons m ms)
  then obtain st1 out1 out2 where "on_message cb rnd m st = Some (st1, out1)" "on_messages cb rnd ms st1 = Some (st', out2)"
    by (auto simp: bind_eq_Some_conv)
  then show ?case using Cons.IH message_accounted [of cb rnd m st st1 out1] by (simp add: accounted_def)
qed simp

theorem sequencer_accounts_witness:
  "\<exists>st' out. on_messages both id demo_feed (new_sequencer demo_books None) = Some (st', out) \<and> handled (sq_stats st') = 3"
proof -
  obtain st' out where run: "on_messages both id demo_feed (new_sequencer demo_books None) = Some (st', out)"
    using run_good [OF demo_books_ok(1) demo_feed_ok] by metis
  moreover have "handled (sq_stats st') = 3"
    using sequencer_accounts [OF run] by (simp add: demo_feed_def handled_def new_sequencer_def zero_stats_def)
  ultimately show ?thesis by blast
qed

text \<open>A message touches the book of one symbol only: of the Add Order's stock, or of the symbol the
  referenced order is routed to. Messages that do not concern orders touch no book.\<close>

theorem sequencer_isolates_symbols:
  assumes "on_message cb rnd m st = Some (st', out)" "touches m st \<noteq> Some s"
  shows "sq_books st' s = sq_books st s \<and> orders st' s = orders st s"
  using message_accounted [OF assms(1)] assms(2) by (simp add: accounted_def orders_def)

theorem sequencer_isolates_symbols_witness:
  "\<exists>st' out. on_message both id (demo_order 77 66 100 100) (new_sequencer demo_books None) = Some (st', out) \<and>
     sq_books st' [77, 83] = sq_books (new_sequencer demo_books None) [77, 83] \<and>
     orders st' [77, 83] = orders (new_sequencer demo_books None) [77, 83]"
proof -
  have ok: "message_ok (demo_order 77 66 100 100)" "fresh_ids (demo_order 77 66 100 100) (new_sequencer demo_books None)"
    by (simp_all add: demo_order_def message_ok_def fresh_ids_def new_sequencer_def)
  from message_good [OF demo_books_ok(1) ok, of both id] obtain st' out where
    run: "on_message both id (demo_order 77 66 100 100) (new_sequencer demo_books None) = Some (st', out)"
    unfolding step_good_def by blast
  moreover have "touches (demo_order 77 66 100 100) (new_sequencer demo_books None) \<noteq> Some [77, 83]"
    by code_simp
  ultimately show ?thesis using sequencer_isolates_symbols [OF run] by blast
qed

text \<open>C23: when a Replace is not carried out, because risk turns the replacement down or the book has no
  room for it, the original order is gone all the same: it is no longer routed and not in the book,
  and no market data event says so.\<close>

theorem failed_replace_unannounced:
  assumes "seq_ok st" "on_message cb rnd (OrderReplace m) st = Some (st', out)"
    "order_symbol st (or_original_order_ref_number m) = Some info" "fresh_ids (OrderReplace m) st"
    "replaces (sq_stats st') = replaces (sq_stats st)"
  shows "mds out = [] \<and> order_symbol st' (or_original_order_ref_number m) = None \<and>
    orders st' (oi_symbol info) (or_original_order_ref_number m) = None"
proof -
  have ok: "seq_ok st'"
    using replace_good [OF assms(1,4), of cb rnd] assms(2) by (simp add: step_good_def on_message_def)
  have run: "on_replace cb rnd m st = Some (st', out)" using assms(2) by (simp add: on_message_def)
  have "mds out = [] \<and> order_symbol st' (or_original_order_ref_number m) = None"
    by (rule replace_cases [OF run assms(3) refl refl refl]) (use assms(5) in \<open>auto simp: withdrawn_def\<close>)
  then show ?thesis using seq_okD(4) [OF ok] by simp
qed

text \<open>The order an Add Order asks for, its symbol and its participant (none, or the attribution).\<close>

fun asked :: "message \<Rightarrow> (order_request \<times> bytes \<times> bytes) option" where
  "asked (AddOrderNoMPID a) =
     Some (\<lparr>req_id = ao_order_ref_number a, req_side = side_from_indicator (ao_buy_sell_indicator a), req_type = Limit,
            req_price = uint (ao_price a), req_qty = ucast (ao_shares a)\<rparr>, alpha_str (ao_stock a), [])"
| "asked (AddOrderMPID a) =
     Some (\<lparr>req_id = aom_order_ref_number a, req_side = side_from_indicator (aom_buy_sell_indicator a), req_type = Limit,
            req_price = uint (aom_price a), req_qty = ucast (aom_shares a)\<rparr>, alpha_str (aom_stock a), alpha_str (aom_attribution a))"
| "asked _ = None"

text \<open>C24: when risk accepts an Add Order, attributed or not, or there is no risk engine, and the book throws after
  the order has already matched, the fills stand: the makers' orders are reduced or gone. But nothing is told: the only
  call is the Reject of the order, to a report callback if there is one; no market data event and no Fill report, no
  trade is counted and the risk engine hears of none.\<close>

theorem thrown_add_fills_unannounced:
  assumes "seq_ok st" "asked m = Some (req, s, mpid)" "order_symbol st (req_id req) = None"
    and "accepted (risk_verdict rnd st req s mpid)" "book_add (sq_books st s) req = Some (Inl e, b, ts)"
  shows "\<exists>st'. on_message cb rnd m st = Some (st',
      if has_report cb
      then [Report \<lparr>er_order_id = req_id req, er_type = Reject, er_symbol = s, er_qty = req_qty req, er_price = 0,
                    er_reason = BookError e\<rparr>]
      else []) \<and>
    orders st' = (orders st)(s := fills ts (orders st s)) \<and> trades_produced (sq_stats st') = trades_produced (sq_stats st) \<and>
    sq_risk st' = sq_risk st \<and> order_symbol st' = order_symbol st"
proof -
  have limit: "req_type req = Limit" using assms(2) by (cases m) auto
  have none: "order_map (book_abs (sq_books st s)) (req_id req) = None"
    using seq_okD(4) [OF assms(1,3)] by (simp add: orders_def)
  have b: "order_map (book_abs b) = fills ts (orders st s)"
  proof (cases rule: limit_add [OF seq_okD(1) [OF assms(1), of s] limit none])
    case (2 e' b' ts')
    then show ?thesis using assms(5) by (simp add: orders_def)
  qed (use assms(5) in simp_all)
  let ?st' = "(count1 add_rejected_update (set_book s b st))\<lparr>order_symbol := (order_symbol st)(req_id req := None)\<rparr>"
  have "on_message cb rnd m st =
      Some (?st', calls (has_report cb) (report (req_id req) Reject s (req_qty req) 0 (BookError e)))"
    using assms(2,4,5) by (cases m) (auto simp: on_message_def on_add_def Let_def count1_def set_book_def)
  moreover have "orders ?st' = (orders st)(s := fills ts (orders st s))"
    using b orders_set_book [of ?st' st s b] by simp
  moreover have "(order_symbol st)(req_id req := None) = order_symbol st" using assms(3) by (simp add: fun_upd_idem)
  ultimately show ?thesis
    by (intro exI [of _ ?st']) (simp add: calls_def report_def)
qed

text \<open>A risk engine with a wide price band. A bid of 40 at 30,000,000; a participant's sell of 50 at 20 takes it and
  cannot rest: the levels would span more than \<open>kMaxLevels\<close>.\<close>

definition demo_wide :: seq_state where
  "demo_wide = fst (the (on_messages both id [demo_order 78 66 40 30000000]
     (new_sequencer demo_books (Some (new_risk_engine (default_config\<lparr>price_band_pct := 10\<rparr>))))))"

definition demo_far :: message where
  "demo_far = AddOrderMPID \<lparr>aom_h = \<lparr>stock_locate = 1, tracking_number = 2, timestamp_ns = 34200000000009\<rparr>,
     aom_order_ref_number = 79, aom_buy_sell_indicator = 83, aom_shares = 50,
     aom_stock = [65, 65, 80, 76, 32, 32, 32, 32], aom_price = 20, aom_attribution = [88, 32, 32, 32]\<rparr>"

theorem thrown_add_fills_unannounced_witness:
  "orders demo_wide [65, 65, 80, 76] 78 = Some \<lparr>ro_side = Buy, ro_price = 30000000, ro_qty = 40\<rparr> \<and>
   sq_risk demo_wide \<noteq> None \<and>
   (\<exists>st' out. on_message both id demo_far demo_wide = Some (st', out) \<and>
      length out = 1 \<and> mds out = [] \<and> orders st' [65, 65, 80, 76] 78 = None)"
proof -
  let ?ms = "[demo_order 78 66 40 30000000]"
  let ?st0 = "new_sequencer demo_books (Some (new_risk_engine (default_config\<lparr>price_band_pct := 10\<rparr>)))"
  let ?req = "\<lparr>req_id = 79, req_side = Sell, req_type = Limit, req_price = 20, req_qty = 50\<rparr>"
  let ?add = "book_add (sq_books demo_wide [65, 65, 80, 76]) ?req"
  have "list_all message_ok ?ms" "day_unique ?ms ?st0"
    by (simp_all add: demo_order_def message_ok_def day_unique_def new_sequencer_def)
  from run_good [OF demo_books_ok(1) this, of both id] have ok: "seq_ok demo_wide"
    by (metis demo_wide_def fst_conv option.sel)
  have resting: "orders demo_wide [65, 65, 80, 76] 78 = Some \<lparr>ro_side = Buy, ro_price = 30000000, ro_qty = 40\<rparr>"
    by code_simp
  have asked: "asked demo_far = Some (?req, [65, 65, 80, 76], [88])" by code_simp
  have fresh: "order_symbol demo_wide 79 = None" by code_simp
  have acc: "accepted (risk_verdict id demo_wide ?req [65, 65, 80, 76] [88])" by code_simp
  have risk: "sq_risk demo_wide \<noteq> None" by code_simp
  have "(case ?add of None \<Rightarrow> False | Some (r, b, ts) \<Rightarrow> isl r \<and> map (\<lambda>t. (maker_id t, trade_qty t)) ts = [(78, 40)])"
    by code_simp
  then obtain e b ts where add: "?add = Some (Inl e, b, ts)" "map (\<lambda>t. (maker_id t, trade_qty t)) ts = [(78, 40)]"
    by (auto simp: isl_def split: option.splits)
  have "fills ts m = fill 78 40 m" for m using add(2) by auto
  then have "fills ts (orders demo_wide [65, 65, 80, 76]) 78 = None"
    using resting by (simp add: fill_def)
  then show ?thesis
    using thrown_add_fills_unannounced [OF ok asked _ acc add(1), of both] fresh resting risk
    by (auto simp: mds_def)
qed

text \<open>An order of 30 shares rests; its replacement of 30 shares is turned down by a limit lowered to 20.\<close>

definition demo_resting :: seq_state where
  "demo_resting = (case on_messages both id [demo_order 77 66 30 100] (new_sequencer demo_books None) of
     Some (st, out) \<Rightarrow> st\<lparr>sq_risk := Some (new_risk_engine (default_config\<lparr>max_order_size := 20\<rparr>))\<rparr>)"

lemma demo_resting_ok: "seq_ok demo_resting"
proof -
  have "list_all message_ok [demo_order 77 66 30 100]" "day_unique [demo_order 77 66 30 100] (new_sequencer demo_books None)"
    by (simp_all add: demo_order_def message_ok_def day_unique_def new_sequencer_def)
  from run_good [OF demo_books_ok(1) this, of both id] obtain st out where
    "on_messages both id [demo_order 77 66 30 100] (new_sequencer demo_books None) = Some (st, out)" "seq_ok st"
    by metis
  then show ?thesis
    using seq_ok_cong [of demo_resting st] by (simp add: demo_resting_def)
qed

theorem failed_replace_unannounced_witness:
  "orders demo_resting [65, 65, 80, 76] 77 = Some \<lparr>ro_side = Buy, ro_price = 100, ro_qty = 30\<rparr> \<and>
   (\<exists>st' out. on_message both id (OrderReplace demo_replace) demo_resting = Some (st', out) \<and>
      mds out = [] \<and> orders st' [65, 65, 80, 76] 77 = None)"
proof -
  let ?r = "on_message both id (OrderReplace demo_replace) demo_resting"
  have info: "order_symbol demo_resting 77 = Some \<lparr>oi_symbol = [65, 65, 80, 76], oi_side = Buy, oi_mpid = []\<rparr>"
    by code_simp
  have resting: "orders demo_resting [65, 65, 80, 76] 77 = Some \<lparr>ro_side = Buy, ro_price = 100, ro_qty = 30\<rparr>"
    by code_simp
  have fresh: "fresh_ids (OrderReplace demo_replace) demo_resting" by code_simp
  have stats: "(case ?r of None \<Rightarrow> False | Some (st', out) \<Rightarrow> replaces (sq_stats st') = replaces (sq_stats demo_resting))"
    by code_simp
  then obtain st' out where run: "?r = Some (st', out)" by (cases ?r) auto
  have k: "or_original_order_ref_number demo_replace = 77" by (simp add: demo_replace_def)
  have "mds out = [] \<and> order_symbol st' 77 = None \<and> orders st' [65, 65, 80, 76] 77 = None"
    using failed_replace_unannounced [OF demo_resting_ok run _ fresh] info stats run by (simp add: k)
  then show ?thesis using resting run by blast
qed

end
