(* ===== verification/Sequencer_Risk.thy ===== *)
theory Sequencer_Risk
  imports Sequencer_Main
begin

text \<open>
  Sequencer and risk engine together: the engine's counters are the numbers of routed orders, and so an
  order of a named participant never trades with that participant's own orders.
\<close>

section \<open>Counting routes\<close>

definition owned :: "(u64 \<Rightarrow> order_info option) \<Rightarrow> bytes \<Rightarrow> bytes \<Rightarrow> side \<Rightarrow> u64 set" where
  "owned f s m sd = {i. f i = Some \<lparr>oi_symbol = s, oi_side = sd, oi_mpid = m\<rparr>}"

definition counts :: "(u64 \<Rightarrow> order_info option) \<Rightarrow> risk_engine \<Rightarrow> bool" where
  "counts f eng \<longleftrightarrow> (\<forall>s m sd. 1 \<notin> set s \<longrightarrow> m \<noteq> [] \<longrightarrow> count_of eng s m sd = int (card (owned f s m sd)))"

lemma owned_finite [simp]: "finite (owned f s m sd)"
  by (rule finite_subset [OF subset_UNIV]) simp

lemma owned_route:
  "owned (f(i \<mapsto> info)) s m sd =
    (if s = oi_symbol info \<and> m = oi_mpid info \<and> sd = oi_side info then insert i (owned f s m sd) else owned f s m sd - {i})"
  by (cases info) (auto simp: owned_def)

lemma owned_unroute: "owned (f(i := None)) s m sd = owned f s m sd - {i}"
  by (auto simp: owned_def)

lemma owned_unrouted: "f i = None \<Longrightarrow> i \<notin> owned f s m sd"
  by (simp add: owned_def)

lemma counts_route:
  assumes "counts f eng" "f i = None" "1 \<notin> set (oi_symbol info)"
  shows "counts (f(i \<mapsto> info)) (note_resting (oi_symbol info) (oi_mpid info) (oi_side info) eng)"
  using assms owned_unrouted [of f i, OF assms(2)] by (auto simp: counts_def owned_route count_note_resting)

lemma int_card_Diff1: "finite A \<Longrightarrow> i \<in> A \<Longrightarrow> int (card (A - {i})) = int (card A) - 1"
  using card_Suc_Diff1 [of A i] by linarith

lemma counts_unroute:
  assumes "counts f eng" "f i = Some info" "1 \<notin> set (oi_symbol info)"
  shows "counts (f(i := None)) (note_removed (oi_symbol info) (oi_mpid info) (oi_side info) eng)"
  unfolding counts_def owned_unroute
proof (intro allI impI)
  fix s m :: bytes and sd assume s: "1 \<notin> set s" "m \<noteq> []"
  let ?same = "oi_symbol info = s \<and> oi_mpid info = m \<and> oi_side info = sd"
  have count: "count_of eng s m sd = int (card (owned f s m sd))" using assms(1) s by (simp add: counts_def)
  have mem: "i \<in> owned f s m sd \<longleftrightarrow> ?same" using assms(2) by (cases info) (auto simp: owned_def)
  then have "int (card (owned f s m sd - {i})) = int (card (owned f s m sd)) - (if ?same then 1 else 0)"
    using int_card_Diff1 [OF owned_finite, of i f s m sd] by (cases "i \<in> owned f s m sd") simp_all
  moreover have "?same \<longrightarrow> 0 < card (owned f s m sd)"
    using mem by (auto simp: card_gt_0_iff)
  ultimately show "count_of (note_removed (oi_symbol info) (oi_mpid info) (oi_side info) eng) s m sd =
      int (card (owned f s m sd - {i}))"
    using count_note_removed [OF assms(3) s(1), of "oi_mpid info" "oi_side info" eng m sd] count s(2) by auto
qed

lemma counts_trades: "counts f (fold (\<lambda>t. on_trade s (trade_price t)) ts eng) = counts f eng"
proof -
  have "count_of (fold (\<lambda>t. on_trade s (trade_price t)) ts eng) = count_of eng"
    by (induction ts arbitrary: eng) simp_all
  then show ?thesis by (simp add: counts_def)
qed

section \<open>The counters follow the routes\<close>

text \<open>No routed symbol contains the key separator, and the risk engine counts the routed orders.\<close>

definition tracked :: "seq_state \<Rightarrow> bool" where
  "tracked st \<longleftrightarrow> (\<forall>i info. order_symbol st i = Some info \<longrightarrow> 1 \<notin> set (oi_symbol info)) \<and>
     (case sq_risk st of None \<Rightarrow> True | Some eng \<Rightarrow> counts (order_symbol st) eng)"

fun plain :: "message \<Rightarrow> bool" where
  "plain (AddOrderNoMPID a) = (1 \<notin> set (ao_stock a))"
| "plain (AddOrderMPID a) = (1 \<notin> set (aom_stock a))"
| "plain _ = True"

lemma plain_str: "1 \<notin> set raw \<Longrightarrow> 1 \<notin> set (alpha_str raw)"
  by (auto simp: alpha_str_def dest: in_set_takeD)

lemma tracked_cong:
  "order_symbol st' = order_symbol st \<Longrightarrow> sq_risk st' = sq_risk st \<Longrightarrow> tracked st' = tracked st"
  by (simp add: tracked_def cong: option.case_cong)

lemma tracked_route:
  assumes "tracked st" "order_symbol st i = None" "1 \<notin> set (oi_symbol info)"
    "order_symbol st' = (order_symbol st)(i \<mapsto> info)"
    "sq_risk st' = map_option (fold (\<lambda>t. on_trade s (trade_price t)) ts)
       (map_option (note_resting (oi_symbol info) (oi_mpid info) (oi_side info)) (sq_risk st))"
  shows "tracked st'"
  using assms by (auto simp: tracked_def counts_trades counts_route split: option.splits)

lemma tracked_unroute:
  assumes "tracked st" "order_symbol st i = Some info" "order_symbol st' = (order_symbol st)(i := None)"
    "sq_risk st' = map_option (note_removed (oi_symbol info) (oi_mpid info) (oi_side info)) (sq_risk st)"
  shows "tracked st'"
  using assms by (auto simp: tracked_def counts_unroute split: option.splits)

lemma tracked_add:
  assumes t: "tracked st" and run: "on_add cb rnd h i c shares stock price mpid st = Some (st', out)"
    and fresh: "order_symbol st i = None" and stock: "1 \<notin> set stock"
  shows "tracked st'"
proof (rule add_cases [OF run refl refl refl])
  assume "st' = count1 risk_rejected_update st"
  then show "tracked st'" using t tracked_cong [of st' st] by simp
next
  fix b and ts :: "int trade list"
  assume "order_symbol st' = (order_symbol st)
      (i \<mapsto> \<lparr>oi_symbol = alpha_str stock, oi_side = side_from_indicator c, oi_mpid = mpid\<rparr>)"
    "sq_risk st' = map_option (fold (\<lambda>t. on_trade (alpha_str stock) (trade_price t)) ts)
      (map_option (note_resting (alpha_str stock) mpid (side_from_indicator c)) (sq_risk st))"
  then show "tracked st'"
    using plain_str [OF stock]
    by (intro tracked_route [OF t fresh, of "\<lparr>oi_symbol = alpha_str stock, oi_side = side_from_indicator c, oi_mpid = mpid\<rparr>"
          st' "alpha_str stock" ts]) (simp_all only: order_info.simps not_False_eq_True)
next
  assume "order_symbol st' = (order_symbol st)(i := None)" "sq_risk st' = sq_risk st"
  then show "tracked st'" using t fresh tracked_cong [of st' st] by (simp add: fun_upd_idem)
qed

lemma tracked_withdrawn:
  assumes "tracked st" "order_symbol st k = Some info" "withdrawn st k info st1"
  shows "tracked st1"
  using assms(3) by (intro tracked_unroute [OF assms(1,2)]) (simp_all add: withdrawn_def)

lemma tracked_replace:
  assumes t: "tracked st" and run: "on_replace cb rnd m st = Some (st', out)"
    and fresh: "fresh_ids (OrderReplace m) st"
  shows "tracked st'"
proof (cases "order_symbol st (or_original_order_ref_number m)")
  case None
  then show ?thesis using run t tracked_cong [of st' st] by (auto simp: on_replace_def)
next
  case (Some info)
  note gone = tracked_withdrawn [OF t Some]
  have s: "1 \<notin> set (oi_symbol info)" using t Some by (auto simp: tracked_def)
  show ?thesis
  proof (cases rule: replace_cases [OF run Some refl refl refl])
    case (1 st1)
    then show ?thesis using gone [of st1] tracked_cong [of st' st1] by simp
  next
    case (2 st1 b ts)
    have "order_symbol st1 (or_new_order_ref_number m) = None"
      using 2(1) fresh by (auto simp: withdrawn_def fresh_ids_def)
    then show ?thesis using 2 by (intro tracked_route [OF gone [OF 2(1)] _ s, of _ st' "oi_symbol info" ts]) simp_all
  next
    case (3 st1 e b ts)
    then show ?thesis using gone [of st1] tracked_cong [of st' st1] by simp
  qed
qed

lemma tracked_message:
  assumes t: "tracked st" and run: "on_message cb rnd m st = Some (st', out)" and m: "fresh_ids m st" "plain m"
  shows "tracked st'"
proof (cases m)
  case (AddOrderNoMPID a)
  then show ?thesis using tracked_add [OF t] run m by (simp add: on_message_def fresh_ids_def)
next
  case (AddOrderMPID a)
  then show ?thesis using tracked_add [OF t] run m by (simp add: on_message_def fresh_ids_def)
next
  case (OrderReplace a)
  then show ?thesis using tracked_replace [OF t] run m by (simp add: on_message_def)
next
  case (OrderDelete a)
  then show ?thesis
    using run t tracked_unroute [OF t, of "od_order_ref_number a"] tracked_cong [of st' st]
    by (auto simp: on_message_def on_delete_def Let_def bind_eq_Some_conv split: option.splits)
qed (use run t in \<open>auto simp: on_message_def on_cancel_def on_executed_def on_executed_with_price_def Let_def tracked_def
       bind_eq_Some_conv counts_def split: option.splits if_splits\<close>)

section \<open>No self trade\<close>

lemma accepted_count:
  assumes "accepted (risk_verdict rnd st req s m)" "sq_risk st = Some eng" "m \<noteq> []"
  shows "count_of eng s m (opposite (req_side req)) \<le> 0"
proof -
  have "(if req_side req = Buy then Sell else Buy) = opposite (req_side req)" by (cases "req_side req") simp_all
  then show ?thesis
    using assms by (auto simp: risk_verdict_def risk_check_def Let_def count_of_def split: if_splits option.splits)
qed

text \<open>The makers of an order that risk accepted belong to other participants.\<close>

lemma makers_other:
  assumes ok: "seq_ok st" and t: "tracked st" and acc: "accepted (risk_verdict rnd st req s m)"
    and eng: "sq_risk st = Some eng" and m: "m \<noteq> []" and s: "symbol_ok s" "1 \<notin> set s"
    and req: "req_type req = Limit" "order_symbol st (req_id req) = None"
    and add: "book_add (sq_books st s) req = Some (r, b, ts)" and j: "j \<in> maker_id ` set ts"
  shows "\<exists>info. order_symbol st j = Some info \<and> oi_mpid info \<noteq> m"
proof -
  obtain r where "orders st s j = Some r" "ro_side r = opposite (req_side req)"
    by (cases rule: place_ok [OF ok req s(1)]; use that add j in auto)
  then obtain info where info: "order_symbol st j = Some info" "oi_symbol info = s" "oi_side info = opposite (req_side req)"
    using seq_okD(2) [OF ok] by metis
  have "oi_mpid info \<noteq> m"
  proof
    assume "oi_mpid info = m"
    then have "j \<in> owned (order_symbol st) s m (opposite (req_side req))" using info by (auto simp: owned_def)
    then have "0 < card (owned (order_symbol st) s m (opposite (req_side req)))" by (auto simp: card_gt_0_iff)
    moreover have "count_of eng s m (opposite (req_side req)) = int (card (owned (order_symbol st) s m (opposite (req_side req))))"
      using t eng s(2) m by (simp add: tracked_def counts_def)
    ultimately show False using accepted_count [OF acc eng m] by simp
  qed
  then show ?thesis using info(1) by blast
qed

text \<open>The participant a message places an order for; the empty string when it names none.\<close>

fun participant :: "message \<Rightarrow> seq_state \<Rightarrow> bytes" where
  "participant (AddOrderMPID a) st = alpha_str (aom_attribution a)"
| "participant (OrderReplace a) st =
     (case order_symbol st (or_original_order_ref_number a) of None \<Rightarrow> [] | Some info \<Rightarrow> oi_mpid info)"
| "participant _ st = []"

fun replaced :: "message \<Rightarrow> u64 set" where
  "replaced (OrderReplace a) = {or_original_order_ref_number a}"
| "replaced _ = {}"

text \<open>\<open>p\<close> has not traded with itself: in every book the orders of \<open>p\<close> are as they were, the replaced one apart (a trade
  takes shares off its maker or removes it), and no trade with one of them is published.\<close>

definition no_self_trade :: "bytes \<Rightarrow> message \<Rightarrow> seq_state \<Rightarrow> seq_state \<Rightarrow> seq_output list \<Rightarrow> bool" where
  "no_self_trade p m st st' out \<longleftrightarrow>
     (\<forall>i info s. order_symbol st i = Some info \<longrightarrow> oi_mpid info = p \<longrightarrow> i \<notin> replaced m \<longrightarrow> orders st' s i = orders st s i) \<and>
     (\<forall>e \<in> set (mds out). ev_type e = evTrade \<longrightarrow>
        (\<exists>info. order_symbol st (ev_order_id e) = Some info \<and> oi_mpid info \<noteq> p))"

lemma trade_event_maker: "ev_order_id (trade_event s sd ts t) = maker_id t"
  by (simp add: trade_event_def)

text \<open>The book's part, whether it throws or not: the orders of the taker's participant are left alone.\<close>

lemma book_spares:
  assumes ok: "seq_ok st" and t: "tracked st" and acc: "accepted (risk_verdict rnd st req s m)"
    and eng: "sq_risk st = Some eng" and m: "m \<noteq> []" and s: "symbol_ok s" "1 \<notin> set s"
    and req: "req_type req = Limit" "order_symbol st (req_id req) = None"
    and add: "book_add (sq_books st s) req = Some (r, b, ts)"
    and i: "order_symbol st i = Some info" "oi_mpid info = m" and st': "sq_books st' = (sq_books st)(s := b)"
  shows "orders st' s' i = orders st s' i"
proof -
  have "i \<notin> maker_id ` set ts"
    using makers_other [OF ok t acc eng m s req add, of i] i by auto
  moreover have "i \<noteq> req_id req" using i(1) req(2) by auto
  ultimately have "order_map (book_abs b) i = orders st s i"
    by (cases rule: place_ok [OF ok req s(1)]; use add in \<open>auto simp: fills_apart\<close>)
  then show ?thesis using orders_set_book [OF st'] by simp
qed

lemma add_no_self_trade:
  assumes ok: "seq_ok st" and t: "tracked st" and eng: "sq_risk st = Some eng" and m: "mpid \<noteq> []"
    and run: "on_add cb rnd h i c shares stock price mpid st = Some (st', out)"
    and fresh: "order_symbol st i = None" and stock: "1 \<notin> set stock" "length stock = 8" and k: "replaced msg = {}"
  shows "no_self_trade mpid msg st st' out"
proof (cases rule: add_cases [OF run refl refl refl])
  case 1
  then show ?thesis by (simp add: no_self_trade_def orders_def)
next
  case (2 b ts)
  have "\<exists>info. order_symbol st j = Some info \<and> oi_mpid info \<noteq> mpid" if "j \<in> maker_id ` set ts" for j
    by (rule makers_other [OF ok t 2(1) eng m alpha_str_ok [OF stock(2)] plain_str [OF stock(1)] _ _ 2(2) that])
       (use fresh in simp_all)
  moreover have "orders st' s' j = orders st s' j" if "order_symbol st j = Some info" "oi_mpid info = mpid" for j info s'
    by (rule book_spares [OF ok t 2(1) eng m alpha_str_ok [OF stock(2)] plain_str [OF stock(1)] _ _ 2(2) that 2(4)])
       (use fresh in simp_all)
  ultimately show ?thesis using trades_of_quotes [OF 2(7)] by (force simp: no_self_trade_def trade_event_maker)
next
  case (3 e b ts)
  have "orders st' s' j = orders st s' j" if "order_symbol st j = Some info" "oi_mpid info = mpid" for j info s'
    by (rule book_spares [OF ok t 3(1) eng m alpha_str_ok [OF stock(2)] plain_str [OF stock(1)] _ _ 3(2) that 3(4)])
       (use fresh in simp_all)
  then show ?thesis using 3(7) by (simp add: no_self_trade_def)
qed

lemma replace_no_self_trade:
  assumes ok: "seq_ok st" and t: "tracked st" and eng: "sq_risk st = Some eng"
    and run: "on_replace cb rnd m st = Some (st', out)" and fresh: "fresh_ids (OrderReplace m) st"
    and p: "participant (OrderReplace m) st = p" "p \<noteq> []"
  shows "no_self_trade p (OrderReplace m) st st' out"
proof -
  obtain info where info: "order_symbol st (or_original_order_ref_number m) = Some info" "oi_mpid info = p"
    using p by (auto split: option.splits)
  have s: "symbol_ok (oi_symbol info)" "1 \<notin> set (oi_symbol info)"
    using seq_okD(3) [OF ok info(1)] t info(1) by (auto simp: tracked_def)
  let ?k = "or_original_order_ref_number m"
  have st1: "seq_ok st1" "tracked st1" "sq_risk st1 = Some (note_removed (oi_symbol info) (oi_mpid info) (oi_side info) eng)"
    "order_symbol st1 = (order_symbol st)(?k := None)" "\<And>s' j. j \<noteq> ?k \<Longrightarrow> orders st1 s' j = orders st s' j"
    "order_symbol st1 (or_new_order_ref_number m) = None" if w: "withdrawn st ?k info st1" for st1
    using withdrawn_ok [OF ok info(1) w] tracked_withdrawn [OF t info(1) w] w eng fresh
    by (auto simp: withdrawn_def fresh_ids_def)
  have spared: "orders st' s' j = orders st s' j"
    if w: "withdrawn st ?k info st1" and "accepted (risk_verdict rnd st1 req (oi_symbol info) (oi_mpid info))"
      and "book_add (sq_books st1 (oi_symbol info)) req = Some (r, b, ts)" "sq_books st' = (sq_books st1)(oi_symbol info := b)"
      and "req_type req = Limit" "req_id req = or_new_order_ref_number m"
      and j: "order_symbol st j = Some info'" "oi_mpid info' = p" "j \<noteq> ?k"
    for st1 req r b ts j info' s'
    using book_spares [OF st1(1,2) [OF w] that(2) st1(3) [OF w] _ s that(5) _ that(3) _ _ that(4), of j info' s']
      st1(4-) [OF w] that(6) j info(2) p(2) by simp
  show ?thesis
  proof (cases rule: replace_cases [OF run info(1) refl refl refl])
    case (1 st1)
    then show ?thesis using st1(5) [OF 1(1)] by (auto simp: no_self_trade_def orders_def)
  next
    case (2 st1 b ts)
    have "\<exists>info'. order_symbol st1 j = Some info' \<and> oi_mpid info' \<noteq> oi_mpid info" if "j \<in> maker_id ` set ts" for j
      by (rule makers_other [OF st1(1,2) [OF 2(1)] 2(2) st1(3) [OF 2(1)] _ s _ _ 2(3) that])
         (use st1(6) [OF 2(1)] p info in auto)
    then have "\<exists>info'. order_symbol st j = Some info' \<and> oi_mpid info' \<noteq> p" if "j \<in> maker_id ` set ts" for j
      using that info(2) unfolding st1(4) [OF 2(1)] fun_upd_apply by (metis option.distinct(1))
    moreover have "orders st' s' j = orders st s' j" if "order_symbol st j = Some info'" "oi_mpid info' = p" "j \<noteq> ?k" for j info' s'
      by (rule spared [OF 2(1,2,3,5) _ _ that]) simp_all
    ultimately show ?thesis using trades_of_quotes [OF 2(8)] by (force simp: no_self_trade_def trade_event_maker)
  next
    case (3 st1 e b ts)
    have "orders st' s' j = orders st s' j" if "order_symbol st j = Some info'" "oi_mpid info' = p" "j \<noteq> ?k" for j info' s'
      by (rule spared [OF 3(1,2,3,5) _ _ that]) simp_all
    then show ?thesis using 3(8) by (simp add: no_self_trade_def)
  qed
qed

lemma tracked_new: "tracked (new_sequencer bks (Some (new_risk_engine c)))"
  by (simp add: tracked_def new_sequencer_def counts_def owned_def count_of_def new_risk_engine_def)

lemma risk_kept:
  assumes "on_message cb rnd m st = Some (st', out)" "sq_risk st = Some eng"
  shows "\<exists>eng'. sq_risk st' = Some eng'"
proof (cases m)
  case (AddOrderNoMPID a)
  with assms show ?thesis by (auto simp: on_message_def elim: add_cases)
next
  case (AddOrderMPID a)
  with assms show ?thesis by (auto simp: on_message_def elim: add_cases)
next
  case (OrderReplace a)
  with assms have run: "on_replace cb rnd a st = Some (st', out)" by (simp add: on_message_def)
  show ?thesis
  proof (cases "order_symbol st (or_original_order_ref_number a)")
    case (Some info)
    show ?thesis by (rule replace_cases [OF run Some refl refl refl]) (use assms(2) in \<open>auto simp: withdrawn_def\<close>)
  qed (use run assms(2) in \<open>auto simp: on_replace_def\<close>)
qed (use assms in \<open>auto simp: on_message_def on_cancel_def on_delete_def on_executed_def on_executed_with_price_def Let_def
       bind_eq_Some_conv split: option.splits if_splits\<close>)

lemma run_tracked:
  assumes "on_messages cb rnd ms st = Some (st', out)" "seq_ok st" "tracked st" "sq_risk st = Some eng"
    "list_all message_ok ms" "list_all plain ms" "day_unique (ms @ ns) st"
  shows "seq_ok st' \<and> tracked st' \<and> sq_risk st' \<noteq> None \<and> day_unique ns st'"
  using assms
proof (induction ms arbitrary: st out eng)
  case (Cons m ms)
  then obtain st1 out1 out2 where one: "on_message cb rnd m st = Some (st1, out1)" and
    rest: "on_messages cb rnd ms st1 = Some (st', out2)"
    by (auto simp: bind_eq_Some_conv)
  have day: "day_unique (m # ms @ ns) st" using Cons.prems(7) by simp
  note step = day_unique_step [OF day one]
  have "seq_ok st1" using message_good [OF Cons.prems(2) _ step(1), of cb rnd] one Cons.prems(5) by (simp add: step_good_def)
  moreover have "tracked st1" using tracked_message [OF Cons.prems(3) one step(1)] Cons.prems(6) by simp
  moreover obtain eng1 where "sq_risk st1 = Some eng1" using risk_kept [OF one Cons.prems(4)] by blast
  ultimately show ?case using Cons.IH [OF rest] Cons.prems(5,6) step(2) by simp
qed simp

section \<open>Property\<close>

text \<open>C7: a named participant never trades with itself. After any feed, when the next message places an
  order for a participant, an attributed Add Order or the Replace of an attributed order, every order of that participant
  in any book is left as it was, except the one replaced, whatever callbacks are set and also when the book throws after
  matching; and every trade published is with a resting order of somebody else. (The risk stage looks only at its
  counters; they are the numbers of routed orders per symbol, participant and side after every feed.) Assumed of the feed:
  well-formed messages, order references unique over the day, and no byte 1, the separator of the risk keys, in a
  symbol.\<close>

theorem no_self_trades:
  assumes "\<And>s. wf_book (bks s)" "\<And>s. book_abs (bks s) = spec_empty"
    "list_all message_ok (ms @ [m])" "list_all plain (ms @ [m])"
    "day_unique (ms @ [m]) (new_sequencer bks (Some (new_risk_engine c)))"
    "on_messages cb rnd ms (new_sequencer bks (Some (new_risk_engine c))) = Some (st, out)"
    "on_message cb rnd m st = Some (st', out')" "participant m st \<noteq> []"
  shows "no_self_trade (participant m st) m st st' out'"
proof -
  let ?st0 = "new_sequencer bks (Some (new_risk_engine c))"
  have ok0: "seq_ok ?st0" by (rule seq_ok_new(1) [OF assms(1,2)])
  have "sq_risk ?st0 = Some (new_risk_engine c)" by (simp add: new_sequencer_def)
  from run_tracked [OF assms(6) ok0 tracked_new this _ _ assms(5)] assms(3,4) obtain eng where
    st: "seq_ok st" "tracked st" "sq_risk st = Some eng" "fresh_ids m st"
    using day_unique_fresh by (auto simp: list_all_iff)
  show ?thesis
  proof (cases m)
    case (AddOrderMPID a)
    then show ?thesis
      using add_no_self_trade [OF st(1-3), where msg = m] assms(3,4,7,8) st(4) by (simp add: on_message_def fresh_ids_def message_ok_stock)
  next
    case (OrderReplace a)
    then show ?thesis
      using replace_no_self_trade [OF st(1-3) _ _ refl] assms(7,8) st(4) by (simp add: on_message_def)
  qed (use assms(8) in simp_all)
qed

text \<open>Y rests a sell at 99 and X a buy at 90; X's buy at 99 is accepted by an engine that counts no order of X on the
  sell side, trades with Y only and leaves X's other order.\<close>

definition demo_mpid :: "u64 \<Rightarrow> u8 \<Rightarrow> u32 \<Rightarrow> u32 \<Rightarrow> bytes \<Rightarrow> message" where
  "demo_mpid i c q p who = AddOrderMPID \<lparr>aom_h = \<lparr>stock_locate = 1, tracking_number = 2, timestamp_ns = 34200000000000\<rparr>,
     aom_order_ref_number = i, aom_buy_sell_indicator = c, aom_shares = q,
     aom_stock = [65, 65, 80, 76, 32, 32, 32, 32], aom_price = p, aom_attribution = who\<rparr>"

theorem no_self_trades_witness:
  "\<exists>st out st' out'.
     on_messages both id [demo_mpid 1 83 10 99 [89, 32, 32, 32], demo_mpid 3 66 7 90 [88, 32, 32, 32]]
       (new_sequencer demo_books (Some (new_risk_engine default_config))) = Some (st, out) \<and>
     on_message both id (demo_mpid 2 66 5 99 [88, 32, 32, 32]) st = Some (st', out') \<and>
     (\<exists>e \<in> set (mds out'). ev_type e = evTrade) \<and> no_self_trade [88] (demo_mpid 2 66 5 99 [88, 32, 32, 32]) st st' out' \<and>
     orders st' [65, 65, 80, 76] 3 = Some \<lparr>ro_side = Buy, ro_price = 90, ro_qty = 7\<rparr>"
proof -
  let ?st0 = "new_sequencer demo_books (Some (new_risk_engine default_config))"
  let ?m1 = "demo_mpid 1 83 10 99 [89, 32, 32, 32]" and ?m3 = "demo_mpid 3 66 7 90 [88, 32, 32, 32]" and ?m2 = "demo_mpid 2 66 5 99 [88, 32, 32, 32]"
  obtain b where b: "new_book 8 4 = Some b" "wf_book b" "book_abs b = spec_empty" using new_book_ok [of 4 8] by auto
  then have books: "wf_book (demo_books s)" "book_abs (demo_books s) = spec_empty" for s by (simp_all add: demo_books_def)
  have feed: "list_all message_ok ([?m1, ?m3] @ [?m2])" "list_all plain ([?m1, ?m3] @ [?m2])" "day_unique ([?m1, ?m3] @ [?m2]) ?st0"
    by (simp_all add: demo_mpid_def message_ok_def day_unique_def new_sequencer_def)
  have run: "(case on_messages both id [?m1, ?m3] ?st0 of None \<Rightarrow> False
      | Some (st, out) \<Rightarrow> (case on_message both id ?m2 st of None \<Rightarrow> False
          | Some (st', out') \<Rightarrow> list_ex (\<lambda>e. ev_type e = evTrade) (mds out') \<and>
              orders st' [65, 65, 80, 76] 3 = Some \<lparr>ro_side = Buy, ro_price = 90, ro_qty = 7\<rparr>))"
    by code_simp
  then obtain st out where one: "on_messages both id [?m1, ?m3] ?st0 = Some (st, out)"
    by (cases "on_messages both id [?m1, ?m3] ?st0") auto
  with run obtain st' out' where two: "on_message both id ?m2 st = Some (st', out')"
      "\<exists>e \<in> set (mds out'). ev_type e = evTrade"
      "orders st' [65, 65, 80, 76] 3 = Some \<lparr>ro_side = Buy, ro_price = 90, ro_qty = 7\<rparr>"
    by (cases "on_message both id ?m2 st") (auto simp: list_ex_iff)
  have p: "participant ?m2 st = [88]" by code_simp
  have "no_self_trade (participant ?m2 st) ?m2 st st' out'"
    by (rule no_self_trades [OF books feed one two(1)]) (simp add: p)
  then show ?thesis using one two p by auto
qed

end
