(* ===== verification/Spsc_Ring.thy ===== *)
theory Spsc_Ring
  imports Prelude
begin

text \<open>
  The single-producer single-consumer ring (\<open>cpp/include/spsc_ring.h\<close>), twice: \<open>push\<close>, \<open>pop\<close> and \<open>empty\<close>
  as whole calls, and as the atomic actions of two threads.

  In the threaded model an action is one access to shared memory. Each of \<open>head_\<close> and \<open>tail_\<close> keeps its
  modification order, the list of every value stored, newest last. A relaxed load by the only writer
  reads the newest value; an acquire load by the other thread may read any value at or after the one it
  read last (coherence), so it may be stale. The plain accesses to \<open>buf_\<close> are ordered by the
  release/acquire pairs provided the two threads never access the same cell at once; that is proved
  (\<open>ring_race_free\<close>), not assumed.
\<close>

section \<open>Whole calls\<close>

record 'a ring =
  rg_mask :: u64
  rg_buf :: "'a list"
  rg_head :: u64
  rg_tail :: u64

definition new_ring :: "'a \<Rightarrow> u64 \<Rightarrow> 'a ring" where
  "new_ring blank capacity_pow2 =
     \<lparr>rg_mask = capacity_pow2 - 1, rg_buf = replicate (unat capacity_pow2) blank, rg_head = 0, rg_tail = 0\<rparr>"

definition push :: "'a \<Rightarrow> 'a ring \<Rightarrow> bool \<times> 'a ring" where
  "push item r =
     (let tail = rg_tail r; succ = (tail + 1) AND rg_mask r
      in if succ = rg_head r then (False, r)
         else (True, r\<lparr>rg_buf := (rg_buf r)[unat tail := item], rg_tail := succ\<rparr>))"

definition pop :: "'a ring \<Rightarrow> 'a option \<times> 'a ring" where
  "pop r =
     (let head = rg_head r
      in if head = rg_tail r then (None, r)
         else (Some (rg_buf r ! unat head), r\<lparr>rg_head := (head + 1) AND rg_mask r\<rparr>))"

definition ring_empty :: "'a ring \<Rightarrow> bool" where
  "ring_empty r \<longleftrightarrow> rg_head r = rg_tail r"

section \<open>Positions\<close>

text \<open>With a capacity of \<open>2 ^ k\<close> the masked increment is the increment modulo the capacity.\<close>

lemma masked_step:
  assumes k: "k < 64" and t: "unat (t :: u64) = n mod 2 ^ k"
  shows "unat ((t + 1) AND (2 ^ k - 1)) = Suc n mod 2 ^ k"
proof -
  have "(2 :: nat) ^ k \<le> 2 ^ 63" using k by (intro power_increasing) simp_all
  moreover have "unat t < 2 ^ k" by (simp add: t)
  ultimately have "unat (t + 1) = Suc (unat t)" by (simp add: unat_word_ariths)
  then have "unat (take_bit k (t + 1)) = Suc (unat t) mod 2 ^ k"
    unfolding unsigned_take_bit_eq by (simp add: take_bit_eq_mod)
  moreover have "(t + 1) AND (2 ^ k - 1) = take_bit k (t + 1)" by (simp add: take_bit_eq_mask mask_eq_decr_exp)
  ultimately show ?thesis by (simp add: t mod_Suc_eq)
qed

lemma unat_mask_pow:
  assumes "k < 64"
  shows "unat (2 ^ k :: u64) = 2 ^ k"
proof -
  have "(2 :: nat) ^ k < 2 ^ 64" using assms by (intro power_strict_increasing) simp_all
  moreover have "(2 ^ k :: u64) = word_of_nat (2 ^ k)" by simp
  ultimately show ?thesis by (simp only: unsigned_of_nat take_bit_eq_mod) simp
qed

lemma mod_window:
  assumes "h \<le> t" "t - h < (c :: nat)"
  shows "t mod c = h mod c \<longleftrightarrow> t = h"
proof
  assume "t mod c = h mod c"
  then have "(t - h) mod c = 0" using assms(1) by (metis mod_diff_left_eq mod_diff_right_eq mod_eq_dvd_iff_nat dvd_imp_mod_0)
  then show "t = h" using assms by simp
qed simp

section \<open>A bounded queue\<close>

text \<open>A run of calls: \<open>Some x\<close> enqueues \<open>x\<close>, \<open>None\<close> dequeues; the answers come back in two lists. Beside it the
  same run on a plain list bounded by \<open>n\<close>.\<close>

fun queue_run ::
    "('a \<Rightarrow> 'q \<Rightarrow> bool \<times> 'q) \<Rightarrow> ('q \<Rightarrow> 'a option \<times> 'q) \<Rightarrow> 'a option list \<Rightarrow> 'q \<Rightarrow> 'a option list \<times> bool list \<times> 'q" where
  "queue_run enq deq [] q = ([], [], q)"
| "queue_run enq deq (Some x # cs) q =
     (let (b, q1) = enq x q; (xs, bs, q2) = queue_run enq deq cs q1 in (xs, b # bs, q2))"
| "queue_run enq deq (None # cs) q =
     (let (x, q1) = deq q; (xs, bs, q2) = queue_run enq deq cs q1 in (x # xs, bs, q2))"

fun list_run :: "nat \<Rightarrow> 'a option list \<Rightarrow> 'a list \<Rightarrow> 'a option list \<times> bool list \<times> 'a list" where
  "list_run n [] l = ([], [], l)"
| "list_run n (Some x # cs) l =
     (let (xs, bs, l2) = list_run n cs (if length l < n then l @ [x] else l) in (xs, (length l < n) # bs, l2))"
| "list_run n (None # cs) l =
     (let (xs, bs, l2) = list_run n cs (tl l) in ((if l = [] then None else Some (hd l)) # xs, bs, l2))"

locale bounded_queue =
  fixes enq :: "'a \<Rightarrow> 'q \<Rightarrow> bool \<times> 'q"
    and deq :: "'q \<Rightarrow> 'a option \<times> 'q"
    and content :: "'q \<Rightarrow> 'a list"
    and ok :: "nat \<Rightarrow> 'q \<Rightarrow> bool"
  assumes enq_law: "ok room q \<Longrightarrow> length (content q) < room \<Longrightarrow>
      \<exists>q'. enq x q = (True, q') \<and> ok room q' \<and> content q' = content q @ [x]"
    and enq_full: "ok room q \<Longrightarrow> length (content q) = room \<Longrightarrow> enq x q = (False, q)"
    and deq_law: "ok room q \<Longrightarrow> content q = x # xs \<Longrightarrow> \<exists>q'. deq q = (Some x, q') \<and> ok room q' \<and> content q' = xs"
    and deq_empty: "ok room q \<Longrightarrow> content q = [] \<Longrightarrow> deq q = (None, q)"
    and room: "ok room q \<Longrightarrow> length (content q) \<le> room"
begin

lemma run_refines:
  assumes "ok n q"
  shows "\<exists>xs bs q'. queue_run enq deq cs q = (xs, bs, q') \<and> ok n q' \<and> list_run n cs (content q) = (xs, bs, content q')"
  using assms
proof (induction cs arbitrary: q)
  case (Cons c cs)
  show ?case
  proof (cases c)
    case (Some x)
    show ?thesis
    proof (cases "length (content q) < n")
      case True
      from enq_law [OF Cons.prems True, of x] obtain q1 where
        q1: "enq x q = (True, q1)" "ok n q1" "content q1 = content q @ [x]" by blast
      with Cons.IH [OF q1(2)] Some True show ?thesis by auto
    next
      case False
      then have "enq x q = (False, q)" using enq_full room Cons.prems by force
      with Cons.IH [OF Cons.prems] Some False show ?thesis by auto
    qed
  next
    case None
    show ?thesis
    proof (cases "content q")
      case Nil
      then show ?thesis using Cons.IH [OF Cons.prems] deq_empty [OF Cons.prems] None by auto
    next
      case (Cons y ys)
      from deq_law [OF \<open>ok n q\<close> this] obtain q1 where
        q1: "deq q = (Some y, q1)" "ok n q1" "content q1 = ys" by blast
      with Cons.IH [OF q1(2)] None Cons show ?thesis by auto
    qed
  qed
qed simp

end

text \<open>The ring's content: its cells from the head up to the tail, around the end of the buffer.\<close>

text \<open>\<open>h\<close> items have been popped so far and \<open>t\<close> pushed.\<close>

definition ring_at :: "nat \<Rightarrow> 'a ring \<Rightarrow> nat \<Rightarrow> nat \<Rightarrow> bool" where
  "ring_at k r h t \<longleftrightarrow> k < 64 \<and> rg_mask r = 2 ^ k - 1 \<and> length (rg_buf r) = 2 ^ k \<and>
     unat (rg_head r) = h mod 2 ^ k \<and> unat (rg_tail r) = t mod 2 ^ k \<and> h \<le> t \<and> t - h < 2 ^ k"

definition ring_ok :: "nat \<Rightarrow> 'a ring \<Rightarrow> bool" where
  "ring_ok room r \<longleftrightarrow> (\<exists>k h t. room = 2 ^ k - 1 \<and> ring_at k r h t)"

definition ring_content :: "'a ring \<Rightarrow> 'a list" where
  "ring_content r =
     (let c = length (rg_buf r); h = unat (rg_head r); t = unat (rg_tail r)
      in map (\<lambda>i. rg_buf r ! ((h + i) mod c)) [0..<(if h \<le> t then t - h else t + c - h)])"

lemma ring_content_rows:
  assumes "length (rg_buf r) = c" "unat (rg_head r) = h mod c" "unat (rg_tail r) = t mod c" "h \<le> t" "t - h < c"
  shows "ring_content r = map (\<lambda>i. rg_buf r ! (i mod c)) [h..<t]"
proof -
  have c: "0 < c" using assms(5) by linarith
  obtain d where t: "t = h + d" using assms(4) le_iff_add by blast
  have d: "d < c" using assms(5) t by simp
  let ?d = "if h mod c \<le> t mod c then t mod c - h mod c else t mod c + c - h mod c"
  have "?d = d"
  proof (cases "h mod c + d < c")
    case True
    then have "t mod c = h mod c + d" unfolding t using d by (metis mod_add_left_eq mod_less)
    then show ?thesis by simp
  next
    case False
    have "t mod c = (h mod c + d) mod c" unfolding t by (simp add: mod_add_left_eq)
    also have "\<dots> = (h mod c + d - c) mod c" using False by (simp add: le_mod_geq)
    also have "\<dots> = h mod c + d - c" using d mod_less_divisor [OF c, of h] by (intro mod_less) linarith
    finally show ?thesis using False d mod_less_divisor [OF c, of h] by auto
  qed
  then have "ring_content r = map (\<lambda>i. rg_buf r ! ((h mod c + i) mod c)) [0..<d]"
    using assms(1-3) by (simp add: ring_content_def Let_def)
  also have "\<dots> = map (\<lambda>i. rg_buf r ! (i mod c)) [h..<t]"
    unfolding t by (intro nth_equalityI) (simp_all add: mod_add_left_eq)
  finally show ?thesis .
qed

lemma ring_at_content: "ring_at k r h t \<Longrightarrow> ring_content r = map (\<lambda>i. rg_buf r ! (i mod 2 ^ k)) [h..<t]"
  by (rule ring_content_rows) (simp_all add: ring_at_def)

lemma ring_at_full:
  assumes "ring_at k r h t"
  shows "(rg_tail r + 1) AND rg_mask r = rg_head r \<longleftrightarrow> t - h = 2 ^ k - 1"
    "unat ((rg_tail r + 1) AND rg_mask r) = Suc t mod 2 ^ k"
proof -
  have r: "k < 64" "rg_mask r = 2 ^ k - 1" "unat (rg_head r) = h mod 2 ^ k" "unat (rg_tail r) = t mod 2 ^ k"
    "h \<le> t" "t - h < 2 ^ k"
    using assms by (simp_all add: ring_at_def)
  show succ: "unat ((rg_tail r + 1) AND rg_mask r) = Suc t mod 2 ^ k"
    using masked_step [OF r(1,4)] by (simp add: r(2))
  have "(rg_tail r + 1) AND rg_mask r = rg_head r \<longleftrightarrow> Suc t mod 2 ^ k = h mod 2 ^ k"
    unfolding word_unat_eq_iff succ r(3) ..
  also have "\<dots> \<longleftrightarrow> t - h = 2 ^ k - 1"
  proof (cases "Suc t - h < 2 ^ k")
    case True
    then show ?thesis using mod_window [of h "Suc t" "2 ^ k"] r(5) by auto
  next
    case False
    then have "Suc t = h + 2 ^ k" using r(5,6) by linarith
    then show ?thesis using r(5) by auto
  qed
  finally show "(rg_tail r + 1) AND rg_mask r = rg_head r \<longleftrightarrow> t - h = 2 ^ k - 1" .
qed

lemma ring_at_empty: "ring_at k r h t \<Longrightarrow> rg_head r = rg_tail r \<longleftrightarrow> t = h"
  using mod_window [of h t "2 ^ k"] by (auto simp: ring_at_def simp flip: unat_inject_iff)

text \<open>Writing the cell at the tail leaves the queued cells alone.\<close>

lemma write_tail:
  assumes "ring_at k r h t" "i \<in> {h..<t}"
  shows "(rg_buf r)[t mod 2 ^ k := x] ! (i mod 2 ^ k) = rg_buf r ! (i mod 2 ^ k)"
proof (rule nth_list_update_neq)
  have "i \<le> t" "t - i < 2 ^ k" "t \<noteq> i" using assms by (auto simp: ring_at_def)
  then show "t mod 2 ^ k \<noteq> i mod 2 ^ k" using mod_window [of i t "2 ^ k"] by blast
qed

lemma push_at:
  assumes r: "ring_at k r h t" and room: "t - h \<noteq> 2 ^ k - 1"
  shows "\<exists>r'. push x r = (True, r') \<and> ring_at k r' h (Suc t) \<and> ring_content r' = ring_content r @ [x]"
proof -
  let ?r = "r\<lparr>rg_buf := (rg_buf r)[unat (rg_tail r) := x], rg_tail := (rg_tail r + 1) AND rg_mask r\<rparr>"
  have at: "ring_at k ?r h (Suc t)"
    using r room ring_at_full(2) [OF r] by (auto simp: ring_at_def)
  have t: "unat (rg_tail r) = t mod 2 ^ k" "length (rg_buf r) = 2 ^ k" "h \<le> t" using r by (simp_all add: ring_at_def)
  have "ring_content ?r = ring_content r @ [x]"
    unfolding ring_at_content [OF at] ring_at_content [OF r]
    using write_tail [OF r] t by simp
  then show ?thesis using at ring_at_full(1) [OF r] room by (auto simp: push_def Let_def)
qed

lemma pop_at:
  assumes r: "ring_at k r h t" and some: "h \<noteq> t"
  shows "\<exists>r'. pop r = (Some (hd (ring_content r)), r') \<and> ring_at k r' (Suc h) t \<and> ring_content r' = tl (ring_content r)"
proof -
  let ?r = "r\<lparr>rg_head := (rg_head r + 1) AND rg_mask r\<rparr>"
  have h: "k < 64" "unat (rg_head r) = h mod 2 ^ k" "rg_mask r = 2 ^ k - 1" "h < t"
    using r some by (simp_all add: ring_at_def)
  have at: "ring_at k ?r (Suc h) t"
    using r some masked_step [OF h(1,2)] by (auto simp: ring_at_def)
  have "ring_content r = rg_buf r ! (h mod 2 ^ k) # ring_content ?r"
    unfolding ring_at_content [OF at] ring_at_content [OF r] using h(4) by (simp add: upt_conv_Cons)
  then show ?thesis using at ring_at_empty [OF r] some h(2) by (auto simp: pop_def Let_def)
qed

lemma ring_at_length: "ring_at k r h t \<Longrightarrow> length (ring_content r) = t - h"
  by (simp add: ring_at_content)

interpretation ringq: bounded_queue push pop ring_content ring_ok
proof unfold_locales
  fix room :: nat and r :: "'a ring" and x :: 'a
  assume "ring_ok room r" "length (ring_content r) < room"
  then obtain k h t where r: "room = 2 ^ k - 1" "ring_at k r h t" "t - h \<noteq> 2 ^ k - 1"
    by (auto simp: ring_ok_def ring_at_length)
  from push_at [OF r(2,3)] show "\<exists>r'. push x r = (True, r') \<and> ring_ok room r' \<and> ring_content r' = ring_content r @ [x]"
    unfolding ring_ok_def r(1) by metis
next
  fix room :: nat and r :: "'a ring" and x :: 'a
  assume "ring_ok room r" "length (ring_content r) = room"
  then obtain k h t where r: "ring_at k r h t" "t - h = 2 ^ k - 1" by (auto simp: ring_ok_def ring_at_length)
  then show "push x r = (False, r)" using ring_at_full(1) [OF r(1)] by (simp add: push_def Let_def)
next
  fix room :: nat and r :: "'a ring" and x :: 'a and xs
  assume "ring_ok room r" "ring_content r = x # xs"
  moreover from this obtain k h t where r: "room = 2 ^ k - 1" "ring_at k r h t" "h \<noteq> t"
    by (auto simp: ring_ok_def) (metis ring_at_length diff_self_eq_0 length_0_conv list.discI)
  ultimately show "\<exists>r'. pop r = (Some x, r') \<and> ring_ok room r' \<and> ring_content r' = xs"
    using pop_at [OF r(2,3)] unfolding ring_ok_def r(1) by (metis list.sel(1,3))
next
  fix room :: nat and r :: "'a ring"
  assume "ring_ok room r" "ring_content r = []"
  then obtain k h t where "ring_at k r h t" "t = h"
    by (auto simp: ring_ok_def) (metis ring_at_length ring_at_def diff_is_0_eq le_antisym list.size(3))
  then show "pop r = (None, r)" using ring_at_empty [of k r h t] by (simp add: pop_def Let_def)
next
  fix room :: nat and r :: "'a ring"
  assume "ring_ok room r"
  then show "length (ring_content r) \<le> room" by (auto simp: ring_ok_def ring_at_length) (auto simp: ring_at_def)
qed

section \<open>The two threads\<close>

text \<open>Where each thread is inside its call, with the locals it has loaded.\<close>

datatype 'a producer = PIdle | PCalled 'a u64 | PRoom 'a u64 u64 | PWrote 'a u64

datatype 'a consumer = CIdle | CCalled u64 | CSome u64 | CRead u64 'a

record 'a shared =
  sh_mask :: u64
  sh_buf :: "'a list"
  sh_heads :: "u64 list"
  sh_tails :: "u64 list"
  sh_head_seen :: nat
  sh_tail_seen :: nat
  sh_producer :: "'a producer"
  sh_consumer :: "'a consumer"

definition new_shared :: "'a \<Rightarrow> u64 \<Rightarrow> 'a shared" where
  "new_shared blank capacity_pow2 =
     \<lparr>sh_mask = capacity_pow2 - 1, sh_buf = replicate (unat capacity_pow2) blank, sh_heads = [0], sh_tails = [0],
      sh_head_seen = 0, sh_tail_seen = 0, sh_producer = PIdle, sh_consumer = CIdle\<rparr>"

datatype 'a action =
    PushCall 'a | LoadHead nat | WriteCell | StoreTail
  | PopCall | LoadTail nat | ReadCell | StoreHead

datatype 'a answer = NoAnswer | Pushed 'a | Full | Popped 'a | Empty

text \<open>One action; \<open>None\<close> when the thread is not there. The number in a load is the position, in the
  modification order, of the value the load reads.\<close>

fun act :: "'a action \<Rightarrow> 'a shared \<Rightarrow> ('a shared \<times> 'a answer) option" where
  "act (PushCall x) s =
     (case sh_producer s of PIdle \<Rightarrow> Some (s\<lparr>sh_producer := PCalled x (last (sh_tails s))\<rparr>, NoAnswer) | _ \<Rightarrow> None)"
| "act (LoadHead n) s =
     (case sh_producer s of
        PCalled x tail \<Rightarrow>
          if sh_head_seen s \<le> n \<and> n < length (sh_heads s) then
            let succ = (tail + 1) AND sh_mask s
            in if succ = sh_heads s ! n then Some (s\<lparr>sh_head_seen := n, sh_producer := PIdle\<rparr>, Full)
               else Some (s\<lparr>sh_head_seen := n, sh_producer := PRoom x tail succ\<rparr>, NoAnswer)
          else None
      | _ \<Rightarrow> None)"
| "act WriteCell s =
     (case sh_producer s of
        PRoom x tail succ \<Rightarrow> Some (s\<lparr>sh_buf := (sh_buf s)[unat tail := x], sh_producer := PWrote x succ\<rparr>, NoAnswer)
      | _ \<Rightarrow> None)"
| "act StoreTail s =
     (case sh_producer s of
        PWrote x succ \<Rightarrow> Some (s\<lparr>sh_tails := sh_tails s @ [succ], sh_producer := PIdle\<rparr>, Pushed x)
      | _ \<Rightarrow> None)"
| "act PopCall s =
     (case sh_consumer s of CIdle \<Rightarrow> Some (s\<lparr>sh_consumer := CCalled (last (sh_heads s))\<rparr>, NoAnswer) | _ \<Rightarrow> None)"
| "act (LoadTail n) s =
     (case sh_consumer s of
        CCalled head \<Rightarrow>
          if sh_tail_seen s \<le> n \<and> n < length (sh_tails s) then
            if head = sh_tails s ! n then Some (s\<lparr>sh_tail_seen := n, sh_consumer := CIdle\<rparr>, Empty)
            else Some (s\<lparr>sh_tail_seen := n, sh_consumer := CSome head\<rparr>, NoAnswer)
          else None
      | _ \<Rightarrow> None)"
| "act ReadCell s =
     (case sh_consumer s of
        CSome head \<Rightarrow> Some (s\<lparr>sh_consumer := CRead head (sh_buf s ! unat head)\<rparr>, NoAnswer)
      | _ \<Rightarrow> None)"
| "act StoreHead s =
     (case sh_consumer s of
        CRead head x \<Rightarrow>
          Some (s\<lparr>sh_heads := sh_heads s @ [(head + 1) AND sh_mask s], sh_consumer := CIdle\<rparr>, Popped x)
      | _ \<Rightarrow> None)"

fun pushed :: "'a answer \<Rightarrow> 'a list" where
  "pushed (Pushed x) = [x]" | "pushed _ = []"

fun popped :: "'a answer \<Rightarrow> 'a list" where
  "popped (Popped x) = [x]" | "popped _ = []"

text \<open>Any interleaving of the two threads from a new ring: the state, everything pushed and everything
  popped so far.\<close>

inductive reach :: "'a shared \<Rightarrow> 'a shared \<Rightarrow> 'a list \<Rightarrow> 'a list \<Rightarrow> bool" for s0 where
  reach_start: "reach s0 s0 [] []"
| reach_act: "reach s0 s ps qs \<Longrightarrow> act a s = Some (s', r) \<Longrightarrow> reach s0 s' (ps @ pushed r) (qs @ popped r)"

definition pushes :: "'a shared \<Rightarrow> nat" where
  "pushes s = length (sh_tails s) - 1"

definition pops :: "'a shared \<Rightarrow> nat" where
  "pops s = length (sh_heads s) - 1"

definition positions :: "nat \<Rightarrow> u64 list \<Rightarrow> bool" where
  "positions k ws \<longleftrightarrow> ws \<noteq> [] \<and> (\<forall>n < length ws. unat (ws ! n) = n mod 2 ^ k)"

definition producer_ok :: "nat \<Rightarrow> 'a shared \<Rightarrow> bool" where
  "producer_ok k s \<longleftrightarrow>
     (case sh_producer s of
        PIdle \<Rightarrow> True
      | PCalled x tail \<Rightarrow> tail = last (sh_tails s)
      | PRoom x tail succ \<Rightarrow> tail = last (sh_tails s) \<and> unat succ = Suc (pushes s) mod 2 ^ k \<and>
          Suc (pushes s) < sh_head_seen s + 2 ^ k
      | PWrote x succ \<Rightarrow> unat succ = Suc (pushes s) mod 2 ^ k \<and> Suc (pushes s) < sh_head_seen s + 2 ^ k \<and>
          sh_buf s ! (pushes s mod 2 ^ k) = x)"

definition consumer_ok :: "'a shared \<Rightarrow> 'a list \<Rightarrow> bool" where
  "consumer_ok s ps \<longleftrightarrow>
     (case sh_consumer s of
        CIdle \<Rightarrow> True
      | CCalled head \<Rightarrow> head = last (sh_heads s)
      | CSome head \<Rightarrow> head = last (sh_heads s) \<and> pops s < sh_tail_seen s
      | CRead head x \<Rightarrow> head = last (sh_heads s) \<and> pops s < sh_tail_seen s \<and> x = ps ! pops s)"

definition shared_ok :: "nat \<Rightarrow> 'a shared \<Rightarrow> 'a list \<Rightarrow> 'a list \<Rightarrow> bool" where
  "shared_ok k s ps qs \<longleftrightarrow>
     k < 64 \<and> sh_mask s = 2 ^ k - 1 \<and> length (sh_buf s) = 2 ^ k \<and>
     positions k (sh_heads s) \<and> positions k (sh_tails s) \<and>
     length ps = pushes s \<and> qs = take (pops s) ps \<and>
     pops s \<le> sh_tail_seen s \<and> sh_tail_seen s \<le> pushes s \<and> sh_head_seen s \<le> pops s \<and>
     pushes s < sh_head_seen s + 2 ^ k \<and>
     (\<forall>n. pops s \<le> n \<longrightarrow> n < pushes s \<longrightarrow> sh_buf s ! (n mod 2 ^ k) = ps ! n) \<and>
     producer_ok k s \<and> consumer_ok s ps"

lemma positions_last: "positions k ws \<Longrightarrow> unat (last ws) = (length ws - 1) mod 2 ^ k"
  by (simp add: positions_def last_conv_nth)

lemma positions_snoc:
  "positions k ws \<Longrightarrow> unat w = length ws mod 2 ^ k \<Longrightarrow> positions k (ws @ [w])"
  by (auto simp: positions_def nth_append less_Suc_eq)

lemma pushes_pops_simps [simp]:
  "pushes (s\<lparr>sh_buf := b\<rparr>) = pushes s" "pops (s\<lparr>sh_buf := b\<rparr>) = pops s"
  "pushes (s\<lparr>sh_producer := p\<rparr>) = pushes s" "pops (s\<lparr>sh_producer := p\<rparr>) = pops s"
  "pushes (s\<lparr>sh_consumer := c\<rparr>) = pushes s" "pops (s\<lparr>sh_consumer := c\<rparr>) = pops s"
  "pushes (s\<lparr>sh_head_seen := n\<rparr>) = pushes s" "pops (s\<lparr>sh_head_seen := n\<rparr>) = pops s"
  "pushes (s\<lparr>sh_tail_seen := n\<rparr>) = pushes s" "pops (s\<lparr>sh_tail_seen := n\<rparr>) = pops s"
  "pushes (s\<lparr>sh_heads := ws\<rparr>) = pushes s" "pops (s\<lparr>sh_heads := ws\<rparr>) = length ws - 1"
  "pushes (s\<lparr>sh_tails := ws\<rparr>) = length ws - 1" "pops (s\<lparr>sh_tails := ws\<rparr>) = pops s"
  by (simp_all add: pushes_def pops_def)

lemma thread_frames [simp]:
  "producer_ok k (s\<lparr>sh_consumer := c\<rparr>) = producer_ok k s" "producer_ok k (s\<lparr>sh_tail_seen := n\<rparr>) = producer_ok k s"
  "producer_ok k (s\<lparr>sh_heads := ws\<rparr>) = producer_ok k s"
  "consumer_ok (s\<lparr>sh_producer := p\<rparr>) ps = consumer_ok s ps" "consumer_ok (s\<lparr>sh_head_seen := n\<rparr>) ps = consumer_ok s ps"
  "consumer_ok (s\<lparr>sh_buf := b\<rparr>) ps = consumer_ok s ps" "consumer_ok (s\<lparr>sh_tails := ws\<rparr>) ps = consumer_ok s ps"
  by (simp_all add: producer_ok_def consumer_ok_def split: producer.split consumer.split)

lemma thread_here [simp]:
  "sh_producer s = PIdle \<Longrightarrow> producer_ok k s" "sh_consumer s = CIdle \<Longrightarrow> consumer_ok s ps"
  "sh_producer s = PCalled x w \<Longrightarrow> producer_ok k s \<longleftrightarrow> w = last (sh_tails s)"
  "sh_producer s = PRoom x w v \<Longrightarrow> producer_ok k s \<longleftrightarrow> w = last (sh_tails s) \<and> unat v = Suc (pushes s) mod 2 ^ k \<and>
     Suc (pushes s) < sh_head_seen s + 2 ^ k"
  "sh_producer s = PWrote x v \<Longrightarrow> producer_ok k s \<longleftrightarrow> unat v = Suc (pushes s) mod 2 ^ k \<and>
     Suc (pushes s) < sh_head_seen s + 2 ^ k \<and> sh_buf s ! (pushes s mod 2 ^ k) = x"
  "sh_consumer s = CCalled w \<Longrightarrow> consumer_ok s ps \<longleftrightarrow> w = last (sh_heads s)"
  "sh_consumer s = CSome w \<Longrightarrow> consumer_ok s ps \<longleftrightarrow> w = last (sh_heads s) \<and> pops s < sh_tail_seen s"
  "sh_consumer s = CRead w x \<Longrightarrow> consumer_ok s ps \<longleftrightarrow>
     w = last (sh_heads s) \<and> pops s < sh_tail_seen s \<and> x = ps ! pops s"
  by (simp_all add: producer_ok_def consumer_ok_def)

lemma new_shared_ok:
  assumes "k < 64"
  shows "shared_ok k (new_shared blank (2 ^ k)) [] []"
  using assms by (simp add: shared_ok_def new_shared_def positions_def pushes_def pops_def producer_ok_def consumer_ok_def
      unat_mask_pow)

text \<open>The head value the producer reads tells whether there is room.\<close>

lemma tail_meets_head:
  assumes ok: "shared_ok k s ps qs" and n: "sh_head_seen s \<le> n" "n < length (sh_heads s)"
  shows "(last (sh_tails s) + 1) AND sh_mask s = sh_heads s ! n \<longleftrightarrow> pushes s - n = 2 ^ k - 1"
    "unat ((last (sh_tails s) + 1) AND sh_mask s) = Suc (pushes s) mod 2 ^ k" "n \<le> pops s" "pops s \<le> pushes s"
proof -
  have o: "k < 64" "sh_mask s = 2 ^ k - 1" "positions k (sh_heads s)" "positions k (sh_tails s)"
    "pops s \<le> pushes s" "pushes s < sh_head_seen s + 2 ^ k"
    using ok by (auto simp: shared_ok_def)
  show succ: "unat ((last (sh_tails s) + 1) AND sh_mask s) = Suc (pushes s) mod 2 ^ k"
    using masked_step [OF o(1) positions_last [OF o(4)]] by (simp add: o(2) pushes_def)
  show le: "n \<le> pops s" "pops s \<le> pushes s" using n(2) o(5) by (auto simp: pops_def)
  have head: "unat (sh_heads s ! n) = n mod 2 ^ k" using o(3) n(2) by (simp add: positions_def)
  have "(last (sh_tails s) + 1) AND sh_mask s = sh_heads s ! n \<longleftrightarrow> Suc (pushes s) mod 2 ^ k = n mod 2 ^ k"
    unfolding word_unat_eq_iff succ head ..
  also have "\<dots> \<longleftrightarrow> pushes s - n = 2 ^ k - 1"
  proof (cases "Suc (pushes s) - n < 2 ^ k")
    case True
    then show ?thesis using mod_window [of n "Suc (pushes s)" "2 ^ k"] le by auto
  next
    case False
    then have "Suc (pushes s) = n + 2 ^ k" using le n(1) o(6) by linarith
    then show ?thesis using le by auto
  qed
  finally show "(last (sh_tails s) + 1) AND sh_mask s = sh_heads s ! n \<longleftrightarrow> pushes s - n = 2 ^ k - 1" .
qed

lemma head_meets_tail:
  assumes ok: "shared_ok k s ps qs" and n: "sh_tail_seen s \<le> n" "n < length (sh_tails s)"
  shows "last (sh_heads s) = sh_tails s ! n \<longleftrightarrow> pops s = n" "pops s \<le> n" "n \<le> pushes s"
proof -
  have o: "positions k (sh_heads s)" "positions k (sh_tails s)"
    "pops s \<le> sh_tail_seen s" "sh_head_seen s \<le> pops s" "pushes s < sh_head_seen s + 2 ^ k"
    using ok by (auto simp: shared_ok_def)
  show le: "pops s \<le> n" "n \<le> pushes s" using n o(3) by (auto simp: pushes_def)
  have "unat (last (sh_heads s)) = pops s mod 2 ^ k" "unat (sh_tails s ! n) = n mod 2 ^ k"
    using positions_last [OF o(1)] o(2) n(2) by (simp_all add: positions_def pops_def)
  moreover have "n - pops s < 2 ^ k" using le o(4,5) by linarith
  ultimately show "last (sh_heads s) = sh_tails s ! n \<longleftrightarrow> pops s = n"
    unfolding word_unat_eq_iff using mod_window [OF le(1)] by metis
qed

text \<open>Every action keeps the invariant.\<close>

lemma producer_act_ok:
  assumes ok: "shared_ok k s ps qs" and run: "act a s = Some (s', r)"
    and a: "(\<exists>x. a = PushCall x) \<or> (\<exists>n. a = LoadHead n) \<or> a = WriteCell"
  shows "shared_ok k s' (ps @ pushed r) (qs @ popped r)"
proof -
  consider (call) x where "a = PushCall x" | (load) n where "a = LoadHead n" | (cell) "a = WriteCell"
    using a by blast
  then show ?thesis
  proof cases
    case call
    then show ?thesis using ok run
      by (auto simp: shared_ok_def split: producer.splits)
  next
    case load
    with run obtain x tail where p: "sh_producer s = PCalled x tail" "sh_head_seen s \<le> n" "n < length (sh_heads s)"
      by (auto split: producer.splits if_splits)
    note m = tail_meets_head [OF ok p(2,3)]
    have tail: "tail = last (sh_tails s)" using ok p(1) by (simp add: shared_ok_def)
    have window: "pushes s < n + 2 ^ k" using ok p(2) by (auto simp: shared_ok_def)
    then have room: "pushes s - n \<noteq> 2 ^ k - 1 \<Longrightarrow> Suc (pushes s) < n + 2 ^ k" using m(3,4) by linarith
    show ?thesis
      using ok run p m window room load
      by (auto simp: shared_ok_def tail Let_def split: if_splits)
  next
    case cell
    with run obtain x tail succ where p: "sh_producer s = PRoom x tail succ"
      and s': "s' = s\<lparr>sh_buf := (sh_buf s)[unat tail := x], sh_producer := PWrote x succ\<rparr>" "r = NoAnswer"
      by (auto split: producer.splits)
    have tail: "unat tail = pushes s mod 2 ^ k" "length (sh_buf s) = 2 ^ k"
      using ok p positions_last [of k "sh_tails s"] by (simp_all add: shared_ok_def pushes_def)
    have "(sh_buf s)[unat tail := x] ! (n mod 2 ^ k) = sh_buf s ! (n mod 2 ^ k)" if n: "pops s \<le> n" "n < pushes s" for n
    proof (rule nth_list_update_neq)
      have "pushes s - n < 2 ^ k" using ok n by (auto simp: shared_ok_def)
      then show "unat tail \<noteq> n mod 2 ^ k" using mod_window [of n "pushes s" "2 ^ k"] n tail(1) by simp
    qed
    then show ?thesis
      using ok p tail by (auto simp: shared_ok_def s')
  qed
qed

lemma store_tail_ok:
  assumes ok: "shared_ok k s ps qs" and run: "act StoreTail s = Some (s', r)"
  shows "shared_ok k s' (ps @ pushed r) (qs @ popped r)"
proof -
  from run obtain x succ where p: "sh_producer s = PWrote x succ"
    and s': "s' = s\<lparr>sh_tails := sh_tails s @ [succ], sh_producer := PIdle\<rparr>" "r = Pushed x"
    by (auto split: producer.splits)
  have tails: "sh_tails s \<noteq> []" "length (sh_tails s) = Suc (pushes s)" "positions k (sh_tails s)"
    using ok by (auto simp: shared_ok_def positions_def pushes_def)
  have "positions k (sh_tails s @ [succ])"
    using ok p tails by (intro positions_snoc) (auto simp: shared_ok_def)
  moreover have "consumer_ok s' (ps @ [x])"
    using ok by (auto simp: shared_ok_def consumer_ok_def s' nth_append split: consumer.splits)
  moreover have "\<forall>n. pops s \<le> n \<longrightarrow> n < Suc (pushes s) \<longrightarrow> sh_buf s ! (n mod 2 ^ k) = (ps @ [x]) ! n"
    using ok p by (auto simp: shared_ok_def nth_append less_Suc_eq)
  ultimately show ?thesis
    using ok p tails by (auto simp: shared_ok_def s')
qed

lemma consumer_act_ok:
  assumes ok: "shared_ok k s ps qs" and run: "act a s = Some (s', r)"
    and a: "a = PopCall \<or> (\<exists>n. a = LoadTail n) \<or> a = ReadCell"
  shows "shared_ok k s' (ps @ pushed r) (qs @ popped r)"
proof -
  consider (call) "a = PopCall" | (load) n where "a = LoadTail n" | (read) "a = ReadCell"
    using a by blast
  then show ?thesis
  proof cases
    case call
    then show ?thesis using ok run
      by (auto simp: shared_ok_def split: consumer.splits)
  next
    case load
    with run obtain head where p: "sh_consumer s = CCalled head" "sh_tail_seen s \<le> n" "n < length (sh_tails s)"
      by (auto split: consumer.splits if_splits)
    note m = head_meets_tail [OF ok p(2,3)]
    have head: "head = last (sh_heads s)" using ok p(1) by (simp add: shared_ok_def)
    show ?thesis
      using ok run p m load
      by (auto simp: shared_ok_def head split: if_splits)
  next
    case read
    with run obtain head where p: "sh_consumer s = CSome head"
      and s': "s' = s\<lparr>sh_consumer := CRead head (sh_buf s ! unat head)\<rparr>" "r = NoAnswer"
      by (auto split: consumer.splits)
    have "unat head = pops s mod 2 ^ k" "pops s < pushes s"
      using ok p positions_last [of k "sh_heads s"] by (auto simp: shared_ok_def pops_def)
    then show ?thesis
      using ok p by (auto simp: shared_ok_def s')
  qed
qed

lemma store_head_ok:
  assumes ok: "shared_ok k s ps qs" and run: "act StoreHead s = Some (s', r)"
  shows "shared_ok k s' (ps @ pushed r) (qs @ popped r)"
proof -
  from run obtain head x where p: "sh_consumer s = CRead head x"
    and s': "s' = s\<lparr>sh_heads := sh_heads s @ [(head + 1) AND sh_mask s], sh_consumer := CIdle\<rparr>" "r = Popped x"
    by (auto split: consumer.splits)
  have heads: "sh_heads s \<noteq> []" "length (sh_heads s) = Suc (pops s)" "positions k (sh_heads s)"
    using ok by (auto simp: shared_ok_def positions_def pops_def)
  have c: "head = last (sh_heads s)" "pops s < sh_tail_seen s" "x = ps ! pops s" "k < 64" "sh_mask s = 2 ^ k - 1"
    using ok p by (auto simp: shared_ok_def)
  have "unat head = pops s mod 2 ^ k" using positions_last [OF heads(3)] by (simp add: c(1) pops_def)
  then have "unat ((head + 1) AND sh_mask s) = length (sh_heads s) mod 2 ^ k"
    using masked_step [OF c(4)] by (simp add: c(5) heads(2))
  then have "positions k (sh_heads s @ [(head + 1) AND sh_mask s])" by (rule positions_snoc [OF heads(3)])
  moreover have "qs @ [x] = take (Suc (pops s)) ps"
    using ok c by (auto simp: shared_ok_def take_Suc_conv_app_nth)
  ultimately show ?thesis
    using ok c heads(2) by (auto simp: shared_ok_def s' split: producer.splits)
qed

lemma act_ok:
  assumes "shared_ok k s ps qs" "act a s = Some (s', r)"
  shows "shared_ok k s' (ps @ pushed r) (qs @ popped r)"
  using assms store_tail_ok store_head_ok producer_act_ok [OF assms] consumer_act_ok [OF assms]
  by (cases a) blast+

lemma reach_ok:
  assumes "reach (new_shared blank (2 ^ k)) s ps qs" "k < 64"
  shows "shared_ok k s ps qs"
  using assms by (induction rule: reach.induct) (simp_all add: new_shared_ok act_ok)

section \<open>Properties\<close>

text \<open>C32: used by one thread at a time the ring is a FIFO queue bounded by its capacity less one: any series
  of \<open>push\<close> and \<open>pop\<close> calls gives exactly the answers of a plain list of that bound, with the positions
  wrapping around the buffer and around the 64-bit mask arithmetic, for every power of two.\<close>

theorem ring_is_bounded_queue:
  assumes "k < 64"
  shows "\<exists>xs bs r. queue_run push pop cs (new_ring blank (2 ^ k)) = (xs, bs, r) \<and>
    list_run (2 ^ k - 1) cs [] = (xs, bs, ring_content r) \<and> (ring_empty r \<longleftrightarrow> ring_content r = [])"
proof -
  have new: "ring_at k (new_ring blank (2 ^ k)) 0 0"
    using assms by (simp add: ring_at_def new_ring_def unat_mask_pow)
  then have "ring_ok (2 ^ k - 1) (new_ring blank (2 ^ k))" by (auto simp: ring_ok_def)
  from ringq.run_refines [OF this, of cs] obtain xs bs r where
    r: "queue_run push pop cs (new_ring blank (2 ^ k)) = (xs, bs, r)" "ring_ok (2 ^ k - 1) r"
      "list_run (2 ^ k - 1) cs (ring_content (new_ring blank (2 ^ k))) = (xs, bs, ring_content r)"
    by blast
  obtain k' h t where "ring_at k' r h t" using r(2) by (auto simp: ring_ok_def)
  then have "ring_empty r \<longleftrightarrow> ring_content r = []"
    using ring_at_empty [of k' r h t] ring_at_length [of k' r h t] by (auto simp: ring_empty_def ring_at_def)
  then show ?thesis using r ring_at_content [OF new] by simp
qed

theorem ring_is_bounded_queue_witness:
  "\<exists>r. queue_run push pop [Some 5, None, Some 6, Some 7, Some 8, Some 9, None] (new_ring (0::nat) (2 ^ 2)) =
     ([Some 5, Some 6], [True, True, True, True, False], r) \<and> ring_content r = [7, 8]"
  using ring_is_bounded_queue [of 2 "[Some 5, None, Some 6, Some 7, Some 8, Some 9, None]" "0::nat"]
  by auto

text \<open>C4: with two threads, whatever the interleaving and however stale the position a thread reads, what
  has been popped is exactly the first part of what has been pushed, in order: nothing is lost,
  duplicated, reordered or read before it was written. At most the capacity less one are in flight.\<close>

theorem ring_threads_fifo:
  assumes "reach (new_shared blank (2 ^ k)) s ps qs" "k < 64"
  shows "\<exists>rest. ps = qs @ rest \<and> length rest < 2 ^ k"
proof -
  have ok: "shared_ok k s ps qs" by (rule reach_ok [OF assms])
  then have "ps = qs @ drop (pops s) ps" "length (drop (pops s) ps) < 2 ^ k" by (auto simp: shared_ok_def)
  then show ?thesis by blast
qed

text \<open>C21: the two threads never access the same cell of the buffer at once, every access is inside the
  buffer, and each is ordered after the other thread's last access to its cell by the position that
  was acquired: the producer overwrites a cell only when it has seen the pop of the item before, the
  consumer reads a cell only when it has seen its push.\<close>

theorem ring_race_free:
  assumes "reach (new_shared blank (2 ^ k)) s ps qs" "k < 64"
  shows "(case sh_producer s of
       PRoom x tail _ \<Rightarrow> unat tail < length (sh_buf s) \<and>
         (\<forall>n < pushes s. n mod 2 ^ k = unat tail \<longrightarrow> n < sh_head_seen s)
     | _ \<Rightarrow> True) \<and>
    (case sh_consumer s of CSome head \<Rightarrow> unat head < length (sh_buf s) \<and> pops s < sh_tail_seen s | _ \<Rightarrow> True) \<and>
    (case (sh_producer s, sh_consumer s) of (PRoom x tail _, CSome head) \<Rightarrow> tail \<noteq> head | _ \<Rightarrow> True)"
proof -
  have ok: "shared_ok k s ps qs" by (rule reach_ok [OF assms])
  have p: "unat tail = pushes s mod 2 ^ k \<and> Suc (pushes s) < sh_head_seen s + 2 ^ k" if "sh_producer s = PRoom x tail succ" for x tail succ
    using ok that positions_last [of k "sh_tails s"] by (auto simp: shared_ok_def producer_ok_def pushes_def)
  have c: "unat head = pops s mod 2 ^ k \<and> pops s < sh_tail_seen s" if "sh_consumer s = CSome head" for head
    using ok that positions_last [of k "sh_heads s"] by (auto simp: shared_ok_def consumer_ok_def pops_def)
  have bounds: "length (sh_buf s) = 2 ^ k" "sh_head_seen s \<le> pops s" "sh_tail_seen s \<le> pushes s"
    using ok by (auto simp: shared_ok_def)
  have acquired: "n < sh_head_seen s" if "n < pushes s" "n mod 2 ^ k = pushes s mod 2 ^ k" "Suc (pushes s) < sh_head_seen s + 2 ^ k" for n
  proof (rule ccontr)
    assume "\<not> n < sh_head_seen s"
    then have "pushes s - n < 2 ^ k" using that(1,3) by linarith
    then show False using mod_window [of n "pushes s" "2 ^ k"] that by auto
  qed
  have apart: "tail \<noteq> head" if "sh_producer s = PRoom x tail succ" "sh_consumer s = CSome head" for x tail succ head
  proof
    assume "tail = head"
    moreover have "pushes s - pops s < 2 ^ k" "pops s < pushes s" using p [OF that(1)] c [OF that(2)] bounds by linarith+
    ultimately show False using mod_window [of "pops s" "pushes s" "2 ^ k"] p [OF that(1)] c [OF that(2)] by auto
  qed
  show ?thesis
  proof (intro conjI)
    show "case sh_producer s of
       PRoom x tail _ \<Rightarrow> unat tail < length (sh_buf s) \<and>
         (\<forall>n < pushes s. n mod 2 ^ k = unat tail \<longrightarrow> n < sh_head_seen s)
     | _ \<Rightarrow> True"
    proof (cases "sh_producer s")
      case (PRoom x tail succ)
      then show ?thesis using p [OF PRoom] acquired bounds(1) by simp
    qed simp_all
    show "case sh_consumer s of CSome head \<Rightarrow> unat head < length (sh_buf s) \<and> pops s < sh_tail_seen s | _ \<Rightarrow> True"
    proof (cases "sh_consumer s")
      case (CSome head)
      then show ?thesis using c [OF CSome] bounds(1) by simp
    qed simp_all
    show "case (sh_producer s, sh_consumer s) of (PRoom x tail _, CSome head) \<Rightarrow> tail \<noteq> head | _ \<Rightarrow> True"
    proof (cases "sh_producer s")
      case (PRoom x tail succ)
      note here = PRoom
      show ?thesis
      proof (cases "sh_consumer s")
        case (CSome head)
        then show ?thesis using apart [OF here CSome] here by simp
      qed (simp_all add: here)
    qed simp_all
  qed
qed

text \<open>A stale schedule with capacity 4: the consumer pops an item while the producer is between its check and
  its write of the next.\<close>

definition demo_schedule :: "nat action list" where
  "demo_schedule = [PushCall 5, LoadHead 0, WriteCell, StoreTail, PopCall, PushCall 6, LoadTail 1, LoadHead 0]"

fun act_all :: "'a action list \<Rightarrow> 'a shared \<times> 'a list \<times> 'a list \<Rightarrow> ('a shared \<times> 'a list \<times> 'a list) option" where
  "act_all [] st = Some st"
| "act_all (a # as) (s, ps, qs) =
     (case act a s of None \<Rightarrow> None | Some (s', r) \<Rightarrow> act_all as (s', ps @ pushed r, qs @ popped r))"

lemma act_all_reach: "reach s0 s ps qs \<Longrightarrow> act_all as (s, ps, qs) = Some (s', ps', qs') \<Longrightarrow> reach s0 s' ps' qs'"
proof (induction as arbitrary: s ps qs)
  case (Cons a as)
  then show ?case by (auto split: option.splits dest: reach_act)
qed simp

lemma demo_reach:
  assumes "act_all as (new_shared (0::nat) (2 ^ 2), [], []) = Some (s, ps, qs)"
  shows "reach (new_shared (0::nat) (2 ^ 2)) s ps qs"
  by (rule act_all_reach [OF reach_start assms])

theorem ring_threads_fifo_witness:
  "\<exists>s. act_all (demo_schedule @ [ReadCell, StoreHead, WriteCell, StoreTail]) (new_shared 0 (2 ^ 2), [], []) = Some (s, [5, 6], [5]) \<and>
     (\<exists>rest. [5, 6] = [5] @ rest \<and> length rest < 2 ^ 2)"
proof -
  let ?r = "act_all (demo_schedule @ [ReadCell, StoreHead, WriteCell, StoreTail]) (new_shared 0 (2 ^ 2), [], [])"
  have "(case ?r of None \<Rightarrow> False | Some (s, ps, qs) \<Rightarrow> ps = [5, 6] \<and> qs = [5])" by code_simp
  then obtain s where s: "?r = Some (s, [5, 6], [5])" by (cases ?r) auto
  show ?thesis using ring_threads_fifo [OF demo_reach [OF s]] s by simp
qed

theorem ring_race_free_witness:
  "\<exists>s ps qs. act_all demo_schedule (new_shared 0 (2 ^ 2), [], []) = Some (s, ps, qs) \<and>
     sh_producer s = PRoom 6 1 2 \<and> sh_consumer s = CSome 0 \<and> pops s < sh_tail_seen s"
proof -
  let ?r = "act_all demo_schedule (new_shared 0 (2 ^ 2), [], [])"
  have "(case ?r of None \<Rightarrow> False | Some (s, ps, qs) \<Rightarrow> sh_producer s = PRoom 6 1 2 \<and> sh_consumer s = CSome 0)" by code_simp
  then obtain s ps qs where s: "?r = Some (s, ps, qs)" "sh_producer s = PRoom 6 1 2" "sh_consumer s = CSome 0" by (cases ?r) auto
  then show ?thesis using ring_race_free [OF demo_reach [OF s(1)]] by simp
qed

end
