(* ===== verification/Book_Ffi.thy ===== *)
theory Book_Ffi
  imports Book_V2_Main
begin

text \<open>
  The adapter between the Rust sidecar and the order book (\<open>cpp/src/order_book_v2_ffi.cpp\<close>,
  \<open>cpp/include/order_book_v2_ffi.h\<close>): it translates the mirror types the bridge declares
  (\<open>rust/src/ffi.rs\<close>) and passes every call through. The generated glue of the bridge is not modelled;
  an exception of \<open>add\<close> leaves the adapter as it leaves the book.
\<close>

datatype ffi_side = FfiBuy | FfiSell

datatype ffi_order_type = FfiLimit | FfiMarket | FfiCancel

record ffi_order_request =
  ffi_id :: u64
  ffi_req_side :: ffi_side
  ffi_kind :: ffi_order_type
  ffi_price :: int
  ffi_qty :: u64

record ffi_trade =
  ffi_maker_id :: u64
  ffi_taker_id :: u64
  ffi_trade_price :: int
  ffi_trade_qty :: u64

definition to_side :: "ffi_side \<Rightarrow> side" where
  "to_side s = (if s = FfiBuy then Buy else Sell)"

definition to_type :: "ffi_order_type \<Rightarrow> order_type" where
  "to_type t = (case t of FfiMarket \<Rightarrow> Market | FfiCancel \<Rightarrow> Cancel | FfiLimit \<Rightarrow> Limit)"

definition make_order_book :: "u32 \<Rightarrow> int \<Rightarrow> book option" where
  "make_order_book capacity window = new_book capacity window"

definition ffi_native :: "ffi_order_request \<Rightarrow> order_request" where
  "ffi_native req = \<lparr>req_id = ffi_id req, req_side = to_side (ffi_req_side req), req_type = to_type (ffi_kind req),
     req_price = ffi_price req, req_qty = ffi_qty req\<rparr>"

definition ffi_trade_of :: "int trade \<Rightarrow> ffi_trade" where
  "ffi_trade_of t = \<lparr>ffi_maker_id = maker_id t, ffi_taker_id = taker_id t, ffi_trade_price = trade_price t,
     ffi_trade_qty = trade_qty t\<rparr>"

definition ffi_add :: "book \<Rightarrow> ffi_order_request \<Rightarrow> ((book_error + ffi_trade list) \<times> book) option" where
  "ffi_add inner req = do {
     (r, b, trades_scratch) \<leftarrow> book_add inner (ffi_native req);
     case r of Inl e \<Rightarrow> Some (Inl e, b) | Inr _ \<Rightarrow> Some (Inr (map ffi_trade_of trades_scratch), b)
   }"

definition ffi_cancel :: "book \<Rightarrow> u64 \<Rightarrow> (book \<times> bool) option" where
  "ffi_cancel inner i = book_cancel inner i"

definition ffi_reduce :: "book \<Rightarrow> u64 \<Rightarrow> u64 \<Rightarrow> (book \<times> bool) option" where
  "ffi_reduce inner i delta = book_reduce inner i delta"

definition ffi_best_bid :: "book \<Rightarrow> int" where "ffi_best_bid inner = best_bid inner"
definition ffi_best_ask :: "book \<Rightarrow> int" where "ffi_best_ask inner = best_ask inner"
definition ffi_has_bid :: "book \<Rightarrow> bool" where "ffi_has_bid inner = has_bid inner"
definition ffi_has_ask :: "book \<Rightarrow> bool" where "ffi_has_ask inner = has_ask inner"
definition ffi_depth :: "book \<Rightarrow> nat" where "ffi_depth inner = depth inner"

section \<open>Property\<close>

text \<open>C34: what the Rust side sees of an order it submits is what price-time priority says of the order it meant: the
  side and kind of the same name, and the same id, price and quantity. The call returns, the trades are the
  specification's, field by field and in order. Only a limit order can fail, and then the fills it made stand and the
  remainder does not rest.\<close>

theorem ffi_add_refines:
  assumes "wf_book b" "ffi_kind req = FfiLimit \<longrightarrow> \<not> is_resting (ffi_id req) (book_abs b)"
    and meant: "meant =
      \<lparr>req_id = ffi_id req,
       req_side = (case ffi_req_side req of FfiBuy \<Rightarrow> Buy | FfiSell \<Rightarrow> Sell),
       req_type = (case ffi_kind req of FfiLimit \<Rightarrow> Limit | FfiMarket \<Rightarrow> Market | FfiCancel \<Rightarrow> Cancel),
       req_price = ffi_price req, req_qty = ffi_qty req\<rparr>"
  shows "\<exists>r b' us. ffi_add b req = Some (r, b') \<and> wf_book b' \<and>
    (case r of
       Inr ts \<Rightarrow> spec_add_req meant (book_abs b) = (book_abs b', us) \<and> length ts = length us \<and>
         list_all2 (\<lambda>t u. ffi_maker_id t = maker_id u \<and> ffi_taker_id t = taker_id u \<and>
           ffi_trade_price t = trade_price u \<and> ffi_trade_qty t = trade_qty u) ts us
     | Inl _ \<Rightarrow> ffi_kind req = FfiLimit \<and> spec_unrested meant (book_abs b) = (book_abs b', us))"
proof -
  have native: "ffi_native req = meant"
    by (simp add: meant ffi_native_def to_side_def to_type_def split: ffi_side.split ffi_order_type.split)
  have pre: "add_pre meant (book_abs b)"
    using assms(2) by (cases "ffi_kind req") (auto simp: add_pre_def meant may_rest_def)
  have fields: "list_all2 (\<lambda>t u. ffi_maker_id t = maker_id u \<and> ffi_taker_id t = taker_id u \<and>
      ffi_trade_price t = trade_price u \<and> ffi_trade_qty t = trade_qty u) (map ffi_trade_of us) us" for us
    by (simp add: list_all2_map1 ffi_trade_of_def list_all2_refl)
  have kind: "may_rest meant \<Longrightarrow> ffi_kind req = FfiLimit"
    by (cases "ffi_kind req") (simp_all add: meant may_rest_def)
  from add_step [OF assms(1) pre] show ?thesis
    using fields kind by (elim disjE exE conjE) (fastforce simp: ffi_add_def native)+
qed

theorem ffi_add_refines_witness:
  "\<exists>b'. ffi_add demo_book \<lparr>ffi_id = 9, ffi_req_side = FfiBuy, ffi_kind = FfiMarket, ffi_price = 0, ffi_qty = 5\<rparr> =
      Some (Inr [\<lparr>ffi_maker_id = 3, ffi_taker_id = 9, ffi_trade_price = 101, ffi_trade_qty = 4\<rparr>,
                 \<lparr>ffi_maker_id = 4, ffi_taker_id = 9, ffi_trade_price = 101, ffi_trade_qty = 1\<rparr>], b') \<and> wf_book b'"
proof -
  let ?req = "\<lparr>ffi_id = 9, ffi_req_side = FfiBuy, ffi_kind = FfiMarket, ffi_price = 0, ffi_qty = 5\<rparr>"
  obtain r b' where run: "ffi_add demo_book ?req = Some (r, b')" "wf_book b'"
    using ffi_add_refines [OF demo_book_ok(1) _ refl, of ?req] by auto
  have "map_option fst (ffi_add demo_book ?req) =
      Some (Inr [\<lparr>ffi_maker_id = 3, ffi_taker_id = 9, ffi_trade_price = 101, ffi_trade_qty = 4\<rparr>,
                 \<lparr>ffi_maker_id = 4, ffi_taker_id = 9, ffi_trade_price = 101, ffi_trade_qty = 1\<rparr>])"
    by code_simp
  then show ?thesis using run by simp
qed

end
