(* ===== verification/Fuzz_Workload.thy ===== *)
theory Fuzz_Workload
  imports Book_V1 Book_V2
begin

text \<open>
  The differential fuzz harness: the workload generators (\<open>cpp/fuzz/workload.h\<close>) and the drivers of the two
  engines (\<open>cpp/fuzz/fuzz_v1.cpp\<close>, \<open>fuzz_v2.cpp\<close> and their \<open>_rebase\<close> variants). The random engine and the
  standard distributions are one parameter: \<open>dist lo hi g\<close> draws an integer from the state \<open>g\<close> and returns
  the next state. A driver's result is the values of the line it prints; an exception of \<open>add\<close> ends the
  driver. Reading the command line is not modelled.
\<close>

section \<open>Workloads\<close>

datatype op_kind = AddLimit | AddMarket | CancelOp | AddIOC | AddFOK | AddPostOnly

record fuzz_op =
  fo_kind :: op_kind
  fo_id :: u64
  fo_is_buy :: bool
  fo_price :: int
  fo_qty :: u64

type_synonym 'g dist = "int \<Rightarrow> int \<Rightarrow> 'g \<Rightarrow> int \<times> 'g"

definition kind_of_action :: "int \<Rightarrow> op_kind" where
  "kind_of_action action =
     (if action < 65 then AddLimit else if action < 75 then AddMarket else if action < 82 then AddIOC
      else if action < 89 then AddFOK else AddPostOnly)"

definition cancel_op :: "u64 \<Rightarrow> fuzz_op" where
  "cancel_op i = \<lparr>fo_kind = CancelOp, fo_id = i, fo_is_buy = False, fo_price = 0, fo_qty = 0\<rparr>"

fun generate_loop :: "'g dist \<Rightarrow> nat \<Rightarrow> 'g \<Rightarrow> u64 list \<Rightarrow> u64 \<Rightarrow> fuzz_op list" where
  "generate_loop dist 0 g live_ids next_id = []"
| "generate_loop dist (Suc n) g live_ids next_id =
     (let (action, g1) = dist 0 99 g in
      if action < 95 \<or> live_ids = [] then
        (let (side, g2) = dist 0 1 g1;
             (offset, g3) = dist (-50) 50 g2;
             (qty, g4) = dist 1 100 g3
         in \<lparr>fo_kind = kind_of_action action, fo_id = next_id, fo_is_buy = (side \<noteq> 0), fo_price = 10000 + offset,
             fo_qty = word_of_int qty\<rparr> # generate_loop dist n g4 (live_ids @ [next_id]) (next_id + 1))
      else
        (let (idx, g2) = dist 0 (int (length live_ids) - 1) g1; i = nat idx
         in cancel_op (live_ids ! i) # generate_loop dist n g2 (take i live_ids @ drop (Suc i) live_ids) next_id))"

definition generate_ops :: "'g dist \<Rightarrow> 'g \<Rightarrow> nat \<Rightarrow> fuzz_op list" where
  "generate_ops dist rng count = generate_loop dist count rng [] 1"

fun price_walk_loop :: "'g dist \<Rightarrow> nat \<Rightarrow> 'g \<Rightarrow> u64 list \<Rightarrow> u64 \<Rightarrow> int \<Rightarrow> fuzz_op list" where
  "price_walk_loop dist 0 g live_ids next_id mid = []"
| "price_walk_loop dist (Suc n) g live_ids next_id mid0 =
     (let (step, g0) = dist (-5) 5 g;
          mid = (if mid0 + step < 1 then 1 else mid0 + step);
          (action, g1) = dist 0 99 g0 in
      if action < 95 \<or> live_ids = [] then
        (let (side, g2) = dist 0 1 g1;
             (qty, g3) = dist 1 100 g2
         in \<lparr>fo_kind = kind_of_action action, fo_id = next_id, fo_is_buy = (side \<noteq> 0), fo_price = mid,
             fo_qty = word_of_int qty\<rparr> # price_walk_loop dist n g3 (live_ids @ [next_id]) (next_id + 1) mid)
      else
        (let (idx, g2) = dist 0 (int (length live_ids) - 1) g1; i = nat idx
         in cancel_op (live_ids ! i) # price_walk_loop dist n g2 (take i live_ids @ drop (Suc i) live_ids) next_id mid))"

definition generate_ops_price_walk :: "'g dist \<Rightarrow> 'g \<Rightarrow> nat \<Rightarrow> fuzz_op list" where
  "generate_ops_price_walk dist rng count = price_walk_loop dist count rng [] 1 10000"

section \<open>Checksum and totals\<close>

definition checksum_init :: u64 where
  "checksum_init = 1469598103934665603"

definition mix :: "u64 \<Rightarrow> u64 \<Rightarrow> u64" where
  "mix h x = (h XOR x) * 1099511628211"

record totals =
  total_trades :: u64
  total_trade_qty :: u64
  checksum :: u64

definition count_trade :: "totals \<Rightarrow> int trade \<Rightarrow> totals" where
  "count_trade c t =
     \<lparr>total_trades = total_trades c + 1, total_trade_qty = total_trade_qty c + trade_qty t,
      checksum = mix (mix (mix (mix (checksum c) (maker_id t)) (taker_id t)) (word_of_int (trade_price t))) (trade_qty t)\<rparr>"

definition no_totals :: totals where
  "no_totals = \<lparr>total_trades = 0, total_trade_qty = 0, checksum = checksum_init\<rparr>"

record summary = totals +
  sm_depth :: nat
  sm_best_bid :: int
  sm_best_ask :: int

section \<open>Drivers\<close>

definition type_of_kind :: "op_kind \<Rightarrow> order_type" where
  "type_of_kind k =
     (if k = AddLimit then Limit else if k = AddMarket then Market else if k = AddIOC then IOC
      else if k = AddFOK then FOK else PostOnly)"

definition request_of :: "fuzz_op \<Rightarrow> order_request" where
  "request_of p = \<lparr>req_id = fo_id p, req_side = (if fo_is_buy p then Buy else Sell), req_type = type_of_kind (fo_kind p),
     req_price = fo_price p, req_qty = fo_qty p\<rparr>"

definition order_of :: "fuzz_op \<Rightarrow> int order" where
  "order_of p = \<lparr>o_id = fo_id p, o_side = (if fo_is_buy p then Buy else Sell), o_type = type_of_kind (fo_kind p),
     o_price = fo_price p, o_qty = fo_qty p, o_timestamp_ns = 0\<rparr>"

fun drive_v2 :: "fuzz_op list \<Rightarrow> book \<Rightarrow> totals \<Rightarrow> (book_error + book \<times> totals) option" where
  "drive_v2 [] b c = Some (Inr (b, c))"
| "drive_v2 (p # ops) b c =
     (if fo_kind p = CancelOp then do { (b1, _) \<leftarrow> book_cancel b (fo_id p); drive_v2 ops b1 c }
      else do {
        (r, b1, trades) \<leftarrow> book_add b (request_of p);
        case r of Inl e \<Rightarrow> Some (Inl e) | Inr _ \<Rightarrow> drive_v2 ops b1 (foldl count_trade c trades)
      })"

fun drive_v1 :: "fuzz_op list \<Rightarrow> int book1 \<Rightarrow> totals \<Rightarrow> int book1 \<times> totals" where
  "drive_v1 [] b c = (b, c)"
| "drive_v1 (p # ops) b c =
     (if fo_kind p = CancelOp then
        drive_v1 ops (fst (book1_add b \<lparr>o_id = fo_id p, o_side = Buy, o_type = Cancel, o_price = 0, o_qty = 0,
                                        o_timestamp_ns = 0\<rparr>)) c
      else (case book1_add b (order_of p) of (b1, trades) \<Rightarrow> drive_v1 ops b1 (foldl count_trade c trades)))"

definition summary_v2 :: "book \<Rightarrow> totals \<Rightarrow> summary" where
  "summary_v2 b c = totals.extend c \<lparr>sm_depth = depth b, sm_best_bid = best_bid b, sm_best_ask = best_ask b\<rparr>"

definition summary_v1 :: "int book1 \<Rightarrow> totals \<Rightarrow> summary" where
  "summary_v1 b c = totals.extend c \<lparr>sm_depth = depth1 b, sm_best_bid = best_bid1 b, sm_best_ask = best_ask1 b\<rparr>"

definition run_v2 :: "u32 \<Rightarrow> int \<Rightarrow> fuzz_op list \<Rightarrow> (book_error + summary) option" where
  "run_v2 capacity window ops = do {
     b \<leftarrow> new_book capacity window;
     r \<leftarrow> drive_v2 ops b no_totals;
     Some (case r of Inl e \<Rightarrow> Inl e | Inr (b', c) \<Rightarrow> Inr (summary_v2 b' c))
   }"

definition run_v1 :: "fuzz_op list \<Rightarrow> summary" where
  "run_v1 ops = (case drive_v1 ops new_book1 no_totals of (b, c) \<Rightarrow> summary_v1 b c)"

text \<open>The four programs.\<close>

definition fuzz_v1 :: "'g dist \<Rightarrow> 'g \<Rightarrow> nat \<Rightarrow> summary" where
  "fuzz_v1 dist rng count = run_v1 (generate_ops dist rng count)"

definition fuzz_v2 :: "'g dist \<Rightarrow> 'g \<Rightarrow> nat \<Rightarrow> (book_error + summary) option" where
  "fuzz_v2 dist rng count = run_v2 1048576 20000 (generate_ops dist rng count)"

definition fuzz_v1_rebase :: "'g dist \<Rightarrow> 'g \<Rightarrow> nat \<Rightarrow> summary" where
  "fuzz_v1_rebase dist rng count = run_v1 (generate_ops_price_walk dist rng count)"

definition fuzz_v2_rebase :: "'g dist \<Rightarrow> 'g \<Rightarrow> nat \<Rightarrow> (book_error + summary) option" where
  "fuzz_v2_rebase dist rng count = run_v2 1048576 200 (generate_ops_price_walk dist rng count)"

end
