(* ===== verification/Book_V2_Axis.thy ===== *)
theory Book_V2_Axis
  imports Book_V2_Main
begin

text \<open>
  How far the price axis of the array book can move: while all prices lie in a range, the levels lie within one
  initial window around it, so that no \<open>add\<close> asks for more than \<open>kMaxLevels\<close> levels. The drivers of the book
  (the fuzzers, the replay tools) use it to show that they never see the exception.
\<close>

text \<open>The levels lie within one initial window around the prices seen, \<open>lo\<close> to \<open>hi\<close>.\<close>

definition axis_ok :: "int \<Rightarrow> int \<Rightarrow> book \<Rightarrow> bool" where
  "axis_ok lo hi b \<longleftrightarrow> 4 \<le> initial_window b \<and>
     (have_base b \<longrightarrow> lo - initial_window b \<le> base b \<and> base b + int (length (levels b)) \<le> hi + initial_window b)"

lemma axis_shape: "same_shape b b' \<Longrightarrow> axis_ok lo hi b' = axis_ok lo hi b"
  by (simp add: same_shape_def axis_ok_def)

lemma sdiv_window:
  assumes "4 \<le> (w :: int)"
  shows "1 \<le> w sdiv 2" "w sdiv 2 \<le> w - 1" "1 \<le> w sdiv 4" "w sdiv 4 + 1 \<le> w"
  using assms by (simp_all add: signed_divide_int_def sgn_if)

lemma axis_base:
  assumes "axis_ok lo hi b" "lo \<le> p" "p \<le> hi"
  shows "axis_ok lo hi (ensure_base b p)" "have_base (ensure_base b p)"
    "initial_window (ensure_base b p) = initial_window b" "arena_capacity (ensure_base b p) = arena_capacity b"
  using assms sdiv_window [of "initial_window b"] by (auto simp: axis_ok_def ensure_base_def)

lemma axis_needs:
  assumes ax: "axis_ok lo hi b" and p: "lo \<le> p" "p \<le> hi" and room: "hi - lo + 2 * initial_window b \<le> kMaxLevels"
  shows "levels_needed b p \<le> kMaxLevels"
proof -
  note E = axis_base [OF ax p]
  have w: "4 \<le> initial_window b" using ax by (simp add: axis_ok_def)
  have "lo - initial_window b \<le> base (ensure_base b p)"
    "base (ensure_base b p) + int (length (levels (ensure_base b p))) \<le> hi + initial_window b"
    using E(1-3) by (simp_all add: axis_ok_def)
  then show ?thesis
    using E(3) p room sdiv_window [OF w] unfolding levels_needed_def Let_def by auto
qed

lemma axis_ensure:
  assumes ax: "axis_ok lo hi b" and p: "lo \<le> p" "p \<le> hi" and run: "ensure_index_for_price b p = (Inr i, b')"
  shows "axis_ok lo hi b'" "arena_capacity b' = arena_capacity b" "initial_window b' = initial_window b"
proof -
  note E = axis_base [OF ax p]
  have w: "4 \<le> initial_window b" using ax by (simp add: axis_ok_def)
  show "axis_ok lo hi b'" "arena_capacity b' = arena_capacity b" "initial_window b' = initial_window b"
    using run E p sdiv_window [OF w]
    by (auto simp: ensure_index_for_price_def Let_def axis_ok_def shift_levels_def grow_levels_def split: if_splits)
qed

lemma push_back_shape: "push_back_order b i sd t = Some (r, b') \<Longrightarrow> same_shape b b'"
  by (auto simp: push_back_order_def alloc_node_def append_node_def Let_def same_shape_def upd_node_def upd_level_def
      bind_eq_Some_conv split: sum.splits if_splits)

lemma note_best_shape: "same_shape b (note_best sd i b)"
  by (simp add: note_best_def same_shape_def)

lemma rest_axis:
  assumes ax: "axis_ok lo hi b" and p: "lo \<le> req_price t" "req_price t \<le> hi" and run: "rest_taker b t = Some (Inr u, b')"
  shows "axis_ok lo hi b' \<and> arena_capacity b' = arena_capacity b \<and> initial_window b' = initial_window b"
proof -
  obtain i b1 where e: "ensure_index_for_price b (req_price t) = (Inr i, b1)"
    using run by (cases "ensure_index_for_price b (req_price t)"; cases "fst (ensure_index_for_price b (req_price t))")
      (auto simp: rest_taker_def)
  obtain r b2 where q: "push_back_order b1 i (req_side t) t = Some (r, b2)"
      "(case r of Inl e \<Rightarrow> Some (Inl e, b2) | Inr _ \<Rightarrow> Some (Inr (), note_best (req_side t) i b2)) = Some (Inr u, b')"
    using run e by (auto simp: rest_taker_def bind_eq_Some_conv)
  have b': "b' = note_best (req_side t) i b2" using q(2) by (cases r) auto
  have sh: "same_shape b1 b'" using same_shape_trans [OF push_back_shape [OF q(1)] note_best_shape] b' by simp
  then show ?thesis using axis_ensure [OF ax p e] axis_shape [OF sh] by (simp add: same_shape_def)
qed

lemma add_axis:
  assumes wf: "wf_book b" and ax: "axis_ok lo hi b" and p: "lo \<le> req_price t" "req_price t \<le> hi"
    and ty: "req_type t \<noteq> Cancel" and run: "book_add b t = Some (Inr u, b', ts)"
  shows "axis_ok lo hi b' \<and> arena_capacity b' = arena_capacity b \<and> initial_window b' = initial_window b"
proof -
  obtain b1 q' us where m: "match_order b t [] = Some (b1, t\<lparr>req_qty := q'\<rparr>, us)" "same_shape b b1"
    using match_order_ok [of "level_cells b" b t "[]"] wf by (auto simp: wf_book_def)
  have ax1: "axis_ok lo hi b1" "arena_capacity b1 = arena_capacity b" "initial_window b1 = initial_window b"
    using m(2) axis_shape [OF m(2)] ax by (simp_all add: same_shape_def)
  show ?thesis
    using run ty m(1) ax ax1 rest_axis [OF ax p] rest_axis [OF ax1(1), of "t\<lparr>req_qty := q'\<rparr>"] p
    by (auto simp: book_add_def bind_eq_Some_conv split: if_splits)
qed

lemma cancel_axis:
  assumes "wf_book b" "book_cancel b k = Some (b', f)"
  shows "same_shape b b'"
  using book_cancel_ok [of "level_cells b" b k] assms by (auto simp: wf_book_def)

end
