(* ===== verification/Fuzz_Equiv.thy ===== *)
theory Fuzz_Equiv
  imports Fuzz_Workload Book_Equiv Book_V2_Axis
begin

text \<open>
  The differential fuzzers never report a difference: whatever the random draws, the drivers of the two
  engines print the same line, and the array engine never throws, also on the random walk that forces its
  price window to move. The generators keep the books' contract (every id is added once), prices stay in a
  range the axis can hold, and there are never more orders than arena nodes.
\<close>

section \<open>Ids and quantities\<close>

text \<open>After \<open>n\<close> operations at most: every id of the book is below \<open>n\<close>, and it holds 100 shares per id at most.\<close>

definition small_book :: "nat \<Rightarrow> 'p sbook \<Rightarrow> bool" where
  "small_book n s \<longleftrightarrow> (\<forall>k \<in> resting_ids s. 0 < unat k \<and> unat k < n) \<and>
     total_qty (s_bids s) + total_qty (s_asks s) \<le> 100 * n"

lemma total_qty_filter: "total_qty (filter P xs) \<le> total_qty xs"
  by (induction xs) auto

lemma small_mono: "small_book n s \<Longrightarrow> n \<le> m \<Longrightarrow> small_book m s"
  unfolding small_book_def by (meson le_trans mult_le_mono2 order_less_le_trans)

lemma small_cancel: "small_book n s \<Longrightarrow> small_book n (spec_cancel k s)"
  using total_qty_filter [of "\<lambda>x. r_id x \<noteq> k" "s_bids s"] total_qty_filter [of "\<lambda>x. r_id x \<noteq> k" "s_asks s"]
  by (auto simp: small_book_def spec_cancel_def resting_ids_def)

lemma add_total:
  assumes "spec_add i sd ty p q s = (s', ts)" "ty \<noteq> Cancel"
  shows "total_qty (s_bids s') + total_qty (s_asks s') \<le> total_qty (s_bids s) + total_qty (s_asks s) + unat q"
proof (cases "ty = PostOnly")
  case True
  then show ?thesis using assms by (cases sd) (auto simp: spec_add_def spec_rest_def total_qty_insert split: if_splits)
next
  case False
  then show ?thesis using spec_add_conserves [OF assms] by (cases sd; cases "ty = Limit") fastforce+
qed

lemma small_add:
  assumes "small_book n s" "spec_add i sd ty p q s = (s', ts)" "ty \<noteq> Cancel" "unat i = n" "0 < n" "unat q \<le> 100"
  shows "small_book (Suc n) s'"
  using assms(1,4-6) spec_add_ids [OF assms(2)] add_total [OF assms(2,3)] by (fastforce simp: small_book_def)

lemma small_count:
  assumes "small_book n s" "wf_spec s" "0 < n"
  shows "length (s_bids s) + length (s_asks s) < n"
proof -
  have d: "distinct (map r_id (s_bids s @ s_asks s))" using assms(2) by (simp add: wf_spec_def)
  have "length (s_bids s) + length (s_asks s) = card (set (map r_id (s_bids s @ s_asks s)))"
    using distinct_card [OF d] by simp
  also have "\<dots> = card (unat ` resting_ids s)"
    by (subst card_image) (auto simp: inj_on_def resting_ids_def image_Un)
  also have "\<dots> \<le> card {1..<n}"
    using assms(1) by (intro card_mono) (auto simp: small_book_def)
  finally show ?thesis using assms(3) by simp
qed

section \<open>The workloads keep the books' contract\<close>

text \<open>The adds carry the ids \<open>n\<close>, \<open>n + 1\<close>, ... once each, prices from \<open>lo\<close> to \<open>hi\<close>, and at most 100 shares.\<close>

fun ops_ok :: "int \<Rightarrow> int \<Rightarrow> nat \<Rightarrow> fuzz_op list \<Rightarrow> bool" where
  "ops_ok lo hi n [] \<longleftrightarrow> True"
| "ops_ok lo hi n (p # ops) \<longleftrightarrow>
     (if fo_kind p = CancelOp then ops_ok lo hi n ops
      else unat (fo_id p) = n \<and> lo \<le> fo_price p \<and> fo_price p \<le> hi \<and> unat (fo_qty p) \<le> 100 \<and> ops_ok lo hi (Suc n) ops)"

text \<open>What \<open>std::uniform_int_distribution\<close> promises: a draw lies within its bounds.\<close>

definition draws_within :: "'g dist \<Rightarrow> bool" where
  "draws_within dist \<longleftrightarrow> (\<forall>lo hi g. lo \<le> hi \<longrightarrow> lo \<le> fst (dist lo hi g) \<and> fst (dist lo hi g) \<le> hi)"

lemma drawn:
  assumes "draws_within dist" "dist lo hi g = (x, g')" "lo \<le> hi"
  shows "lo \<le> x" "x \<le> hi"
  using assms by (metis draws_within_def fst_conv)+

lemma kind_add [simp]: "kind_of_action a \<noteq> CancelOp"
  by (simp add: kind_of_action_def)

lemma cancel_op_kind [simp]: "fo_kind (cancel_op i) = CancelOp"
  by (simp add: cancel_op_def)

lemma drawn_qty:
  assumes "draws_within dist" "dist 1 100 g = (x, g')"
  shows "unat (word_of_int x :: u64) \<le> 100"
proof -
  have "1 \<le> x" "x \<le> 100" using drawn [OF assms] by simp_all
  then show ?thesis by (simp add: unat_eq_nat_uint uint_word_of_int take_bit_int_eq_self nat_le_iff)
qed

lemma next_id_unat: "unat (i :: u64) = n \<Longrightarrow> n + Suc k \<le> 2 ^ 40 \<Longrightarrow> unat (i + 1) = Suc n"
  by (simp add: unat_word_ariths)

lemma generate_loop_ok:
  assumes dist: "draws_within dist"
  shows "unat next_id = m \<Longrightarrow> m + n \<le> 2 ^ 40 \<Longrightarrow> ops_ok 9950 10050 m (generate_loop dist n g live_ids next_id)"
proof (induction n arbitrary: g live_ids next_id m)
  case (Suc n)
  have nx: "unat (next_id + 1) = Suc m" using next_id_unat [of next_id m n] Suc.prems by simp
  have tl: "ops_ok 9950 10050 (Suc m) (generate_loop dist n g' l (next_id + 1))"
      "ops_ok 9950 10050 m (generate_loop dist n g' l next_id)" for g' l
    using Suc.IH [OF nx] Suc.IH [OF Suc.prems(1)] Suc.prems(2) by simp_all
  obtain a g1 where a: "dist 0 99 g = (a, g1)" by fastforce
  show ?case
  proof (cases "a < 95 \<or> live_ids = []")
    case True
    obtain sd g2 where sd: "dist 0 1 g1 = (sd, g2)" by fastforce
    obtain off g3 where off: "dist (-50) 50 g2 = (off, g3)" by fastforce
    obtain q g4 where q: "dist 1 100 g3 = (q, g4)" by fastforce
    show ?thesis
      using True Suc.prems(1) drawn_qty [OF dist q] drawn [OF dist off] by (simp add: Let_def a sd off q tl(1))
  next
    case False
    obtain i g2 where i: "dist 0 (int (length live_ids) - 1) g1 = (i, g2)" by fastforce
    show ?thesis using False by (simp add: Let_def a i tl(2))
  qed
qed simp

lemma price_walk_loop_ok:
  assumes dist: "draws_within dist"
  shows "unat next_id = m \<Longrightarrow> m + n \<le> 2 ^ 40 \<Longrightarrow> 1 \<le> mid \<Longrightarrow> mid + 5 * int n \<le> hi \<Longrightarrow>
    ops_ok 1 hi m (price_walk_loop dist n g live_ids next_id mid)"
proof (induction n arbitrary: g live_ids next_id m mid)
  case (Suc n)
  have nx: "unat (next_id + 1) = Suc m" using next_id_unat [of next_id m n] Suc.prems by simp
  have tl: "ops_ok 1 hi (Suc m) (price_walk_loop dist n g' l (next_id + 1) mid')"
      "ops_ok 1 hi m (price_walk_loop dist n g' l next_id mid')" if "1 \<le> mid'" "mid' + 5 * int n \<le> hi" for g' l mid'
    using Suc.IH [OF nx] Suc.IH [OF Suc.prems(1)] Suc.prems(2) that by simp_all
  obtain st g0 where st: "dist (-5) 5 g = (st, g0)" by fastforce
  let ?mid = "if mid + st < 1 then 1 else mid + st"
  have mid: "1 \<le> ?mid" "?mid + 5 * int n \<le> hi" using drawn [OF dist st] Suc.prems(3,4) by auto
  have le: "?mid \<le> hi" using mid(2) by linarith
  obtain a g1 where a: "dist 0 99 g0 = (a, g1)" by fastforce
  show ?case
  proof (cases "a < 95 \<or> live_ids = []")
    case True
    obtain sd g2 where sd: "dist 0 1 g1 = (sd, g2)" by fastforce
    obtain q g3 where q: "dist 1 100 g2 = (q, g3)" by fastforce
    show ?thesis using True Suc.prems(1) drawn_qty [OF dist q] mid(1) le by (simp add: Let_def st a sd q tl(1) [OF mid])
  next
    case False
    obtain i g2 where i: "dist 0 (int (length live_ids) - 1) g1 = (i, g2)" by fastforce
    show ?thesis using False by (simp add: Let_def st a i tl(2) [OF mid])
  qed
qed simp

lemma generated_ok:
  assumes "draws_within dist" "count \<le> 2 ^ 20"
  shows "ops_ok 9950 10050 1 (generate_ops dist g count)"
    "ops_ok 1 5252880 1 (generate_ops_price_walk dist g count)"
  using generate_loop_ok [OF assms(1), of 1 1 count] price_walk_loop_ok [OF assms(1), of 1 1 count] assms(2)
  by (simp_all add: generate_ops_def generate_ops_price_walk_def)

lemma generated_length:
  "length (generate_ops dist g count) = count" "length (generate_ops_price_walk dist g count) = count"
proof -
  have "length (generate_loop dist count g l i) = count" for l i
    by (induction count arbitrary: g l i) (auto simp: Let_def split: prod.splits)
  moreover have "length (price_walk_loop dist count g l i m) = count" for l i m
    by (induction count arbitrary: g l i m) (auto simp: Let_def split: prod.splits)
  ultimately show "length (generate_ops dist g count) = count" "length (generate_ops_price_walk dist g count) = count"
    by (simp_all add: generate_ops_def generate_ops_price_walk_def)
qed

section \<open>The two drivers\<close>

lemma request_fields [simp]:
  "req_id (request_of p) = fo_id p" "req_price (request_of p) = fo_price p" "req_qty (request_of p) = fo_qty p"
  "to_order (request_of p) = order_of p"
  by (simp_all add: request_of_def order_of_def to_order_def)

lemma request_type: "fo_kind p \<noteq> CancelOp \<Longrightarrow> req_type (request_of p) \<noteq> Cancel"
  by (simp add: request_of_def type_of_kind_def)

text \<open>Where the two books stand after an operation: they hold the same orders, and the array book has room.\<close>

definition in_step :: "int \<Rightarrow> int \<Rightarrow> u32 \<Rightarrow> nat \<Rightarrow> book \<Rightarrow> int book1 \<Rightarrow> bool" where
  "in_step lo hi capacity n b b1 \<longleftrightarrow> wf_book b \<and> wf_book1 b1 \<and> book1_abs b1 = book_abs b \<and> axis_ok lo hi b \<and>
     arena_capacity b = capacity \<and> hi - lo + 2 * initial_window b \<le> kMaxLevels \<and>
     0 < n \<and> small_book n (book_abs b)"

lemma in_step_depth:
  assumes "in_step lo hi capacity n b b1"
  shows "depth b < n" "depth1 b1 = depth b"
proof -
  have b: "wf_book b" "wf_book1 b1" "book1_abs b1 = book_abs b" "small_book n (book_abs b)" "0 < n"
    using assms by (simp_all add: in_step_def)
  have "wf_spec (book_abs b)" using abs_of_wf [OF b(1) [unfolded wf_book_def]] by (simp add: book_abs_def)
  note count = small_count [OF b(4) this b(5)] and d = depth_abs [OF b(1) [unfolded wf_book_def]]
  show "depth b < n" using count d by (simp flip: book_abs_def)
  show "depth1 b1 = depth b" using d depth1_ok [of b1] b(3) by (simp flip: book_abs_def)
qed

lemma in_step_add:
  assumes st: "in_step lo hi capacity n b b1" and n: "depth b < unat capacity" "n \<le> 2 ^ 40" and kind: "fo_kind p \<noteq> CancelOp"
    and p: "unat (fo_id p) = n" "lo \<le> fo_price p" "fo_price p \<le> hi" "unat (fo_qty p) \<le> 100"
  shows "\<exists>b' b1' ts. book_add b (request_of p) = Some (Inr (), b', ts) \<and> book1_add b1 (order_of p) = (b1', ts) \<and>
    in_step lo hi capacity (Suc n) b' b1'"
proof -
  let ?t = "request_of p"
  have wf: "wf_book b" "wf_book1 b1" "book1_abs b1 = book_abs b" and ax: "axis_ok lo hi b"
    and cap: "arena_capacity b = capacity" and room: "hi - lo + 2 * initial_window b \<le> kMaxLevels"
    and small: "small_book n (book_abs b)" and n0: "0 < n"
    using st by (simp_all add: in_step_def)
  have "int (total_qty (s_side (opposite (req_side ?t)) (book_abs b))) < 2 ^ 64"
    using small n(2) by (cases "req_side ?t") (simp_all add: small_book_def)
  moreover have "\<not> is_resting (fo_id p) (book_abs b)"
    using small p(1) by (auto simp: is_resting_iff small_book_def)
  ultimately have pre: "add_pre ?t (book_abs b)" by (simp add: add_pre_def)
  have "depth b < unat (arena_capacity b)"
    using n(1) cap by simp
  moreover have "levels_needed b (req_price ?t) \<le> kMaxLevels"
    using axis_needs [OF ax _ _ room, of "fo_price p"] p by simp
  ultimately obtain b' ts where add: "book_add b ?t = Some (Inr (), b', ts)" "wf_book b'"
    "spec_add_req ?t (book_abs b) = (book_abs b', ts)"
    using v2_add_no_throw [OF wf(1) pre] by blast
  have "add1_pre (order_of p) (book1_abs b1)"
    using pre wf(3) by (simp add: add_pre_def add1_pre_def may_rest_def request_of_def order_of_def)
  then obtain b1' ts1 where add1: "book1_add b1 (order_of p) = (b1', ts1)" "wf_book1 b1'"
    "spec_add_order (order_of p) (book_abs b) = (book1_abs b1', ts1)"
    using book1_add_ok [OF wf(2)] wf(3) by metis
  have eq: "book1_abs b1' = book_abs b'" "ts1 = ts"
    using add(3) add1(3) by (simp_all add: request_of_def order_of_def)
  have "small_book (Suc n) (book_abs b')"
    using small_add [OF small add(3) request_type [OF kind] _ n0] p by simp
  moreover have "axis_ok lo hi b' \<and> arena_capacity b' = arena_capacity b \<and> initial_window b' = initial_window b"
    by (rule add_axis [OF wf(1) ax _ _ request_type [OF kind] add(1)]) (use p in simp_all)
  ultimately have "in_step lo hi capacity (Suc n) b' b1'"
    using add add1 eq cap room by (simp add: in_step_def)
  then show ?thesis using add add1 eq by blast
qed

lemma in_step_cancel:
  assumes st: "in_step lo hi capacity n b b1"
  shows "\<exists>b' f. book_cancel b k = Some (b', f) \<and>
    in_step lo hi capacity n b' (fst (book1_add b1 \<lparr>o_id = k, o_side = Buy, o_type = Cancel, o_price = 0, o_qty = 0,
      o_timestamp_ns = 0\<rparr>))"
proof -
  let ?x = "\<lparr>o_id = k, o_side = Buy, o_type = Cancel, o_price = 0, o_qty = 0, o_timestamp_ns = 0\<rparr> :: int order"
  have wf: "wf_book b" "wf_book1 b1" "book1_abs b1 = book_abs b" using st by (simp_all add: in_step_def)
  obtain b' where c: "book_cancel b k = Some (b', is_resting k (book_abs b))" "wf_book b'"
    "book_abs b' = spec_cancel k (book_abs b)"
    using cancel_step [OF wf(1), of k] .
  obtain b1' ts where c1: "book1_add b1 ?x = (b1', ts)" "wf_book1 b1'" "spec_add_order ?x (book1_abs b1) = (book1_abs b1', ts)"
    using book1_add_ok [OF wf(2), of ?x] by (auto simp: add1_pre_def)
  have "same_shape b b'" using cancel_axis [OF wf(1) c(1)] .
  then have "in_step lo hi capacity n b' b1'"
    using st c c1 small_cancel [of n "book_abs b" k] axis_shape [of b b']
    by (simp add: in_step_def spec_add_def same_shape_def)
  then show ?thesis using c(1) c1(1) by simp
qed

lemma drivers_in_step:
  assumes "in_step lo hi capacity n b b1" "ops_ok lo hi n ops" "n + length ops \<le> Suc (unat capacity)"
  shows "\<exists>b' b1' c' n'. drive_v2 ops b c = Some (Inr (b', c')) \<and> drive_v1 ops b1 c = (b1', c') \<and>
    in_step lo hi capacity n' b' b1'"
  using assms
proof (induction ops arbitrary: n b b1 c)
  case (Cons p ops)
  show ?case
  proof (cases "fo_kind p = CancelOp")
    case True
    from in_step_cancel [OF Cons.prems(1), of "fo_id p"] obtain b' f where
      "book_cancel b (fo_id p) = Some (b', f)"
      "in_step lo hi capacity n b' (fst (book1_add b1 \<lparr>o_id = fo_id p, o_side = Buy, o_type = Cancel, o_price = 0,
         o_qty = 0, o_timestamp_ns = 0\<rparr>))" by blast
    then show ?thesis using True Cons.IH [of n b'] Cons.prems(2,3) by simp
  next
    case False
    have ops: "unat (fo_id p) = n" "lo \<le> fo_price p" "fo_price p \<le> hi" "unat (fo_qty p) \<le> 100" "ops_ok lo hi (Suc n) ops"
      using Cons.prems(2) False by simp_all
    have "n \<le> 2 ^ 40" using Cons.prems(3) unsigned_less [of capacity, where ?'a = nat] by simp
    from in_step_add [OF Cons.prems(1) _ this False ops(1-4)] in_step_depth(1) [OF Cons.prems(1)] Cons.prems(3) obtain b' b1' ts where
      "book_add b (request_of p) = Some (Inr (), b', ts)" "book1_add b1 (order_of p) = (b1', ts)"
      "in_step lo hi capacity (Suc n) b' b1'" by auto
    then show ?thesis using False Cons.IH [of "Suc n" b' b1'] ops(5) Cons.prems(3) by simp
  qed
qed auto

lemma runs_agree:
  assumes "ops_ok lo hi 1 ops" "length ops \<le> unat capacity" "4 \<le> window" "hi - lo + 2 * window \<le> kMaxLevels"
  shows "run_v2 capacity window ops = Some (Inr (run_v1 ops))"
proof -
  obtain b where b: "new_book capacity window = Some b" "wf_book b" "book_abs b = spec_empty" "arena_capacity b = capacity"
    using new_book_ok [of window capacity] assms(3) by auto
  have "initial_window b = window" "\<not> have_base b"
    using b(1) by (auto simp: new_book_def bind_eq_Some_conv)
  then have "in_step lo hi capacity 1 b new_book1"
    using b assms(3,4) new_book1_wf
    by (simp add: in_step_def axis_ok_def small_book_def resting_ids_def spec_empty_def)
  from drivers_in_step [OF this assms(1)] assms(2) obtain b' b1' c' n' where
    run: "drive_v2 ops b no_totals = Some (Inr (b', c'))" "drive_v1 ops new_book1 no_totals = (b1', c')"
    and st: "in_step lo hi capacity n' b' b1'" by fastforce
  have inv: "book_inv (level_cells b') b'" "wf_book1 b1'" "book1_abs b1' = book_abs b'"
    using st by (simp_all add: in_step_def wf_book_def)
  have "summary_v2 b' c' = summary_v1 b1' c'"
    using best_prices1 [OF inv(2)] depth1_ok [of b1'] best_prices [OF book_invD(4) [OF inv(1)]] depth_abs [OF inv(1)] inv(3)
    by (simp add: summary_v1_def summary_v2_def flip: book_abs_def)
  then show ?thesis using b(1) run by (simp add: run_v1_def run_v2_def)
qed

section \<open>The fuzzers report no difference\<close>

text \<open>C10: whatever the random draws, the array engine never throws and the drivers of the two engines print the
  same trades, traded quantity, checksum, depth and best prices, on the workload around a fixed price and on
  the random walk that keeps moving the price window. For up to \<open>2 ^ 20\<close> operations (the drivers run 20000 by
  default), so that the window cannot outgrow \<open>kMaxLevels\<close>; a draw lies in the range asked for.\<close>

theorem fuzz_drivers_agree:
  assumes "draws_within dist" "count \<le> 2 ^ 20"
  shows "fuzz_v2 dist rng count = Some (Inr (fuzz_v1 dist rng count)) \<and>
    fuzz_v2_rebase dist rng count = Some (Inr (fuzz_v1_rebase dist rng count))"
  using runs_agree [OF generated_ok(1) [OF assms, of rng], of 1048576 20000]
    runs_agree [OF generated_ok(2) [OF assms, of rng], of 1048576 200] assms(2)
  by (simp add: fuzz_v1_def fuzz_v2_def fuzz_v1_rebase_def fuzz_v2_rebase_def generated_length kMaxLevels_def)

text \<open>A small generator to run the harness with.\<close>

definition demo_dist :: "int dist" where
  "demo_dist lo hi g = (lo + (g div 8) mod (hi - lo + 1), (g * 75 + 74) mod 65537)"

lemma demo_dist_within: "draws_within demo_dist"
proof -
  have "lo \<le> lo + (g div 8) mod (hi - lo + 1) \<and> lo + (g div 8) mod (hi - lo + 1) \<le> hi" if "lo \<le> hi" for lo hi g :: int
    using that pos_mod_bound [of "hi - lo + 1" "g div 8"] pos_mod_sign [of "hi - lo + 1" "g div 8"] by linarith
  then show ?thesis by (simp add: draws_within_def demo_dist_def)
qed

theorem fuzz_drivers_agree_witness:
  "fuzz_v2 demo_dist 5 40 = Some (Inr (fuzz_v1 demo_dist 5 40)) \<and>
   fuzz_v2_rebase demo_dist 5 40 = Some (Inr (fuzz_v1_rebase demo_dist 5 40)) \<and>
   total_trades (fuzz_v1 demo_dist 5 40) = 22 \<and> total_trades (fuzz_v1_rebase demo_dist 5 40) = 18"
proof -
  have "total_trades (fuzz_v1 demo_dist 5 40) = 22 \<and> total_trades (fuzz_v1_rebase demo_dist 5 40) = 18" by code_simp
  then show ?thesis using fuzz_drivers_agree [OF demo_dist_within, of 40 5] by simp
qed

end
