(* ===== verification/Lobster_Replay.thy ===== *)
theory Lobster_Replay
  imports Book_V2
begin

text \<open>
  The replay tools (\<open>cpp/tools/replay_lobster.cpp\<close>, \<open>replay_lobster_batched.cpp\<close>): a LOBSTER message file is read
  line by line and its events drive the book. A file is the list of its characters; what the tools print is
  the value they return, without the wall-clock times. \<open>strtod\<close> reads the time column, which no one looks at.
\<close>

section \<open>Reading a line\<close>

text \<open>\<open>std::getline\<close> up to a delimiter, which it removes; it fails at the end of the stream.\<close>

definition getline :: "char \<Rightarrow> string \<Rightarrow> (string \<times> string) option" where
  "getline delim s =
     (if s = [] then None
      else Some (takeWhile (\<lambda>c. c \<noteq> delim) s, drop 1 (dropWhile (\<lambda>c. c \<noteq> delim) s)))"

text \<open>The number at the start of a field, as \<open>strtol\<close> and its relatives read it: white space, a sign, digits.\<close>

definition is_space :: "char \<Rightarrow> bool" where
  "is_space c \<longleftrightarrow> of_char c = (32 :: int) \<or> 9 \<le> (of_char c :: int) \<and> of_char c \<le> (13 :: int)"

definition is_digit :: "char \<Rightarrow> bool" where
  "is_digit c \<longleftrightarrow> 48 \<le> (of_char c :: int) \<and> of_char c \<le> (57 :: int)"

definition digits_value :: "string \<Rightarrow> int" where
  "digits_value = foldl (\<lambda>v c. 10 * v + (of_char c - 48)) 0"

definition signed_digits :: "string \<Rightarrow> bool \<times> int" where
  "signed_digits field =
     (let s = dropWhile is_space field;
          neg = (s \<noteq> [] \<and> hd s = CHR ''-'');
          s' = (if s \<noteq> [] \<and> (hd s = CHR ''-'' \<or> hd s = CHR ''+'') then tl s else s)
      in (neg, digits_value (takeWhile is_digit s')))"

definition strtoull :: "string \<Rightarrow> u64" where
  "strtoull field =
     (case signed_digits field of (neg, m) \<Rightarrow>
        if 18446744073709551616 \<le> m then - 1 else if neg then - word_of_int m else word_of_int m)"

definition strtoll :: "string \<Rightarrow> int" where
  "strtoll field =
     (case signed_digits field of (neg, m) \<Rightarrow>
        let v = (if neg then - m else m) in
        if 9223372036854775808 \<le> v then 9223372036854775807
        else if v < -9223372036854775808 then -9223372036854775808 else v)"

text \<open>\<open>atoi\<close> is \<open>strtol\<close> cut to an \<open>int\<close>.\<close>

definition atoi :: "string \<Rightarrow> int" where
  "atoi field = signed_take_bit 31 (strtoll field)"

record 't lobster_event =
  le_time :: 't
  le_type :: int
  le_order_id :: u64
  le_size :: u64
  le_price :: int
  le_direction :: int

definition parse_line :: "(string \<Rightarrow> 't) \<Rightarrow> string \<Rightarrow> 't lobster_event option" where
  "parse_line strtod line = do {
     (f_time, s1) \<leftarrow> getline CHR '','' line;
     (f_type, s2) \<leftarrow> getline CHR '','' s1;
     (f_id, s3) \<leftarrow> getline CHR '','' s2;
     (f_size, s4) \<leftarrow> getline CHR '','' s3;
     (f_price, s5) \<leftarrow> getline CHR '','' s4;
     (f_dir, _) \<leftarrow> getline CHR '','' s5;
     Some \<lparr>le_time = strtod f_time, le_type = atoi f_type, le_order_id = strtoull f_id, le_size = strtoull f_size,
           le_price = strtoll f_price, le_direction = atoi f_dir\<rparr>
   }"

section \<open>The replay\<close>

record replay =
  rp_type_counts :: "u64 list"
  rp_lines :: u64
  rp_parse_failures :: u64
  rp_engine_trades :: u64
  rp_engine_trade_qty :: u64
  rp_visible_exec_qty :: u64
  rp_hidden_exec_qty :: u64
  rp_violations :: u64
  rp_reduce_misses :: u64
  rp_cancel_misses :: u64

definition new_replay :: replay where
  "new_replay = \<lparr>rp_type_counts = replicate 8 0, rp_lines = 0, rp_parse_failures = 0, rp_engine_trades = 0,
     rp_engine_trade_qty = 0, rp_visible_exec_qty = 0, rp_hidden_exec_qty = 0, rp_violations = 0,
     rp_reduce_misses = 0, rp_cancel_misses = 0\<rparr>"

definition count_line :: "'t lobster_event \<Rightarrow> replay \<Rightarrow> replay" where
  "count_line ev st =
     st\<lparr>rp_lines := rp_lines st + 1,
        rp_type_counts := (let n = nat (le_type ev) in
          if 1 \<le> le_type ev \<and> le_type ev \<le> 7 then (rp_type_counts st)[n := rp_type_counts st ! n + 1]
          else rp_type_counts st)\<rparr>"

definition count_fill :: "replay \<Rightarrow> int trade \<Rightarrow> replay" where
  "count_fill st t = st\<lparr>rp_engine_trades := rp_engine_trades st + 1,
     rp_engine_trade_qty := rp_engine_trade_qty st + trade_qty t\<rparr>"

definition limit_request :: "'t lobster_event \<Rightarrow> order_request" where
  "limit_request ev = \<lparr>req_id = le_order_id ev, req_side = (if le_direction ev = 1 then Buy else Sell), req_type = Limit,
     req_price = le_price ev, req_qty = le_size ev\<rparr>"

definition replay_event :: "'t lobster_event \<Rightarrow> book \<Rightarrow> replay \<Rightarrow> (book_error + book \<times> replay) option" where
  "replay_event ev b st =
     (if le_type ev = 1 then do {
        (r, b1, trades) \<leftarrow> book_add b (limit_request ev);
        Some (case r of Inl e \<Rightarrow> Inl e | Inr _ \<Rightarrow> Inr (b1, foldl count_fill st trades))
      }
      else if le_type ev = 2 then do {
        (b1, found) \<leftarrow> book_reduce b (le_order_id ev) (le_size ev);
        Some (Inr (b1, if found then st else st\<lparr>rp_reduce_misses := rp_reduce_misses st + 1\<rparr>))
      }
      else if le_type ev = 3 then do {
        (b1, found) \<leftarrow> book_cancel b (le_order_id ev);
        Some (Inr (b1, if found then st else st\<lparr>rp_cancel_misses := rp_cancel_misses st + 1\<rparr>))
      }
      else if le_type ev = 4 then do {
        (b1, _) \<leftarrow> book_reduce b (le_order_id ev) (le_size ev);
        Some (Inr (b1, st\<lparr>rp_visible_exec_qty := rp_visible_exec_qty st + le_size ev\<rparr>))
      }
      else if le_type ev = 5 then Some (Inr (b, st\<lparr>rp_hidden_exec_qty := rp_hidden_exec_qty st + le_size ev\<rparr>))
      else Some (Inr (b, st)))"

definition book_crossed :: "book \<Rightarrow> bool" where
  "book_crossed b \<longleftrightarrow> has_bid b \<and> has_ask b \<and> best_ask b \<le> best_bid b"

definition check_crossed :: "book \<Rightarrow> replay \<Rightarrow> replay" where
  "check_crossed b st = (if book_crossed b then st\<lparr>rp_violations := rp_violations st + 1\<rparr> else st)"

lemma getline_shorter: "getline d s = Some (x, s') \<Longrightarrow> length s' < length s"
  using length_dropWhile_le [of "\<lambda>c. c \<noteq> d" s] by (cases s) (auto simp: getline_def less_Suc_eq_le split: if_splits)

function replay_loop :: "(string \<Rightarrow> 't) \<Rightarrow> string \<Rightarrow> book \<Rightarrow> replay \<Rightarrow> (book_error + book \<times> replay) option" where
  "replay_loop strtod file b st =
     (case getline CHR 0x0A file of None \<Rightarrow> Some (Inr (b, st))
      | Some (line, rest) \<Rightarrow>
          if line = [] then replay_loop strtod rest b st
          else (case parse_line strtod line of
             None \<Rightarrow> replay_loop strtod rest b (st\<lparr>rp_parse_failures := rp_parse_failures st + 1\<rparr>)
           | Some ev \<Rightarrow> (case replay_event ev b (count_line ev st) of
                None \<Rightarrow> None
              | Some (Inl e) \<Rightarrow> Some (Inl e)
              | Some (Inr (b1, st1)) \<Rightarrow> replay_loop strtod rest b1 (check_crossed b1 st1))))"
  by pat_completeness auto
termination by (relation "measure (\<lambda>(_, file, _, _). length file)") (auto dest: getline_shorter)

declare replay_loop.simps [simp del]

text \<open>The last lines printed, and the exit code.\<close>

record replay_result =
  rr_counts :: replay
  rr_depth :: nat
  rr_best_bid :: int
  rr_best_ask :: int
  rr_growths :: nat
  rr_exit :: int

definition replay_lobster :: "(string \<Rightarrow> 't) \<Rightarrow> string \<Rightarrow> (book_error + replay_result) option" where
  "replay_lobster strtod file = do {
     b \<leftarrow> new_book 2097152 150000;
     r \<leftarrow> replay_loop strtod file b new_replay;
     Some (case r of Inl e \<Rightarrow> Inl e
       | Inr (b', st) \<Rightarrow> Inr \<lparr>rr_counts = st, rr_depth = depth b', rr_best_bid = best_bid b', rr_best_ask = best_ask b',
           rr_growths = level_array_growths b', rr_exit = (if rp_violations st = 0 then 0 else 1)\<rparr>)
   }"

section \<open>The batched replay\<close>

record batched =
  bc_cum_events :: u64
  bc_batch_events :: u64
  bc_cum_trades :: u64
  bc_cum_trade_qty :: u64
  bc_cum_violations :: u64
  bc_cum_reduce_misses :: u64
  bc_cum_cancel_misses :: u64
  bc_batch_idx :: u64

definition new_batched :: batched where
  "new_batched = \<lparr>bc_cum_events = 0, bc_batch_events = 0, bc_cum_trades = 0, bc_cum_trade_qty = 0,
     bc_cum_violations = 0, bc_cum_reduce_misses = 0, bc_cum_cancel_misses = 0, bc_batch_idx = 0\<rparr>"

record batch_row =
  br_counts :: batched
  br_best_bid :: int
  br_best_ask :: int
  br_depth :: nat

text \<open>\<open>flush_batch\<close> prints the counters as they stand and starts the next batch.\<close>

definition flush_batch :: "book \<Rightarrow> batched \<Rightarrow> batch_row \<times> batched" where
  "flush_batch b c =
     (\<lparr>br_counts = c, br_best_bid = best_bid b, br_best_ask = best_ask b, br_depth = depth b\<rparr>,
      c\<lparr>bc_batch_idx := bc_batch_idx c + 1, bc_batch_events := 0\<rparr>)"

definition batched_fill :: "batched \<Rightarrow> int trade \<Rightarrow> batched" where
  "batched_fill c t = c\<lparr>bc_cum_trades := bc_cum_trades c + 1, bc_cum_trade_qty := bc_cum_trade_qty c + trade_qty t\<rparr>"

definition batched_event :: "'t lobster_event \<Rightarrow> book \<Rightarrow> batched \<Rightarrow> (book_error + book \<times> batched) option" where
  "batched_event ev b c =
     (if le_type ev = 1 then do {
        (r, b1, trades) \<leftarrow> book_add b (limit_request ev);
        Some (case r of Inl e \<Rightarrow> Inl e | Inr _ \<Rightarrow> Inr (b1, foldl batched_fill c trades))
      }
      else if le_type ev = 2 then do {
        (b1, found) \<leftarrow> book_reduce b (le_order_id ev) (le_size ev);
        Some (Inr (b1, if found then c else c\<lparr>bc_cum_reduce_misses := bc_cum_reduce_misses c + 1\<rparr>))
      }
      else if le_type ev = 3 then do {
        (b1, found) \<leftarrow> book_cancel b (le_order_id ev);
        Some (Inr (b1, if found then c else c\<lparr>bc_cum_cancel_misses := bc_cum_cancel_misses c + 1\<rparr>))
      }
      else if le_type ev = 4 then do {
        (b1, _) \<leftarrow> book_reduce b (le_order_id ev) (le_size ev);
        Some (Inr (b1, c))
      }
      else Some (Inr (b, c)))"

definition batched_crossed :: "book \<Rightarrow> batched \<Rightarrow> batched" where
  "batched_crossed b c = (if book_crossed b then c\<lparr>bc_cum_violations := bc_cum_violations c + 1\<rparr> else c)"

text \<open>The result: the rows printed, and whether an exception ended the tool.\<close>

function batched_loop ::
    "(string \<Rightarrow> 't) \<Rightarrow> u64 \<Rightarrow> string \<Rightarrow> book \<Rightarrow> batched \<Rightarrow> batch_row list \<Rightarrow> (batch_row list \<times> (book_error + unit)) option" where
  "batched_loop strtod batch_size file b c rows =
     (case getline CHR 0x0A file of
        None \<Rightarrow> Some (if 0 < bc_batch_events c then rows @ [fst (flush_batch b c)] else rows, Inr ())
      | Some (line, rest) \<Rightarrow>
          if line = [] then batched_loop strtod batch_size rest b c rows
          else (case parse_line strtod line of
             None \<Rightarrow> batched_loop strtod batch_size rest b c rows
           | Some ev \<Rightarrow> (case batched_event ev b (c\<lparr>bc_cum_events := bc_cum_events c + 1,
                                                   bc_batch_events := bc_batch_events c + 1\<rparr>) of
                None \<Rightarrow> None
              | Some (Inl e) \<Rightarrow> Some (rows, Inl e)
              | Some (Inr (b1, c1)) \<Rightarrow>
                  (let c2 = batched_crossed b1 c1 in
                   if batch_size \<le> bc_batch_events c2
                   then (case flush_batch b1 c2 of (row, c3) \<Rightarrow> batched_loop strtod batch_size rest b1 c3 (rows @ [row]))
                   else batched_loop strtod batch_size rest b1 c2 rows))))"
  by pat_completeness auto
termination by (relation "measure (\<lambda>(_, _, file, _, _, _). length file)") (auto dest: getline_shorter)

declare batched_loop.simps [simp del]

definition replay_batched :: "(string \<Rightarrow> 't) \<Rightarrow> u64 \<Rightarrow> string \<Rightarrow> (batch_row list \<times> (book_error + unit)) option" where
  "replay_batched strtod batch_size file = do {
     b \<leftarrow> new_book 2097152 150000;
     batched_loop strtod batch_size file b new_batched []
   }"

end
