(* ===== verification/Lobster_Check.thy ===== *)
theory Lobster_Check
  imports Lobster_Replay Book_V2_Axis
begin

text \<open>
  The replay tools do what their output claims: on a file whose new orders have fresh ids and prices in a range
  the axis can hold, the replay never throws, never sees a crossed book, and its counters are those of the
  abstract book run over the same events; the batched tool prints the same counters, batch by batch.
\<close>

section \<open>The events of a file\<close>

function file_lines :: "string \<Rightarrow> string list" where
  "file_lines file =
     (case getline CHR 0x0A file of None \<Rightarrow> [] | Some (line, rest) \<Rightarrow> line # file_lines rest)"
  by pat_completeness auto
termination by (relation "measure length") (auto dest: getline_shorter)

declare file_lines.simps [simp del]

definition file_events :: "(string \<Rightarrow> 't) \<Rightarrow> string \<Rightarrow> 't lobster_event list" where
  "file_events strtod file = List.map_filter (parse_line strtod) (file_lines file)"

lemma parse_empty [simp]: "parse_line strtod [] = None"
  by (simp add: parse_line_def getline_def)

lemma file_events_step:
  "file_events strtod input =
     (case getline CHR 0x0A input of None \<Rightarrow> []
      | Some (line, rest) \<Rightarrow>
          (case parse_line strtod line of None \<Rightarrow> file_events strtod rest | Some ev \<Rightarrow> ev # file_events strtod rest))"
  unfolding file_events_def by (subst file_lines.simps) (simp add: List.map_filter_simps split: option.splits)

definition is_new :: "'t lobster_event \<Rightarrow> bool" where
  "is_new ev \<longleftrightarrow> le_type ev = 1"

section \<open>The abstract book over the events\<close>

definition spec_event :: "'t lobster_event \<Rightarrow> int sbook \<Rightarrow> int sbook \<times> int trade list" where
  "spec_event ev s =
     (if le_type ev = 1 then spec_add (le_order_id ev) (if le_direction ev = 1 then Buy else Sell) Limit (le_price ev) (le_size ev) s
      else if le_type ev = 2 \<or> le_type ev = 4 then (spec_reduce (le_order_id ev) (le_size ev) s, [])
      else if le_type ev = 3 then (spec_cancel (le_order_id ev) s, [])
      else (s, []))"

fun spec_replay :: "'t lobster_event list \<Rightarrow> int sbook \<Rightarrow> int sbook \<times> int trade list" where
  "spec_replay [] s = (s, [])"
| "spec_replay (ev # evs) s =
     (case spec_event ev s of (s1, ts) \<Rightarrow> (case spec_replay evs s1 of (s2, ts') \<Rightarrow> (s2, ts @ ts')))"

section \<open>One event\<close>

lemma not_crossed:
  assumes "wf_book b"
  shows "\<not> book_crossed b"
proof -
  have inv: "book_inv (level_cells b) b" using assms by (simp add: wf_book_def)
  note ok = book_invD(4) [OF inv]
  have "uncrossed (abs_of (level_cells b) b)" using abs_of_wf [OF inv] by (simp add: wf_spec_def)
  then show ?thesis
    using best_prices [OF ok] abs_empty_iff [OF ok]
    by (cases "s_bids (abs_of (level_cells b) b)"; cases "s_asks (abs_of (level_cells b) b)")
       (auto simp: book_crossed_def has_bid_def has_ask_def uncrossed_def)
qed

lemma fold_fills:
  "rp_engine_trades (foldl count_fill st ts) = rp_engine_trades st + of_nat (length ts)"
  "rp_engine_trade_qty (foldl count_fill st ts) = rp_engine_trade_qty st + of_nat (volume ts)"
  "rp_violations (foldl count_fill st ts) = rp_violations st" "rp_lines (foldl count_fill st ts) = rp_lines st"
  by (induction ts arbitrary: st) (simp_all add: count_fill_def volume_def)

text \<open>The book between two events: orders rest under the ids \<open>seen\<close> only, and every price fits on the axis.\<close>

definition replay_ready :: "int \<Rightarrow> int \<Rightarrow> u64 set \<Rightarrow> book \<Rightarrow> bool" where
  "replay_ready lo hi seen b \<longleftrightarrow> wf_book b \<and> axis_ok lo hi b \<and> arena_capacity b = 2097152 \<and>
     hi - lo + 2 * initial_window b \<le> kMaxLevels \<and> finite seen \<and> resting_ids (book_abs b) \<subseteq> seen"

lemma ready_depth:
  assumes "replay_ready lo hi seen b"
  shows "depth b \<le> card seen"
proof -
  have b: "book_inv (level_cells b) b" "resting_ids (book_abs b) \<subseteq> seen" "finite seen"
    using assms by (simp_all add: replay_ready_def wf_book_def)
  have "depth b = card (resting_ids (book_abs b))"
    unfolding depth_def fm.count_law [OF book_invD(2) [OF b(1)]] book_abs_def abs_ids_dom [OF b(1)] ..
  then show ?thesis using card_mono [OF b(3,2)] by simp
qed

lemma reduce_shape:
  assumes "wf_book b" "book_reduce b k d = Some (b', f)"
  shows "same_shape b b'"
  using book_reduce_ok [of "level_cells b" b k d] assms by (auto simp: wf_book_def)

lemma ready_shape:
  assumes "replay_ready lo hi seen b" "wf_book b'" "same_shape b b'" "resting_ids (book_abs b') \<subseteq> seen"
  shows "replay_ready lo hi seen b'"
  using assms axis_shape [OF assms(3)] by (simp add: replay_ready_def same_shape_def)

lemma ready_add:
  assumes rd: "replay_ready lo hi seen b" and t: "req_type t = Limit" "lo \<le> req_price t" "req_price t \<le> hi"
    and new: "req_id t \<notin> seen" "card seen < 2097152"
  shows "\<exists>b' ts. book_add b t = Some (Inr (), b', ts) \<and> replay_ready lo hi (insert (req_id t) seen) b' \<and>
    spec_add_req t (book_abs b) = (book_abs b', ts)"
proof -
  have b: "wf_book b" "axis_ok lo hi b" "arena_capacity b = 2097152" "hi - lo + 2 * initial_window b \<le> kMaxLevels"
    "resting_ids (book_abs b) \<subseteq> seen"
    using rd by (simp_all add: replay_ready_def)
  have pre: "add_pre t (book_abs b)" using b(5) new(1) t(1) by (auto simp: add_pre_def is_resting_iff)
  have "depth b < unat (arena_capacity b)" using ready_depth [OF rd] new(2) b(3) by simp
  with v2_add_no_throw [OF b(1) pre _ axis_needs [OF b(2) t(2,3) b(4)]] obtain b' ts where
    add: "book_add b t = Some (Inr (), b', ts)" "wf_book b'" "spec_add_req t (book_abs b) = (book_abs b', ts)"
    by blast
  have "replay_ready lo hi (insert (req_id t) seen) b'"
    using add_axis [OF b(1,2) t(2,3) _ add(1)] spec_add_ids [OF add(3)] add(2) t(1) b rd
    by (auto simp: replay_ready_def)
  then show ?thesis using add by blast
qed

text \<open>What an event does to the counters.\<close>

definition counts_trades :: "int trade list \<Rightarrow> replay \<Rightarrow> replay \<Rightarrow> bool" where
  "counts_trades ts st st' \<longleftrightarrow> rp_violations st' = rp_violations st \<and>
     rp_engine_trades st' = rp_engine_trades st + of_nat (length ts) \<and>
     rp_engine_trade_qty st' = rp_engine_trade_qty st + of_nat (volume ts)"

lemma replay_event_ok:
  assumes rd: "replay_ready lo hi seen b"
    and new: "is_new ev \<Longrightarrow> le_order_id ev \<notin> seen \<and> card seen < 2097152 \<and> lo \<le> le_price ev \<and> le_price ev \<le> hi"
  shows "\<exists>b' st' ts. replay_event ev b st = Some (Inr (b', st')) \<and>
    replay_ready lo hi (if is_new ev then insert (le_order_id ev) seen else seen) b' \<and>
    spec_event ev (book_abs b) = (book_abs b', ts) \<and> counts_trades ts st st' \<and> rp_lines st' = rp_lines st"
proof -
  have b: "wf_book b" "book_inv (level_cells b) b" "resting_ids (book_abs b) \<subseteq> seen"
    using rd by (simp_all add: replay_ready_def wf_book_def)
  have red: "\<exists>b'. book_reduce b (le_order_id ev) (le_size ev) = Some (b', is_resting (le_order_id ev) (book_abs b)) \<and>
      replay_ready lo hi seen b' \<and> book_abs b' = spec_reduce (le_order_id ev) (le_size ev) (book_abs b)"
  proof -
    obtain b' where r: "book_reduce b (le_order_id ev) (le_size ev) = Some (b', is_resting (le_order_id ev) (book_abs b))"
      "wf_book b'" "book_abs b' = spec_reduce (le_order_id ev) (le_size ev) (book_abs b)"
      by (rule reduce_step [OF b(1)])
    have "same_shape b b'" by (rule reduce_shape [OF b(1) r(1)])
    then show ?thesis
      using ready_shape [OF rd r(2)] r spec_reduce_ids [of "le_order_id ev" "le_size ev" "book_abs b"] b(3) by auto
  qed
  consider "is_new ev" | "le_type ev = 2 \<or> le_type ev = 4" | "le_type ev = 3" | "\<not> is_new ev" "le_type ev \<notin> {2, 3, 4}"
    by (auto simp: is_new_def)
  then show ?thesis
  proof cases
    case 1
    have "req_type (limit_request ev) = Limit" by (simp add: limit_request_def)
    from ready_add [OF rd this] new [OF 1] obtain b' ts where
      "book_add b (limit_request ev) = Some (Inr (), b', ts)" "replay_ready lo hi (insert (le_order_id ev) seen) b'"
      "spec_add_req (limit_request ev) (book_abs b) = (book_abs b', ts)"
      by (auto simp: limit_request_def)
    then show ?thesis
      using 1 by (auto simp: replay_event_def is_new_def spec_event_def limit_request_def counts_trades_def fold_fills)
  next
    case 2
    from red obtain b' where
      "book_reduce b (le_order_id ev) (le_size ev) = Some (b', is_resting (le_order_id ev) (book_abs b))"
      "replay_ready lo hi seen b'" "book_abs b' = spec_reduce (le_order_id ev) (le_size ev) (book_abs b)" by blast
    then show ?thesis
      using 2 by (auto simp: replay_event_def is_new_def spec_event_def counts_trades_def)
  next
    case 3
    obtain b' where c: "book_cancel b (le_order_id ev) = Some (b', is_resting (le_order_id ev) (book_abs b))"
      "wf_book b'" "book_abs b' = spec_cancel (le_order_id ev) (book_abs b)"
      by (rule cancel_step [OF b(1)])
    have "replay_ready lo hi seen b'"
      using ready_shape [OF rd c(2) cancel_axis [OF b(1) c(1)]] c(3) spec_cancel_ids [of "le_order_id ev" "book_abs b"] b(3)
      by auto
    then show ?thesis
      using 3 c by (auto simp: replay_event_def is_new_def spec_event_def counts_trades_def)
  next
    case 4
    then show ?thesis
      using rd by (auto simp: replay_event_def is_new_def spec_event_def counts_trades_def)
  qed
qed

section \<open>The whole file\<close>

abbreviation new_orders :: "'t lobster_event list \<Rightarrow> 't lobster_event list" where
  "new_orders evs \<equiv> filter is_new evs"

definition events_ok :: "int \<Rightarrow> int \<Rightarrow> u64 set \<Rightarrow> 't lobster_event list \<Rightarrow> bool" where
  "events_ok lo hi seen evs \<longleftrightarrow> distinct (map le_order_id (new_orders evs)) \<and>
     seen \<inter> le_order_id ` set (new_orders evs) = {} \<and> card seen + length (new_orders evs) \<le> 2097152 \<and>
     (\<forall>ev \<in> set (new_orders evs). lo \<le> le_price ev \<and> le_price ev \<le> hi)"

lemma events_ok_step:
  assumes "events_ok lo hi seen (ev # evs)" "finite seen"
  shows "is_new ev \<Longrightarrow> le_order_id ev \<notin> seen \<and> card seen < 2097152 \<and> lo \<le> le_price ev \<and> le_price ev \<le> hi"
    and "events_ok lo hi (if is_new ev then insert (le_order_id ev) seen else seen) evs"
  using assms by (auto simp: events_ok_def)

lemma counts_trades_trans:
  "counts_trades ts st st' \<Longrightarrow> counts_trades ts' st' st'' \<Longrightarrow> counts_trades (ts @ ts') st st''"
  by (simp add: counts_trades_def volume_def)

lemma count_line_keeps:
  "rp_lines (count_line ev st) = rp_lines st + 1"
  "counts_trades ts (count_line ev st) st' = counts_trades ts st st'"
  by (simp_all add: count_line_def counts_trades_def)

lemma replay_loop_ok:
  assumes "replay_ready lo hi seen b" "events_ok lo hi seen (file_events strtod input)"
  shows "\<exists>b' st' ts. replay_loop strtod input b st = Some (Inr (b', st')) \<and> wf_book b' \<and>
    spec_replay (file_events strtod input) (book_abs b) = (book_abs b', ts) \<and> counts_trades ts st st' \<and>
    rp_lines st' = rp_lines st + of_nat (length (file_events strtod input))"
  using assms
proof (induction strtod input b st arbitrary: seen rule: replay_loop.induct)
  case (1 strtod input b st)
  note step = replay_loop.simps [of strtod input b st] file_events_step [of strtod input]
  show ?case
  proof (cases "getline CHR 0x0A input")
    case None
    then show ?thesis using "1.prems"(1) step by (simp add: replay_ready_def counts_trades_def)
  next
    case (Some lr)
    obtain line rest where lr: "lr = (line, rest)" by fastforce
    show ?thesis
    proof (cases "parse_line strtod line")
      case None
      have ev: "file_events strtod input = file_events strtod rest" using step(2) Some lr None by simp
      show ?thesis
      proof (cases "line = []")
        case True
        then show ?thesis using "1.IH"(1) [OF Some lr [symmetric] True "1.prems"(1)] "1.prems"(2) ev step(1) Some lr by simp
      next
        case False
        then show ?thesis
          using "1.IH"(2) [OF Some lr [symmetric] False None "1.prems"(1)] "1.prems"(2) ev step(1) Some lr None
          by (simp add: counts_trades_def)
      qed
    next
      case p: (Some ev)
      then have ne: "line \<noteq> []" by auto
      let ?seen = "if is_new ev then insert (le_order_id ev) seen else seen"
      have ev: "file_events strtod input = ev # file_events strtod rest" using step(2) Some lr p by simp
      have fin: "finite seen" using "1.prems"(1) by (simp add: replay_ready_def)
      note ok = events_ok_step [OF "1.prems"(2) [unfolded ev] fin]
      obtain b1 st1 ts where e: "replay_event ev b (count_line ev st) = Some (Inr (b1, st1))"
        "replay_ready lo hi ?seen b1" "spec_event ev (book_abs b) = (book_abs b1, ts)"
        "counts_trades ts (count_line ev st) st1" "rp_lines st1 = rp_lines (count_line ev st)"
        using replay_event_ok [OF "1.prems"(1) ok(1), of "count_line ev st"] by blast
      have nc: "check_crossed b1 st1 = st1"
        using not_crossed [of b1] e(2) by (simp add: check_crossed_def replay_ready_def)
      obtain b2 st2 ts' where l: "replay_loop strtod rest b1 st1 = Some (Inr (b2, st2))" "wf_book b2"
        "spec_replay (file_events strtod rest) (book_abs b1) = (book_abs b2, ts')" "counts_trades ts' st1 st2"
        "rp_lines st2 = rp_lines st1 + of_nat (length (file_events strtod rest))"
        using "1.IH"(3) [OF Some lr [symmetric] ne p e(1) refl refl e(2) ok(2)] nc by auto
      have "replay_loop strtod input b st = Some (Inr (b2, st2))" using step(1) Some lr ne p e(1) nc l(1) by simp
      moreover have "spec_replay (file_events strtod input) (book_abs b) = (book_abs b2, ts @ ts')"
        using ev e(3) l(3) by simp
      moreover have "counts_trades (ts @ ts') st st2"
        using counts_trades_trans [OF e(4) l(4)] by (simp add: count_line_keeps)
      moreover have "rp_lines st2 = rp_lines st + of_nat (length (file_events strtod input))"
        using l(5) e(5) ev by (simp add: count_line_keeps)
      ultimately show ?thesis using l(2) by blast
    qed
  qed
qed

lemma replay_ok:
  assumes "distinct (map le_order_id (new_orders (file_events strtod input)))"
    and "length (new_orders (file_events strtod input)) \<le> 2097152"
    and "\<forall>ev \<in> set (new_orders (file_events strtod input)). lo \<le> le_price ev \<and> le_price ev \<le> hi"
    and "hi - lo \<le> 16000000"
  obtains b b' st ts where "new_book 2097152 150000 = Some b"
    "replay_loop strtod input b new_replay = Some (Inr (b', st))" "wf_book b'"
    "spec_replay (file_events strtod input) spec_empty = (book_abs b', ts)" "counts_trades ts new_replay st"
    "rp_lines st = of_nat (length (file_events strtod input))"
proof -
  obtain b where b: "new_book 2097152 150000 = Some b" "wf_book b" "book_abs b = spec_empty" "arena_capacity b = 2097152"
    using new_book_ok [of 150000 2097152] by auto
  have "initial_window b = 150000" "\<not> have_base b" using b(1) by (auto simp: new_book_def bind_eq_Some_conv)
  then have "replay_ready lo hi {} b"
    using b assms(4) by (simp add: replay_ready_def axis_ok_def resting_ids_def spec_empty_def kMaxLevels_def)
  moreover have "events_ok lo hi {} (file_events strtod input)" using assms(1-3) by (simp add: events_ok_def)
  ultimately show thesis
    using replay_loop_ok [of lo hi "{}" b strtod input new_replay] b(1,3) that by (auto simp: new_replay_def)
qed

text \<open>C11: on a message file whose new orders carry distinct ids, at most 2 to the 21 of them, with prices within
  16 million ticks of each other, the replay ends without an exception, never counts a crossed book and exits
  with 0; the number of trades, the traded quantity, the depth and the best prices it prints are those of the
  price-time priority book run over the same events.\<close>

theorem replay_never_crossed:
  assumes "distinct (map le_order_id (new_orders (file_events strtod input)))"
    and "length (new_orders (file_events strtod input)) \<le> 2097152"
    and "\<forall>ev \<in> set (new_orders (file_events strtod input)). lo \<le> le_price ev \<and> le_price ev \<le> hi"
    and "hi - lo \<le> 16000000"
  shows "\<exists>r s ts. replay_lobster strtod input = Some (Inr r) \<and>
    spec_replay (file_events strtod input) spec_empty = (s, ts) \<and> rr_exit r = 0 \<and> rp_violations (rr_counts r) = 0 \<and>
    rp_lines (rr_counts r) = of_nat (length (file_events strtod input)) \<and>
    rp_engine_trades (rr_counts r) = of_nat (length ts) \<and> rp_engine_trade_qty (rr_counts r) = of_nat (volume ts) \<and>
    rr_depth r = length (s_bids s) + length (s_asks s) \<and>
    rr_best_bid r = (case s_bids s of [] \<Rightarrow> 0 | x # _ \<Rightarrow> r_price x) \<and>
    rr_best_ask r = (case s_asks s of [] \<Rightarrow> 0 | x # _ \<Rightarrow> r_price x)"
proof -
  obtain b b' st ts where run: "new_book 2097152 150000 = Some b"
    "replay_loop strtod input b new_replay = Some (Inr (b', st))" "wf_book b'"
    "spec_replay (file_events strtod input) spec_empty = (book_abs b', ts)" "counts_trades ts new_replay st"
    "rp_lines st = of_nat (length (file_events strtod input))"
    by (rule replay_ok [OF assms])
  have inv: "book_inv (level_cells b') b'" using run(3) by (simp add: wf_book_def)
  show ?thesis
    using run best_prices [OF book_invD(4) [OF inv]] depth_abs [OF inv]
    by (simp add: replay_lobster_def counts_trades_def new_replay_def flip: book_abs_def)
qed

section \<open>The batched tool\<close>

definition same_counts :: "replay \<Rightarrow> batched \<Rightarrow> bool" where
  "same_counts st c \<longleftrightarrow> bc_cum_events c = rp_lines st \<and> bc_cum_trades c = rp_engine_trades st \<and>
     bc_cum_trade_qty c = rp_engine_trade_qty st \<and> bc_cum_violations c = rp_violations st \<and>
     bc_cum_reduce_misses c = rp_reduce_misses st \<and> bc_cum_cancel_misses c = rp_cancel_misses st"

lemma same_fills:
  "same_counts st c \<Longrightarrow> same_counts (foldl count_fill st ts) (foldl batched_fill c ts) \<and>
     bc_batch_events (foldl batched_fill c ts) = bc_batch_events c \<and>
     bc_cum_events (foldl batched_fill c ts) = bc_cum_events c"
proof (induction ts arbitrary: st c)
  case (Cons t ts)
  have "same_counts (count_fill st t) (batched_fill c t)" "bc_batch_events (batched_fill c t) = bc_batch_events c"
    "bc_cum_events (batched_fill c t) = bc_cum_events c"
    using Cons.prems by (simp_all add: same_counts_def count_fill_def batched_fill_def)
  then show ?case using Cons.IH by simp
qed simp

lemma same_event:
  assumes "same_counts st c" "replay_event ev b st = Some (Inr (b', st'))"
  shows "\<exists>c'. batched_event ev b c = Some (Inr (b', c')) \<and> same_counts st' c' \<and>
    bc_batch_events c' = bc_batch_events c \<and> bc_cum_events c' = bc_cum_events c"
proof -
  consider "le_type ev = 1" | "le_type ev = 2" | "le_type ev = 3" | "le_type ev = 4" | "le_type ev \<notin> {1, 2, 3, 4}" by auto
  then show ?thesis
  proof cases
    case 1
    obtain r b1 ts where a: "book_add b (limit_request ev) = Some (r, b1, ts)"
      using assms(2) 1 by (auto simp: replay_event_def bind_eq_Some_conv)
    show ?thesis
      using a 1 assms(2) same_fills [OF assms(1), of ts] by (cases r) (auto simp: replay_event_def batched_event_def)
  next
    case 2
    obtain b1 f where "book_reduce b (le_order_id ev) (le_size ev) = Some (b1, f)"
      using assms(2) 2 by (auto simp: replay_event_def bind_eq_Some_conv)
    then show ?thesis
      using 2 assms by (cases f) (auto simp: replay_event_def batched_event_def same_counts_def)
  next
    case 3
    obtain b1 f where "book_cancel b (le_order_id ev) = Some (b1, f)"
      using assms(2) 3 by (auto simp: replay_event_def bind_eq_Some_conv)
    then show ?thesis
      using 3 assms by (cases f) (auto simp: replay_event_def batched_event_def same_counts_def)
  next
    case 4
    obtain b1 f where "book_reduce b (le_order_id ev) (le_size ev) = Some (b1, f)"
      using assms(2) 4 by (auto simp: replay_event_def bind_eq_Some_conv)
    then show ?thesis
      using 4 assms by (auto simp: replay_event_def batched_event_def same_counts_def)
  next
    case 5
    then show ?thesis
      using assms by (auto simp: replay_event_def batched_event_def same_counts_def split: if_splits)
  qed
qed

lemma same_crossed:
  assumes "same_counts st c"
  shows "same_counts (check_crossed b st) (batched_crossed b c)"
    "bc_batch_events (batched_crossed b c) = bc_batch_events c"
  using assms by (simp_all add: check_crossed_def batched_crossed_def same_counts_def)

text \<open>The rows printed so far: full batches, whose sizes add up with the open batch, the last one up to date.\<close>

definition row_shows :: "batch_row \<Rightarrow> book \<Rightarrow> replay \<Rightarrow> bool" where
  "row_shows x b st \<longleftrightarrow> same_counts st (br_counts x) \<and> br_best_bid x = best_bid b \<and>
     br_best_ask x = best_ask b \<and> br_depth x = depth b"

abbreviation row_events :: "batch_row \<Rightarrow> u64" where
  "row_events x \<equiv> bc_batch_events (br_counts x)"

definition batches_ok :: "u64 \<Rightarrow> batch_row list \<Rightarrow> book \<Rightarrow> replay \<Rightarrow> batched \<Rightarrow> bool" where
  "batches_ok bsize out b st c \<longleftrightarrow> same_counts st c \<and> (\<forall>x \<in> set out. row_events x = max 1 bsize) \<and>
     bc_batch_events c < max 1 bsize \<and> sum_list (map row_events out) + bc_batch_events c = bc_cum_events c \<and>
     (bc_batch_events c = 0 \<longrightarrow> out = [] \<or> row_shows (last out) b st)"

lemma word_below_inc:
  assumes "a < (m :: u64)"
  shows "a + 1 \<le> m" "a + 1 \<noteq> 0" "1 \<le> a + 1"
proof -
  show "a + 1 \<le> m" by (rule word_inc_bounds(2) [OF assms])
  show "a + 1 \<noteq> 0" using word_inc_bounds(1) [OF assms] by auto
  then show "1 \<le> a + 1" by (simp add: word_le_nat_alt word_inc_bounds(3) [OF assms])
qed

lemma batches_step:
  assumes ok: "batches_ok bsize out b st c"
    and c1: "same_counts st1 c1" "bc_batch_events c1 = bc_batch_events c + 1" "bc_cum_events c1 = bc_cum_events c + 1"
  shows "if bsize \<le> bc_batch_events c1
    then batches_ok bsize (out @ [fst (flush_batch b1 c1)]) b1 st1 (snd (flush_batch b1 c1))
    else batches_ok bsize out b1 st1 c1"
proof -
  have sum: "sum_list (map row_events out) + bc_batch_events c1 = bc_cum_events c1"
  proof -
    have "sum_list (map row_events out) + bc_batch_events c = bc_cum_events c" using ok by (simp add: batches_ok_def)
    then show ?thesis unfolding c1(2,3) by (simp only: add.assoc [symmetric])
  qed
  have lt: "bc_batch_events c < max 1 bsize" using ok by (simp add: batches_ok_def)
  have full: "bc_batch_events c1 = max 1 bsize" if "bsize \<le> bc_batch_events c1"
  proof (rule antisym)
    show "bc_batch_events c1 \<le> max 1 bsize" using word_below_inc(1) [OF lt] by (simp only: c1(2))
    show "max 1 bsize \<le> bc_batch_events c1" using word_below_inc(3) [OF lt] that by (simp only: c1(2) max.bounded_iff)
  qed
  have pos: "(0 :: u64) < max 1 bsize" by (rule less_le_trans [of _ 1]) auto
  have all: "\<forall>x \<in> set out. row_events x = max 1 bsize" using ok by (simp add: batches_ok_def)
  show ?thesis
  proof (cases "bsize \<le> bc_batch_events c1")
    case True
    have "row_shows (fst (flush_batch b1 c1)) b1 st1" "same_counts st1 (snd (flush_batch b1 c1))"
      using c1(1) by (simp_all add: row_shows_def flush_batch_def same_counts_def)
    moreover have "bc_batch_events (snd (flush_batch b1 c1)) = 0" "row_events (fst (flush_batch b1 c1)) = bc_batch_events c1"
      "bc_cum_events (snd (flush_batch b1 c1)) = bc_cum_events c1"
      by (simp_all add: flush_batch_def)
    ultimately show ?thesis using True sum full [OF True] all pos by (simp add: batches_ok_def)
  next
    case False
    have "bc_batch_events c1 < max 1 bsize" using False by (simp add: less_max_iff_disj not_le)
    moreover have "bc_batch_events c1 \<noteq> 0" using word_below_inc(2) [OF lt] c1(2) by simp
    ultimately show ?thesis using False sum c1(1) all by (simp add: batches_ok_def)
  qed
qed

lemma batched_loop_ok:
  assumes "replay_loop strtod input b st = Some (Inr (b', st'))" "batches_ok bsize out b st c"
  shows "\<exists>out' c'. batched_loop strtod bsize input b c out =
      Some (if 0 < bc_batch_events c' then out' @ [fst (flush_batch b' c')] else out', Inr ()) \<and>
    batches_ok bsize out' b' st' c'"
  using assms
proof (induction strtod input b st arbitrary: c out rule: replay_loop.induct)
  case (1 strtod input b st)
  note step = replay_loop.simps [of strtod input b st] batched_loop.simps [of strtod bsize input b c out]
  show ?case
  proof (cases "getline CHR 0x0A input")
    case None
    then show ?thesis using "1.prems" step by fastforce
  next
    case (Some lr)
    obtain line rest where lr: "lr = (line, rest)" by fastforce
    note next_line = step [unfolded Some lr, simplified]
    consider "line = []" | "line \<noteq> []" "parse_line strtod line = None" | (ev) ev where "line \<noteq> []" "parse_line strtod line = Some ev"
      by fastforce
    then show ?thesis
    proof cases
      case 1
      show ?thesis
        using "1.IH"(1) [OF Some lr [symmetric] 1 _ "1.prems"(2)] "1.prems"(1) next_line 1 by simp
    next
      case 2
      have "batches_ok bsize out b (st\<lparr>rp_parse_failures := rp_parse_failures st + 1\<rparr>) c"
        using "1.prems"(2) by (simp add: batches_ok_def same_counts_def row_shows_def)
      from "1.IH"(2) [OF Some lr [symmetric] 2 _ this] show ?thesis using "1.prems"(1) next_line 2 by simp
    next
      case ev
      let ?c = "c\<lparr>bc_cum_events := bc_cum_events c + 1, bc_batch_events := bc_batch_events c + 1\<rparr>"
      obtain b1 st1 where e: "replay_event ev b (count_line ev st) = Some (Inr (b1, st1))"
        "replay_loop strtod rest b1 (check_crossed b1 st1) = Some (Inr (b', st'))"
        using "1.prems"(1) next_line ev by (auto split: option.splits sum.splits)
      have "same_counts (count_line ev st) ?c"
        using "1.prems"(2) by (simp add: batches_ok_def same_counts_def count_line_def)
      from same_event [OF this e(1)] obtain c1 where c1: "batched_event ev b ?c = Some (Inr (b1, c1))"
        "same_counts st1 c1" "bc_batch_events c1 = bc_batch_events c + 1" "bc_cum_events c1 = bc_cum_events c + 1" by auto
      let ?c2 = "batched_crossed b1 c1"
      have cum: "bc_cum_events ?c2 = bc_cum_events c + 1"
        using c1(4) by (simp add: batched_crossed_def)
      have ok: "if bsize \<le> bc_batch_events ?c2
          then batches_ok bsize (out @ [fst (flush_batch b1 ?c2)]) b1 (check_crossed b1 st1) (snd (flush_batch b1 ?c2))
          else batches_ok bsize out b1 (check_crossed b1 st1) ?c2"
        by (rule batches_step [OF "1.prems"(2) same_crossed(1) [OF c1(2)] _ cum])
           (simp add: same_crossed(2) [OF c1(2)] c1(3))
      note IH = "1.IH"(3) [OF Some lr [symmetric] ev e(1) refl refl e(2)]
      show ?thesis
      proof (cases "bsize \<le> bc_batch_events ?c2")
        case True
        have "batched_loop strtod bsize input b c out =
            batched_loop strtod bsize rest b1 (snd (flush_batch b1 ?c2)) (out @ [fst (flush_batch b1 ?c2)])"
          using True by (simp add: next_line(2) ev c1(1) case_prod_beta Let_def)
        moreover have "batches_ok bsize (out @ [fst (flush_batch b1 ?c2)]) b1 (check_crossed b1 st1) (snd (flush_batch b1 ?c2))"
          using ok True by simp
        ultimately show ?thesis using IH by presburger
      next
        case False
        have "batched_loop strtod bsize input b c out = batched_loop strtod bsize rest b1 ?c2 out"
          using False by (simp add: next_line(2) ev c1(1) Let_def)
        moreover have "batches_ok bsize out b1 (check_crossed b1 st1) ?c2" using ok False by simp
        ultimately show ?thesis using IH by presburger
      qed
    qed
  qed
qed

text \<open>C12: the batched tool prints what the plain one counts: its batches add up to the lines processed, all but
  the last hold exactly the batch size (one event when that is 0), and the last row shows the final counters,
  best prices and depth.\<close>

theorem batched_rows_match:
  assumes "replay_lobster strtod input = Some (Inr r)"
  shows "\<exists>out. replay_batched strtod bsize input = Some (out, Inr ()) \<and>
    sum_list (map row_events out) = rp_lines (rr_counts r) \<and>
    list_all (\<lambda>x. row_events x = max 1 bsize) (butlast out) \<and>
    (if out = [] then rp_lines (rr_counts r) = 0
     else row_events (last out) \<le> max 1 bsize \<and> same_counts (rr_counts r) (br_counts (last out)) \<and>
       br_best_bid (last out) = rr_best_bid r \<and> br_best_ask (last out) = rr_best_ask r \<and> br_depth (last out) = rr_depth r)"
proof -
  obtain b y where y: "new_book 2097152 150000 = Some b" "replay_loop strtod input b new_replay = Some y"
    using assms by (auto simp: replay_lobster_def bind_eq_Some_conv)
  obtain b' st where run: "new_book 2097152 150000 = Some b"
    "replay_loop strtod input b new_replay = Some (Inr (b', st))"
    and r: "rr_counts r = st" "rr_best_bid r = best_bid b'" "rr_best_ask r = best_ask b'" "rr_depth r = depth b'"
    using assms y by (cases y) (auto simp: replay_lobster_def)
  have "batches_ok bsize [] b new_replay new_batched"
    by (auto simp: batches_ok_def same_counts_def new_replay_def new_batched_def less_max_iff_disj)
  from batched_loop_ok [OF run(2) this] obtain out c where
    o: "batched_loop strtod bsize input b new_batched [] =
      Some (if 0 < bc_batch_events c then out @ [fst (flush_batch b' c)] else out, Inr ())"
    and ok: "batches_ok bsize out b' st c" by blast
  have all: "list_all (\<lambda>x. row_events x = max 1 bsize) out" "sum_list (map row_events out) + bc_batch_events c = rp_lines st"
    "same_counts st c" "bc_batch_events c \<le> max 1 bsize"
    using ok by (auto simp: batches_ok_def same_counts_def list_all_iff)
  show ?thesis
  proof (cases "0 < bc_batch_events c")
    case True
    then show ?thesis
      using o run(1) r all by (intro exI [of _ "out @ [fst (flush_batch b' c)]"])
        (simp add: replay_batched_def flush_batch_def)
  next
    case False
    then have z: "bc_batch_events c = 0" by (simp add: word_neq_0_conv [symmetric])
    have "list_all (\<lambda>x. row_events x = max 1 bsize) (butlast out)" using all(1) by (auto simp: list_all_iff dest: in_set_butlastD)
    then show ?thesis
      using o run(1) r all ok z by (intro exI [of _ out]) (auto simp: replay_batched_def batches_ok_def row_shows_def)
  qed
qed

section \<open>A message file\<close>

definition demo_file :: string where
  "demo_file = concat (map (\<lambda>l. l @ [CHR 0x0A])
     [''34200.1,1,11,100,5853300,1'', ''34200.2,1,12,50,5853500,-1'', [], ''34200.3,2,11,30,5853300,1'', ''broken,1,9'',
      ''34200.4,1,13,60,5853600,1'', ''34200.5,4,12,50,5853500,-1'', ''34200.6,3,11,70,5853300,1'', ''34200.7,7,0,0,-1,-1''])"

lemma demo_file_lines: "length (file_events (\<lambda>_. ()) demo_file) = 7"
  by code_simp

lemma demo_file_ok:
  "distinct (map le_order_id (new_orders (file_events (\<lambda>_. ()) demo_file)))"
  "length (new_orders (file_events (\<lambda>_. ()) demo_file)) \<le> 2097152"
  "\<forall>ev \<in> set (new_orders (file_events (\<lambda>_. ()) demo_file)). 5853300 \<le> le_price ev \<and> le_price ev \<le> 5853600"
  "(5853600 :: int) - 5853300 \<le> 16000000"
proof -
  let ?evs = "file_events (\<lambda>_. ()) demo_file"
  show "distinct (map le_order_id (new_orders ?evs))" by code_simp
  show "length (new_orders ?evs) \<le> 2097152" using length_filter_le [of is_new ?evs] demo_file_lines by simp
  show "\<forall>ev \<in> set (new_orders ?evs). 5853300 \<le> le_price ev \<and> le_price ev \<le> 5853600" by code_simp
qed simp

theorem replay_never_crossed_witness:
  "\<exists>r. replay_lobster (\<lambda>_. ()) demo_file = Some (Inr r) \<and> rr_exit r = 0 \<and> rp_lines (rr_counts r) = 7 \<and>
    rp_engine_trades (rr_counts r) = 1 \<and> rp_engine_trade_qty (rr_counts r) = 50 \<and> rr_depth r = 1 \<and>
    rr_best_bid r = 5853600"
proof -
  have "spec_replay (file_events (\<lambda>_. ()) demo_file) spec_empty = (\<lparr>s_bids = [Resting 13 5853600 10], s_asks = []\<rparr>,
     [\<lparr>maker_id = 12, taker_id = 13, trade_price = 5853500, trade_qty = 50\<rparr>])" by code_simp
  then show ?thesis using replay_never_crossed [OF demo_file_ok] demo_file_lines by (auto simp: volume_def)
qed

theorem batched_rows_match_witness:
  "\<exists>out. replay_batched (\<lambda>_. ()) 3 demo_file = Some (out, Inr ()) \<and> sum_list (map row_events out) = 7"
proof -
  obtain b b' st ts where run: "new_book 2097152 150000 = Some b"
    "replay_loop (\<lambda>_. ()) demo_file b new_replay = Some (Inr (b', st))" "wf_book b'"
    "spec_replay (file_events (\<lambda>_. ()) demo_file) spec_empty = (book_abs b', ts)" "counts_trades ts new_replay st"
    "rp_lines st = of_nat (length (file_events (\<lambda>_. ()) demo_file))"
    by (rule replay_ok [OF demo_file_ok])
  obtain r where "replay_lobster (\<lambda>_. ()) demo_file = Some (Inr r)" "rr_counts r = st"
    using run(1,2) by (simp add: replay_lobster_def)
  from batched_rows_match [OF this(1), of 3] this(2) run(6) demo_file_lines show ?thesis by auto
qed

end
