(* ===== verification/Book_V2_Safety.thy ===== *)
theory Book_V2_Safety
  imports Book_V2_Main
begin

text \<open>
  Memory safety of \<open>OrderBookV2\<close>: the class links orders by 32-bit arena indices and addresses levels by
  offsets from a base price, and no access is checked. Whatever is called on a book, every index it keeps
  points into its vector, and at a node that is in use.
\<close>

section \<open>Indices in range\<close>

definition node_in_use :: "book \<Rightarrow> u32 \<Rightarrow> bool" where
  "node_in_use b n \<longleftrightarrow> unat n < length (arena b) \<and> n < arena_bump b \<and> n \<notin> set (free_list b)"

definition link_ok :: "book \<Rightarrow> u32 \<Rightarrow> bool" where
  "link_ok b n \<longleftrightarrow> n = kNil \<or> node_in_use b n"

definition best_idx_ok :: "book \<Rightarrow> int \<Rightarrow> bool" where
  "best_idx_ok b i \<longleftrightarrow> i = -1 \<or> 0 \<le> i \<and> nat i < length (levels b) \<and> l_head (levels b ! nat i) \<noteq> kNil"

text \<open>An entry of the id index: its level exists and is not empty, its node holds the id.\<close>

definition entry_in_range :: "book \<Rightarrow> u64 \<Rightarrow> index_entry \<Rightarrow> bool" where
  "entry_in_range b k e \<longleftrightarrow>
     0 \<le> ix_level e \<and> nat (ix_level e) < length (levels b) \<and> l_head (levels b ! nat (ix_level e)) \<noteq> kNil \<and>
     node_in_use b (ix_node e) \<and> n_id (arena b ! unat (ix_node e)) = k \<and>
     link_ok b (n_prev (arena b ! unat (ix_node e))) \<and> link_ok b (n_next (arena b ! unat (ix_node e)))"

definition indices_in_range :: "book \<Rightarrow> bool" where
  "indices_in_range b \<longleftrightarrow>
     length (arena b) = unat (arena_capacity b) \<and> arena_bump b \<le> arena_capacity b \<and>
     list_all (\<lambda>n. n < arena_bump b) (free_list b) \<and> distinct (free_list b) \<and>
     list_all (\<lambda>l. (l_head l = kNil \<longleftrightarrow> l_tail l = kNil) \<and> link_ok b (l_head l) \<and> link_ok b (l_tail l)) (levels b) \<and>
     best_idx_ok b (best_bid_idx b) \<and> best_idx_ok b (best_ask_idx b) \<and>
     (\<forall>k e. fhm_map (index b) k = Some e \<longrightarrow> entry_in_range b k e)"

lemma chain_node:
  "chain ar p cs e \<Longrightarrow> c \<in> set cs \<Longrightarrow>
     unat (c_node c) < length ar \<and> n_id (ar ! unat (c_node c)) = c_id c \<and>
     n_prev (ar ! unat (c_node c)) \<in> insert p (nodes cs) \<and> n_next (ar ! unat (c_node c)) \<in> insert e (nodes cs)"
proof (induction cs arbitrary: p)
  case (Cons d cs)
  then show ?case using first_node_in [of cs e] by (cases "c = d"; cases "cs = []") auto
qed simp

lemma node_in_useI:
  assumes "mem_inv C b" "i < length (levels b)" "n \<in> nodes (C i)"
  shows "node_in_use b n"
  using chain_less [OF mem_inv_level(1) [OF assms(1,2)] assms(3)] mem_inv_node_bump [OF assms]
    mem_inv_disjoint(1) [OF assms(1,2)] assms(3)
  by (auto simp: node_in_use_def)

lemma level_links:
  assumes "mem_inv C b" "i < length (levels b)"
  shows "l_head (levels b ! i) = kNil \<longleftrightarrow> C i = []" "l_tail (levels b ! i) = kNil \<longleftrightarrow> C i = []"
    "link_ok b (l_head (levels b ! i))" "link_ok b (l_tail (levels b ! i))"
proof -
  note use = node_in_useI [OF assms]
  have nil: "kNil \<notin> nodes (C i)" by (rule mem_inv_node_not_nil [OF assms])
  show "l_head (levels b ! i) = kNil \<longleftrightarrow> C i = []" by (rule mem_inv_head [OF assms])
  show "l_tail (levels b ! i) = kNil \<longleftrightarrow> C i = []"
    using nil last_node_in [of "C i" kNil] by (cases "C i = []") (auto simp: mem_inv_level(2) [OF assms] empty_level_def)
  have "l_head (levels b ! i) \<in> insert kNil (nodes (C i))" "l_tail (levels b ! i) \<in> insert kNil (nodes (C i))"
    unfolding mem_inv_level(2) [OF assms]
    using first_node_in [of "C i" kNil] last_node_in [of "C i" kNil] by (cases "C i = []"; simp add: empty_level_def)+
  then show "link_ok b (l_head (levels b ! i))" "link_ok b (l_tail (levels b ! i))"
    using use unfolding link_ok_def by blast+
qed

lemma wf_book_indices:
  assumes "wf_book b"
  shows "indices_in_range b"
proof -
  define C where "C = level_cells b"
  note inv = book_invD [OF assms [unfolded wf_book_def, folded C_def]]
  note links = level_links [OF inv(1)] and best = best_okD [OF inv(4)]
  have best_idx: "best_idx_ok b i"
    if "-1 \<le> i" "i < int (length (levels b))" "0 \<le> i \<Longrightarrow> C (nat i) \<noteq> []" for i
    using that links(1) [of "nat i"] by (cases "i = -1") (auto simp: best_idx_ok_def)
  have "entry_in_range b k e" if e: "fhm_map (index b) k = Some e" for k e
  proof -
    obtain i c where c: "c \<in> set (C i)" "c_id c = k" "e = entry_for (best_bid_idx b) i c"
      by (rule index_find [OF inv(3) e])
    have i: "i < length (levels b)" using c(1) mem_inv_beyond [OF inv(1), of i] by (cases "i < length (levels b)") auto
    note node = chain_node [OF mem_inv_level(1) [OF inv(1) i] c(1)] and use = node_in_useI [OF inv(1) i]
    show ?thesis
      using node use c i links(1) [OF i] by (auto simp: entry_in_range_def entry_for_def link_ok_def)
  qed
  moreover have "list_all (\<lambda>n. n < arena_bump b) (free_list b)"
    using mem_inv_arena(4) [OF inv(1)] by (auto simp: list_all_iff)
  moreover have "list_all (\<lambda>l. (l_head l = kNil \<longleftrightarrow> l_tail l = kNil) \<and> link_ok b (l_head l) \<and> link_ok b (l_tail l)) (levels b)"
    using links by (simp add: list_all_length)
  ultimately show ?thesis
    using mem_inv_arena [OF inv(1)] best_idx [OF best(1,2,5)] best_idx [OF best(3,4,7)]
    by (simp add: indices_in_range_def)
qed

section \<open>Properties\<close>

text \<open>C9: memory safety of the arena engine: along every sequence of add, cancel and reduce calls, throwing ones
  included, all indices stay in range. The arena has its capacity; the free list names nodes handed out, each
  once; a level's head and tail are both nil or both nodes in use; the best-price indices are -1 or name a level
  that holds an order; an id's index entry names a level that holds an order and a node in use that carries
  this id, with its links nil or in use.\<close>

theorem v2_indices_in_range:
  assumes "wf_book b" "run_pre b ops"
  shows "\<exists>rs b'. book_run b ops = Some (rs, b') \<and> indices_in_range b'"
  using book_run_ok [OF assms] wf_book_indices by blast

theorem v2_indices_in_range_witness:
  "\<exists>rs b'. book_run demo_book [OpCancel 3, OpAdd (order 9 Buy Limit 150 30), OpReduce 9 1] = Some (rs, b') \<and> indices_in_range b'"
proof (rule v2_indices_in_range [OF demo_book_ok(1)])
  show "run_pre demo_book [OpCancel 3, OpAdd (order 9 Buy Limit 150 30), OpReduce 9 1]" by code_simp
qed

end
