(* ===== verification/Os_Sockets.thy ===== *)
theory Os_Sockets
  imports Bytes "HOL-Library.State_Monad" "HOL-Library.Monad_Syntax"
begin

text \<open>
  The operating system behind the sockets of \<open>cpp/feed/tcp_socket.h\<close> and \<open>udp_multicast.h\<close>: the calls a
  program has made with their results, and a system that answers each call given all before it. The system is
  a parameter; all that is assumed of it is that a descriptor it hands out is not open already. A function
  that opens a socket is a state-monad program over the log; an exception is its \<open>Inl\<close> result.
\<close>

section \<open>Calls and descriptors\<close>

datatype socket_option = ReuseAddr | MulticastLoop | MulticastIf | AddMembership

datatype syscall =
    SysSocket bool
  | SysSetsockopt int socket_option
  | SysBind int u16
  | SysListen int nat
  | SysAccept int
  | SysConnect int string u16
  | SysPton string
  | SysClose int

type_synonym os_log = "(syscall \<times> int) list"
type_synonym os = "os_log \<Rightarrow> syscall \<Rightarrow> int"

datatype socket_error =
    SocketFailed | BindFailed | ListenFailed | AcceptFailed | BadAddress | ConnectFailed | MembershipFailed
  | SendFailed | PeerClosed nat

definition sys :: "os \<Rightarrow> syscall \<Rightarrow> (os_log, int) state" where
  "sys os c = State (\<lambda>log. (os log c, log @ [(c, os log c)]))"

text \<open>The open descriptors after a call, and the descriptor a call is made on.\<close>

definition after_call :: "syscall \<times> int \<Rightarrow> int set \<Rightarrow> int set" where
  "after_call cr fds =
     (case cr of
        (SysSocket _, r) \<Rightarrow> if 0 \<le> r then insert r fds else fds
      | (SysAccept _, r) \<Rightarrow> if 0 \<le> r then insert r fds else fds
      | (SysClose fd, _) \<Rightarrow> fds - {fd}
      | _ \<Rightarrow> fds)"

definition open_fds :: "os_log \<Rightarrow> int set" where
  "open_fds log = fold after_call log {}"

definition uses_open :: "syscall \<Rightarrow> int set \<Rightarrow> bool" where
  "uses_open c fds =
     (case c of
        SysSocket _ \<Rightarrow> True | SysPton _ \<Rightarrow> True | SysSetsockopt fd _ \<Rightarrow> fd \<in> fds | SysBind fd _ \<Rightarrow> fd \<in> fds
      | SysListen fd _ \<Rightarrow> fd \<in> fds | SysAccept fd \<Rightarrow> fd \<in> fds | SysConnect fd _ _ \<Rightarrow> fd \<in> fds | SysClose fd \<Rightarrow> fd \<in> fds)"

text \<open>Every call of the log was made on a descriptor open at that time.\<close>

fun calls_ok :: "os_log \<Rightarrow> int set \<Rightarrow> bool" where
  "calls_ok [] fds \<longleftrightarrow> True"
| "calls_ok (cr # log) fds \<longleftrightarrow> uses_open (fst cr) fds \<and> calls_ok log (after_call cr fds)"

definition well_used :: "os_log \<Rightarrow> bool" where
  "well_used log \<longleftrightarrow> calls_ok log {}"

text \<open>A new descriptor is the lowest one not open, so in particular it is not open.\<close>

definition fresh_descriptors :: "os \<Rightarrow> bool" where
  "fresh_descriptors os \<longleftrightarrow>
     (\<forall>log c. (case c of SysSocket _ \<Rightarrow> True | SysAccept _ \<Rightarrow> True | _ \<Rightarrow> False) \<longrightarrow> os log c \<notin> open_fds log)"

section \<open>Descriptors held\<close>

text \<open>\<open>~TcpSocket\<close> and \<open>~UdpSocket\<close>; an exception that leaves a constructor runs the base's destructor.\<close>

definition destroy :: "os \<Rightarrow> int \<Rightarrow> (os_log, unit) state" where
  "destroy os fd = (if 0 \<le> fd then do { _ \<leftarrow> sys os (SysClose fd); State_Monad.return () } else State_Monad.return ())"

definition unwind :: "os \<Rightarrow> int \<Rightarrow> socket_error \<Rightarrow> (os_log, socket_error + int) state" where
  "unwind os fd e = do { destroy os fd; State_Monad.return (Inl e) }"

text \<open>What a function that opens a descriptor does to the log: on an exception nothing stays open, otherwise
  exactly the descriptor returned, and no call is made on a closed one.\<close>

definition opens :: "os_log \<Rightarrow> (os_log, socket_error + int) state \<Rightarrow> bool" where
  "opens log f \<longleftrightarrow>
     (case run_state f log of (res, log') \<Rightarrow> well_used log' \<and>
        (case res of Inl e \<Rightarrow> open_fds log' = open_fds log
         | Inr fd \<Rightarrow> 0 \<le> fd \<and> fd \<notin> open_fds log \<and> open_fds log' = insert fd (open_fds log)))"

lemma calls_ok_append: "calls_ok (xs @ ys) fds \<longleftrightarrow> calls_ok xs fds \<and> calls_ok ys (fold after_call xs fds)"
  by (induction xs arbitrary: fds) simp_all

lemma log_simps:
  "open_fds (log @ xs) = fold after_call xs (open_fds log)"
  "well_used (log @ xs) \<longleftrightarrow> well_used log \<and> calls_ok xs (open_fds log)"
  by (simp_all add: open_fds_def well_used_def calls_ok_append)

lemma run_sys [simp]: "run_state (sys os c) log = (os log c, log @ [(c, os log c)])"
  by (simp add: sys_def)

lemma run_bind [simp]: "run_state (f \<bind> g) log = (case run_state f log of (x, log') \<Rightarrow> run_state (g x) log')"
  by (simp add: State_Monad.bind_def)

lemma run_return [simp]: "run_state (State_Monad.return x) log = (x, log)"
  by (simp add: State_Monad.return_def)

lemma fresh_answers:
  assumes "fresh_descriptors os"
  shows "os log (SysSocket k) \<notin> open_fds log" "os log (SysAccept l) \<notin> open_fds log"
  using assms by (simp_all add: fresh_descriptors_def)

lemmas socket_simps = opens_def log_simps uses_open_def after_call_def unwind_def destroy_def

end
