(* ===== verification/Tcp_Socket.thy ===== *)
theory Tcp_Socket
  imports Os_Sockets
begin

text \<open>
  The TCP sockets of \<open>cpp/feed/tcp_socket.h\<close>: who closes a descriptor, and the loops that make whole buffers
  of the short reads and writes of a stream. Addresses are strings; \<open>inet_pton\<close>'s result decides whether one
  is well formed. \<open>send\<close> and \<open>recv\<close> are parameters with a state of their own.
\<close>

section \<open>Descriptors\<close>

definition tcp_listener :: "os \<Rightarrow> u16 \<Rightarrow> (os_log, socket_error + int) state" where
  "tcp_listener os port = do {
     fd \<leftarrow> sys os (SysSocket True);
     if fd < 0 then State_Monad.return (Inl SocketFailed)
     else do {
       _ \<leftarrow> sys os (SysSetsockopt fd ReuseAddr);
       r \<leftarrow> sys os (SysBind fd port);
       if r < 0 then unwind os fd BindFailed
       else do {
         r' \<leftarrow> sys os (SysListen fd 4);
         if r' < 0 then unwind os fd ListenFailed else State_Monad.return (Inr fd)
       }
     }
   }"

definition accept_one :: "os \<Rightarrow> int \<Rightarrow> (os_log, socket_error + int) state" where
  "accept_one os fd = do {
     cfd \<leftarrow> sys os (SysAccept fd);
     if cfd < 0 then State_Monad.return (Inl AcceptFailed) else State_Monad.return (Inr cfd)
   }"

definition tcp_connect :: "os \<Rightarrow> string \<Rightarrow> u16 \<Rightarrow> (os_log, socket_error + int) state" where
  "tcp_connect os ip port = do {
     fd \<leftarrow> sys os (SysSocket True);
     if fd < 0 then State_Monad.return (Inl SocketFailed)
     else do {
       r \<leftarrow> sys os (SysPton ip);
       if r \<noteq> 1 then do { _ \<leftarrow> sys os (SysClose fd); State_Monad.return (Inl BadAddress) }
       else do {
         r' \<leftarrow> sys os (SysConnect fd ip port);
         if r' < 0 then do { _ \<leftarrow> sys os (SysClose fd); State_Monad.return (Inl ConnectFailed) }
         else State_Monad.return (Inr fd)
       }
     }
   }"

text \<open>Moving: the new holder's descriptor and what is left in the old one. Assignment closes its own first.\<close>

definition move_construct :: "int \<Rightarrow> int \<times> int" where
  "move_construct fd = (fd, - 1)"

definition move_assign :: "os \<Rightarrow> bool \<Rightarrow> int \<Rightarrow> int \<Rightarrow> (os_log, int \<times> int) state" where
  "move_assign os same fd fd' =
     (if same then State_Monad.return (fd, fd')
      else do { destroy os fd; State_Monad.return (fd', - 1) })"

lemma tcp_listener_opens:
  assumes "fresh_descriptors os" "well_used log"
  shows "opens log (tcp_listener os port)"
  using fresh_answers [OF assms(1), of log] assms(2) by (auto simp: tcp_listener_def socket_simps)

lemma tcp_connect_opens:
  assumes "fresh_descriptors os" "well_used log"
  shows "opens log (tcp_connect os ip port)"
  using fresh_answers [OF assms(1), of log] assms(2) by (auto simp: tcp_connect_def socket_simps)

lemma accept_one_opens:
  assumes "fresh_descriptors os" "well_used log" "fd \<in> open_fds log"
  shows "opens log (accept_one os fd)"
  using fresh_answers [OF assms(1), of log] assms(2,3) by (auto simp: accept_one_def socket_simps)

text \<open>Giving up a descriptor: the destructor and the move operations close it exactly once.\<close>

lemma destroy_closes:
  assumes "well_used log" "fd \<in> open_fds log" "0 \<le> fd"
  shows "run_state (destroy os fd) log = ((), log @ [(SysClose fd, os log (SysClose fd))])"
    "open_fds (log @ [(SysClose fd, r)]) = open_fds log - {fd}" "well_used (log @ [(SysClose fd, r)])"
  using assms by (simp_all add: socket_simps)

lemma destroy_moved: "run_state (destroy os (snd (move_construct fd))) log = ((), log)"
  by (simp add: move_construct_def destroy_def)

lemma move_assign_closes:
  assumes "well_used log" "fd \<in> open_fds log" "0 \<le> fd"
  shows "\<exists>log'. run_state (move_assign os False fd fd') log = ((fd', - 1), log') \<and> well_used log' \<and>
    open_fds log' = open_fds log - {fd}"
  using assms by (simp add: move_assign_def socket_simps)

section \<open>Whole buffers over a stream\<close>

text \<open>\<open>send data s\<close> returns the number of bytes taken; \<open>recv k s\<close> the number of bytes read and the bytes.\<close>

type_synonym 's send = "bytes \<Rightarrow> 's \<Rightarrow> int \<times> 's"
type_synonym 's recv = "nat \<Rightarrow> 's \<Rightarrow> int \<times> bytes \<times> 's"

function send_loop :: "'s send \<Rightarrow> bytes \<Rightarrow> nat \<Rightarrow> 's \<Rightarrow> (socket_error + unit) \<times> 's" where
  "send_loop send data sent s =
     (if sent < length data then
        (case send (drop sent data) s of (n, s') \<Rightarrow>
           if n \<le> 0 then (Inl SendFailed, s') else send_loop send data (sent + nat n) s')
      else (Inr (), s))"
  by pat_completeness auto
termination by (relation "measure (\<lambda>(_, data, sent, _). length data - sent)") auto

definition send_all :: "'s send \<Rightarrow> bytes \<Rightarrow> 's \<Rightarrow> (socket_error + unit) \<times> 's" where
  "send_all send data s = send_loop send data 0 s"

function recv_loop :: "'s recv \<Rightarrow> nat \<Rightarrow> nat \<Rightarrow> bytes \<Rightarrow> 's \<Rightarrow> (socket_error + bytes) \<times> 's" where
  "recv_loop recv len got buf s =
     (if got < len then
        (case recv (len - got) s of (n, d, s') \<Rightarrow>
           if n \<le> 0 then (Inl (PeerClosed got), s') else recv_loop recv len (got + nat n) (write_at got d buf) s')
      else (Inr buf, s))"
  by pat_completeness auto
termination by (relation "measure (\<lambda>(_, len, got, _, _). len - got)") auto

definition recv_exact :: "'s recv \<Rightarrow> nat \<Rightarrow> 's \<Rightarrow> (socket_error + bytes) \<times> 's" where
  "recv_exact recv len s = recv_loop recv len 0 (replicate len 0) s"

declare send_loop.simps [simp del] recv_loop.simps [simp del]

text \<open>A stream socket: a write takes a prefix of the data, a read gives a prefix of what is still to come. The
  bytes taken so far are \<open>out s\<close>, the bytes still to come \<open>inp s\<close>.\<close>

definition stream_send :: "'s send \<Rightarrow> ('s \<Rightarrow> bytes) \<Rightarrow> bool" where
  "stream_send send out \<longleftrightarrow> (\<forall>data s. case send data s of (n, s') \<Rightarrow>
     0 < n \<longrightarrow> nat n \<le> length data \<and> out s' = out s @ take (nat n) data)"

definition stream_recv :: "'s recv \<Rightarrow> ('s \<Rightarrow> bytes) \<Rightarrow> bool" where
  "stream_recv recv inp \<longleftrightarrow> (\<forall>k s. case recv k s of (n, d, s') \<Rightarrow>
     0 < n \<longrightarrow> length d = nat n \<and> nat n \<le> k \<and> inp s = d @ inp s')"

text \<open>A connection that stays up: a write of something takes something, a read gives something while the peer
  has more to send.\<close>

definition send_up :: "'s send \<Rightarrow> bool" where
  "send_up send \<longleftrightarrow> (\<forall>data s. data \<noteq> [] \<longrightarrow> 0 < fst (send data s))"

definition recv_up :: "'s recv \<Rightarrow> ('s \<Rightarrow> bytes) \<Rightarrow> bool" where
  "recv_up recv inp \<longleftrightarrow> (\<forall>k s. 0 < k \<longrightarrow> inp s \<noteq> [] \<longrightarrow> 0 < fst (recv k s))"

lemma stream_sendD:
  "stream_send send out \<Longrightarrow> send data s = (n, s') \<Longrightarrow> 0 < n \<Longrightarrow> nat n \<le> length data \<and> out s' = out s @ take (nat n) data"
  by (auto simp: stream_send_def split: prod.splits)

lemma stream_recvD:
  "stream_recv recv inp \<Longrightarrow> recv k s = (n, d, s') \<Longrightarrow> 0 < n \<Longrightarrow> length d = nat n \<and> nat n \<le> k \<and> inp s = d @ inp s'"
  by (auto simp: stream_recv_def split: prod.splits)

lemma send_loop_ok:
  assumes "stream_send send out"
  shows "send_loop send data sent s = (res, s') \<Longrightarrow>
    (res = Inr () \<longrightarrow> out s' = out s @ drop sent data) \<and> (send_up send \<longrightarrow> res = Inr ())"
  using assms
proof (induction send data sent s arbitrary: res s' rule: send_loop.induct)
  case (1 send data sent s)
  show ?case
  proof (cases "sent < length data")
    case lt: True
    obtain n s1 where n: "send (drop sent data) s = (n, s1)" by fastforce
    show ?thesis
    proof (cases "n \<le> 0")
      case True
      have "\<not> send_up send"
        using n True lt unfolding send_up_def by (metis drop_eq_Nil fst_conv linorder_not_le)
      then show ?thesis using "1.prems"(1) n True lt by (subst (asm) send_loop.simps) auto
    next
      case False
      have s1: "nat n \<le> length data - sent" "out s1 = out s @ take (nat n) (drop sent data)"
        using stream_sendD [OF "1.prems"(2) n] False by simp_all
      have step: "send_loop send data (sent + nat n) s1 = (res, s')"
        using "1.prems"(1) n False lt by (subst (asm) send_loop.simps) simp
      have "take (nat n) (drop sent data) @ drop (sent + nat n) data = drop sent data"
        by (metis append_take_drop_id drop_drop add.commute)
      then show ?thesis using "1.IH" [OF lt n [symmetric] False step "1.prems"(2)] s1 by simp
    qed
  next
    case False
    then show ?thesis using "1.prems"(1) by (subst (asm) send_loop.simps) auto
  qed
qed

lemma recv_loop_ok:
  assumes "stream_recv recv inp"
  shows "recv_loop recv len (length got) (got @ replicate (len - length got) 0) s = (res, s') \<Longrightarrow> length got \<le> len \<Longrightarrow>
    (\<forall>buf. res = Inr buf \<longrightarrow> (\<exists>d. length got + length d = len \<and> buf = got @ d \<and> inp s = d @ inp s')) \<and>
    (recv_up recv inp \<and> len \<le> length got + length (inp s) \<longrightarrow> (\<exists>buf. res = Inr buf))"
proof (induction "len - length got" arbitrary: got s rule: less_induct)
  case less
  show ?case
  proof (cases "length got < len")
    case lt: True
    obtain n d s1 where n: "recv (len - length got) s = (n, d, s1)" by (metis prod_cases3)
    note unfold = recv_loop.simps [of recv len "length got" "got @ replicate (len - length got) 0" s]
    show ?thesis
    proof (cases "n \<le> 0")
      case True
      have "\<not> (recv_up recv inp \<and> len \<le> length got + length (inp s))"
      proof
        assume up: "recv_up recv inp \<and> len \<le> length got + length (inp s)"
        then have "inp s \<noteq> []" using lt by auto
        then have "0 < n" using up lt n unfolding recv_up_def by (metis fst_conv zero_less_diff)
        then show False using True by simp
      qed
      moreover have "res = Inl (PeerClosed (length got))" using less.prems(1) unfold n lt True by simp
      ultimately show ?thesis by simp
    next
      case False
      have d: "length d = nat n" "nat n \<le> len - length got" "inp s = d @ inp s1"
        using stream_recvD [OF assms n] False by simp_all
      have "write_at (length got) d (got @ replicate (len - length got) 0) = (got @ d) @ replicate (len - length (got @ d)) 0"
        using d by (simp add: write_at_next)
      then have step: "recv_loop recv len (length (got @ d)) ((got @ d) @ replicate (len - length (got @ d)) 0) s1 = (res, s')"
        using less.prems(1) unfold n lt False d(1) by simp
      have smaller: "len - length (got @ d) < len - length got" "length (got @ d) \<le> len" using d lt False by auto
      have "len \<le> length got + length (inp s) \<longleftrightarrow> len \<le> length (got @ d) + length (inp s1)" using d(3) by (simp add: add.assoc)
      then show ?thesis using less.hyps [OF smaller(1) step smaller(2)] d(3) by fastforce
    qed
  next
    case False
    then have "length got = len" using less.prems(2) by simp
    then show ?thesis using less.prems(1) by (subst (asm) recv_loop.simps) auto
  qed
qed

lemma send_all_ok:
  assumes "stream_send send out" "send_all send data s = (res, s')"
  shows "res = Inr () \<Longrightarrow> out s' = out s @ data" "send_up send \<Longrightarrow> res = Inr ()"
  using send_loop_ok [OF assms(1), of data 0 s res s'] assms(2) by (simp_all add: send_all_def)

lemma recv_exact_ok:
  assumes "stream_recv recv inp" "recv_exact recv len s = (res, s')"
  shows "res = Inr buf \<Longrightarrow> length buf = len \<and> inp s = buf @ inp s'"
    "recv_up recv inp \<Longrightarrow> len \<le> length (inp s) \<Longrightarrow> \<exists>buf. res = Inr buf"
  using recv_loop_ok [OF assms(1), of len "[]" s res s'] assms(2) by (auto simp: recv_exact_def)

text \<open>What \<open>recv_exact\<close> reads is what comes next.\<close>

lemma recv_exact_data:
  assumes "stream_recv recv inp" "recv_up recv inp" "inp s = d @ rest"
  shows "\<exists>s'. recv_exact recv (length d) s = (Inr d, s') \<and> inp s' = rest"
proof -
  obtain res s' where r: "recv_exact recv (length d) s = (res, s')" by fastforce
  obtain buf where buf: "res = Inr buf" using recv_exact_ok(2) [OF assms(1) r assms(2)] assms(3) by auto
  have "length buf = length d" "buf @ inp s' = d @ rest" using recv_exact_ok(1) [OF assms(1) r buf] assms(3) by simp_all
  then show ?thesis using r buf by simp
qed

end
