(* ===== verification/Udp_Multicast.thy ===== *)
theory Udp_Multicast
  imports Tcp_Socket
begin

text \<open>
  The UDP sockets of \<open>cpp/feed/udp_multicast.h\<close>: what their constructors ask of the system and who closes the
  descriptor when one of the calls fails, and one datagram per call. \<open>sendto\<close> and \<open>recvfrom\<close> are parameters;
  their flags, and the addresses they are given, are not modelled.
\<close>

section \<open>Constructors\<close>

text \<open>\<open>UdpSocket()\<close>, followed by the body of the derived constructor on the new descriptor.\<close>

definition udp_socket :: "os \<Rightarrow> (int \<Rightarrow> (os_log, socket_error + int) state) \<Rightarrow> (os_log, socket_error + int) state" where
  "udp_socket os body = do {
     fd \<leftarrow> sys os (SysSocket False);
     if fd < 0 then State_Monad.return (Inl SocketFailed) else body fd
   }"

definition loopback :: string where
  "loopback = ''127.0.0.1''"

definition mcast_sender :: "os \<Rightarrow> string \<Rightarrow> (os_log, socket_error + int) state" where
  "mcast_sender os group_ip = udp_socket os (\<lambda>fd. do {
     r \<leftarrow> sys os (SysPton group_ip);
     if r \<noteq> 1 then unwind os fd BadAddress
     else do {
       _ \<leftarrow> sys os (SysSetsockopt fd MulticastLoop);
       _ \<leftarrow> sys os (SysPton loopback);
       _ \<leftarrow> sys os (SysSetsockopt fd MulticastIf);
       State_Monad.return (Inr fd)
     }
   })"

definition mcast_receiver :: "os \<Rightarrow> string \<Rightarrow> u16 \<Rightarrow> (os_log, socket_error + int) state" where
  "mcast_receiver os group_ip port = udp_socket os (\<lambda>fd. do {
     _ \<leftarrow> sys os (SysSetsockopt fd ReuseAddr);
     r \<leftarrow> sys os (SysBind fd port);
     if r < 0 then unwind os fd BindFailed
     else do {
       r' \<leftarrow> sys os (SysPton group_ip);
       if r' \<noteq> 1 then unwind os fd BadAddress
       else do {
         _ \<leftarrow> sys os (SysPton loopback);
         r'' \<leftarrow> sys os (SysSetsockopt fd AddMembership);
         if r'' < 0 then unwind os fd MembershipFailed else State_Monad.return (Inr fd)
       }
     }
   })"

definition unicast_socket :: "os \<Rightarrow> u16 \<Rightarrow> (os_log, socket_error + int) state" where
  "unicast_socket os bind_port = udp_socket os (\<lambda>fd.
     if bind_port \<noteq> 0 then do {
       _ \<leftarrow> sys os (SysSetsockopt fd ReuseAddr);
       r \<leftarrow> sys os (SysBind fd bind_port);
       if r < 0 then unwind os fd BindFailed else State_Monad.return (Inr fd)
     }
     else State_Monad.return (Inr fd))"

section \<open>Datagrams\<close>

text \<open>\<open>sendto data s\<close> returns the number of bytes sent; \<open>recvfrom k s\<close> that number, the bytes and the sender.\<close>

type_synonym 's sendto = "bytes \<Rightarrow> 's \<Rightarrow> int \<times> 's"
type_synonym 's recvfrom = "nat \<Rightarrow> 's \<Rightarrow> int \<times> bytes \<times> (string \<times> u16) \<times> 's"

definition mcast_send :: "'s sendto \<Rightarrow> bytes \<Rightarrow> 's \<Rightarrow> (socket_error + unit) \<times> 's" where
  "mcast_send sendto payload s =
     (case sendto payload s of (n, s') \<Rightarrow>
        if n < 0 \<or> nat n \<noteq> length payload then (Inl SendFailed, s') else (Inr (), s'))"

text \<open>\<open>send_to\<close> does not look at the result.\<close>

definition unicast_send_to :: "'s sendto \<Rightarrow> bytes \<Rightarrow> 's \<Rightarrow> 's" where
  "unicast_send_to sendto payload s = snd (sendto payload s)"

definition mcast_receive :: "'s recvfrom \<Rightarrow> nat \<Rightarrow> 's \<Rightarrow> bytes \<times> 's" where
  "mcast_receive recvfrom max_len s =
     (case recvfrom max_len s of (n, d, from, s') \<Rightarrow>
        if n < 0 then ([], s') else (take (nat n) (write_at 0 d (replicate max_len 0)), s'))"

text \<open>The out-parameters keep their values when nothing was received.\<close>

definition unicast_receive_from :: "'s recvfrom \<Rightarrow> nat \<Rightarrow> string \<times> u16 \<Rightarrow> 's \<Rightarrow> bytes \<times> (string \<times> u16) \<times> 's" where
  "unicast_receive_from recvfrom max_len peer s =
     (case recvfrom max_len s of (n, d, from, s') \<Rightarrow>
        if n < 0 then ([], peer, s') else (take (nat n) (write_at 0 d (replicate max_len 0)), from, s'))"

lemma received_bytes: "length d = nat n \<Longrightarrow> nat n \<le> k \<Longrightarrow> take (nat n) (write_at 0 d (replicate k 0)) = d"
  by (simp add: write_at_front)

section \<open>Descriptors\<close>

lemma udp_opens:
  assumes "fresh_descriptors os" "well_used log"
  shows "opens log (mcast_sender os group_ip)" "opens log (mcast_receiver os group_ip port)" "opens log (unicast_socket os port)"
  using fresh_answers [OF assms(1), of log] assms(2)
  by (auto simp: mcast_sender_def mcast_receiver_def unicast_socket_def udp_socket_def socket_simps)

text \<open>C27: whatever the system answers, no socket constructor leaks a descriptor or touches one that is not open:
  when it throws, the descriptors open are those open before, the one it had asked for being closed on every
  error path; when it returns, exactly the socket's descriptor is open in addition.\<close>

theorem sockets_closed_on_error:
  assumes "fresh_descriptors os" "well_used log"
  shows "opens log (tcp_listener os port) \<and> opens log (tcp_connect os ip port) \<and>
    (fd \<notin> open_fds log \<or> opens log (accept_one os fd)) \<and>
    opens log (mcast_sender os ip) \<and> opens log (mcast_receiver os ip port) \<and> opens log (unicast_socket os port)"
  using tcp_listener_opens [OF assms] tcp_connect_opens [OF assms] accept_one_opens [OF assms] udp_opens [OF assms]
  by blast

text \<open>A system that numbers descriptors upwards and refuses to bind.\<close>

definition demo_os :: os where
  "demo_os log c =
     (case c of
        SysSocket _ \<Rightarrow> 1 + fold max (map snd log) 2
      | SysAccept _ \<Rightarrow> 1 + fold max (map snd log) 2
      | SysPton _ \<Rightarrow> 1 | SysBind _ _ \<Rightarrow> -1 | _ \<Rightarrow> 0)"

lemma demo_os_fresh: "fresh_descriptors demo_os"
proof -
  have base: "m \<le> fold max xs m" and mem: "x \<in> set xs \<Longrightarrow> x \<le> fold max xs m" for xs :: "int list" and x m
  proof (induction xs arbitrary: m)
    case (Cons y ys)
    { case 1 show ?case using Cons.IH(1) [of "max y m"] by simp }
    { case 2 then show ?case using Cons.IH(1) [of "max y m"] Cons.IH(2) [of "max y m"] by auto }
  qed simp_all
  have sub: "open_fds log \<subseteq> snd ` set log" for log
  proof (induction log rule: rev_induct)
    case (snoc cr log)
    then show ?case by (cases cr; cases "fst cr") (auto simp: log_simps after_call_def)
  qed (simp add: open_fds_def)
  have "1 + fold max (map snd log) 2 \<notin> open_fds log" for log
    using sub [of log] mem [of _ "map snd log" 2] by force
  then show ?thesis by (simp add: fresh_descriptors_def demo_os_def split: syscall.splits)
qed

theorem sockets_closed_on_error_witness:
  "case run_state (mcast_receiver demo_os ''239.255.13.39'' 17351) [] of (res, log) \<Rightarrow>
     res = Inl BindFailed \<and> open_fds log = {} \<and> last log = (SysClose 3, 0)"
proof -
  have "well_used []" by (simp add: well_used_def)
  then have "opens [] (mcast_receiver demo_os ''239.255.13.39'' 17351)"
    using sockets_closed_on_error [OF demo_os_fresh, of "[]"] by blast
  moreover have "run_state (mcast_receiver demo_os ''239.255.13.39'' 17351) [] =
      (Inl BindFailed, [(SysSocket False, 3), (SysSetsockopt 3 ReuseAddr, 0), (SysBind 3 17351, -1), (SysClose 3, 0)])"
    by (simp add: mcast_receiver_def udp_socket_def unwind_def destroy_def demo_os_def)
  ultimately show ?thesis by (simp add: opens_def open_fds_def)
qed

end
