(* ===== verification/Sequencer_Events.thy ===== *)
theory Sequencer_Events
  imports Sequencer_Main
begin

text \<open>
  Every market data event the sequencer publishes fits the wire record of the feed: its symbol has eight
  characters and its price is an \<open>int64_t\<close>, because resting prices come from 32-bit ITCH prices.
\<close>

definition prices_ok :: "(bytes \<Rightarrow> u64 \<Rightarrow> resting_order option) \<Rightarrow> bool" where
  "prices_ok v \<longleftrightarrow> (\<forall>s i r. v s i = Some r \<longrightarrow> is_int64 (ro_price r))"

lemma trade_prices:
  assumes b: "wf_book b" and t: "req_type t = Limit" and fresh: "order_map (book_abs b) (req_id t) = None"
    and add: "book_add b t = Some (r, b', ts)" and x: "x \<in> set ts"
  shows "\<exists>i ro. order_map (book_abs b) i = Some ro \<and> ro_price ro = trade_price x"
proof -
  let ?s = "book_abs b"
  have "\<not> is_resting (req_id t) ?s" using fresh by (simp add: order_map_dom)
  then have pre: "add_pre t ?s" using t by (simp add: add_pre_def)
  obtain s1 ts1 q1 where tk: "spec_take (req_id t) (req_side t) Limit (req_price t) (req_qty t) ?s = (s1, ts1, q1)"
    by (metis prod_cases3)
  have "ts = ts1"
    using add_step [OF b pre] add tk t by (auto simp: spec_add_def spec_unrested_def split: if_splits)
  then have "(maker_id x, trade_price x) \<in> (\<lambda>y. (r_id y, r_price y)) ` set (s_side (opposite (req_side t)) ?s)"
    using spec_take_fair [OF tk] x by (metis (mono_tags, lifting) image_eqI image_mono list.set_map set_take_subset subsetD)
  then show ?thesis using order_map_member [OF book_wf_spec [OF b]] by fastforce
qed

text \<open>Executing or cancelling part of an order leaves its price.\<close>

lemma effect_prices:
  assumes "prices_ok v" "md_valid e"
  shows "prices_ok (event_effect e v)"
  using assms
  by (auto simp: prices_ok_def event_effect_def Let_def event_order_def md_valid_def split: option.splits if_splits)

lemma message_events:
  assumes st: "seq_ok st" "prices_ok (orders st)" and fresh: "fresh_ids m st"
    and run: "on_message cb rnd m st = Some (st', out)" and e: "e \<in> set (mds out)"
  shows "md_valid e"
proof -
  have trade: "md_valid (trade_event s sd k x)"
    if h: "book_add (sq_books t s) req = Some (r, b, ts)" "x \<in> set ts" "wf_book (sq_books t s)" "prices_ok (orders t)"
      "req_type req = Limit" "orders t s (req_id req) = None" for s sd k x t req r b ts
  proof -
    obtain i ro where "orders t s i = Some ro" "ro_price ro = trade_price x"
      using trade_prices [OF h(3,5) _ h(1,2)] h(6) by (auto simp: orders_def)
    then have "is_int64 (trade_price x)" using h(4) unfolding prices_ok_def by metis
    then show ?thesis by (simp add: trade_event_def md_valid_def)
  qed
  have placed: "md_valid e"
    if "book_add (sq_books t s) req = Some (r, b, ts)" "wf_book (sq_books t s)" "prices_ok (orders t)"
      "req_type req = Limit" "orders t s (req_id req) = None"
      "\<forall>e \<in> set (mds out). e \<in> trade_event s sd k ` set ts \<or> quote_valid e" for s sd k t req r b ts
    using trade [OF that(1) _ that(2-5)] that(6) e by (auto simp: quote_valid_def)
  have add: "md_valid e"
    if run: "on_add cb rnd h i c shares stock price mpid st = Some (st', out)" and i: "order_symbol st i = None"
    for h i c shares stock price mpid
  proof (cases rule: add_cases [OF run refl refl refl])
    case (2 b ts)
    show ?thesis
      by (rule placed [OF 2(2) seq_okD(1) [OF st(1)] st(2) _ _ 2(7)])
         (use seq_okD(4) [OF st(1) i] in simp_all)
  qed (use e in auto)
  show ?thesis
  proof (cases m)
    case (AddOrderNoMPID a)
    then show ?thesis using add run fresh by (simp add: on_message_def fresh_ids_def)
  next
    case (AddOrderMPID a)
    then show ?thesis using add run fresh by (simp add: on_message_def fresh_ids_def)
  next
    case (OrderReplace a)
    then have run': "on_replace cb rnd a st = Some (st', out)" using run by (simp add: on_message_def)
    show ?thesis
    proof (cases "order_symbol st (or_original_order_ref_number a)")
      case (Some info)
      show ?thesis
      proof (cases rule: replace_cases [OF run' Some refl refl refl])
        case (2 st1 b ts)
        have st1: "seq_ok st1" "prices_ok (orders st1)" "order_symbol st1 (or_new_order_ref_number a) = None"
          using withdrawn_ok [OF st(1) Some 2(1)] st(2) fresh OrderReplace 2(1)
          by (auto simp: prices_ok_def fresh_ids_def withdrawn_def)
        show ?thesis
          by (rule placed [OF 2(3) seq_okD(1) [OF st1(1)] st1(2) _ _ 2(8)])
             (use seq_okD(4) [OF st1(1,3)] in simp_all)
      qed (use e in auto)
    qed (use run' e in \<open>simp add: on_replace_def\<close>)
  qed (use run e in \<open>auto simp: on_message_def branch_defs Let_def bind_eq_Some_conv md_valid_def md_default_def
         split: if_splits option.splits prod.splits\<close>)
qed

lemma effects_prices: "prices_ok v \<Longrightarrow> list_all md_valid es \<Longrightarrow> prices_ok (fold event_effect es v)"
  by (induction es arbitrary: v) (auto simp: effect_prices)

text \<open>A whole feed: the events are valid and move the orders from the first state to the last.\<close>

lemma run_events:
  assumes "seq_ok st" "list_all message_ok ms" "day_unique ms st" "prices_ok (orders st)" "has_md cb" "announced cb rnd ms st"
    and "on_messages cb rnd ms st = Some (st', out)"
  shows "list_all md_valid (mds out)" "orders st' = fold event_effect (mds out) (orders st)"
proof -
  have "list_all md_valid (mds out) \<and> orders st' = fold event_effect (mds out) (orders st)"
    using assms
  proof (induction ms arbitrary: st out)
    case (Cons m ms)
    note fresh = day_unique_fresh [OF Cons.prems(3)]
    have "step_good cb m st (on_message cb rnd m st)"
      using Cons.prems fresh by (intro message_good) auto
    then obtain st1 out1 where one: "on_message cb rnd m st = Some (st1, out1)" "seq_ok st1"
      "has_md cb \<and> faithful m st st1 \<longrightarrow> orders st1 = fold event_effect (mds out1) (orders st)"
      unfolding step_good_def by blast
    have ann: "faithful m st st1" "announced cb rnd ms st1" using Cons.prems(6) one(1) by simp_all
    have o1: "orders st1 = fold event_effect (mds out1) (orders st)" using one(3) ann(1) Cons.prems(5) by simp
    have v1: "list_all md_valid (mds out1)"
      using message_events [OF Cons.prems(1,4) fresh one(1)] by (simp add: list_all_iff)
    obtain out2 where two: "on_messages cb rnd ms st1 = Some (st', out2)" "out = out1 @ out2"
      using Cons.prems(7) one(1) by (auto simp: bind_eq_Some_conv)
    have "prices_ok (orders st1)" using effects_prices [OF Cons.prems(4) v1] o1 by simp
    with Cons.IH [OF one(2) _ day_unique_step(2) [OF Cons.prems(3) one(1)] _ Cons.prems(5) ann(2) two(1)] Cons.prems(2)
    show ?case using v1 o1 two(2) by simp
  qed simp
  then show "list_all md_valid (mds out)" "orders st' = fold event_effect (mds out) (orders st)" by simp_all
qed

end
