(* ===== verification/Md_Pipeline.thy ===== *)
theory Md_Pipeline
  imports Sequencer_Events Mold_Session Tcp_Socket
begin

text \<open>
  The market data feed from end to end. The sequencer's events are numbered from 1, encoded, packed into
  MoldUDP64 packets and multicast; a snapshot of the first of them is served over TCP. A subscriber that joins
  late loads the snapshot, starts its session behind it and applies what the session delivers. The parts are
  the modelled components; what joins them is the code of \<open>cpp/feed/tests/test_snapshot_recovery.cpp\<close>.
\<close>

section \<open>The snapshot exchange\<close>

text \<open>Eight bytes of length, then the snapshot.\<close>

definition serve_snapshot :: "'s send \<Rightarrow> u64 \<Rightarrow> snapshot_row list \<Rightarrow> 's \<Rightarrow> (socket_error + unit) \<times> 's" where
  "serve_snapshot send as_of snap s =
     (let payload = encode_snapshot as_of snap in
      case send_all send (put_be64 (word_of_nat (length payload))) s of
        (Inl e, s1) \<Rightarrow> (Inl e, s1)
      | (Inr _, s1) \<Rightarrow> send_all send payload s1)"

definition fetch_snapshot :: "'c recv \<Rightarrow> 'c \<Rightarrow> (socket_error + bool \<times> u64 \<times> snapshot_row list) \<times> 'c" where
  "fetch_snapshot recv c =
     (case recv_exact recv 8 c of
        (Inl e, c1) \<Rightarrow> (Inl e, c1)
      | (Inr len_prefix, c1) \<Rightarrow>
          (case recv_exact recv (unat (get_be64 len_prefix 0)) c1 of
             (Inl e, c2) \<Rightarrow> (Inl e, c2)
           | (Inr payload, c2) \<Rightarrow> (Inr (decode_snapshot payload 0 []), c2)))"

section \<open>The subscriber\<close>

text \<open>The session's callbacks: a message is decoded and applied, a request goes to the request server.\<close>

definition deliver_event :: "mold_callback \<Rightarrow> builder \<Rightarrow> builder" where
  "deliver_event cb b =
     (case cb of
        Message k data len \<Rightarrow> (case md_decode data of None \<Rightarrow> b | Some e \<Rightarrow> builder_apply k e b)
      | Request r \<Rightarrow> b)"

definition blank_header :: downstream_header where
  "blank_header = \<lparr>dh_session = replicate kSessionLen 0, dh_sequence_number = 0, dh_message_count = 0\<rparr>"

definition receive_datagram :: "bytes \<Rightarrow> mold_session \<times> builder \<Rightarrow> mold_session \<times> builder" where
  "receive_datagram raw sb =
     (if raw = [] then sb
      else case decode_downstream raw blank_header of (ok, hdr, blocks) \<Rightarrow>
        if ok then
          (case on_packet hdr (map (view_bytes raw) blocks) (fst sb) of (s', cbs) \<Rightarrow> (s', fold deliver_event cbs (snd sb)))
        else sb)"

definition subscriber :: "'c recv \<Rightarrow> bytes \<Rightarrow> 'c \<Rightarrow> bytes list \<Rightarrow> socket_error + builder" where
  "subscriber recv session_id c datagrams =
     (case fetch_snapshot recv c of
        (Inl e, _) \<Rightarrow> Inl e
      | (Inr (ok, q, snap), _) \<Rightarrow>
          Inr (snd (fold receive_datagram datagrams (new_session session_id (q + 1), builder_load q snap new_builder))))"

section \<open>The publisher\<close>

text \<open>A packet carries \<open>c\<close> events from number \<open>s\<close> on, or announces the end of the session.\<close>

datatype outgoing = Events u64 nat | EndOfSession u64

definition numbered :: "nat \<Rightarrow> md_event list \<Rightarrow> (u64 \<times> md_event) list" where
  "numbered n es = map (\<lambda>i. (word_of_nat (n + Suc i), es ! i)) [0..<length es]"

definition event_feed :: "md_event list \<Rightarrow> u64 \<Rightarrow> bytes" where
  "event_feed es k = md_encode (es ! (unat k - 1))"

definition packet_bytes :: "bytes \<Rightarrow> md_event list \<Rightarrow> outgoing \<Rightarrow> bytes" where
  "packet_bytes session_id es p =
     (case p of
        Events s c \<Rightarrow> encode_downstream session_id s (map md_encode (take c (drop (unat s - 1) es)))
      | EndOfSession s \<Rightarrow> encode_end_of_session session_id s)"

text \<open>The packet's events exist and fit a packet.\<close>

definition packet_ok :: "md_event list \<Rightarrow> outgoing \<Rightarrow> bool" where
  "packet_ok es p =
     (case p of Events s c \<Rightarrow> 0 < unat s \<and> unat s + c \<le> Suc (length es) \<and> c < 65535 | EndOfSession s \<Rightarrow> True)"

definition in_packet :: "nat \<Rightarrow> outgoing \<Rightarrow> bool" where
  "in_packet k p = (case p of Events s c \<Rightarrow> unat s \<le> k \<and> k < unat s + c | EndOfSession s \<Rightarrow> False)"

text \<open>The snapshot server's state after the first \<open>n\<close> events.\<close>

definition snapshot_builder :: "md_event list \<Rightarrow> nat \<Rightarrow> builder" where
  "snapshot_builder es n = fold (\<lambda>i. builder_apply (word_of_nat (i + 1)) (es ! i)) [0..<n] new_builder"

text \<open>The live half: packets of 27 events from index \<open>i\<close>, sequence number \<open>s\<close>, up to \<open>tot\<close> events.\<close>

definition kEventsPerPacket :: nat where "kEventsPerPacket = 27"

function live_packets :: "nat \<Rightarrow> nat \<Rightarrow> u64 \<Rightarrow> outgoing list" where
  "live_packets tot i s =
     (if i < tot then
        (let batch = min tot (i + kEventsPerPacket) - i
         in Events s batch # live_packets tot (i + kEventsPerPacket) (s + word_of_nat batch))
      else [])"
  by pat_completeness auto
termination by (relation "measure (\<lambda>(tot, i, s). tot - i)") (auto simp: kEventsPerPacket_def)

declare live_packets.simps [simp del]

section \<open>The exchange over a stream\<close>

lemma encode_snapshot_length:
  assumes "list_all row_valid snap" "length snap < 2 ^ 32"
  shows "length (encode_snapshot q snap) < 2 ^ 64"
proof -
  let ?e = "encode_snapshot q snap"
  have "length ?e = 12 + unat (get_count ?e) * kRowLen"
    using decode_encode_snapshot [OF assms, of q 0 "[]"] by (auto simp: decode_snapshot_def Let_def split: if_splits)
  moreover have "unat (get_count ?e) < 4294967296" using unsigned_less [of "get_count ?e", where ?'a = nat] by simp
  ultimately show ?thesis by (simp add: kRowLen_def)
qed

lemma snapshot_transfer:
  assumes tx: "stream_send send out" "send_up send" and rx: "stream_recv recv inp" "recv_up recv inp"
    and snap: "list_all row_valid snap" "length snap < 2 ^ 32"
    and served: "serve_snapshot send q snap s = (res, s')" and link: "out s' = out s @ inp c"
  shows "res = Inr ()" "\<exists>c'. fetch_snapshot recv c = (Inr (True, q, snap), c')"
proof -
  let ?p = "encode_snapshot q snap"
  let ?l = "put_be64 (word_of_nat (length ?p))"
  obtain r1 s1 where one: "send_all send ?l s = (r1, s1)" by fastforce
  obtain r2 s2 where two: "send_all send ?p s1 = (r2, s2)" by fastforce
  note ok1 = send_all_ok [OF tx(1) one] and ok2 = send_all_ok [OF tx(1) two]
  have r: "r1 = Inr ()" "r2 = Inr ()" using ok1(2) ok2(2) tx(2) by simp_all
  then have s': "res = Inr ()" "s' = s2" using served one two by (simp_all add: serve_snapshot_def Let_def)
  then show "res = Inr ()" by simp
  have inp: "inp c = ?l @ ?p" using link s'(2) ok1(1) ok2(1) r by simp
  have n: "unat (get_be64 ?l 0) = length ?p"
    using encode_snapshot_length [OF snap, of q] by (simp add: get_be64_def read_at_def unat_of_nat)
  obtain c1 where f1: "recv_exact recv (length ?l) c = (Inr ?l, c1)" "inp c1 = ?p" using recv_exact_data [OF rx inp] by blast
  obtain c2 where f2: "recv_exact recv (length ?p) c1 = (Inr ?p, c2)"
    using recv_exact_data [OF rx, of c1 ?p "[]"] f1(2) by auto
  show "\<exists>c'. fetch_snapshot recv c = (Inr (True, q, snap), c')"
    using f1(1) n f2 decode_encode_snapshot [OF snap, of q 0 "[]"] by (simp add: fetch_snapshot_def)
qed

section \<open>What arrives\<close>

text \<open>A packet as the session sees it.\<close>

definition packet_of :: "bytes \<Rightarrow> md_event list \<Rightarrow> outgoing \<Rightarrow> downstream_header \<times> bytes list" where
  "packet_of session_id es p =
     (case p of
        Events s c \<Rightarrow>
          (\<lparr>dh_session = session_id, dh_sequence_number = s, dh_message_count = word_of_nat c\<rparr>,
           map md_encode (take c (drop (unat s - 1) es)))
      | EndOfSession s \<Rightarrow>
          (\<lparr>dh_session = session_id, dh_sequence_number = s, dh_message_count = kEndOfSession\<rparr>, []))"

lemma packet_count: "packet_ok es (Events s c) \<Longrightarrow> length (take c (drop (unat s - 1) es)) = c"
  by (auto simp: packet_ok_def)

lemma encoded_short: "list_all md_valid es \<Longrightarrow> list_all (\<lambda>m. length m < 2 ^ 16) (map md_encode (take c (drop n es)))"
  by (auto simp: list_all_iff md_encode_length kRecordLen_def dest!: in_set_takeD in_set_dropD)

lemma header_nonempty: "length s = kSessionLen \<Longrightarrow> header_bytes s q c \<noteq> []"
  by (auto dest!: arg_cong [of _ _ length] simp: mold_consts)

lemma receive_packet:
  assumes "length session_id = kSessionLen" "list_all md_valid es" "packet_ok es p"
  shows "receive_datagram (packet_bytes session_id es p) sb =
    (case on_packet (fst (packet_of session_id es p)) (snd (packet_of session_id es p)) (fst sb) of
       (s', cbs) \<Rightarrow> (s', fold deliver_event cbs (snd sb)))"
proof (cases p)
  case (Events s c)
  let ?ms = "map md_encode (take c (drop (unat s - 1) es))"
  have c: "length ?ms = c" "length ?ms < 65535" using packet_count assms(3) Events by (auto simp: packet_ok_def)
  obtain vs where "decode_downstream (encode_downstream session_id s ?ms) blank_header =
      (True, \<lparr>dh_session = session_id, dh_sequence_number = s, dh_message_count = word_of_nat (length ?ms)\<rparr>, vs)"
    "map (view_bytes (encode_downstream session_id s ?ms)) vs = ?ms"
    using decode_encoded [OF assms(1) c(2) encoded_short [OF assms(2)], of s "[]" blank_header] by auto
  moreover have "encode_downstream session_id s ?ms \<noteq> []"
    by (simp add: encode_downstream_eq [OF assms(1)] header_nonempty [OF assms(1)])
  ultimately show ?thesis unfolding c(1) by (simp add: receive_datagram_def packet_bytes_def packet_of_def Events)
next
  case (EndOfSession s)
  have "encode_end_of_session session_id s \<noteq> []"
    by (simp add: encode_end_of_session_def encode_control_eq [OF assms(1)] header_nonempty [OF assms(1)])
  moreover have "decode_downstream (encode_end_of_session session_id s) blank_header =
      (True, \<lparr>dh_session = session_id, dh_sequence_number = s, dh_message_count = kEndOfSession\<rparr>, [])"
    using mold_control_roundtrip [OF assms(1)] by simp
  ultimately show ?thesis by (simp add: receive_datagram_def packet_bytes_def packet_of_def EndOfSession)
qed

lemma receive_packets:
  assumes "length session_id = kSessionLen" "list_all md_valid es" "list_all (packet_ok es) ps"
  shows "fold receive_datagram (map (packet_bytes session_id es) ps) sb =
    (case run_packets (map (packet_of session_id es) ps) (fst sb) of
       (s', cbs) \<Rightarrow> (s', fold deliver_event cbs (snd sb)))"
  using assms(3)
proof (induction ps arbitrary: sb)
  case (Cons p ps)
  then show ?case
    using receive_packet [OF assms(1,2), of p sb] by (simp add: case_prod_unfold Let_def)
qed simp

lemma deliver_messages:
  "fold deliver_event cbs b =
     fold (\<lambda>(k, d) b. case md_decode d of None \<Rightarrow> b | Some e \<Rightarrow> builder_apply k e b) (messages cbs) b"
proof (induction cbs arbitrary: b)
  case (Cons cb cbs)
  then show ?case by (cases cb) (simp_all add: deliver_event_def)
qed simp

section \<open>What the subscriber ends with\<close>

lemma unat_small: "n < 2 ^ 64 \<Longrightarrow> unat (word_of_nat n :: u64) = n"
  by (simp add: unat_of_nat)

lemma no_wrap_nat:
  fixes s :: u64
  assumes "unat s + i < 2 ^ 64"
  shows "int (unat s) + int i < 2 ^ 64"
proof -
  have "int (unat s + i) < int (2 ^ 64)" using assms by (simp only: of_nat_less_iff)
  then show ?thesis by simp
qed

text \<open>The packets carry the feed and do not run past it.\<close>

lemma packet_seq:
  assumes "packet_ok es (Events s c)" "length es < 2 ^ 64 - 1" "i < c"
  shows "unat (s + word_of_nat i) = unat s + i" "unat s - 1 + i < length es" "0 < unat s"
proof -
  have "unat s + i < 2 ^ 64" using assms by (auto simp: packet_ok_def)
  then have "int (unat s) + int i < 2 ^ 64" by (rule no_wrap_nat)
  then show "unat (s + word_of_nat i) = unat s + i" by (rule word_offset)
qed (use assms in \<open>auto simp: packet_ok_def\<close>)

lemma packet_authentic:
  assumes "packet_ok es p" "length es < 2 ^ 64 - 1"
  shows "no_wrap (packet_of session_id es p) \<and> authentic (event_feed es) (packet_of session_id es p)"
proof (cases p)
  case (Events s c)
  note ok = assms(1) [unfolded Events]
  have "map md_encode (take c (drop (unat s - 1) es)) ! i = event_feed es (s + word_of_nat i)" if "i < c" for i
  proof -
    note i = packet_seq [OF ok assms(2) that]
    have "unat s - 1 + i = unat (s + word_of_nat i) - 1" using i by simp
    then show ?thesis using that i packet_count [OF ok] by (simp add: event_feed_def)
  qed
  moreover have "int (unat s) + int c < 2 ^ 64"
    by (rule no_wrap_nat) (use ok assms(2) in \<open>auto simp: packet_ok_def\<close>)
  ultimately show ?thesis
    using packet_count [OF ok] by (simp add: no_wrap_def authentic_def packet_of_def Events list_all_iff)
next
  case (EndOfSession s)
  have "unat s + 0 < 2 ^ 64" using unsigned_less [of s, where ?'a = nat] by simp
  from no_wrap_nat [OF this] show ?thesis by (simp add: no_wrap_def authentic_def packet_of_def EndOfSession)
qed

lemma packet_seqs_of:
  assumes "packet_ok es p"
  shows "packet_seqs (packet_of session_id es p) = {k. in_packet (unat k) p}"
proof (cases p)
  case (Events s c)
  note ok = assms [unfolded Events]
  have len: "length (map md_encode (take c (drop (unat s - 1) es))) = c" "c < 65535"
    using packet_count [OF ok] ok by (auto simp: packet_ok_def)
  have "is_control (word_of_nat c) \<longleftrightarrow> c = 0"
    using message_count(2) [of "map md_encode (take c (drop (unat s - 1) es))"] len by auto
  then show ?thesis using len by (auto simp: packet_seqs_def packet_of_def in_packet_def Events)
qed (simp add: packet_seqs_def packet_of_def in_packet_def is_control_def)

lemma seqs_of_packets:
  "list_all (packet_ok es) ps \<Longrightarrow> seqs_of (map (packet_of session_id es) ps) = {k. \<exists>p \<in> set ps. in_packet (unat k) p}"
  by (auto simp: seqs_of_def list_all_iff packet_seqs_of)

lemma in_packet_last: "packet_ok es p \<Longrightarrow> in_packet k p \<Longrightarrow> 0 < k \<and> k \<le> length es"
  by (auto simp: packet_ok_def in_packet_def split: outgoing.splits)

text \<open>A session that starts behind event \<open>n\<close> delivers all the later ones, once each and in order.\<close>

lemma session_delivers_rest:
  assumes "length es < 2 ^ 64 - 1" "n \<le> length es" "list_all (packet_ok es) ps"
    and cover: "\<And>k. n < k \<Longrightarrow> k \<le> length es \<Longrightarrow> \<exists>p \<in> set ps. in_packet k p"
  shows "messages (snd (run_packets (map (packet_of session_id es) ps) (new_session session_id (word_of_nat n + 1)))) =
    feed_from (event_feed es) (word_of_nat n + 1) (length es - n)"
proof -
  let ?pks = "map (packet_of session_id es) ps" and ?start = "word_of_nat n + 1 :: u64"
  have start: "unat ?start = n + 1"
    using assms(1,2) word_offset [of "word_of_nat n" 1] by (simp add: unat_of_nat)
  have "list_all (\<lambda>pk. no_wrap pk \<and> authentic (event_feed es) pk) ?pks"
    using assms(1,3) packet_authentic by (auto simp: list_all_iff)
  from session_delivers [OF this, of session_id ?start] obtain m where m:
    "messages (snd (run_packets ?pks (new_session session_id ?start))) = feed_from (event_feed es) ?start m"
    "unat (?start + word_of_nat m) = n + 1 + m" "?start + word_of_nat m \<notin> seqs_of ?pks"
    "{k. ?start \<le> k \<and> k < ?start + word_of_nat m} \<subseteq> seqs_of ?pks"
    unfolding start by blast
  have "\<not> n + 1 + m \<le> length es"
    using m(2,3) cover [of "n + 1 + m"] unfolding seqs_of_packets [OF assms(3)] by auto
  moreover have "n + m \<le> length es"
  proof (cases "m = 0")
    case False
    let ?k = "word_of_nat (n + m) :: u64"
    have "n + 1 + m < 2 ^ 64" using m(2) unsigned_less [of "?start + word_of_nat m", where ?'a = nat] by simp
    then have k: "unat ?k = n + m" by (intro unat_small) simp
    have "?k \<in> {k. ?start \<le> k \<and> k < ?start + word_of_nat m}"
      using False m(2) start k by (simp add: word_le_nat_alt word_less_nat_alt del: of_nat_add)
    then have "?k \<in> seqs_of ?pks" using m(4) by blast
    then obtain p where p: "p \<in> set ps" "in_packet (n + m) p"
      unfolding seqs_of_packets [OF assms(3)] mem_Collect_eq k by blast
    then have "packet_ok es p" using assms(3) by (simp add: list_all_iff)
    then show ?thesis using in_packet_last p(2) by blast
  qed (use assms(2) in simp)
  ultimately have "m = length es - n" by simp
  then show ?thesis using m(1) by simp
qed

lemma deliver_feed:
  assumes "length es < 2 ^ 64 - 1" "n \<le> length es" "list_all md_valid es"
    and "messages cbs = feed_from (event_feed es) (word_of_nat n + 1) (length es - n)"
  shows "fold deliver_event cbs b = apply_all (numbered n (drop n es)) b"
proof -
  have "(case md_decode (event_feed es (word_of_nat n + 1 + word_of_nat i)) of None \<Rightarrow> b
      | Some e \<Rightarrow> builder_apply (word_of_nat n + 1 + word_of_nat i) e b) = builder_apply (word_of_nat (n + Suc i)) (drop n es ! i) b"
    if "i < length es - n" for i b
  proof -
    have k: "word_of_nat n + 1 + word_of_nat i = (word_of_nat (n + Suc i) :: u64)" by simp
    have "unat (word_of_nat (n + Suc i) :: u64) = n + Suc i" by (rule unat_small) (use that assms(1) in simp)
    then have "event_feed es (word_of_nat (n + Suc i)) = md_encode (es ! (n + i))" by (simp add: event_feed_def)
    moreover have "md_valid (es ! (n + i))" using assms(3) that by (simp add: list_all_length)
    ultimately show ?thesis unfolding k using that assms(2) by (simp add: md_decode_encode)
  qed
  then show ?thesis
    unfolding deliver_messages assms(4) apply_all_def feed_from_def numbered_def fold_map comp_def
    by (intro fold_cong) auto
qed

text \<open>The packets published carry every event behind the split.\<close>

lemma live_packets_ok:
  assumes "tot < 2 ^ 64 - 1" "unat s = i + 1" "length es = tot"
  shows "list_all (packet_ok es) (live_packets tot i s) \<and>
    (\<forall>k. i < k \<longrightarrow> k \<le> tot \<longrightarrow> (\<exists>p \<in> set (live_packets tot i s). in_packet k p))"
  using assms
proof (induction tot i s rule: live_packets.induct)
  case (1 tot i s)
  show ?case
  proof (cases "i < tot")
    case True
    define batch where "batch = min tot (i + kEventsPerPacket) - i"
    have step: "live_packets tot i s = Events s batch # live_packets tot (i + kEventsPerPacket) (s + word_of_nat batch)"
      using True by (simp add: live_packets.simps [of tot i s] batch_def Let_def)
    have batch: "0 < batch" "i + batch \<le> tot" "batch < 65535" "i + kEventsPerPacket \<le> tot \<longrightarrow> i + batch = i + kEventsPerPacket"
      "tot < i + kEventsPerPacket \<longrightarrow> i + batch = tot"
      using True by (auto simp: batch_def kEventsPerPacket_def)
    have head: "packet_ok es (Events s batch)" "\<And>k. i < k \<Longrightarrow> k \<le> i + batch \<Longrightarrow> in_packet k (Events s batch)"
      using batch "1.prems" by (simp_all add: packet_ok_def in_packet_def)
    show ?thesis
    proof (cases "i + kEventsPerPacket < tot")
      case more: True
      have "unat (s + word_of_nat batch) = i + kEventsPerPacket + 1"
        using word_offset [OF no_wrap_nat, of s batch] batch more "1.prems"(1,2) by simp
      then have "list_all (packet_ok es) (live_packets tot (i + kEventsPerPacket) (s + word_of_nat batch)) \<and>
          (\<forall>k. i + kEventsPerPacket < k \<longrightarrow> k \<le> tot \<longrightarrow>
            (\<exists>p \<in> set (live_packets tot (i + kEventsPerPacket) (s + word_of_nat batch)). in_packet k p))"
        using "1.IH" [OF True batch_def] "1.prems" by blast
      then show ?thesis unfolding step using head batch(4) more by (auto simp: not_le) (metis linorder_not_le)
    next
      case False
      then show ?thesis
        unfolding step using head batch(2,4,5) by (auto simp: live_packets.simps [of tot "i + kEventsPerPacket"])
    qed
  qed (simp add: live_packets.simps [of tot i s])
qed

text \<open>A snapshot has at most one row for each event.\<close>

definition known :: "(bytes \<Rightarrow> u64 \<Rightarrow> resting_order option) \<Rightarrow> (bytes \<times> u64) set" where
  "known v = {k. v (fst k) (snd k) \<noteq> None}"

lemma known_effect: "\<exists>k. known (event_effect e v) \<subseteq> insert k (known v)"
  by (intro exI [of _ "(symbol_str (ev_symbol e), if ev_type e = evReplace then ev_new_order_id e else ev_order_id e)"])
     (auto simp: known_def event_effect_def Let_def split: if_splits option.splits)

lemma known_effects: "finite (known v) \<Longrightarrow>
    finite (known (fold event_effect es v)) \<and> card (known (fold event_effect es v)) \<le> card (known v) + length es"
proof (induction es arbitrary: v)
  case (Cons e es)
  obtain k where k: "known (event_effect e v) \<subseteq> insert k (known v)" using known_effect by blast
  have fin: "finite (known (event_effect e v))" using finite_subset [OF k] Cons.prems by simp
  have "card (known (event_effect e v)) \<le> card (insert k (known v))" using k Cons.prems by (intro card_mono) auto
  also have "\<dots> \<le> Suc (card (known v))" using card_insert_le_m1 [of "Suc (card (known v))" "known v" k] by simp
  finally show ?case using Cons.IH [OF fin] by simp
qed simp

lemma rows_known:
  assumes "builder_ok b" "finite (known (view b))"
  shows "length (builder_rows b) \<le> card (known (view b))"
proof -
  have "k \<in> known (view b)" if key: "k \<in> row_key ` set (builder_rows b)" for k
  proof -
    obtain r where r: "r \<in> set (builder_rows b)" "k = row_key r" using key by blast
    then have "(k, row_order r) \<in> set (map (\<lambda>r. (row_key r, row_order r)) (builder_rows b))" by simp
    then obtain bk where bk: "(fst k, bk) \<in> set (books b)" "(snd k, row_order r) \<in> set bk"
      using rows_member [OF assms(1)] by blast
    then have "map_of (books b) (fst k) = Some bk" using assms(1) by (simp add: builder_ok_def)
    moreover have "map_of bk (snd k) \<noteq> None" using weak_map_of_SomeI [OF bk(2)] by auto
    ultimately show ?thesis by (simp add: known_def view_def book_for_symbol_def)
  qed
  then have "card (row_key ` set (builder_rows b)) \<le> card (known (view b))"
    using assms(2) by (intro card_mono) auto
  then show ?thesis using distinct_card [OF rows_distinct [OF assms(1)]] by simp
qed

lemma numbered_events: "map snd (numbered n es) = es"
  by (simp add: numbered_def comp_def map_nth)

lemma snapshot_builder_all:
  assumes "n \<le> length es"
  shows "snapshot_builder es n = apply_all (numbered 0 (take n es)) new_builder"
  unfolding snapshot_builder_def apply_all_def numbered_def fold_map comp_def using assms by (intro fold_cong) auto

lemma snapshot_builder_seq:
  assumes "n \<le> length es"
  shows "last_seq (snapshot_builder es n) = word_of_nat n"
  using assms by (cases n) (simp_all add: snapshot_builder_all apply_all_seq new_builder_def numbered_def last_map)

lemma snapshot_builder_ok:
  assumes "list_all md_valid es" "n \<le> length es"
  shows "builder_ok (snapshot_builder es n)"
proof -
  have "list_all (\<lambda>(q, e). md_valid e) (numbered 0 (take n es))"
    using assms by (auto simp: numbered_def list_all_iff)
  then show ?thesis unfolding snapshot_builder_all [OF assms(2)] by (rule apply_all_ok [OF new_builder_ok])
qed

lemma view_new: "view new_builder = (\<lambda>s. Map.empty)"
  by (simp add: fun_eq_iff view_def new_builder_def book_for_symbol_def)

lemma snapshot_builder_view: "n \<le> length es \<Longrightarrow> view (snapshot_builder es n) = fold event_effect (take n es) (\<lambda>s. Map.empty)"
  by (simp add: snapshot_builder_all apply_all_effects numbered_events view_new)

lemma snapshot_builder_rows:
  assumes "list_all md_valid es" "n \<le> length es"
  shows "length (builder_rows (snapshot_builder es n)) \<le> n"
proof -
  have "finite (known (\<lambda>s. Map.empty))" "card (known (\<lambda>s. Map.empty)) = 0" by (simp_all add: known_def)
  then have "finite (known (view (snapshot_builder es n)))" "card (known (view (snapshot_builder es n))) \<le> n"
    using known_effects [of "\<lambda>s. Map.empty" "take n es"] assms(2) by (simp_all add: snapshot_builder_view)
  then show ?thesis using rows_known [OF snapshot_builder_ok [OF assms]] by simp
qed

lemma late_subscriber:
  assumes es: "list_all md_valid es" "length es < 2 ^ 64 - 1" "n \<le> length es" "n < 2 ^ 32"
    and sid: "length session_id = kSessionLen" and ps: "list_all (packet_ok es) ps"
    and cover: "\<And>k. n < k \<Longrightarrow> k \<le> length es \<Longrightarrow> \<exists>p \<in> set ps. in_packet k p"
    and fetched: "fetch_snapshot recv c = (Inr (True, word_of_nat n, builder_rows (snapshot_builder es n)), c')"
  shows "\<exists>b. subscriber recv session_id c (map (packet_bytes session_id es) ps) = Inr b \<and>
    live (view b) = live (fold event_effect es (\<lambda>s. Map.empty)) \<and> last_seq b = word_of_nat (length es)"
proof -
  let ?sb = "snapshot_builder es n" and ?q = "word_of_nat n :: u64"
  let ?loaded = "builder_load ?q (builder_rows ?sb) new_builder"
  let ?b = "apply_all (numbered n (drop n es)) ?loaded"
  have "subscriber recv session_id c (map (packet_bytes session_id es) ps) = Inr ?b"
    using receive_packets [OF sid es(1) ps, of "(new_session session_id (?q + 1), ?loaded)"]
      deliver_feed [OF es(2,3,1) session_delivers_rest [OF es(2,3) ps cover]]
    by (simp add: subscriber_def fetched case_prod_unfold)
  moreover have whole: "fold event_effect (drop n es) (fold event_effect (take n es) v) = fold event_effect es v" for v
    by (metis append_take_drop_id comp_apply List.fold_append)
  have "live (view ?loaded) = live (view ?sb)" using load_rows [OF snapshot_builder_ok [OF es(1,3)]] by simp
  then have "live (view ?b) = live (view (apply_all (numbered n (drop n es)) ?sb))" by (rule apply_all_live)
  then have "live (view ?b) = live (fold event_effect es (\<lambda>s. Map.empty))"
    by (simp add: apply_all_effects numbered_events snapshot_builder_view [OF es(3)] whole)
  moreover have "last_seq ?b = word_of_nat (length es)"
    using es(3) by (cases "n = length es") (auto simp: apply_all_seq numbered_def builder_load_def last_map)
  ultimately show ?thesis by blast
qed

section \<open>Properties\<close>

text \<open>C3: the market data feed end to end: a feed of well-formed messages is run by the sequencer, its events are
  encoded, numbered and packed; a snapshot of the first \<open>n\<close> of them is served over TCP. A subscriber that joins
  late fetches the snapshot and receives datagrams of the session: any packets of the feed, in any order, repeated
  or overlapping, that together carry every event after the \<open>n\<close>-th, mixed with end-of-session packets. However
  the stream cuts its reads and writes, the exchange succeeds, and the subscriber ends with exactly the live
  orders of the sequencer's books (side, price and quantity, of every symbol and id) and the number of the last event.\<close>

theorem market_data_end_to_end:
  assumes "seq_ok st" "orders st = (\<lambda>s. Map.empty)" "list_all message_ok ms" "day_unique ms st" "has_md cb" "announced cb rnd ms st"
    and "on_messages cb rnd ms st = Some (st', out)"
    and "n \<le> length (mds out)" "n < 2 ^ 32" "length (mds out) < 2 ^ 64 - 1"
    and "length session_id = kSessionLen" "list_all (packet_ok (mds out)) ps"
    and "\<forall>k. n < k \<longrightarrow> k \<le> length (mds out) \<longrightarrow> (\<exists>p \<in> set ps. in_packet k p)"
    and "stream_send send sent" "send_up send" "stream_recv recv inp" "recv_up recv inp"
    and "serve_snapshot send (last_seq (snapshot_builder (mds out) n)) (builder_rows (snapshot_builder (mds out) n)) s = (res, s')"
    and "sent s' = sent s @ inp c"
  shows "res = Inr () \<and> (\<exists>b. subscriber recv session_id c (map (packet_bytes session_id (mds out)) ps) = Inr b \<and>
    live (view b) = live (orders st') \<and> last_seq b = word_of_nat (length (mds out)))"
proof -
  let ?es = "mds out" and ?sb = "snapshot_builder (mds out) n"
  have "prices_ok (orders st)" by (simp add: prices_ok_def assms(2))
  note run = run_events [OF assms(1,3,4) this assms(5,6,7)]
  have "list_all row_valid (builder_rows ?sb)" by (rule rows_valid [OF snapshot_builder_ok [OF run(1) assms(8)]])
  moreover have "length (builder_rows ?sb) < 2 ^ 32" using snapshot_builder_rows [OF run(1) assms(8)] assms(9) by simp
  note exchange = snapshot_transfer [OF assms(14,15,16,17) calculation this assms(18,19)]
  obtain c' where "fetch_snapshot recv c = (Inr (True, word_of_nat n, builder_rows ?sb), c')"
    using exchange(2) snapshot_builder_seq [OF assms(8)] by auto
  then show ?thesis
    using exchange(1) late_subscriber [OF run(1) assms(10,8,9,11,12)] assms(13) run(2) assms(2) by simp
qed

text \<open>A stream that moves one byte at a time.\<close>

definition byte_send :: "bytes send" where
  "byte_send data s = (case data of [] \<Rightarrow> (0, s) | b # bs \<Rightarrow> (1, s @ [b]))"

definition byte_recv :: "bytes recv" where
  "byte_recv k s = (if k = 0 then (0, [], s) else case s of [] \<Rightarrow> (0, [], s) | b # bs \<Rightarrow> (1, [b], bs))"

lemma byte_stream: "stream_send byte_send (\<lambda>s. s)" "send_up byte_send" "stream_recv byte_recv (\<lambda>s. s)" "recv_up byte_recv (\<lambda>s. s)"
  by (auto simp: stream_send_def send_up_def stream_recv_def recv_up_def byte_send_def byte_recv_def split: list.splits)

lemma demo_events:
  "length (mds (snd (the (on_messages both id demo_feed (new_sequencer demo_books None))))) = 3"
  by code_simp

theorem market_data_end_to_end_witness:
  "\<exists>st' out c b. on_messages both id demo_feed (new_sequencer demo_books None) = Some (st', out) \<and> length (mds out) = 3 \<and>
     subscriber byte_recv (replicate 10 7) c
       (map (packet_bytes (replicate 10 7) (mds out)) ([EndOfSession 4, Events 2 2] @ live_packets 3 1 2)) = Inr b \<and>
     live (view b) = live (orders st')"
proof -
  obtain st' out where run: "on_messages both id demo_feed (new_sequencer demo_books None) = Some (st', out)"
    using run_good [OF demo_books_ok(1) demo_feed_ok] by metis
  have len: "length (mds out) = 3" using demo_events run by simp
  let ?ps = "[EndOfSession 4, Events 2 2] @ live_packets 3 1 2" and ?sb = "snapshot_builder (mds out) 1"
  obtain res c where served: "serve_snapshot byte_send (last_seq ?sb) (builder_rows ?sb) [] = (res, c)" by fastforce
  have "list_all (packet_ok (mds out)) ?ps" "\<forall>k. 1 < k \<longrightarrow> k \<le> length (mds out) \<longrightarrow> (\<exists>p \<in> set ?ps. in_packet k p)"
    using live_packets_ok [of 3 2 1 "mds out"] len by (auto simp: packet_ok_def)
  from market_data_end_to_end [where session_id = "replicate 10 7" and c = c,
      OF demo_books_ok demo_feed_ok _ demo_feed_announced run _ _ _ _ this byte_stream served]
  have "\<exists>b. subscriber byte_recv (replicate 10 7) c (map (packet_bytes (replicate 10 7) (mds out)) ?ps) = Inr b \<and>
    live (view b) = live (orders st')"
    using len by (auto simp: kSessionLen_def)
  then show ?thesis using run len by blast
qed

end
