(* ===== verification/Bench_Programs.thy ===== *)
theory Bench_Programs
  imports Fuzz_Equiv Risk
begin

text \<open>
  The benchmark programs (\<open>cpp/bench/bench_v1.cpp\<close>, \<open>bench_v2.cpp\<close>, \<open>bench_threaded_scaling.cpp\<close>,
  \<open>bench_threaded_pinned.cpp\<close>, \<open>histogram.h\<close>): one workload of limit orders around a fixed price, on either
  engine, and on one book per thread. Random draws and clock readings are parameters, and so are the rounding
  of \<open>double\<close> and the system's answer to core pinning; the arguments and the printed wording are not modelled.
\<close>

section \<open>The workload\<close>

text \<open>One pass of the loop: the order that is added, and the state of the random engine behind it.\<close>

definition bench_request :: "'g dist \<Rightarrow> u64 \<Rightarrow> 'g \<Rightarrow> order_request \<times> 'g" where
  "bench_request draw next_id g =
     (let (side, g1) = draw 0 1 g;
          (offset, g2) = draw (-50) 50 g1;
          (qty, g3) = draw 1 100 g2
      in (\<lparr>req_id = next_id, req_side = (if side \<noteq> 0 then Buy else Sell), req_type = Limit,
           req_price = 10000 + offset, req_qty = word_of_int qty\<rparr>, g3))"

definition bench_order :: "'g dist \<Rightarrow> u64 \<Rightarrow> 'g \<Rightarrow> int order \<times> 'g" where
  "bench_order draw next_id g =
     (let (side, g1) = draw 0 1 g;
          (offset, g2) = draw (-50) 50 g1;
          (qty, g3) = draw 1 100 g2
      in (\<lparr>o_id = next_id, o_side = (if side \<noteq> 0 then Buy else Sell), o_type = Limit,
           o_price = 10000 + offset, o_qty = word_of_int qty, o_timestamp_ns = 0\<rparr>, g3))"

fun bench_loop_v1 :: "'g dist \<Rightarrow> nat \<Rightarrow> 'g \<Rightarrow> u64 \<Rightarrow> int book1 \<Rightarrow> int book1" where
  "bench_loop_v1 draw 0 g next_id b = b"
| "bench_loop_v1 draw (Suc n) g next_id b =
     (case bench_order draw next_id g of (o1, g1) \<Rightarrow>
        (case book1_add b o1 of (b1, trades) \<Rightarrow> bench_loop_v1 draw n g1 (next_id + 1) b1))"

fun bench_loop_v2 :: "'g dist \<Rightarrow> nat \<Rightarrow> 'g \<Rightarrow> u64 \<Rightarrow> book \<Rightarrow> (book_error + book) option" where
  "bench_loop_v2 draw 0 g next_id b = Some (Inr b)"
| "bench_loop_v2 draw (Suc n) g next_id b =
     (case bench_request draw next_id g of (o1, g1) \<Rightarrow> do {
        (r, b1, trades) \<leftarrow> book_add b o1;
        case r of Inl e \<Rightarrow> Some (Inl e) | Inr _ \<Rightarrow> bench_loop_v2 draw n g1 (next_id + 1) b1
      })"

section \<open>The percentile report\<close>

record percentiles =
  pc_ops :: u64
  pc_50 :: u64
  pc_99 :: u64
  pc_999 :: u64
  pc_max :: u64

text \<open>\<open>p\<close> is the constant's \<open>double\<close>; the size is converted, multiplied and truncated. There is a sample at least.\<close>

definition pct :: "(rat \<Rightarrow> rat) \<Rightarrow> u64 list \<Rightarrow> rat \<Rightarrow> u64" where
  "pct rnd ns p = ns ! nat \<lfloor>rnd (rnd p * rnd (of_nat (length ns - 1)))\<rfloor>"

definition print_percentiles :: "(rat \<Rightarrow> rat) \<Rightarrow> u64 list \<Rightarrow> u64 \<Rightarrow> percentiles" where
  "print_percentiles rnd latencies total_ops =
     (let ns = sort latencies
      in \<lparr>pc_ops = total_ops, pc_50 = pct rnd ns (50 / 100), pc_99 = pct rnd ns (99 / 100), pc_999 = pct rnd ns (999 / 1000),
          pc_max = last ns\<rparr>)"

text \<open>The clock is read before the loop and twice around every \<open>add\<close>.\<close>

definition latencies :: "(nat \<Rightarrow> int) \<Rightarrow> nat \<Rightarrow> u64 list" where
  "latencies clock n = map (\<lambda>i. word_of_int (clock (2 * i + 2) - clock (2 * i + 1))) [0..<n]"

definition bench_v1 :: "(rat \<Rightarrow> rat) \<Rightarrow> (nat \<Rightarrow> int) \<Rightarrow> 'g dist \<Rightarrow> 'g \<Rightarrow> nat \<Rightarrow> percentiles \<times> nat" where
  "bench_v1 rnd clock draw rng n =
     (let b = bench_loop_v1 draw n rng 1 new_book1
      in (print_percentiles rnd (latencies clock n) (word_of_nat n), depth1 b))"

definition bench_v2 ::
    "(rat \<Rightarrow> rat) \<Rightarrow> (nat \<Rightarrow> int) \<Rightarrow> 'g dist \<Rightarrow> 'g \<Rightarrow> nat \<Rightarrow> (book_error + percentiles \<times> nat \<times> nat) option" where
  "bench_v2 rnd clock draw rng n = do {
     book \<leftarrow> new_book 1048576 20000;
     r \<leftarrow> bench_loop_v2 draw n rng 1 book;
     Some (case r of Inl e \<Rightarrow> Inl e
       | Inr b \<Rightarrow> Inr (print_percentiles rnd (latencies clock n) (word_of_nat n), depth b, level_array_growths b))
   }"

section \<open>One book per thread\<close>

text \<open>\<open>run_symbol\<close> as a thread: a step is one pass of its loop, or the end, where it writes its statistics.\<close>

datatype 'g phase = Adding nat 'g u64 | Finished | Uncaught book_error

record 'g symbol_thread =
  sy_phase :: "'g phase"
  sy_book :: book
  sy_ops_done :: u64

definition run_symbol :: "'g dist \<Rightarrow> (u64 \<Rightarrow> 'g) \<Rightarrow> nat \<Rightarrow> nat \<Rightarrow> ((book_error + book) \<times> u64) option" where
  "run_symbol draw seed n_ops symbol_id = do {
     book \<leftarrow> new_book 1048576 20000;
     r \<leftarrow> bench_loop_v2 draw n_ops (seed (1000 + word_of_nat symbol_id)) 1 book;
     Some (r, case r of Inl e \<Rightarrow> 0 | Inr b \<Rightarrow> word_of_nat n_ops)
   }"

definition start_symbol :: "(u64 \<Rightarrow> 'g) \<Rightarrow> nat \<Rightarrow> nat \<Rightarrow> 'g symbol_thread option" where
  "start_symbol seed n_ops symbol_id = do {
     book \<leftarrow> new_book 1048576 20000;
     Some \<lparr>sy_phase = Adding n_ops (seed (1000 + word_of_nat symbol_id)) 1, sy_book = book, sy_ops_done = 0\<rparr>
   }"

definition symbol_step :: "'g dist \<Rightarrow> nat \<Rightarrow> 'g symbol_thread \<Rightarrow> 'g symbol_thread option" where
  "symbol_step draw n_ops t =
     (case sy_phase t of
        Adding 0 g next_id \<Rightarrow> Some (t\<lparr>sy_phase := Finished, sy_ops_done := word_of_nat n_ops\<rparr>)
      | Adding (Suc n) g next_id \<Rightarrow>
          (case bench_request draw next_id g of (o1, g1) \<Rightarrow> do {
             (r, b1, trades) \<leftarrow> book_add (sy_book t) o1;
             Some (case r of Inl e \<Rightarrow> t\<lparr>sy_phase := Uncaught e, sy_book := b1\<rparr>
               | Inr _ \<Rightarrow> t\<lparr>sy_phase := Adding n g1 (next_id + 1), sy_book := b1\<rparr>)
           })
      | _ \<Rightarrow> None)"

text \<open>The threads of one round, and a schedule that says whose turn it is.\<close>

fun start_threads :: "(u64 \<Rightarrow> 'g) \<Rightarrow> nat \<Rightarrow> nat list \<Rightarrow> 'g symbol_thread list option" where
  "start_threads seed n_ops [] = Some []"
| "start_threads seed n_ops (s # ss) = do {
     t \<leftarrow> start_symbol seed n_ops s; ts \<leftarrow> start_threads seed n_ops ss; Some (t # ts) }"

fun run_threads :: "'g dist \<Rightarrow> nat \<Rightarrow> nat list \<Rightarrow> 'g symbol_thread list \<Rightarrow> 'g symbol_thread list option" where
  "run_threads draw n_ops [] ts = Some ts"
| "run_threads draw n_ops (s # schedule) ts =
     (if s < length ts then do {
        t \<leftarrow> symbol_step draw n_ops (ts ! s); run_threads draw n_ops schedule (ts[s := t]) }
      else None)"

text \<open>A round of \<open>main\<close>: when the threads are joined, and the line printed for it. \<open>wall\<close> is the measured time in
  seconds; whether a thread could be pinned to a core is the system's answer (\<open>pin\<close>).\<close>

definition joined :: "'g symbol_thread list \<Rightarrow> bool" where
  "joined ts \<longleftrightarrow> list_all (\<lambda>t. sy_phase t = Finished) ts"

record scaling_line =
  sl_total_ops :: u64
  sl_aggregate_m :: rat
  sl_per_symbol_m :: rat

definition scaling_line_of :: "(rat \<Rightarrow> rat) \<Rightarrow> rat \<Rightarrow> nat \<Rightarrow> nat \<Rightarrow> scaling_line" where
  "scaling_line_of rnd wall n ops_per_symbol =
     (let total_ops = word_of_nat n * word_of_nat ops_per_symbol;
          agg_m = rnd (rnd (rnd (of_nat (unat total_ops)) / wall) / 1000000)
      in \<lparr>sl_total_ops = total_ops, sl_aggregate_m = agg_m, sl_per_symbol_m = rnd (agg_m / of_nat n)\<rparr>)"

definition core_of :: "nat \<Rightarrow> nat \<Rightarrow> nat" where
  "core_of hw s = (if 0 < hw then s mod hw else s)"

definition pinned_count :: "(nat \<Rightarrow> bool) \<Rightarrow> nat \<Rightarrow> nat \<Rightarrow> nat" where
  "pinned_count pin hw n = sum_list (map (\<lambda>s. if pin (core_of hw s) then 1 else 0) [0..<n])"

section \<open>The engines on the workload\<close>

lemma bench_draws:
  assumes "draws_within draw" "bench_request draw next_id g = (t, g')"
  shows "\<exists>p. fo_kind p = AddLimit \<and> fo_id p = next_id \<and> 9950 \<le> fo_price p \<and> fo_price p \<le> 10050 \<and> unat (fo_qty p) \<le> 100 \<and>
    request_of p = t \<and> bench_order draw next_id g = (order_of p, g')"
proof -
  obtain sd g1 where sd: "draw 0 1 g = (sd, g1)" by fastforce
  obtain off g2 where off: "draw (-50) 50 g1 = (off, g2)" by fastforce
  obtain q g3 where q: "draw 1 100 g2 = (q, g3)" by fastforce
  let ?p = "\<lparr>fo_kind = AddLimit, fo_id = next_id, fo_is_buy = (sd \<noteq> 0), fo_price = 10000 + off, fo_qty = word_of_int q\<rparr>"
  have "request_of ?p = t \<and> bench_order draw next_id g = (order_of ?p, g')"
    using assms(2) by (simp add: bench_request_def bench_order_def sd off q request_of_def order_of_def type_of_kind_def)
  moreover have "9950 \<le> fo_price ?p \<and> fo_price ?p \<le> 10050 \<and> unat (fo_qty ?p) \<le> 100"
    using drawn [OF assms(1) off] drawn_qty [OF assms(1) q] by simp
  ultimately show ?thesis by (intro exI [of _ ?p]) simp
qed

text \<open>While fewer orders rest than the arena has nodes, the array engine does what the tree engine does.\<close>

lemma bench_in_step:
  assumes "draws_within draw"
  shows "in_step 9950 10050 1048576 n b b1 \<Longrightarrow> unat next_id = n \<Longrightarrow> n + k \<le> 2 ^ 40 \<Longrightarrow>
    (\<And>i. i < k \<Longrightarrow> depth1 (bench_loop_v1 draw i g next_id b1) < 2 ^ 20) \<Longrightarrow>
    \<exists>b'. bench_loop_v2 draw k g next_id b = Some (Inr b') \<and>
      in_step 9950 10050 1048576 (n + k) b' (bench_loop_v1 draw k g next_id b1)"
proof (induction k arbitrary: n b b1 g next_id)
  case (Suc k)
  obtain t g1 where t: "bench_request draw next_id g = (t, g1)" by fastforce
  obtain p where p: "fo_kind p = AddLimit" "fo_id p = next_id" "9950 \<le> fo_price p" "fo_price p \<le> 10050"
    "unat (fo_qty p) \<le> 100" "request_of p = t" "bench_order draw next_id g = (order_of p, g1)"
    using bench_draws [OF assms t] by blast
  have room: "depth b < unat (1048576 :: u32)"
    using Suc.prems(4) [of 0] in_step_depth(2) [OF Suc.prems(1)] by simp
  obtain b' b1' ts where add: "book_add b t = Some (Inr (), b', ts)" "book1_add b1 (order_of p) = (b1', ts)"
    "in_step 9950 10050 1048576 (Suc n) b' b1'"
    using in_step_add [OF Suc.prems(1) room _ _ _ p(3,4,5)] p(1,2,6) Suc.prems(2,3) by fastforce
  have "unat (next_id + 1) = Suc n" using next_id_unat [OF Suc.prems(2,3)] .
  moreover have "depth1 (bench_loop_v1 draw i g1 (next_id + 1) b1') < 2 ^ 20" if "i < k" for i
    using Suc.prems(4) [of "Suc i"] that p(7) add(2) by simp
  ultimately show ?case using Suc.IH [OF add(3)] Suc.prems(3) p(7) t add(1,2) by simp
qed simp

lemma bench_start:
  obtains b where "new_book 1048576 20000 = Some b" "in_step 9950 10050 1048576 1 b new_book1"
    "level_array_growths b = 0"
proof -
  obtain b where b: "new_book 1048576 20000 = Some b" "wf_book b" "book_abs b = spec_empty" "arena_capacity b = 1048576"
    using new_book_ok [of 20000 1048576] by auto
  have "initial_window b = 20000" "\<not> have_base b" "level_array_growths b = 0"
    using b(1) by (auto simp: new_book_def bind_eq_Some_conv)
  then show thesis
    using b new_book1_wf
    by (intro that [OF b(1)]) (simp_all add: in_step_def axis_ok_def small_book_def resting_ids_def spec_empty_def kMaxLevels_def)
qed

text \<open>As many orders as the arena has nodes always fit.\<close>

lemma bench_depth:
  assumes "draws_within draw" "k \<le> 2 ^ 20" "i < k"
  shows "depth1 (bench_loop_v1 draw i g 1 new_book1) < 2 ^ 20"
  using assms(3)
proof (induction i rule: less_induct)
  case (less i)
  obtain b where b: "new_book 1048576 20000 = Some b" "in_step 9950 10050 1048576 1 b new_book1" by (rule bench_start)
  have "\<exists>b'. bench_loop_v2 draw i g 1 b = Some (Inr b') \<and>
      in_step 9950 10050 1048576 (1 + i) b' (bench_loop_v1 draw i g 1 new_book1)"
    by (rule bench_in_step [OF assms(1) b(2)]) (use less assms(2) in auto)
  then show ?case using in_step_depth less.prems assms(2) by fastforce
qed

section \<open>Threads\<close>

text \<open>What a thread is going to end with.\<close>

definition outcome :: "'g dist \<Rightarrow> nat \<Rightarrow> 'g symbol_thread \<Rightarrow> ((book_error + book) \<times> u64) option" where
  "outcome draw n_ops t =
     (case sy_phase t of
        Adding n g next_id \<Rightarrow> map_option (\<lambda>r. (r, case r of Inl e \<Rightarrow> 0 | Inr b \<Rightarrow> word_of_nat n_ops)) (bench_loop_v2 draw n g next_id (sy_book t))
      | Finished \<Rightarrow> Some (Inr (sy_book t), sy_ops_done t)
      | Uncaught e \<Rightarrow> Some (Inl e, 0))"

lemma step_outcome:
  assumes "symbol_step draw n_ops t = Some t'"
  shows "outcome draw n_ops t' = outcome draw n_ops t"
proof (cases "sy_phase t")
  case (Adding n g next_id)
  show ?thesis
  proof (cases n)
    case 0
    then show ?thesis using assms Adding by (auto simp: symbol_step_def outcome_def)
  next
    case (Suc m)
    obtain o1 g1 where o1: "bench_request draw next_id g = (o1, g1)" by fastforce
    obtain r b1 trades where add: "book_add (sy_book t) o1 = Some (r, b1, trades)"
      using assms Adding Suc o1 by (auto simp: symbol_step_def bind_eq_Some_conv)
    show ?thesis
      using assms by (cases r) (auto simp: symbol_step_def outcome_def Adding Suc o1 add)
  qed
qed (use assms in \<open>auto simp: symbol_step_def\<close>)

lemma threads_outcome:
  "run_threads draw n_ops schedule ts = Some ts' \<Longrightarrow> map (outcome draw n_ops) ts' = map (outcome draw n_ops) ts"
proof (induction schedule arbitrary: ts)
  case (Cons s schedule)
  then obtain t where t: "s < length ts" "symbol_step draw n_ops (ts ! s) = Some t"
    "run_threads draw n_ops schedule (ts[s := t]) = Some ts'"
    by (auto simp: bind_eq_Some_conv split: if_splits)
  have "map (outcome draw n_ops) (ts[s := t]) = map (outcome draw n_ops) ts"
    using step_outcome [OF t(2)] t(1) by (metis map_update list_update_id nth_map)
  then show ?case using Cons.IH [OF t(3)] by simp
qed simp

lemma started_outcome:
  "start_threads seed n_ops ss = Some ts \<Longrightarrow> map (outcome draw n_ops) ts = map (run_symbol draw seed n_ops) ss"
proof (induction ss arbitrary: ts)
  case (Cons s ss)
  obtain b where b: "new_book 1048576 20000 = Some b" by (rule bench_start)
  then show ?case
    using Cons by (auto simp: start_symbol_def bind_eq_Some_conv outcome_def run_symbol_def map_option_case split: option.splits)
qed simp

lemma run_symbol_ok:
  assumes "draws_within draw" "n_ops \<le> 2 ^ 20"
  shows "\<exists>b. run_symbol draw seed n_ops s = Some (Inr b, word_of_nat n_ops) \<and> wf_book b \<and>
    book_abs b = book1_abs (bench_loop_v1 draw n_ops (seed (1000 + word_of_nat s)) 1 new_book1)"
proof -
  let ?g = "seed (1000 + word_of_nat s)"
  obtain b where b: "new_book 1048576 20000 = Some b" "in_step 9950 10050 1048576 1 b new_book1" by (rule bench_start)
  have "\<exists>b'. bench_loop_v2 draw n_ops ?g 1 b = Some (Inr b') \<and>
      in_step 9950 10050 1048576 (1 + n_ops) b' (bench_loop_v1 draw n_ops ?g 1 new_book1)"
    by (rule bench_in_step [OF assms(1) b(2)]) (use bench_depth [OF assms] assms(2) in auto)
  then show ?thesis using b(1) by (auto simp: run_symbol_def in_step_def)
qed

lemma outcome_progress:
  assumes "outcome draw n_ops t = Some (Inr b, k)"
  shows "sy_phase t = Finished \<and> sy_book t = b \<and> sy_ops_done t = k \<or>
    (\<exists>m g i t'. sy_phase t = Adding m g i \<and> symbol_step draw n_ops t = Some t')"
proof (cases "sy_phase t")
  case (Adding m g i)
  show ?thesis
  proof (cases m)
    case (Suc m')
    obtain o1 g1 where o1: "bench_request draw i g = (o1, g1)" by fastforce
    obtain r b1 trades where "book_add (sy_book t) o1 = Some (r, b1, trades)"
      using assms Adding Suc o1 by (auto simp: outcome_def bind_eq_Some_conv)
    then show ?thesis using Adding Suc o1 by (simp add: symbol_step_def)
  qed (use Adding in \<open>simp add: symbol_step_def\<close>)
qed (use assms in \<open>auto simp: outcome_def\<close>)

text \<open>A thread that is scheduled often enough finishes.\<close>

lemma step_phase:
  assumes "symbol_step draw n_ops t = Some t'" "sy_phase t = Adding m g nx"
  shows "(case sy_phase t' of Adding m g k \<Rightarrow> Suc m | _ \<Rightarrow> 0) < Suc m"
proof (cases m)
  case (Suc n)
  obtain o1 g1 where o1: "bench_request draw nx g = (o1, g1)" by fastforce
  obtain r b1 trades where add: "book_add (sy_book t) o1 = Some (r, b1, trades)"
    using assms Suc o1 by (auto simp: symbol_step_def bind_eq_Some_conv)
  show ?thesis using assms by (cases r) (auto simp: symbol_step_def Suc o1 add)
qed (use assms in \<open>auto simp: symbol_step_def\<close>)

lemma finish_one:
  assumes "i < length ts" "outcome draw n_ops (ts ! i) = Some (Inr b, k)"
  shows "\<exists>schedule t. run_threads draw n_ops schedule ts = Some (ts[i := t]) \<and> sy_phase t = Finished"
  using assms
proof (induction "case sy_phase (ts ! i) of Adding m g k \<Rightarrow> Suc m | _ \<Rightarrow> 0" arbitrary: ts rule: less_induct)
  case less
  from outcome_progress [OF less.prems(2)] show ?case
  proof (elim disjE exE conjE)
    assume "sy_phase (ts ! i) = Finished"
    then show ?thesis by (intro exI [of _ "[]"] exI [of _ "ts ! i"]) simp
  next
    fix m g nx t' assume t: "sy_phase (ts ! i) = Adding m g nx" "symbol_step draw n_ops (ts ! i) = Some t'"
    have out: "outcome draw n_ops t' = Some (Inr b, k)" using step_outcome [OF t(2)] less.prems(2) by simp
    have "(case sy_phase t' of Adding m g k \<Rightarrow> Suc m | _ \<Rightarrow> 0) < Suc m"
      using step_phase [OF t(2,1)] .
    then have "\<exists>schedule t. run_threads draw n_ops schedule (ts[i := t']) = Some (ts[i := t', i := t]) \<and> sy_phase t = Finished"
      using less.hyps [of "ts[i := t']"] less.prems(1) t(1) out by simp
    then obtain schedule t where "run_threads draw n_ops schedule (ts[i := t']) = Some (ts[i := t])" "sy_phase t = Finished"
      by auto
    then show ?thesis using t(2) less.prems(1) by (intro exI [of _ "i # schedule"] exI [of _ t]) simp
  qed
qed

section \<open>Percentiles\<close>

lemma pct_index:
  assumes rnd: "rounds_to_nearest rnd" and m: "m < 2 ^ 53" and p: "0 \<le> p" "p \<le> q" "q \<le> 1"
  shows "nat \<lfloor>rnd (rnd p * rnd (of_nat m))\<rfloor> \<le> nat \<lfloor>rnd (rnd q * rnd (of_nat m))\<rfloor>"
    "nat \<lfloor>rnd (rnd q * rnd (of_nat m))\<rfloor> \<le> m"
proof -
  have mono: "x \<le> y \<Longrightarrow> rnd x \<le> rnd y" for x y using rnd by (simp add: rounds_to_nearest_def)
  have rm: "rnd (of_nat m) = of_nat m"
    using rnd_double [OF rnd is_double_int, of "int m"] m by simp
  have one: "rnd 1 = 1" using rnd_double [OF rnd is_double_int, of 1] by simp
  have "rnd p * of_nat m \<le> rnd q * of_nat m" using mono [OF p(2)] by (simp add: mult_right_mono)
  then show "nat \<lfloor>rnd (rnd p * rnd (of_nat m))\<rfloor> \<le> nat \<lfloor>rnd (rnd q * rnd (of_nat m))\<rfloor>"
    unfolding rm by (intro nat_mono floor_mono mono)
  have "rnd q \<le> 1" using mono [OF p(3)] one by simp
  then have "rnd q * of_nat m \<le> of_nat m" using mult_right_mono [of "rnd q" 1 "rat_of_nat m"] by simp
  then have "rnd (rnd q * of_nat m) \<le> of_nat m" using mono rm by metis
  then show "nat \<lfloor>rnd (rnd q * rnd (of_nat m))\<rfloor> \<le> m" unfolding rm by (simp add: floor_le_iff nat_le_iff)
qed

text \<open>The operations of a joined round are the total that is printed, as the threads counted them.\<close>

lemma round_total:
  assumes "draws_within draw" "n_ops \<le> 2 ^ 20"
    and "start_threads seed n_ops [0..<n] = Some ts" "run_threads draw n_ops schedule ts = Some ts'" "joined ts'"
  shows "sum_list (map sy_ops_done ts') = sl_total_ops (scaling_line_of rnd wall n n_ops)"
proof -
  have out: "map (outcome draw n_ops) ts' = map (run_symbol draw seed n_ops) [0..<n]"
    using threads_outcome [OF assms(4)] started_outcome [OF assms(3)] by simp
  have len: "length ts' = n" using arg_cong [OF out, of length] by simp
  have "sy_ops_done (ts' ! i) = word_of_nat n_ops" if "i < n" for i
  proof -
    have "outcome draw n_ops (ts' ! i) = run_symbol draw seed n_ops i"
      using arg_cong [OF out, of "\<lambda>xs. xs ! i"] that len by simp
    moreover have "sy_phase (ts' ! i) = Finished" using assms(5) that len by (simp add: joined_def list_all_length)
    ultimately show ?thesis using run_symbol_ok [OF assms(1,2), of seed i] by (auto simp: outcome_def)
  qed
  then have "map sy_ops_done ts' = replicate n (word_of_nat n_ops)" using len by (simp add: list_eq_iff_nth_eq)
  then show ?thesis by (simp add: scaling_line_of_def sum_list_replicate Let_def)
qed

section \<open>Properties\<close>

text \<open>The two single-threaded benchmarks measure the same work: on the same random draws, and as long as fewer
  than 2^20 orders rest at once, the array engine's run ends without an exception, with the depth the tree
  engine's run ends with.\<close>

theorem bench_same_work:
  assumes "draws_within draw" "n \<le> 2 ^ 39" "\<forall>i < n. depth1 (bench_loop_v1 draw i rng 1 new_book1) < 2 ^ 20"
  shows "\<exists>report growths. bench_v2 rnd clock draw rng n = Some (Inr (report, snd (bench_v1 rnd clock draw rng n), growths))"
proof -
  obtain b where b: "new_book 1048576 20000 = Some b" "in_step 9950 10050 1048576 1 b new_book1" by (rule bench_start)
  have "\<exists>b'. bench_loop_v2 draw n rng 1 b = Some (Inr b') \<and>
      in_step 9950 10050 1048576 (1 + n) b' (bench_loop_v1 draw n rng 1 new_book1)"
    by (rule bench_in_step [OF assms(1) b(2)]) (use assms(2,3) in auto)
  then obtain b' where run: "bench_loop_v2 draw n rng 1 b = Some (Inr b')"
    and st: "in_step 9950 10050 1048576 (1 + n) b' (bench_loop_v1 draw n rng 1 new_book1)" by blast
  show ?thesis using b(1) run in_step_depth(2) [OF st] by (simp add: bench_v1_def bench_v2_def Let_def)
qed

theorem bench_same_work_witness:
  "\<exists>report growths. bench_v2 rnd clock demo_dist 5 10 = Some (Inr (report, 7, growths))"
proof -
  have "depth1 (bench_loop_v1 demo_dist 10 5 1 new_book1) = 7" by code_simp
  then have "snd (bench_v1 rnd clock demo_dist 5 10) = 7" by (simp only: bench_v1_def Let_def snd_conv)
  moreover have "\<forall>i < 10. depth1 (bench_loop_v1 demo_dist i 5 1 new_book1) < 2 ^ 20"
    using bench_depth [OF demo_dist_within, of 10 _ 5] by simp
  ultimately show ?thesis
    using bench_same_work [OF demo_dist_within, of 10 5 rnd clock] by simp
qed

text \<open>C29: threads that each own a book do not interfere: in every interleaving of the symbols' threads, no thread
  throws, a thread that has not finished can take its next step, and one that has finished has done all its
  operations and holds the book of its own sequential run, the orders the reference engine would hold.
  For up to \<open>2 ^ 20\<close> operations a thread, as many orders as its arena has nodes, and draws in the range asked
  for.\<close>

theorem threads_isolated:
  assumes "draws_within draw" "n_ops \<le> 2 ^ 20"
    and "start_threads seed n_ops symbols = Some ts" "run_threads draw n_ops schedule ts = Some ts'" "i < length symbols"
  shows "(sy_phase (ts' ! i) = Finished \<and> sy_ops_done (ts' ! i) = word_of_nat n_ops \<and>
      run_symbol draw seed n_ops (symbols ! i) = Some (Inr (sy_book (ts' ! i)), word_of_nat n_ops) \<and>
      book_abs (sy_book (ts' ! i)) =
        book1_abs (bench_loop_v1 draw n_ops (seed (1000 + word_of_nat (symbols ! i))) 1 new_book1)) \<or>
    (\<exists>m g k t. sy_phase (ts' ! i) = Adding m g k \<and> symbol_step draw n_ops (ts' ! i) = Some t)"
proof -
  have all: "map (outcome draw n_ops) ts' = map (run_symbol draw seed n_ops) symbols"
    using threads_outcome [OF assms(4)] started_outcome [OF assms(3)] by simp
  then have "length ts' = length symbols" by (metis length_map)
  then have "outcome draw n_ops (ts' ! i) = run_symbol draw seed n_ops (symbols ! i)"
    using arg_cong [OF all, of "\<lambda>xs. xs ! i"] assms(5) by simp
  moreover obtain b where b: "run_symbol draw seed n_ops (symbols ! i) = Some (Inr b, word_of_nat n_ops)"
    "book_abs b = book1_abs (bench_loop_v1 draw n_ops (seed (1000 + word_of_nat (symbols ! i))) 1 new_book1)"
    using run_symbol_ok [OF assms(1,2)] by blast
  ultimately show ?thesis using outcome_progress [of draw n_ops "ts' ! i" b] b by auto
qed

theorem threads_isolated_witness:
  "\<exists>ts schedule ts'. start_threads (\<lambda>k. int (unat k)) 2 [0, 1] = Some ts \<and> run_threads demo_dist 2 schedule ts = Some ts' \<and>
     sy_phase (ts' ! 1) = Finished \<and>
     run_symbol demo_dist (\<lambda>k. int (unat k)) 2 1 = Some (Inr (sy_book (ts' ! 1)), 2)"
proof -
  let ?seed = "\<lambda>k. int (unat k)"
  obtain b where b: "new_book 1048576 20000 = Some b" by (rule bench_start)
  then obtain ts where ts: "start_threads ?seed 2 [0, 1] = Some ts" by (simp add: start_symbol_def)
  note out = started_outcome [OF ts, of demo_dist]
  have len: "length ts = 2" using arg_cong [OF out, of length] by simp
  obtain b' where "run_symbol demo_dist ?seed 2 1 = Some (Inr b', word_of_nat 2)"
    using run_symbol_ok [OF demo_dist_within, of 2 ?seed 1] by auto
  then have "outcome demo_dist 2 (ts ! 1) = Some (Inr b', word_of_nat 2)"
    using arg_cong [OF out, of "\<lambda>xs. xs ! 1"] len by simp
  then obtain schedule t where run: "run_threads demo_dist 2 schedule ts = Some (ts[1 := t])" "sy_phase t = Finished"
    using finish_one [of 1 ts demo_dist 2 b'] len by auto
  then have "sy_phase (ts[1 := t] ! 1) = Finished" using len by simp
  with threads_isolated [OF demo_dist_within _ ts run(1), of 1] show ?thesis using ts run(1) by auto
qed

text \<open>The percentile report reads inside the samples: with rounding to nearest, for any non-empty list of
  fewer than 2^53 samples, the reported percentiles are samples, in order, and none is above the maximum.\<close>

theorem percentiles_in_order:
  assumes "rounds_to_nearest rnd" "ns \<noteq> []" "length ns < 2 ^ 53" "print_percentiles rnd ns k = r"
  shows "pc_50 r \<in> set ns \<and> pc_99 r \<in> set ns \<and> pc_999 r \<in> set ns \<and>
    pc_50 r \<le> pc_99 r \<and> pc_99 r \<le> pc_999 r \<and> pc_999 r \<le> pc_max r \<and> pc_max r = Max (set ns)"
proof -
  let ?ns = "sort ns" and ?m = "length ns - 1"
  define idx where "idx p = nat \<lfloor>rnd (rnd p * rnd (of_nat ?m))\<rfloor>" for p
  have m: "?m < 2 ^ 53" "?m < length ns" using assms(2,3) by auto
  note ix = pct_index [OF assms(1) m(1), folded idx_def]
  have i: "idx (50 / 100) \<le> idx (99 / 100)" "idx (99 / 100) \<le> idx (999 / 1000)" "idx (999 / 1000) \<le> ?m"
    using ix(1) [of "50 / 100" "99 / 100"] ix(1) [of "99 / 100" "999 / 1000"] ix(2) [of 0 "999 / 1000"] by simp_all
  have mono: "?ns ! a \<le> ?ns ! b" if "a \<le> b" "b \<le> ?m" for a b
    using that m(2) by (intro sorted_nth_mono) simp_all
  have mem: "?ns ! a \<in> set ns" if "a \<le> ?m" for a using that m(2) nth_mem [of a ?ns] by simp
  have last: "last ?ns = ?ns ! ?m" using assms(2) last_conv_nth [of ?ns] by (metis length_sort length_0_conv)
  have "Max (set ns) = last ?ns"
  proof (rule Max_eqI)
    show "x \<le> last ?ns" if "x \<in> set ns" for x
    proof -
      have "x \<in> set ?ns" using that by simp
      then obtain a where "a < length ?ns" "?ns ! a = x" by (auto simp only: in_set_conv_nth)
      then show ?thesis using mono [of a ?m] last by simp
    qed
  qed (use mem [of ?m] last in simp_all)
  moreover have "pc_50 r = ?ns ! idx (50 / 100)" "pc_99 r = ?ns ! idx (99 / 100)" "pc_999 r = ?ns ! idx (999 / 1000)" "pc_max r = last ?ns"
    using assms(4) by (auto simp: print_percentiles_def pct_def idx_def Let_def)
  ultimately show ?thesis using mono mem last i by (simp only:)
qed

end
