(* ===== verification/Ring_Channel.thy ===== *)
theory Ring_Channel
  imports Spsc_Ring "HOL-Library.Monad_Syntax"
begin

text \<open>
  A ring between two threads that is closed by an atomic flag, as the threaded pipelines use it
  (\<open>cpp/tests/test_threaded.cpp\<close>, \<open>cpp/feed/tests/test_concurrent_sharded_pipeline.cpp\<close>): one side pushes until the
  item is in and at last stores the flag, the other polls until it has seen the flag and found the ring empty.
  The rings are those of \<open>Spsc_Ring\<close>, one access to shared memory per action, and so are the flags: the value
  that is stored last is published with the ring's position, and a load may still read the old value until the
  new one has been read.
\<close>

section \<open>A ring and its flag\<close>

text \<open>Where a polling loop is: \<open>while (true) { if (pop) ... else if (done.load() && empty()) break; }\<close>, or with
  a second \<open>pop\<close> in place of \<open>empty\<close> (\<open>Draining\<close>).\<close>

datatype poll_phase = Popping | AtFlag | AtEmpty | Draining | PollEnd

record 'a channel =
  ch_ring :: "'a shared"
  ch_flag :: "nat option"
  ch_seen :: bool
  ch_phase :: poll_phase

definition new_channel :: "'a \<Rightarrow> u64 \<Rightarrow> 'a channel" where
  "new_channel blank capacity_pow2 =
     \<lparr>ch_ring = new_shared blank capacity_pow2, ch_flag = None, ch_seen = False, ch_phase = Popping\<rparr>"

text \<open>The four actions of a call, for \<open>push\<close> and for \<open>pop\<close>.\<close>

datatype ring_move = Call | Load nat | Cell | Store

fun push_move :: "'a \<Rightarrow> ring_move \<Rightarrow> 'a action" where
  "push_move x Call = PushCall x"
| "push_move x (Load n) = LoadHead n"
| "push_move x Cell = WriteCell"
| "push_move x Store = StoreTail"

fun pop_move :: "ring_move \<Rightarrow> 'a action" where
  "pop_move Call = PopCall"
| "pop_move (Load n) = LoadTail n"
| "pop_move Cell = ReadCell"
| "pop_move Store = StoreHead"

text \<open>\<open>while (!ring.push(x)) yield();\<close>: the answer tells whether \<open>x\<close> is in.\<close>

definition ch_push :: "'a \<Rightarrow> ring_move \<Rightarrow> 'a channel \<Rightarrow> ('a channel \<times> bool) option" where
  "ch_push x m c = do { (s, r) \<leftarrow> act (push_move x m) (ch_ring c); Some (c\<lparr>ch_ring := s\<rparr>, pushed r \<noteq> []) }"

text \<open>The release store of the flag, after the last push.\<close>

definition ch_close :: "'a channel \<Rightarrow> 'a channel" where
  "ch_close c = c\<lparr>ch_flag := Some (pushes (ch_ring c))\<rparr>"

text \<open>An action of the polling loop and the item it has popped, if any. The head that \<open>empty\<close> loads is the
  loop's own, so \<open>empty\<close> is one action: the load of the tail.\<close>

datatype poll_move = Pop ring_move | LoadDone bool | LoadEmpty nat

definition poll_pop :: "ring_move \<Rightarrow> 'a channel \<Rightarrow> ('a channel \<times> 'a list) option" where
  "poll_pop m c = do {
     (s, r) \<leftarrow> act (pop_move m) (ch_ring c);
     Some (c\<lparr>ch_ring := s,
             ch_phase := (case r of answer.Empty \<Rightarrow> if ch_phase c = Draining then PollEnd else AtFlag
                          | Popped _ \<Rightarrow> Popping | _ \<Rightarrow> ch_phase c)\<rparr>, popped r) }"

definition poll_done :: "bool \<Rightarrow> bool \<Rightarrow> 'a channel \<Rightarrow> 'a channel option" where
  "poll_done again b c =
     (if b then (case ch_flag c of None \<Rightarrow> None
        | Some n \<Rightarrow> Some (c\<lparr>ch_ring := (ch_ring c)\<lparr>sh_tail_seen := max (sh_tail_seen (ch_ring c)) n\<rparr>,
                           ch_seen := True, ch_phase := (if again then Draining else AtEmpty)\<rparr>))
      else if ch_seen c then None
      else Some (c\<lparr>ch_phase := Popping\<rparr>))"

definition poll_empty :: "nat \<Rightarrow> 'a channel \<Rightarrow> 'a channel option" where
  "poll_empty n c =
     (let s = ch_ring c
      in if sh_tail_seen s \<le> n \<and> n < length (sh_tails s)
         then Some (c\<lparr>ch_ring := s\<lparr>sh_tail_seen := n\<rparr>,
                      ch_phase := (if last (sh_heads s) = sh_tails s ! n then PollEnd else Popping)\<rparr>)
         else None)"

fun ch_poll :: "bool \<Rightarrow> poll_move \<Rightarrow> 'a channel \<Rightarrow> ('a channel \<times> 'a list) option" where
  "ch_poll again (Pop m) c = (if ch_phase c \<in> {Popping, Draining} then poll_pop m c else None)"
| "ch_poll again (LoadDone b) c = (if ch_phase c = AtFlag then map_option (\<lambda>c. (c, [])) (poll_done again b c) else None)"
| "ch_poll again (LoadEmpty n) c = (if ch_phase c = AtEmpty then map_option (\<lambda>c. (c, [])) (poll_empty n c) else None)"

section \<open>The channel's invariant\<close>

definition held :: "'a shared \<Rightarrow> 'a list" where
  "held s = (case sh_producer s of PIdle \<Rightarrow> [] | PCalled x _ \<Rightarrow> [x] | PRoom x _ _ \<Rightarrow> [x] | PWrote x _ \<Rightarrow> [x])"

definition channel_ok :: "nat \<Rightarrow> 'a channel \<Rightarrow> 'a list \<Rightarrow> 'a list \<Rightarrow> bool" where
  "channel_ok k c ps qs \<longleftrightarrow>
     shared_ok k (ch_ring c) ps qs \<and>
     (\<forall>n. ch_flag c = Some n \<longrightarrow> n = pushes (ch_ring c)) \<and>
     (ch_seen c \<longrightarrow> ch_flag c \<noteq> None \<and> sh_tail_seen (ch_ring c) = pushes (ch_ring c)) \<and>
     (ch_phase c \<in> {AtEmpty, Draining, PollEnd} \<longrightarrow> ch_seen c) \<and>
     (ch_phase c \<notin> {Popping, Draining} \<longrightarrow> sh_consumer (ch_ring c) = CIdle) \<and>
     (ch_phase c = PollEnd \<longrightarrow> pops (ch_ring c) = pushes (ch_ring c))"

lemma held_simps [simp]:
  "held (s\<lparr>sh_consumer := x\<rparr>) = held s" "held (s\<lparr>sh_heads := ws\<rparr>) = held s" "held (s\<lparr>sh_tail_seen := n\<rparr>) = held s"
  by (simp_all add: held_def)

lemma new_channel_ok:
  assumes "k < 64"
  shows "channel_ok k (new_channel blank (2 ^ k)) [] []" "held (ch_ring (new_channel blank (2 ^ k))) = []"
  using new_shared_ok [OF assms, of blank]
  by (simp_all add: channel_ok_def new_channel_def held_def new_shared_def)

lemma seen_ok:
  assumes "shared_ok k s ps qs" "sh_tail_seen s \<le> n" "n \<le> pushes s"
  shows "shared_ok k (s\<lparr>sh_tail_seen := n\<rparr>) ps qs"
  using assms by (auto simp: shared_ok_def consumer_ok_def split: consumer.splits)

lemma new_channel_simps [simp]: "ch_flag (new_channel blank n) = None" "ch_phase (new_channel blank n) = Popping"
  by (simp_all add: new_channel_def)

text \<open>What an action of one side leaves alone.\<close>

lemma push_frame:
  assumes "act (push_move x m) s = Some (s', r)"
  shows "popped r = []" "sh_consumer s' = sh_consumer s" "sh_heads s' = sh_heads s" "sh_tail_seen s' = sh_tail_seen s"
    "set (held s) \<subseteq> {x} \<Longrightarrow> set (held s') \<subseteq> {x} \<and> set (pushed r) \<subseteq> {x}" "pushed r \<noteq> [] \<Longrightarrow> held s' = []"
  using assms by (cases m; auto simp: held_def Let_def split: producer.splits if_splits)+

lemma pop_frame:
  assumes "act (pop_move m) s = Some (s', r)"
  shows "pushed r = []" "sh_producer s' = sh_producer s" "sh_tails s' = sh_tails s" "sh_tail_seen s \<le> sh_tail_seen s'"
    "r = answer.Empty \<Longrightarrow> sh_consumer s' = CIdle" "popped r = [] \<or> (\<exists>x. popped r = [x])"
  using assms by (cases m; auto simp: Let_def split: consumer.splits if_splits)+

lemma pushed_one: "set (pushed r) \<subseteq> {x} \<Longrightarrow> pushed r = (if pushed r \<noteq> [] then [x] else [])"
  by (cases r) auto

lemma ch_push_ok:
  assumes ok: "channel_ok k c ps qs" and opened: "ch_flag c = None" and x: "set (held (ch_ring c)) \<subseteq> {x}"
    and run: "ch_push x m c = Some (c', sent)"
  shows "channel_ok k c' (if sent then ps @ [x] else ps) qs" "ch_flag c' = None" "ch_phase c' = ch_phase c"
    "set (held (ch_ring c')) \<subseteq> {x}" "sent \<Longrightarrow> held (ch_ring c') = []"
proof -
  obtain s r where a: "act (push_move x m) (ch_ring c) = Some (s, r)" "c' = c\<lparr>ch_ring := s\<rparr>" "sent \<longleftrightarrow> pushed r \<noteq> []"
    using run by (auto simp: ch_push_def bind_eq_Some_conv)
  note frame = push_frame [OF a(1)]
  have seen: "\<not> ch_seen c" using ok opened by (auto simp: channel_ok_def)
  have "shared_ok k s (ps @ pushed r) qs"
    using act_ok [OF _ a(1)] ok frame(1) by (auto simp: channel_ok_def)
  then show "channel_ok k c' (if sent then ps @ [x] else ps) qs"
    using ok opened seen a(2,3) frame(2,3,5) x pushed_one [of r x]
    by (auto simp: channel_ok_def)
  show "ch_flag c' = None" "ch_phase c' = ch_phase c" "set (held (ch_ring c')) \<subseteq> {x}" "sent \<Longrightarrow> held (ch_ring c') = []"
    using opened a(2,3) frame(5,6) x by auto
qed

lemma ch_close_ok:
  assumes "channel_ok k c ps qs" "ch_flag c = None"
  shows "channel_ok k (ch_close c) ps qs"
  using assms by (auto simp: channel_ok_def ch_close_def)

lemma pop_empty:
  assumes ok: "shared_ok k s ps qs" and run: "act (pop_move m) s = Some (s', answer.Empty)" and seen: "sh_tail_seen s = pushes s"
  shows "pops s' = pushes s'"
proof -
  obtain n h where m: "m = Load n" "sh_consumer s = CCalled h" "sh_tail_seen s \<le> n" "n < length (sh_tails s)" "h = sh_tails s ! n"
    "s' = s\<lparr>sh_tail_seen := n, sh_consumer := CIdle\<rparr>"
    using run by (cases m) (auto split: consumer.splits if_splits)
  have "h = last (sh_heads s)" using ok m(2) by (simp add: shared_ok_def)
  then show ?thesis using head_meets_tail [OF ok m(3,4)] m(3,5,6) seen by simp
qed

lemma poll_pop_ok:
  assumes ok: "channel_ok k c ps qs" and phase: "ch_phase c \<in> {Popping, Draining}" and run: "poll_pop m c = Some (c', xs)"
  shows "channel_ok k c' ps (qs @ xs)"
proof -
  obtain s r where a: "act (pop_move m) (ch_ring c) = Some (s, r)" "xs = popped r"
    "c' = c\<lparr>ch_ring := s,
      ch_phase := (case r of answer.Empty \<Rightarrow> if ch_phase c = Draining then PollEnd else AtFlag | Popped _ \<Rightarrow> Popping | _ \<Rightarrow> ch_phase c)\<rparr>"
    using run by (auto simp: poll_pop_def bind_eq_Some_conv)
  note frame = pop_frame [OF a(1)]
  have s: "shared_ok k s ps (qs @ xs)"
    using act_ok [OF _ a(1)] ok frame(1) a(2) by (fastforce simp: channel_ok_def)
  have same: "pushes s = pushes (ch_ring c)" using frame(3) by (simp add: pushes_def)
  have "sh_tail_seen s \<le> pushes s" using s by (simp add: shared_ok_def)
  then have "ch_seen c \<longrightarrow> ch_flag c \<noteq> None \<and> sh_tail_seen s = pushes s"
    using ok frame(4) same by (fastforce simp: channel_ok_def)
  moreover have "pops s = pushes s" if "r = answer.Empty" "ch_phase c = Draining"
    using pop_empty [of k "ch_ring c" ps qs m s] ok a(1) that by (auto simp: channel_ok_def)
  moreover have "\<forall>n. ch_flag c = Some n \<longrightarrow> n = pushes s" "ch_phase c = Draining \<longrightarrow> ch_seen c"
    using ok same by (simp_all add: channel_ok_def)
  ultimately show ?thesis
    using phase frame(5) s unfolding channel_ok_def a(3) by (cases r; cases "ch_phase c") simp_all
qed

lemma poll_done_ok:
  assumes ok: "channel_ok k c ps qs" and phase: "ch_phase c = AtFlag" and run: "poll_done again b c = Some c'"
  shows "channel_ok k c' ps qs"
proof (cases b)
  case True
  then obtain n where n: "ch_flag c = Some n" and c':
    "c' = c\<lparr>ch_ring := (ch_ring c)\<lparr>sh_tail_seen := max (sh_tail_seen (ch_ring c)) n\<rparr>, ch_seen := True, ch_phase := (if again then Draining else AtEmpty)\<rparr>"
    using run by (auto simp: poll_done_def split: option.splits)
  have "n = pushes (ch_ring c)" "sh_tail_seen (ch_ring c) \<le> pushes (ch_ring c)"
    using ok n by (auto simp: channel_ok_def shared_ok_def)
  then show ?thesis
    using ok n phase seen_ok [of k "ch_ring c" ps qs "pushes (ch_ring c)"]
    by (auto simp: channel_ok_def c')
next
  case False
  then show ?thesis using ok run by (auto simp: channel_ok_def poll_done_def split: if_splits)
qed

lemma poll_empty_ok:
  assumes ok: "channel_ok k c ps qs" and phase: "ch_phase c = AtEmpty" and run: "poll_empty n c = Some c'"
  shows "channel_ok k c' ps qs"
proof -
  let ?s = "ch_ring c"
  have n: "sh_tail_seen ?s \<le> n" "n < length (sh_tails ?s)"
    and c': "c' = c\<lparr>ch_ring := ?s\<lparr>sh_tail_seen := n\<rparr>, ch_phase := (if last (sh_heads ?s) = sh_tails ?s ! n then PollEnd else Popping)\<rparr>"
    using run by (auto simp: poll_empty_def Let_def split: if_splits)
  have s: "shared_ok k ?s ps qs" "sh_tail_seen ?s = pushes ?s" "ch_seen c"
    using ok phase by (auto simp: channel_ok_def)
  note m = head_meets_tail [OF s(1) n]
  have "n = pushes ?s" using n(1) m(3) s(2) by simp
  then show ?thesis
    using ok phase m(1) seen_ok [OF s(1) n(1) m(3)] by (auto simp: channel_ok_def c')
qed

lemma ch_poll_ok:
  assumes "channel_ok k c ps qs" "ch_poll again m c = Some (c', xs)"
  shows "channel_ok k c' ps (qs @ xs)"
  using assms by (cases m) (auto split: if_splits dest: poll_pop_ok poll_done_ok poll_empty_ok)

lemma ch_poll_frame:
  assumes "ch_poll again m c = Some (c', xs)"
  shows "ch_flag c' = ch_flag c" "held (ch_ring c') = held (ch_ring c)" "xs = [] \<or> (\<exists>x. xs = [x])" "ch_phase c \<noteq> PollEnd"
    "xs \<noteq> [] \<Longrightarrow> ch_phase c' = Popping"
proof -
  have pop: "ch_flag c' = ch_flag c \<and> held (ch_ring c') = held (ch_ring c) \<and> (xs = [] \<or> (\<exists>x. xs = [x])) \<and>
      (xs \<noteq> [] \<longrightarrow> ch_phase c' = Popping)" if run: "poll_pop m c = Some (c', xs)" for m
  proof -
    obtain s r where a: "act (pop_move m) (ch_ring c) = Some (s, r)" "xs = popped r"
      "c' = c\<lparr>ch_ring := s,
        ch_phase := (case r of answer.Empty \<Rightarrow> if ch_phase c = Draining then PollEnd else AtFlag | Popped _ \<Rightarrow> Popping | _ \<Rightarrow> ch_phase c)\<rparr>"
      using run by (auto simp: poll_pop_def bind_eq_Some_conv)
    show ?thesis using pop_frame(2,6) [OF a(1)] by (cases r) (auto simp: a(2,3) held_def)
  qed
  show "ch_flag c' = ch_flag c" "held (ch_ring c') = held (ch_ring c)" "xs = [] \<or> (\<exists>x. xs = [x])" "ch_phase c \<noteq> PollEnd"
    "xs \<noteq> [] \<Longrightarrow> ch_phase c' = Popping"
    using assms pop
    by (cases m; auto simp: poll_done_def poll_empty_def Let_def split: if_splits option.splits)+
qed

lemma channel_popped: "channel_ok k c ps qs \<Longrightarrow> \<exists>rest. ps = qs @ rest"
  by (auto simp: channel_ok_def shared_ok_def intro: exI [of _ "drop (pops (ch_ring c)) ps"])

lemma channel_end: "channel_ok k c ps qs \<Longrightarrow> ch_phase c = PollEnd \<Longrightarrow> qs = ps \<and> ch_flag c \<noteq> None"
  by (auto simp: channel_ok_def shared_ok_def)

section \<open>Neither side gets stuck\<close>

text \<open>Actions of one polling loop until it has an item (the list), and of one \<open>push\<close> until the item is in.\<close>

inductive polls :: "bool \<Rightarrow> 'a channel \<Rightarrow> 'a channel \<Rightarrow> 'a list \<Rightarrow> bool" for again where
  polls_here: "polls again c c []"
| polls_item: "ch_poll again m c = Some (c', [x]) \<Longrightarrow> polls again c c' [x]"
| polls_more: "ch_poll again m c = Some (c1, []) \<Longrightarrow> polls again c1 c' xs \<Longrightarrow> polls again c c' xs"

inductive sends :: "'a \<Rightarrow> 'a channel \<Rightarrow> 'a channel \<Rightarrow> bool" for x where
  sends_in: "ch_push x m c = Some (c', True) \<Longrightarrow> sends x c c'"
| sends_more: "ch_push x m c = Some (c1, False) \<Longrightarrow> sends x c1 c' \<Longrightarrow> sends x c c'"

lemma polls_ok: "polls again c c' xs \<Longrightarrow> channel_ok k c ps qs \<Longrightarrow> channel_ok k c' ps (qs @ xs)"
proof (induction rule: polls.induct)
  case (polls_more m c c1 c' xs)
  then show ?case using ch_poll_ok [OF polls_more.prems polls_more.hyps(1)] by simp
qed (auto dest: ch_poll_ok)

lemma polls_frame: "polls again c c' xs \<Longrightarrow> ch_flag c' = ch_flag c \<and> held (ch_ring c') = held (ch_ring c)"
  by (induction rule: polls.induct) (auto dest: ch_poll_frame)

lemma channel_lengths:
  "channel_ok k c ps qs \<Longrightarrow> length ps = pushes (ch_ring c) \<and> length qs = pops (ch_ring c) \<and> pops (ch_ring c) \<le> pushes (ch_ring c) \<and>
     length (sh_tails (ch_ring c)) = Suc (pushes (ch_ring c)) \<and> length (sh_heads (ch_ring c)) = Suc (pops (ch_ring c)) \<and>
     sh_tail_seen (ch_ring c) \<le> pushes (ch_ring c) \<and> sh_head_seen (ch_ring c) \<le> pops (ch_ring c) \<and> (length qs = length ps \<longrightarrow> qs = ps)"
  by (auto simp: channel_ok_def shared_ok_def positions_def pushes_def pops_def)

text \<open>A loop that is polling gets the next item, and leaves when there is none and the flag is set.\<close>

abbreviation popping :: "'a channel \<Rightarrow> bool" where
  "popping c \<equiv> ch_phase c \<in> {Popping, Draining}"

lemma polls_read:
  assumes "popping c" "sh_consumer (ch_ring c) = CRead h x"
  shows "\<exists>c'. polls again c c' [x]"
proof -
  have "\<exists>c'. ch_poll again (Pop Store) c = Some (c', [x])" using assms by (simp add: poll_pop_def)
  then show ?thesis by (blast intro: polls_item)
qed

lemma polls_some:
  assumes "popping c" "sh_consumer (ch_ring c) = CSome h"
  shows "\<exists>c' x. polls again c c' [x]"
proof -
  let ?x = "sh_buf (ch_ring c) ! unat h"
  let ?c = "c\<lparr>ch_ring := (ch_ring c)\<lparr>sh_consumer := CRead h ?x\<rparr>, ch_phase := ch_phase c\<rparr>"
  have "ch_poll again (Pop Cell) c = Some (?c, [])" using assms by (simp add: poll_pop_def)
  moreover obtain c' where "polls again ?c c' [?x]" using polls_read [of ?c h ?x again] assms(1) by auto
  ultimately show ?thesis by (blast intro: polls_more)
qed

text \<open>A load of the newest tail.\<close>

lemma polls_called:
  assumes ok: "channel_ok k c ps qs" and c: "popping c" "sh_consumer (ch_ring c) = CCalled h"
  shows "pops (ch_ring c) < pushes (ch_ring c) \<Longrightarrow> \<exists>c' x. polls again c c' [x]"
    "pops (ch_ring c) = pushes (ch_ring c) \<Longrightarrow> \<exists>c1. ch_poll again (Pop (Load (pushes (ch_ring c)))) c = Some (c1, []) \<and>
       ch_phase c1 = (if ch_phase c = Draining then PollEnd else AtFlag)"
proof -
  let ?s = "ch_ring c"
  have s: "shared_ok k ?s ps qs" "h = last (sh_heads ?s)" using ok c(2) by (auto simp: channel_ok_def shared_ok_def)
  have n: "sh_tail_seen ?s \<le> pushes ?s" "pushes ?s < length (sh_tails ?s)" using channel_lengths [OF ok] by simp_all
  note m = head_meets_tail(1) [OF s(1) n]
  show "\<exists>c1. ch_poll again (Pop (Load (pushes ?s))) c = Some (c1, []) \<and> ch_phase c1 = (if ch_phase c = Draining then PollEnd else AtFlag)"
    if "pops ?s = pushes ?s"
    using that m n c s(2) by (simp add: poll_pop_def)
  show "\<exists>c' x. polls again c c' [x]" if "pops ?s < pushes ?s"
  proof -
    let ?c = "c\<lparr>ch_ring := ?s\<lparr>sh_tail_seen := pushes ?s, sh_consumer := CSome h\<rparr>, ch_phase := ch_phase c\<rparr>"
    have "ch_poll again (Pop (Load (pushes ?s))) c = Some (?c, [])" using that m n c s(2) by (simp add: poll_pop_def)
    moreover obtain c' x where "polls again ?c c' [x]" using polls_some [of ?c h again] c(1) by auto
    ultimately show ?thesis by (blast intro: polls_more)
  qed
qed

lemma poll_call:
  assumes "popping c" "sh_consumer (ch_ring c) = CIdle"
  obtains c1 where "ch_poll again (Pop Call) c = Some (c1, [])" "ch_phase c1 = ch_phase c"
    "sh_consumer (ch_ring c1) = CCalled (last (sh_heads (ch_ring c1)))" "pops (ch_ring c1) = pops (ch_ring c)"
    "pushes (ch_ring c1) = pushes (ch_ring c)"
  using assms by (simp add: poll_pop_def)

lemma polls_next:
  assumes ok: "channel_ok k c ps qs" and c: "popping c" "pops (ch_ring c) < pushes (ch_ring c)"
  shows "\<exists>c' x. polls again c c' [x]"
proof (cases "sh_consumer (ch_ring c)")
  case CIdle
  from poll_call [OF c(1) this] obtain c1 where c1: "ch_poll again (Pop Call) c = Some (c1, [])" "popping c1"
    "sh_consumer (ch_ring c1) = CCalled (last (sh_heads (ch_ring c1)))" "pops (ch_ring c1) < pushes (ch_ring c1)"
    using c by metis
  then show ?thesis using polls_called(1) [OF ch_poll_ok [OF ok c1(1)] c1(2,3,4)] by (blast intro: polls_more)
next
  case (CCalled h)
  then show ?thesis using polls_called(1) [OF ok c(1) CCalled c(2)] by blast
next
  case (CSome h)
  then show ?thesis using polls_some [OF c(1)] by blast
next
  case (CRead h x)
  then show ?thesis using polls_read [OF c(1)] by blast
qed

definition settled :: "'a channel \<Rightarrow> 'a list \<Rightarrow> bool" where
  "settled c xs \<longleftrightarrow> (\<exists>x. xs = [x]) \<or>
     xs = [] \<and> (ch_phase c = PollEnd \<or>
       ch_phase c = Popping \<and> sh_consumer (ch_ring c) = CIdle \<and> ch_flag c = None \<and> pops (ch_ring c) = pushes (ch_ring c))"

lemma settle_step:
  assumes "ch_poll again m c = Some (c1, [])" "\<exists>c' xs. polls again c1 c' xs \<and> settled c' xs"
  shows "\<exists>c' xs. polls again c c' xs \<and> settled c' xs"
  using assms by (blast intro: polls_more)

lemma settle_here: "settled c [] \<Longrightarrow> \<exists>c' xs. polls again c c' xs \<and> settled c' xs"
  using polls_here by blast

lemma settle_popping:
  assumes "channel_ok k c ps qs" "ch_phase c = Popping" "sh_consumer (ch_ring c) = CIdle"
    and "pops (ch_ring c) < pushes (ch_ring c) \<or> ch_flag c = None"
  shows "\<exists>c' xs. polls again c c' xs \<and> settled c' xs"
proof (cases "pops (ch_ring c) < pushes (ch_ring c)")
  case True
  from polls_next [OF assms(1) _ True] assms(2) show ?thesis unfolding settled_def by blast
next
  case False
  then show ?thesis using assms channel_lengths [OF assms(1)] polls_here [of again c] by (fastforce simp: settled_def)
qed

lemma settle_empty:
  assumes ok: "channel_ok k c ps qs" and c: "ch_phase c = AtEmpty"
  shows "\<exists>c' xs. polls again c c' xs \<and> settled c' xs"
proof -
  let ?s = "ch_ring c"
  have s: "shared_ok k ?s ps qs" "sh_consumer ?s = CIdle" using ok c by (auto simp: channel_ok_def)
  have n: "sh_tail_seen ?s \<le> pushes ?s" "pushes ?s < length (sh_tails ?s)" "pops ?s \<le> pushes ?s"
    using channel_lengths [OF ok] by simp_all
  note m = head_meets_tail(1) [OF s(1) n(1,2)]
  let ?c = "c\<lparr>ch_ring := ?s\<lparr>sh_tail_seen := pushes ?s\<rparr>, ch_phase := (if pops ?s = pushes ?s then PollEnd else Popping)\<rparr>"
  have run: "ch_poll again (LoadEmpty (pushes ?s)) c = Some (?c, [])" using c n m by (simp add: poll_empty_def Let_def)
  have "\<exists>c' xs. polls again ?c c' xs \<and> settled c' xs"
  proof (cases "pops ?s = pushes ?s")
    case True
    then show ?thesis using polls_here [of again ?c] by (fastforce simp: settled_def)
  next
    case False
    then show ?thesis using settle_popping [OF ch_poll_ok [OF ok run]] s(2) n(3) by simp
  qed
  then show ?thesis using run by (blast intro: polls_more)
qed

text \<open>The second \<open>pop\<close> after the flag.\<close>

lemma settle_called:
  assumes ok: "channel_ok k c ps qs" and c: "popping c" "sh_consumer (ch_ring c) = CCalled h"
  shows "(\<exists>c' xs. polls again c c' xs \<and> settled c' xs) \<or>
    ch_phase c = Popping \<and> (\<exists>c1. ch_poll again (Pop (Load (pushes (ch_ring c)))) c = Some (c1, []) \<and> ch_phase c1 = AtFlag)"
proof (cases "pops (ch_ring c) = pushes (ch_ring c)")
  case True
  show ?thesis
  proof (cases "ch_phase c = Draining")
    case drain: True
    obtain c1 where c1: "ch_poll again (Pop (Load (pushes (ch_ring c)))) c = Some (c1, [])" "ch_phase c1 = PollEnd"
      using polls_called(2) [OF ok c True] drain by metis
    from settle_step [OF c1(1) settle_here] c1(2) show ?thesis by (simp add: settled_def)
  qed (use polls_called(2) [OF ok c True] c(1) in auto)
next
  case False
  then show ?thesis using polls_called(1) [OF ok c] channel_lengths [OF ok] unfolding settled_def by fastforce
qed

lemma settle_draining:
  assumes ok: "channel_ok k c ps qs" and c: "ch_phase c = Draining"
  shows "\<exists>c' xs. polls again c c' xs \<and> settled c' xs"
proof (cases "sh_consumer (ch_ring c)")
  case CIdle
  obtain c1 where c1: "ch_poll again (Pop Call) c = Some (c1, [])" "ch_phase c1 = Draining"
    "sh_consumer (ch_ring c1) = CCalled (last (sh_heads (ch_ring c1)))"
    using poll_call [OF _ CIdle] c by (metis insertCI)
  have "channel_ok k c1 ps qs" using ch_poll_ok [OF ok c1(1)] by simp
  from settle_called [OF this _ c1(3), of again] c1(2) show ?thesis by (intro settle_step [OF c1(1)]) simp
next
  case (CCalled h)
  then show ?thesis using settle_called [OF ok _ CCalled] c by auto
next
  case (CSome h)
  then show ?thesis using polls_some [of c h again] c unfolding settled_def by blast
next
  case (CRead h x)
  then show ?thesis using polls_read [of c h x again] c unfolding settled_def by blast
qed

lemma settle_flag:
  assumes ok: "channel_ok k c ps qs" and c: "ch_phase c = AtFlag"
  shows "\<exists>c' xs. polls again c c' xs \<and> settled c' xs"
proof (cases "ch_flag c")
  case None
  let ?c = "c\<lparr>ch_phase := Popping\<rparr>"
  have run: "ch_poll again (LoadDone False) c = Some (?c, [])"
    using c None ok by (auto simp: poll_done_def channel_ok_def)
  have "\<exists>c' xs. polls again ?c c' xs \<and> settled c' xs"
    by (rule settle_popping [OF ch_poll_ok [OF ok run]]) (use ok c None in \<open>auto simp: channel_ok_def\<close>)
  then show ?thesis using run by (blast intro: polls_more)
next
  case (Some n)
  then obtain c1 where run: "ch_poll again (LoadDone True) c = Some (c1, [])" "ch_phase c1 = (if again then Draining else AtEmpty)"
    using c by (simp add: poll_done_def)
  have "\<exists>c' xs. polls again c1 c' xs \<and> settled c' xs"
    using settle_empty [OF ch_poll_ok [OF ok run(1)]] settle_draining [OF ch_poll_ok [OF ok run(1)]] run(2) by (cases again) simp_all
  then show ?thesis using run(1) by (blast intro: polls_more)
qed

lemma polls_settle:
  assumes ok: "channel_ok k c ps qs"
  shows "\<exists>c' xs. polls again c c' xs \<and> settled c' xs"
proof (cases "ch_phase c")
  case Popping
  have called: "\<exists>c' xs. polls again d c' xs \<and> settled c' xs"
    if d: "channel_ok k d ps qs" "popping d" "sh_consumer (ch_ring d) = CCalled h" for d h
    using settle_called [OF d, of again]
  proof (elim disjE conjE exE)
    fix c1 assume c1: "ch_poll again (Pop (Load (pushes (ch_ring d)))) d = Some (c1, [])" "ch_phase c1 = AtFlag"
    from settle_flag [OF ch_poll_ok [OF d(1) c1(1)] c1(2)] show ?thesis by (rule settle_step [OF c1(1)])
  qed blast
  show ?thesis
  proof (cases "sh_consumer (ch_ring c)")
    case CIdle
    obtain c1 where c1: "ch_poll again (Pop Call) c = Some (c1, [])" "popping c1"
      "sh_consumer (ch_ring c1) = CCalled (last (sh_heads (ch_ring c1)))"
      using poll_call [OF _ CIdle] Popping by (metis insertCI)
    have "channel_ok k c1 ps qs" using ch_poll_ok [OF ok c1(1)] by simp
    from called [OF this c1(2,3)] show ?thesis by (rule settle_step [OF c1(1)])
  next
    case (CCalled h)
    then show ?thesis using called [OF ok _ CCalled] Popping by simp
  next
    case (CSome h)
    then show ?thesis using polls_some [of c h again] Popping unfolding settled_def by blast
  next
    case (CRead h x)
    then show ?thesis using polls_read [of c h x again] Popping unfolding settled_def by blast
  qed
next
  case PollEnd
  then show ?thesis using polls_here [of again c] by (fastforce simp: settled_def)
qed (use settle_flag [OF ok] settle_empty [OF ok] settle_draining [OF ok] in blast)+

text \<open>With nothing in flight a push goes through, if the ring has two cells at least.\<close>

lemma sends_wrote:
  assumes "sh_producer (ch_ring c) = PWrote x w"
  shows "\<exists>c'. sends x c c'"
  by (rule exI, rule sends_in [of _ Store]) (use assms in \<open>simp add: ch_push_def\<close>)

lemma sends_in_room:
  assumes "sh_producer (ch_ring c) = PRoom x w v"
  shows "\<exists>c'. sends x c c'"
proof -
  let ?s = "ch_ring c"
  let ?c = "c\<lparr>ch_ring := ?s\<lparr>sh_buf := (sh_buf ?s)[unat w := x], sh_producer := PWrote x v\<rparr>\<rparr>"
  have "ch_push x Cell c = Some (?c, False)" using assms by (simp add: ch_push_def)
  moreover obtain c' where "sends x ?c c'" using sends_wrote [of ?c x v] by auto
  ultimately show ?thesis by (blast intro: sends_more)
qed

lemma sends_called:
  assumes ok: "channel_ok k c ps qs" and k: "0 < k" and drained: "pops (ch_ring c) = pushes (ch_ring c)"
    and c: "sh_producer (ch_ring c) = PCalled x w"
  shows "\<exists>c'. sends x c c'"
proof -
  let ?s = "ch_ring c"
  have s: "shared_ok k ?s ps qs" "w = last (sh_tails ?s)" using ok c by (auto simp: channel_ok_def shared_ok_def)
  have n: "sh_head_seen ?s \<le> pops ?s" "pops ?s < length (sh_heads ?s)" using channel_lengths [OF ok] by simp_all
  have "(2 :: nat) ^ 1 \<le> 2 ^ k" using k by (intro power_increasing) simp_all
  then have "(last (sh_tails ?s) + 1) AND sh_mask ?s \<noteq> sh_heads ?s ! pops ?s"
    using tail_meets_head(1) [OF s(1) n] drained by simp
  then obtain v where "ch_push x (Load (pops ?s)) c =
      Some (c\<lparr>ch_ring := ?s\<lparr>sh_head_seen := pops ?s, sh_producer := PRoom x w v\<rparr>\<rparr>, False)"
    using c n s(2) by (simp add: ch_push_def Let_def)
  moreover obtain c' where "sends x (c\<lparr>ch_ring := ?s\<lparr>sh_head_seen := pops ?s, sh_producer := PRoom x w v\<rparr>\<rparr>) c'"
    using sends_in_room [of "c\<lparr>ch_ring := ?s\<lparr>sh_head_seen := pops ?s, sh_producer := PRoom x w v\<rparr>\<rparr>" x w v] by auto
  ultimately show ?thesis by (blast intro: sends_more)
qed

lemma sends_drained:
  assumes ok: "channel_ok k c ps qs" "ch_flag c = None" and k: "0 < k" and drained: "pops (ch_ring c) = pushes (ch_ring c)"
    and x: "set (held (ch_ring c)) \<subseteq> {x}"
  shows "\<exists>c'. sends x c c'"
proof (cases "sh_producer (ch_ring c)")
  case PIdle
  let ?c = "c\<lparr>ch_ring := (ch_ring c)\<lparr>sh_producer := PCalled x (last (sh_tails (ch_ring c)))\<rparr>\<rparr>"
  have run: "ch_push x Call c = Some (?c, False)" using PIdle by (simp add: ch_push_def)
  have "channel_ok k ?c ps qs" using ch_push_ok(1) [OF ok x run] by simp
  from sends_called [OF this k] drained obtain c' where "sends x ?c c'" by auto
  then show ?thesis using run by (blast intro: sends_more)
next
  case (PCalled y w)
  then show ?thesis using sends_called [OF ok(1) k drained] x by (auto simp: held_def)
next
  case (PRoom y w v)
  then show ?thesis using sends_in_room x by (fastforce simp: held_def)
next
  case (PWrote y w)
  then show ?thesis using sends_wrote x by (fastforce simp: held_def)
qed

lemma sends_ok:
  "sends x c c' \<Longrightarrow> channel_ok k c ps qs \<Longrightarrow> ch_flag c = None \<Longrightarrow> set (held (ch_ring c)) \<subseteq> {x} \<Longrightarrow> channel_ok k c' (ps @ [x]) qs"
proof (induction rule: sends.induct)
  case (sends_in m c c')
  then show ?case using ch_push_ok(1) [of k c ps qs x m c' True] by simp
next
  case (sends_more m c c1 c')
  then show ?case using ch_push_ok [of k c ps qs x m c1 False] by simp
qed

end
