(* ===== verification/Threaded_Engine.thy ===== *)
theory Threaded_Engine
  imports Ring_Channel Fuzz_Equiv
begin

text \<open>
  The threaded pipeline (\<open>cpp/tests/test_threaded.cpp\<close>): a producer thread, a ring, the thread that owns the
  book, a second ring and a consumer, each ring with its flag a channel of \<open>Ring_Channel\<close>. The capacity of the
  rings is a parameter (the program has 2^16); joining the threads and printing are not modelled.
\<close>

section \<open>The program\<close>

record wire_op =
  w_is_cancel :: bool
  w_req :: order_request

definition threaded_request :: "fuzz_op \<Rightarrow> order_request" where
  "threaded_request p = \<lparr>req_id = fo_id p, req_side = (if fo_is_buy p then Buy else Sell),
     req_type = (if fo_kind p = AddLimit then Limit else Market), req_price = fo_price p, req_qty = fo_qty p\<rparr>"

text \<open>The sequential reference.\<close>

fun reference :: "fuzz_op list \<Rightarrow> book \<Rightarrow> totals \<Rightarrow> (book_error + book \<times> totals) option" where
  "reference [] b c = Some (Inr (b, c))"
| "reference (p # ops) b c =
     (if fo_kind p = CancelOp then do { (b1, _) \<leftarrow> book_cancel b (fo_id p); reference ops b1 c }
      else do {
        (r, b1, trades) \<leftarrow> book_add b (threaded_request p);
        case r of Inl e \<Rightarrow> Some (Inl e) | Inr _ \<Rightarrow> reference ops b1 (foldl count_trade c trades)
      })"

text \<open>The three threads. The first operation that is left is the one the producer is pushing.\<close>

definition wire_of :: "fuzz_op \<Rightarrow> wire_op" where
  "wire_of p =
     (if fo_kind p = CancelOp then
        \<lparr>w_is_cancel = True,
         w_req = \<lparr>req_id = fo_id p, req_side = Buy, req_type = Cancel, req_price = 0, req_qty = 0\<rparr>\<rparr>
      else \<lparr>w_is_cancel = False, w_req = threaded_request p\<rparr>)"

definition match_wire :: "wire_op \<Rightarrow> book \<Rightarrow> ((book_error + unit) \<times> book \<times> int trade list) option" where
  "match_wire w b =
     (if w_is_cancel w then do { (b1, _) \<leftarrow> book_cancel b (req_id (w_req w)); Some (Inr (), b1, []) }
      else book_add b (w_req w))"

datatype matcher_phase = Polling | Sending "int trade list" | Threw book_error | Stopped

record pipeline =
  pl_ops :: "fuzz_op list"
  pl_in :: "wire_op channel"
  pl_matcher :: matcher_phase
  pl_book :: book
  pl_out :: "int trade channel"
  pl_totals :: totals

definition new_pipeline :: "u64 \<Rightarrow> fuzz_op list \<Rightarrow> book \<Rightarrow> pipeline" where
  "new_pipeline capacity_pow2 ops b =
     \<lparr>pl_ops = ops,
      pl_in = new_channel \<lparr>w_is_cancel = False,
        w_req = \<lparr>req_id = 0, req_side = Buy, req_type = Limit, req_price = 0, req_qty = 0\<rparr>\<rparr> capacity_pow2,
      pl_matcher = Polling, pl_book = b,
      pl_out = new_channel \<lparr>maker_id = 0, taker_id = 0, trade_price = 0, trade_qty = 0\<rparr> capacity_pow2,
      pl_totals = no_totals\<rparr>"

definition send_trades :: "int trade list \<Rightarrow> matcher_phase" where
  "send_trades ts = (if ts = [] then Polling else Sending ts)"

text \<open>What the matcher does with an item it has popped.\<close>

definition matched :: "wire_op \<Rightarrow> pipeline \<Rightarrow> pipeline option" where
  "matched w p = do {
     (r, b, ts) \<leftarrow> match_wire w (pl_book p);
     Some (p\<lparr>pl_book := b, pl_matcher := (case r of Inl e \<Rightarrow> Threw e | Inr _ \<Rightarrow> send_trades ts)\<rparr>)
   }"

datatype pipe_action =
    ProducerPush ring_move | ProducerDone
  | MatcherPoll poll_move | MatcherPush ring_move | MatcherDone
  | ConsumerPoll poll_move

text \<open>One action of one thread; \<open>None\<close> when the thread is not there.\<close>

fun pipe_act :: "pipe_action \<Rightarrow> pipeline \<Rightarrow> pipeline option" where
  "pipe_act (ProducerPush m) p =
     (case pl_ops p of
        [] \<Rightarrow> None
      | op # ops \<Rightarrow> do {
          (c, sent) \<leftarrow> ch_push (wire_of op) m (pl_in p);
          Some (p\<lparr>pl_in := c, pl_ops := (if sent then ops else pl_ops p)\<rparr>)
        })"
| "pipe_act ProducerDone p =
     (if pl_ops p = [] \<and> ch_flag (pl_in p) = None then Some (p\<lparr>pl_in := ch_close (pl_in p)\<rparr>) else None)"
| "pipe_act (MatcherPoll m) p =
     (if pl_matcher p = Polling then do {
        (c, ws) \<leftarrow> ch_poll False m (pl_in p);
        case ws of [] \<Rightarrow> Some (p\<lparr>pl_in := c\<rparr>) | w # _ \<Rightarrow> matched w (p\<lparr>pl_in := c\<rparr>)
      } else None)"
| "pipe_act (MatcherPush m) p =
     (case pl_matcher p of
        Sending (t # ts) \<Rightarrow> do {
          (c, sent) \<leftarrow> ch_push t m (pl_out p);
          Some (p\<lparr>pl_out := c, pl_matcher := (if sent then send_trades ts else Sending (t # ts))\<rparr>)
        }
      | _ \<Rightarrow> None)"
| "pipe_act MatcherDone p =
     (if pl_matcher p = Polling \<and> ch_phase (pl_in p) = PollEnd
      then Some (p\<lparr>pl_out := ch_close (pl_out p), pl_matcher := Stopped\<rparr>) else None)"
| "pipe_act (ConsumerPoll m) p = do {
     (c, ts) \<leftarrow> ch_poll False m (pl_out p);
     Some (p\<lparr>pl_out := c, pl_totals := foldl count_trade (pl_totals p) ts\<rparr>)
   }"

text \<open>Everything the threads can reach, in any interleaving.\<close>

inductive pipe_reach :: "pipeline \<Rightarrow> pipeline \<Rightarrow> bool" for p0 where
  pipe_start: "pipe_reach p0 p0"
| pipe_step: "pipe_reach p0 p \<Longrightarrow> pipe_act a p = Some p' \<Longrightarrow> pipe_reach p0 p'"

text \<open>The consumer has left its loop: the program prints its totals.\<close>

definition pipe_finished :: "pipeline \<Rightarrow> bool" where
  "pipe_finished p \<longleftrightarrow> ch_phase (pl_out p) = PollEnd"

section \<open>The pipeline's invariant\<close>

text \<open>The trades of a list of items, matched in turn.\<close>

fun match_all :: "wire_op list \<Rightarrow> book \<Rightarrow> (book \<times> int trade list) option" where
  "match_all [] b = Some (b, [])"
| "match_all (w # ws) b = do {
     (r, b1, ts) \<leftarrow> match_wire w b;
     (b2, us) \<leftarrow> (case r of Inl e \<Rightarrow> None | Inr _ \<Rightarrow> match_all ws b1);
     Some (b2, ts @ us)
   }"

lemma bind_addE:
  assumes "Option.bind x (\<lambda>(r, b1, ts). case r of Inl e \<Rightarrow> Some (Inl e) | Inr _ \<Rightarrow> f b1 ts) = Some (Inr y)"
  obtains b1 ts where "x = Some (Inr (), b1, ts)" "f b1 ts = Some (Inr y)"
proof (cases x)
  case (Some z)
  obtain r b1 ts where z: "z = (r, b1, ts)" by (rule prod_cases3)
  show thesis using assms Some that by (cases r) (auto simp: z)
qed (use assms in simp)

lemma match_all_Cons:
  "match_all (w # ws) b = Some (b', us) \<longleftrightarrow>
   (\<exists>b1 ts us'. match_wire w b = Some (Inr (), b1, ts) \<and> match_all ws b1 = Some (b', us') \<and> us = ts @ us')"
  by (auto simp: bind_eq_Some_conv split: sum.splits) (metis old.sum.exhaust old.unit.exhaust)+

lemma match_all_append:
  "match_all (ws @ vs) b = Some (b', us) \<longleftrightarrow>
   (\<exists>b1 us1 us2. match_all ws b = Some (b1, us1) \<and> match_all vs b1 = Some (b', us2) \<and> us = us1 @ us2)"
proof (induction ws arbitrary: b us)
  case (Cons w ws)
  show ?case unfolding append_Cons match_all_Cons Cons.IH by (auto; metis append_assoc)
qed auto

lemma match_all_next:
  assumes "match_all (ws @ w # vs) b = Some (b', us')" "match_all ws b = Some (b1, us)"
  obtains b2 ts where "match_wire w b1 = Some (Inr (), b2, ts)" "match_all (ws @ [w]) b = Some (b2, us @ ts)"
proof -
  obtain b2 ts where w: "match_wire w b1 = Some (Inr (), b2, ts)"
    using assms by (auto simp: match_all_append match_all_Cons simp del: match_all.simps(2))
  then show thesis using assms(2) that [OF w] by (simp add: match_all_append)
qed

lemma wire_add: "fo_kind p \<noteq> CancelOp \<Longrightarrow> match_wire (wire_of p) b = book_add b (threaded_request p)"
  by (simp add: match_wire_def wire_of_def)

lemma wire_cancel: "fo_kind p = CancelOp \<Longrightarrow>
    match_wire (wire_of p) b = map_option (\<lambda>(b1, _). (Inr (), b1, [])) (book_cancel b (fo_id p))"
  by (cases "book_cancel b (fo_id p)") (auto simp: match_wire_def wire_of_def)

lemma reference_trades:
  "reference ops b c = Some (Inr (b', c')) \<Longrightarrow>
   \<exists>us. match_all (map wire_of ops) b = Some (b', us) \<and> c' = foldl count_trade c us"
proof (induction ops arbitrary: b c)
  case (Cons p ops)
  show ?case
  proof (cases "fo_kind p = CancelOp")
    case True
    with Cons.prems obtain b1 f where b1: "book_cancel b (fo_id p) = Some (b1, f)" "reference ops b1 c = Some (Inr (b', c'))"
      by (auto simp: bind_eq_Some_conv)
    from Cons.IH [OF b1(2)] show ?thesis using b1(1) True by (auto simp: wire_cancel)
  next
    case False
    with Cons.prems have "Option.bind (book_add b (threaded_request p))
      (\<lambda>(r, b1, ts). case r of Inl e \<Rightarrow> Some (Inl e) | Inr _ \<Rightarrow> reference ops b1 (foldl count_trade c ts)) = Some (Inr (b', c'))"
      by simp
    then obtain b1 ts where b1: "book_add b (threaded_request p) = Some (Inr (), b1, ts)"
      "reference ops b1 (foldl count_trade c ts) = Some (Inr (b', c'))"
      by (rule bind_addE)
    from Cons.IH [OF b1(2)] show ?thesis using b1(1) False by (auto simp: wire_add)
  qed
qed simp

fun pending :: "matcher_phase \<Rightarrow> int trade list" where
  "pending (Sending ts) = ts"
| "pending _ = []"

text \<open>The producer holds what it is about to push, the book is what the popped items make of it, its trades are
  in the second ring or still pending, and the totals are those of what has come out.\<close>

definition threads_ok :: "pipeline \<Rightarrow> bool" where
  "threads_ok p \<longleftrightarrow>
     set (held (ch_ring (pl_in p))) \<subseteq> set (map wire_of (take 1 (pl_ops p))) \<and>
     set (held (ch_ring (pl_out p))) \<subseteq> set (take 1 (pending (pl_matcher p))) \<and>
     (ch_flag (pl_in p) \<noteq> None \<longrightarrow> pl_ops p = []) \<and>
     (ch_flag (pl_out p) \<noteq> None \<longleftrightarrow> pl_matcher p = Stopped) \<and>
     (pl_matcher p = Stopped \<longrightarrow> ch_phase (pl_in p) = PollEnd) \<and>
     (\<forall>ts. pl_matcher p = Sending ts \<longrightarrow> ts \<noteq> [] \<and> ch_phase (pl_in p) = Popping) \<and>
     (\<forall>e. pl_matcher p \<noteq> Threw e)"

definition streams_ok ::
    "nat \<Rightarrow> fuzz_op list \<Rightarrow> book \<Rightarrow> pipeline \<Rightarrow> wire_op list \<Rightarrow> wire_op list \<Rightarrow> int trade list \<Rightarrow> int trade list \<Rightarrow> bool" where
  "streams_ok k ops b0 p ps qs us vs \<longleftrightarrow>
     channel_ok k (pl_in p) ps qs \<and> channel_ok k (pl_out p) us vs \<and>
     ps @ map wire_of (pl_ops p) = map wire_of ops \<and>
     match_all qs b0 = Some (pl_book p, us @ pending (pl_matcher p)) \<and>
     pl_totals p = foldl count_trade no_totals vs"

definition pipe_ok :: "nat \<Rightarrow> fuzz_op list \<Rightarrow> book \<Rightarrow> pipeline \<Rightarrow> bool" where
  "pipe_ok k ops b0 p \<longleftrightarrow> threads_ok p \<and> (\<exists>ps qs us vs. streams_ok k ops b0 p ps qs us vs)"

lemma pipe_okE:
  assumes "pipe_ok k ops b0 p"
  obtains ps qs us vs where "threads_ok p" "streams_ok k ops b0 p ps qs us vs"
  using assms by (auto simp: pipe_ok_def)

lemma pipe_okI: "threads_ok p \<Longrightarrow> streams_ok k ops b0 p ps qs us vs \<Longrightarrow> pipe_ok k ops b0 p"
  by (auto simp: pipe_ok_def)

lemma pending_send [simp]: "pending (send_trades ts) = ts"
  by (simp add: send_trades_def)

lemma send_trades_cases [simp]:
  "send_trades ts \<noteq> Stopped" "send_trades ts \<noteq> Threw e" "send_trades ts = Sending us \<longleftrightarrow> ts \<noteq> [] \<and> us = ts"
  by (auto simp: send_trades_def)

lemma new_pipeline_ok:
  assumes "k < 64"
  shows "pipe_ok k ops b (new_pipeline (2 ^ k) ops b)"
  by (intro pipe_okI [of _ _ _ _ "[]" "[]" "[]" "[]"])
    (simp_all add: threads_ok_def streams_ok_def new_pipeline_def new_channel_ok [OF assms])

text \<open>Each thread keeps it.\<close>

lemma producer_push_keeps:
  assumes ok: "pipe_ok k ops b0 p" and run: "pipe_act (ProducerPush m) p = Some p'"
  shows "pipe_ok k ops b0 p'"
proof -
  obtain ps qs us vs where t: "threads_ok p" and s: "streams_ok k ops b0 p ps qs us vs" using ok by (rule pipe_okE)
  obtain op rest c sent where r: "pl_ops p = op # rest" "ch_push (wire_of op) m (pl_in p) = Some (c, sent)"
    "p' = p\<lparr>pl_in := c, pl_ops := (if sent then rest else pl_ops p)\<rparr>"
    using run by (auto simp: bind_eq_Some_conv split: list.splits)
  have "channel_ok k (pl_in p) ps qs" "ch_flag (pl_in p) = None" "set (held (ch_ring (pl_in p))) \<subseteq> {wire_of op}"
    using t s r(1) by (auto simp: threads_ok_def streams_ok_def)
  note c = ch_push_ok [OF this r(2)]
  show ?thesis
  proof (rule pipe_okI)
    show "threads_ok p'" using t r c(2-5) by (auto simp: threads_ok_def)
    show "streams_ok k ops b0 p' (if sent then ps @ [wire_of op] else ps) qs us vs"
      using s r c(1) by (auto simp: streams_ok_def)
  qed
qed

lemma producer_done_keeps:
  assumes ok: "pipe_ok k ops b0 p" and run: "pipe_act ProducerDone p = Some p'"
  shows "pipe_ok k ops b0 p'"
proof -
  obtain ps qs us vs where t: "threads_ok p" and s: "streams_ok k ops b0 p ps qs us vs" using ok by (rule pipe_okE)
  have r: "pl_ops p = []" "ch_flag (pl_in p) = None" "p' = p\<lparr>pl_in := ch_close (pl_in p)\<rparr>"
    using run by (auto split: if_splits)
  show ?thesis
  proof (rule pipe_okI)
    show "threads_ok p'" using t r by (auto simp: threads_ok_def ch_close_def)
    show "streams_ok k ops b0 p' ps qs us vs" using s r ch_close_ok [OF _ r(2)] by (auto simp: streams_ok_def)
  qed
qed

lemma matcher_poll_keeps:
  assumes good: "match_all (map wire_of ops) b0 = Some (bf, all)"
    and ok: "pipe_ok k ops b0 p" and run: "pipe_act (MatcherPoll m) p = Some p'"
  shows "pipe_ok k ops b0 p'"
proof -
  obtain ps qs us vs where t: "threads_ok p" and s: "streams_ok k ops b0 p ps qs us vs" using ok by (rule pipe_okE)
  obtain c ws where r: "pl_matcher p = Polling" "ch_poll False m (pl_in p) = Some (c, ws)"
    "(case ws of [] \<Rightarrow> Some (p\<lparr>pl_in := c\<rparr>) | w # _ \<Rightarrow> matched w (p\<lparr>pl_in := c\<rparr>)) = Some p'"
    using run by (auto simp: bind_eq_Some_conv split: if_splits)
  have c: "channel_ok k c ps (qs @ ws)" using s ch_poll_ok [OF _ r(2)] by (auto simp: streams_ok_def)
  note frame = ch_poll_frame [OF r(2)]
  show ?thesis
  proof (cases ws)
    case Nil
    then show ?thesis using t s r c frame(1,2)
      by (intro pipe_okI [of _ _ _ _ ps qs us vs]) (auto simp: threads_ok_def streams_ok_def)
  next
    case (Cons w ws')
    then have ws: "ws = [w]" using frame(3) by auto
    obtain rest where "ps = qs @ w # rest" using channel_popped [OF c] ws by auto
    then have "match_all (qs @ w # rest @ map wire_of (pl_ops p)) b0 = Some (bf, all)"
      "match_all qs b0 = Some (pl_book p, us)"
      using good s r(1) by (simp_all add: streams_ok_def flip: append_Cons append_assoc)
    from match_all_next [OF this] obtain b2 ts where m: "match_wire w (pl_book p) = Some (Inr (), b2, ts)"
      "match_all (qs @ [w]) b0 = Some (b2, us @ ts)" by metis
    have p': "p' = p\<lparr>pl_in := c, pl_book := b2, pl_matcher := send_trades ts\<rparr>" using r(3) ws m(1) by (simp add: matched_def)
    show ?thesis
      using t s r(1) c frame(1,2,5) m(2) ws p'
      by (intro pipe_okI [of _ _ _ _ ps "qs @ [w]" us vs]) (auto simp: threads_ok_def streams_ok_def)
  qed
qed

lemma matcher_push_keeps:
  assumes ok: "pipe_ok k ops b0 p" and run: "pipe_act (MatcherPush m) p = Some p'"
  shows "pipe_ok k ops b0 p'"
proof -
  obtain ps qs us vs where t: "threads_ok p" and s: "streams_ok k ops b0 p ps qs us vs" using ok by (rule pipe_okE)
  obtain x ts c sent where r: "pl_matcher p = Sending (x # ts)" "ch_push x m (pl_out p) = Some (c, sent)"
    "p' = p\<lparr>pl_out := c, pl_matcher := (if sent then send_trades ts else Sending (x # ts))\<rparr>"
    using run by (auto simp: bind_eq_Some_conv split: list.splits matcher_phase.splits)
  have "channel_ok k (pl_out p) us vs" "ch_flag (pl_out p) = None" "set (held (ch_ring (pl_out p))) \<subseteq> {x}"
    using t s r(1) by (auto simp: threads_ok_def streams_ok_def)
  note c = ch_push_ok [OF this r(2)]
  show ?thesis
  proof (rule pipe_okI)
    show "threads_ok p'" using t r c(2-5) by (auto simp: threads_ok_def)
    show "streams_ok k ops b0 p' ps qs (if sent then us @ [x] else us) vs"
      using s r c(1) by (auto simp: streams_ok_def)
  qed
qed

lemma matcher_done_keeps:
  assumes ok: "pipe_ok k ops b0 p" and run: "pipe_act MatcherDone p = Some p'"
  shows "pipe_ok k ops b0 p'"
proof -
  obtain ps qs us vs where t: "threads_ok p" and s: "streams_ok k ops b0 p ps qs us vs" using ok by (rule pipe_okE)
  have r: "pl_matcher p = Polling" "ch_phase (pl_in p) = PollEnd" "p' = p\<lparr>pl_out := ch_close (pl_out p), pl_matcher := Stopped\<rparr>"
    using run by (auto split: if_splits)
  then have "ch_flag (pl_out p) = None" using t by (auto simp: threads_ok_def)
  then show ?thesis
    using t s r ch_close_ok
    by (intro pipe_okI [of _ _ _ _ ps qs us vs]) (auto simp: threads_ok_def streams_ok_def ch_close_def)
qed

lemma consumer_poll_keeps:
  assumes ok: "pipe_ok k ops b0 p" and run: "pipe_act (ConsumerPoll m) p = Some p'"
  shows "pipe_ok k ops b0 p'"
proof -
  obtain ps qs us vs where t: "threads_ok p" and s: "streams_ok k ops b0 p ps qs us vs" using ok by (rule pipe_okE)
  obtain c ts where r: "ch_poll False m (pl_out p) = Some (c, ts)" "p' = p\<lparr>pl_out := c, pl_totals := foldl count_trade (pl_totals p) ts\<rparr>"
    using run by (auto simp: bind_eq_Some_conv)
  show ?thesis
    using t s r ch_poll_frame [OF r(1)] ch_poll_ok [OF _ r(1)]
    by (intro pipe_okI [of _ _ _ _ ps qs us "vs @ ts"]) (auto simp: threads_ok_def streams_ok_def)
qed

lemma pipe_act_ok:
  assumes "match_all (map wire_of ops) b0 = Some (bf, all)" "pipe_ok k ops b0 p" "pipe_act a p = Some p'"
  shows "pipe_ok k ops b0 p'"
proof (cases a)
  case (MatcherPoll m)
  then show ?thesis using matcher_poll_keeps [OF assms(1,2)] assms(3) by blast
qed (use assms producer_push_keeps [OF assms(2)] producer_done_keeps [OF assms(2)] matcher_push_keeps [OF assms(2)]
    matcher_done_keeps [OF assms(2)] consumer_poll_keeps [OF assms(2)] in blast)+

lemma pipe_reach_ok:
  assumes "pipe_reach p0 p" "pipe_ok k ops b0 p0" "match_all (map wire_of ops) b0 = Some (bf, all)"
  shows "pipe_ok k ops b0 p"
  using assms by (induction rule: pipe_reach.induct) (auto intro: pipe_act_ok)

text \<open>When the consumer has left its loop everything has come through.\<close>

lemma finished_totals:
  assumes ok: "pipe_ok k ops b0 p" and finished: "pipe_finished p"
    and good: "match_all (map wire_of ops) b0 = Some (bf, all)"
  shows "pl_totals p = foldl count_trade no_totals all \<and> pl_book p = bf \<and> pl_matcher p = Stopped"
proof -
  obtain ps qs us vs where t: "threads_ok p" and s: "streams_ok k ops b0 p ps qs us vs" using ok by (rule pipe_okE)
  have out: "vs = us" "pl_matcher p = Stopped"
    using channel_end [of k "pl_out p" us vs] s t finished by (auto simp: streams_ok_def threads_ok_def pipe_finished_def)
  then have "ch_phase (pl_in p) = PollEnd" using t by (simp add: threads_ok_def)
  then have "qs = ps" "pl_ops p = []"
    using channel_end [of k "pl_in p" ps qs] s t by (auto simp: streams_ok_def threads_ok_def)
  then show ?thesis using s good out by (auto simp: streams_ok_def)
qed

section \<open>No schedule gets stuck\<close>

text \<open>The same, as actions of the pipeline.\<close>

lemma reach_trans: "pipe_reach p1 p2 \<Longrightarrow> pipe_reach p0 p1 \<Longrightarrow> pipe_reach p0 p2"
  by (induction rule: pipe_reach.induct) (auto intro: pipe_step)

lemma reach_first: "pipe_act a p = Some p1 \<Longrightarrow> pipe_reach p1 p2 \<Longrightarrow> pipe_reach p p2"
  by (rule reach_trans) (auto intro: pipe_start pipe_step)

lemma reach_one: "pipe_act a p = Some p1 \<Longrightarrow> pipe_reach p p1"
  by (auto intro: pipe_start pipe_step)

lemma reach_same: "pl_out p = c \<Longrightarrow> pipe_reach p (p\<lparr>pl_out := c\<rparr>)" "pl_in p = d \<Longrightarrow> pipe_reach p (p\<lparr>pl_in := d\<rparr>)"
  by (cases p; simp add: pipe_start)+

lemma consumer_polls:
  "polls False c c' ts \<Longrightarrow> pl_out p = c \<Longrightarrow> pipe_reach p (p\<lparr>pl_out := c', pl_totals := foldl count_trade (pl_totals p) ts\<rparr>)"
proof (induction arbitrary: p rule: polls.induct)
  case (polls_more m c c1 c' xs)
  have "pipe_act (ConsumerPoll m) p = Some (p\<lparr>pl_out := c1\<rparr>)"
    using polls_more.hyps(1) polls_more.prems by simp
  then show ?case using polls_more.IH [of "p\<lparr>pl_out := c1\<rparr>"] reach_first by fastforce
next
  case (polls_item m c c' x)
  have "pipe_act (ConsumerPoll m) p = Some (p\<lparr>pl_out := c', pl_totals := foldl count_trade (pl_totals p) [x]\<rparr>)"
    using polls_item by simp
  then show ?case by (rule reach_one)
qed (simp_all add: reach_same)

lemma matcher_polls:
  "polls False c c' ws \<Longrightarrow> pl_in p = c \<Longrightarrow> pl_matcher p = Polling \<Longrightarrow>
   (case ws of [] \<Rightarrow> p' = p\<lparr>pl_in := c'\<rparr> | w # _ \<Rightarrow> matched w (p\<lparr>pl_in := c'\<rparr>) = Some p') \<Longrightarrow> pipe_reach p p'"
proof (induction arbitrary: p rule: polls.induct)
  case (polls_more m c c1 c' xs)
  have "pipe_act (MatcherPoll m) p = Some (p\<lparr>pl_in := c1\<rparr>)"
    using polls_more.hyps(1) polls_more.prems by simp
  moreover have "pipe_reach (p\<lparr>pl_in := c1\<rparr>) p'"
    using polls_more.IH [of "p\<lparr>pl_in := c1\<rparr>"] polls_more.prems by (cases xs) simp_all
  ultimately show ?case by (rule reach_first)
next
  case (polls_item m c c' x)
  then have "pipe_act (MatcherPoll m) p = Some p'" by simp
  then show ?case by (rule reach_one)
qed (simp_all add: reach_same)

lemma producer_sends:
  "sends (wire_of op) c c' \<Longrightarrow> pl_in p = c \<Longrightarrow> pl_ops p = op # ops \<Longrightarrow> pipe_reach p (p\<lparr>pl_in := c', pl_ops := ops\<rparr>)"
proof (induction arbitrary: p rule: sends.induct)
  case (sends_in m c c')
  then have "pipe_act (ProducerPush m) p = Some (p\<lparr>pl_in := c', pl_ops := ops\<rparr>)" by simp
  then show ?case by (rule reach_one)
next
  case (sends_more m c c1 c')
  then have "pipe_act (ProducerPush m) p = Some (p\<lparr>pl_in := c1\<rparr>)" by simp
  then show ?case using sends_more.IH [of "p\<lparr>pl_in := c1\<rparr>"] sends_more.prems reach_first by fastforce
qed

lemma matcher_sends:
  "sends t c c' \<Longrightarrow> pl_out p = c \<Longrightarrow> pl_matcher p = Sending (t # ts) \<Longrightarrow>
   pipe_reach p (p\<lparr>pl_out := c', pl_matcher := send_trades ts\<rparr>)"
proof (induction arbitrary: p rule: sends.induct)
  case (sends_in m c c')
  then have "pipe_act (MatcherPush m) p = Some (p\<lparr>pl_out := c', pl_matcher := send_trades ts\<rparr>)" by simp
  then show ?case by (rule reach_one)
next
  case (sends_more m c c1 c')
  then have "pipe_act (MatcherPush m) p = Some (p\<lparr>pl_out := c1\<rparr>)" by simp
  then show ?case using sends_more.IH [of "p\<lparr>pl_out := c1\<rparr>"] sends_more.prems reach_first by fastforce
qed

text \<open>The consumer empties the second ring.\<close>

lemma drain_channel:
  assumes "channel_ok k (pl_out p) us vs"
  shows "\<exists>c tot. pipe_reach p (p\<lparr>pl_out := c, pl_totals := tot\<rparr>) \<and> pops (ch_ring c) = pushes (ch_ring c) \<and>
    (ch_flag (pl_out p) \<noteq> None \<longrightarrow> ch_phase c = PollEnd)"
  using assms
proof (induction "pushes (ch_ring (pl_out p)) - pops (ch_ring (pl_out p))" arbitrary: p vs rule: less_induct)
  case less
  obtain c1 ts where c1: "polls False (pl_out p) c1 ts" "settled c1 ts" using polls_settle [OF less.prems] by blast
  let ?p = "p\<lparr>pl_out := c1, pl_totals := foldl count_trade (pl_totals p) ts\<rparr>"
  have reach: "pipe_reach p ?p" using consumer_polls [OF c1(1) refl] .
  have ok1: "channel_ok k c1 us (vs @ ts)" using polls_ok [OF c1(1) less.prems] .
  show ?case
  proof (cases ts)
    case Nil
    then have "pops (ch_ring c1) = pushes (ch_ring c1)" "ch_flag (pl_out p) \<noteq> None \<longrightarrow> ch_phase c1 = PollEnd"
      using c1(2) ok1 polls_frame [OF c1(1)] by (auto simp: settled_def channel_ok_def)
    then show ?thesis using reach by blast
  next
    case (Cons t ts')
    then have "ts = [t]" using c1(2) by (auto simp: settled_def)
    then have "pushes (ch_ring (pl_out ?p)) - pops (ch_ring (pl_out ?p)) < pushes (ch_ring (pl_out p)) - pops (ch_ring (pl_out p))"
      using channel_lengths [OF ok1] channel_lengths [OF less.prems] by auto
    from less.hyps [OF this, of "vs @ ts"] ok1 obtain c' tot where
      "pipe_reach ?p (p\<lparr>pl_out := c', pl_totals := tot\<rparr>)" "pops (ch_ring c') = pushes (ch_ring c')"
      "ch_flag c1 \<noteq> None \<longrightarrow> ch_phase c' = PollEnd" by auto
    then show ?thesis using reach_trans [OF _ reach] polls_frame [OF c1(1)] by metis
  qed
qed

lemma drain:
  assumes "pipe_ok k ops b0 p"
  shows "\<exists>c tot. pipe_reach p (p\<lparr>pl_out := c, pl_totals := tot\<rparr>) \<and> pops (ch_ring c) = pushes (ch_ring c) \<and>
    (ch_flag (pl_out p) \<noteq> None \<longrightarrow> ch_phase c = PollEnd)"
  using assms drain_channel by (auto simp: pipe_ok_def streams_ok_def)

text \<open>The matcher gets rid of its trades, then of the items.\<close>

lemma flush:
  assumes good: "match_all (map wire_of ops) b0 = Some (bf, all)"
  shows "pipe_ok k ops b0 p \<Longrightarrow> 0 < k \<Longrightarrow> pl_matcher p = send_trades ts \<Longrightarrow>
    \<exists>p'. pipe_reach p p' \<and> pl_matcher p' = Polling \<and> pl_in p' = pl_in p \<and> pl_ops p' = pl_ops p"
proof (induction ts arbitrary: p)
  case Nil
  then show ?case by (auto simp: send_trades_def intro: pipe_start)
next
  case (Cons t ts)
  obtain c tot where c: "pipe_reach p (p\<lparr>pl_out := c, pl_totals := tot\<rparr>)" "pops (ch_ring c) = pushes (ch_ring c)"
    using drain [OF Cons.prems(1)] by blast
  let ?p = "p\<lparr>pl_out := c, pl_totals := tot\<rparr>"
  have ok: "pipe_ok k ops b0 ?p" using pipe_reach_ok [OF c(1) Cons.prems(1) good] .
  then obtain us vs where s: "channel_ok k c us vs" "ch_flag c = None" "set (held (ch_ring c)) \<subseteq> {t}"
    using Cons.prems(3) by (auto simp: pipe_ok_def streams_ok_def threads_ok_def send_trades_def)
  obtain c' where "sends t c c'" using sends_drained [OF s(1,2) Cons.prems(2) c(2) s(3)] by blast
  then have sent: "pipe_reach ?p (?p\<lparr>pl_out := c', pl_matcher := send_trades ts\<rparr>)"
    by (rule matcher_sends) (use Cons.prems(3) in \<open>simp_all add: send_trades_def\<close>)
  then have "pipe_ok k ops b0 (?p\<lparr>pl_out := c', pl_matcher := send_trades ts\<rparr>)" using pipe_reach_ok ok good by blast
  from Cons.IH [OF this Cons.prems(2)] obtain p' where
    "pipe_reach (?p\<lparr>pl_out := c', pl_matcher := send_trades ts\<rparr>) p'" "pl_matcher p' = Polling" "pl_in p' = pl_in p" "pl_ops p' = pl_ops p"
    by auto
  moreover from this(1) have "pipe_reach p p'" by (rule reach_trans [OF _ reach_trans [OF sent c(1)]])
  ultimately show ?case by blast
qed

definition in_flight :: "pipeline \<Rightarrow> nat" where
  "in_flight p = pushes (ch_ring (pl_in p)) - pops (ch_ring (pl_in p))"

text \<open>The producer has something to do whenever the matcher would wait.\<close>

lemma producer_supplies:
  assumes ok: "pipe_ok k ops b0 p" "0 < k" and polling: "pl_matcher p = Polling"
  shows "\<exists>p'. pipe_reach p p' \<and> pl_matcher p' = Polling \<and> (0 < in_flight p' \<or> ch_flag (pl_in p') \<noteq> None) \<and>
    length (pl_ops p') + in_flight p' = length (pl_ops p) + in_flight p"
proof (cases "0 < in_flight p \<or> ch_flag (pl_in p) \<noteq> None")
  case True
  then show ?thesis using polling pipe_start by blast
next
  case False
  obtain ps qs us vs where t: "threads_ok p" and s: "streams_ok k ops b0 p ps qs us vs" using ok(1) by (rule pipe_okE)
  have c: "channel_ok k (pl_in p) ps qs" "ch_flag (pl_in p) = None" "pops (ch_ring (pl_in p)) = pushes (ch_ring (pl_in p))"
    using False s channel_lengths [of k "pl_in p" ps qs] by (auto simp: streams_ok_def in_flight_def)
  show ?thesis
  proof (cases "pl_ops p")
    case Nil
    then have "pipe_act ProducerDone p = Some (p\<lparr>pl_in := ch_close (pl_in p)\<rparr>)" using c(2) by simp
    from reach_one [OF this] show ?thesis using polling
      by (intro exI [of _ "p\<lparr>pl_in := ch_close (pl_in p)\<rparr>"]) (simp add: ch_close_def in_flight_def)
  next
    case (Cons op rest)
    have held: "set (held (ch_ring (pl_in p))) \<subseteq> {wire_of op}" using t Cons by (simp add: threads_ok_def)
    obtain c' where c': "sends (wire_of op) (pl_in p) c'" using sends_drained [OF c(1,2) ok(2) c(3) held] by blast
    then have "pipe_reach p (p\<lparr>pl_in := c', pl_ops := rest\<rparr>)" using producer_sends Cons by blast
    moreover have "channel_ok k c' (ps @ [wire_of op]) qs" using sends_ok [OF c' c(1,2) held] .
    then have "in_flight (p\<lparr>pl_in := c', pl_ops := rest\<rparr>) = 1"
      using channel_lengths [OF c(1)] c(3) channel_lengths by (fastforce simp: in_flight_def)
    ultimately show ?thesis using polling Cons c(3)
      by (intro exI [of _ "p\<lparr>pl_in := c', pl_ops := rest\<rparr>"]) (simp add: in_flight_def)
  qed
qed

lemma consume:
  assumes good: "match_all (map wire_of ops) b0 = Some (bf, all)"
    and ok: "pipe_ok k ops b0 p" "0 < k" and polling: "pl_matcher p = Polling"
  shows "\<exists>p'. pipe_reach p p' \<and> pl_matcher p' = Polling \<and>
    (length (pl_ops p') + in_flight p' < length (pl_ops p) + in_flight p \<or> ch_phase (pl_in p') = PollEnd)"
proof -
  obtain p1 where p1: "pipe_reach p p1" "pl_matcher p1 = Polling" "0 < in_flight p1 \<or> ch_flag (pl_in p1) \<noteq> None"
    "length (pl_ops p1) + in_flight p1 = length (pl_ops p) + in_flight p"
    using producer_supplies [OF ok polling] by blast
  have ok1: "pipe_ok k ops b0 p1" using pipe_reach_ok [OF p1(1) ok(1) good] .
  then obtain ps qs us vs where s: "streams_ok k ops b0 p1 ps qs us vs" by (rule pipe_okE)
  then have ch: "channel_ok k (pl_in p1) ps qs" by (simp add: streams_ok_def)
  obtain c ws where c: "polls False (pl_in p1) c ws" "settled c ws" using polls_settle [OF ch] by blast
  have ok2: "channel_ok k c ps (qs @ ws)" using polls_ok [OF c(1) ch] .
  show ?thesis
  proof (cases ws)
    case Nil
    then have "pipe_reach p1 (p1\<lparr>pl_in := c\<rparr>)" using matcher_polls [OF c(1) refl p1(2)] by simp
    moreover have "ch_phase c = PollEnd"
      using Nil c(2) p1(3) polls_frame [OF c(1)] channel_lengths [OF ok2] channel_lengths [OF ch]
      by (auto simp: settled_def in_flight_def)
    ultimately show ?thesis using reach_trans [OF _ p1(1)] p1(2) by (intro exI [of _ "p1\<lparr>pl_in := c\<rparr>"]) simp
  next
    case (Cons w ws')
    then have ws: "ws = [w]" using c(2) by (auto simp: settled_def)
    obtain rest where "ps = qs @ w # rest" using channel_popped [OF ok2] ws by auto
    then have "match_all (qs @ w # rest @ map wire_of (pl_ops p1)) b0 = Some (bf, all)" "match_all qs b0 = Some (pl_book p1, us)"
      using good s p1(2) by (simp_all add: streams_ok_def flip: append_Cons append_assoc)
    from match_all_next [OF this] obtain b2 ts where "match_wire w (pl_book p1) = Some (Inr (), b2, ts)" by metis
    then have "matched w (p1\<lparr>pl_in := c\<rparr>) = Some (p1\<lparr>pl_in := c, pl_book := b2, pl_matcher := send_trades ts\<rparr>)"
      by (simp add: matched_def)
    then have step: "pipe_reach p1 (p1\<lparr>pl_in := c, pl_book := b2, pl_matcher := send_trades ts\<rparr>)" (is "pipe_reach p1 ?p2")
      using matcher_polls [OF c(1) refl p1(2)] ws by simp
    obtain p3 where p3: "pipe_reach ?p2 p3" "pl_matcher p3 = Polling" "pl_in p3 = c" "pl_ops p3 = pl_ops p1"
      using flush [OF good pipe_reach_ok [OF step ok1 good] ok(2), of ts] by auto
    have "length (pl_ops p3) + in_flight p3 < length (pl_ops p1) + in_flight p1"
      using channel_lengths [OF ok2] channel_lengths [OF ch] ws p3(3,4) by (auto simp: in_flight_def)
    then show ?thesis using reach_trans [OF p3(1) reach_trans [OF step p1(1)]] p3(2) p1(4) by auto
  qed
qed

lemma consume_all:
  assumes good: "match_all (map wire_of ops) b0 = Some (bf, all)" and k: "0 < k"
  shows "pipe_ok k ops b0 p \<Longrightarrow> pl_matcher p = Polling \<Longrightarrow>
    \<exists>p'. pipe_reach p p' \<and> pl_matcher p' = Polling \<and> ch_phase (pl_in p') = PollEnd"
proof (induction "length (pl_ops p) + in_flight p" arbitrary: p rule: less_induct)
  case less
  obtain p1 where p1: "pipe_reach p p1" "pl_matcher p1 = Polling"
    "length (pl_ops p1) + in_flight p1 < length (pl_ops p) + in_flight p \<or> ch_phase (pl_in p1) = PollEnd"
    using consume [OF good less.prems(1) k less.prems(2)] by blast
  have ok1: "pipe_ok k ops b0 p1" using pipe_reach_ok [OF p1(1) less.prems(1) good] .
  show ?case using less.hyps [OF _ ok1 p1(2)] p1 reach_trans by blast
qed

lemma pipe_can_finish:
  assumes good: "match_all (map wire_of ops) b0 = Some (bf, all)" and ok: "pipe_ok k ops b0 p" and k: "0 < k"
  shows "\<exists>p'. pipe_reach p p' \<and> pipe_finished p'"
proof -
  have stopped: "\<exists>p'. pipe_reach p p' \<and> pipe_finished p'" if p: "pipe_ok k ops b0 p" "pl_matcher p = Stopped" for p
  proof -
    have "ch_flag (pl_out p) \<noteq> None" using p by (simp add: pipe_ok_def threads_ok_def)
    then show ?thesis using drain [OF p(1)] by (fastforce simp: pipe_finished_def)
  qed
  have ended: "\<exists>p'. pipe_reach p p' \<and> pipe_finished p'"
    if p: "pipe_ok k ops b0 p" "pl_matcher p = Polling" "ch_phase (pl_in p) = PollEnd" for p
  proof -
    have run: "pipe_act MatcherDone p = Some (p\<lparr>pl_out := ch_close (pl_out p), pl_matcher := Stopped\<rparr>)" using p by simp
    from stopped [OF pipe_act_ok [OF good p(1) run]] show ?thesis using reach_first [OF run] by auto
  qed
  have polling: "\<exists>p'. pipe_reach p p' \<and> pipe_finished p'" if p: "pipe_ok k ops b0 p" "pl_matcher p = Polling" for p
  proof -
    obtain p1 where p1: "pipe_reach p p1" "pl_matcher p1 = Polling" "ch_phase (pl_in p1) = PollEnd"
      using consume_all [OF good k p] by blast
    from ended [OF pipe_reach_ok [OF p1(1) p(1) good] p1(2,3)] show ?thesis using reach_trans p1(1) by blast
  qed
  show ?thesis
  proof (cases "pl_matcher p")
    case Polling
    then show ?thesis using polling [OF ok] by blast
  next
    case (Sending ts)
    then have "pl_matcher p = send_trades ts" using ok by (auto simp: pipe_ok_def threads_ok_def send_trades_def)
    from flush [OF good ok k this] obtain p1 where p1: "pipe_reach p p1" "pl_matcher p1 = Polling" by blast
    from polling [OF pipe_reach_ok [OF p1(1) ok good] p1(2)] show ?thesis using reach_trans p1(1) by blast
  next
    case (Threw e)
    then show ?thesis using ok by (simp add: pipe_ok_def threads_ok_def)
  next
    case Stopped
    then show ?thesis using stopped [OF ok] by blast
  qed
qed

section \<open>The generated workload\<close>

text \<open>The wire turns every order that is not a plain limit order into a market order.\<close>

definition as_wired :: "fuzz_op \<Rightarrow> fuzz_op" where
  "as_wired p = (if fo_kind p \<in> {CancelOp, AddLimit} then p else p\<lparr>fo_kind := AddMarket\<rparr>)"

lemma as_wired_kind: "fo_kind (as_wired p) = CancelOp \<longleftrightarrow> fo_kind p = CancelOp"
  by (auto simp: as_wired_def)

lemma as_wired_same: "fo_id (as_wired p) = fo_id p" "fo_price (as_wired p) = fo_price p" "fo_qty (as_wired p) = fo_qty p"
  by (simp_all add: as_wired_def)

lemma as_wired_request: "fo_kind p \<noteq> CancelOp \<Longrightarrow> request_of (as_wired p) = threaded_request p"
  by (auto simp: as_wired_def request_of_def threaded_request_def type_of_kind_def)

lemma ops_ok_wired: "ops_ok lo hi n (map as_wired ops) = ops_ok lo hi n ops"
  by (induction ops arbitrary: n) (simp_all add: as_wired_kind as_wired_same)

lemma reference_is_drive: "reference ops b c = drive_v2 (map as_wired ops) b c"
proof (induction ops arbitrary: b c)
  case (Cons p ops)
  then show ?case by (simp add: as_wired_kind as_wired_same as_wired_request cong: sum.case_cong)
qed simp

lemma reference_returns:
  assumes "draws_within dist" "count \<le> 2 ^ 20" "new_book 1048576 20000 = Some b0"
  shows "\<exists>b c. reference (generate_ops dist rng count) b0 no_totals = Some (Inr (b, c)) \<and>
    summary_v2 b c = run_v1 (map as_wired (generate_ops dist rng count))"
proof -
  let ?ops = "map as_wired (generate_ops dist rng count)"
  have "run_v2 1048576 20000 ?ops = Some (Inr (run_v1 ?ops))"
    by (rule runs_agree [of 9950 10050])
      (use generated_ok(1) [OF assms(1,2), of rng] assms(2) in \<open>simp_all add: ops_ok_wired generated_length kMaxLevels_def\<close>)
  then obtain r where r: "drive_v2 ?ops b0 no_totals = Some r"
    "(case r of Inl e \<Rightarrow> Inl e | Inr (b', c) \<Rightarrow> Inr (summary_v2 b' c)) = Inr (run_v1 ?ops)"
    using assms(3) by (auto simp: run_v2_def bind_eq_Some_conv)
  then obtain b c where "r = Inr (b, c)" "summary_v2 b c = run_v1 ?ops" by (cases r) auto
  then show ?thesis using r(1) by (simp add: reference_is_drive)
qed

section \<open>Properties\<close>

text \<open>C5: the threaded pipeline does what calling the book directly does, whatever the interleaving of the three
  threads and however stale the positions and flags they read: the matching thread never throws, and when
  the consumer leaves its loop it has the trades, the traded quantity and the checksum of the sequential
  reference, and the matching thread's book is the reference's book.\<close>

theorem threaded_is_sequential:
  assumes "draws_within dist" "count \<le> 2 ^ 20" "k < 64" "new_book 1048576 20000 = Some b0"
    and "pipe_reach (new_pipeline (2 ^ k) (generate_ops dist rng count) b0) p"
  shows "(\<forall>e. pl_matcher p \<noteq> Threw e) \<and>
    (pipe_finished p \<longrightarrow>
      reference (generate_ops dist rng count) b0 no_totals = Some (Inr (pl_book p, pl_totals p)))"
proof -
  let ?ops = "generate_ops dist rng count"
  obtain b c where ref: "reference ?ops b0 no_totals = Some (Inr (b, c))" using reference_returns [OF assms(1,2,4)] by blast
  then obtain us where us: "match_all (map wire_of ?ops) b0 = Some (b, us)" "c = foldl count_trade no_totals us"
    using reference_trades by blast
  have ok: "pipe_ok k ?ops b0 p" using pipe_reach_ok [OF assms(5) new_pipeline_ok [OF assms(3)] us(1)] .
  then have "\<forall>e. pl_matcher p \<noteq> Threw e" by (simp add: pipe_ok_def threads_ok_def)
  then show ?thesis using finished_totals [OF ok _ us(1)] ref us(2) by simp
qed

text \<open>C19: no interleaving of the three threads is a dead end: wherever the pipeline has got to, the threads can go on
  so that the consumer leaves its loop, if the rings have two cells at least.\<close>

theorem threaded_can_finish:
  assumes "draws_within dist" "count \<le> 2 ^ 20" "0 < k" "k < 64" "new_book 1048576 20000 = Some b0"
    and "pipe_reach (new_pipeline (2 ^ k) (generate_ops dist rng count) b0) p"
  shows "\<exists>p'. pipe_reach p p' \<and> pipe_finished p'"
proof -
  let ?ops = "generate_ops dist rng count"
  obtain b c where ref: "reference ?ops b0 no_totals = Some (Inr (b, c))" using reference_returns [OF assms(1,2,5)] by blast
  then obtain us where us: "match_all (map wire_of ?ops) b0 = Some (b, us)" using reference_trades by blast
  show ?thesis using pipe_can_finish [OF us pipe_reach_ok [OF assms(6) new_pipeline_ok [OF assms(4)] us] assms(3)] .
qed

text \<open>Twelve operations through rings of two cells: nine trades.\<close>

lemma demo_finished:
  obtains b0 p where "new_book 1048576 20000 = Some b0"
    "pipe_reach (new_pipeline (2 ^ 1) (generate_ops demo_dist 5 12) b0) p" "pipe_finished p"
proof -
  let ?ops = "generate_ops demo_dist 5 12"
  obtain b0 where b0: "new_book 1048576 20000 = Some b0" using new_book_ok [of 20000 1048576] by auto
  obtain b c where ref: "reference ?ops b0 no_totals = Some (Inr (b, c))"
    using reference_returns [OF demo_dist_within _ b0, of 12 5] by auto
  then obtain us where us: "match_all (map wire_of ?ops) b0 = Some (b, us)" using reference_trades by blast
  from pipe_can_finish [OF us new_pipeline_ok [of 1 ?ops b0]] show thesis using that [OF b0] by auto
qed

theorem threaded_is_sequential_witness:
  "\<exists>b0 p. new_book 1048576 20000 = Some b0 \<and>
     pipe_reach (new_pipeline (2 ^ 1) (generate_ops demo_dist 5 12) b0) p \<and> pipe_finished p \<and>
     reference (generate_ops demo_dist 5 12) b0 no_totals = Some (Inr (pl_book p, pl_totals p)) \<and> total_trades (pl_totals p) = 9"
proof -
  obtain b0 p where p: "new_book 1048576 20000 = Some b0"
    "pipe_reach (new_pipeline (2 ^ 1) (generate_ops demo_dist 5 12) b0) p" "pipe_finished p" by (rule demo_finished)
  have ref: "reference (generate_ops demo_dist 5 12) b0 no_totals = Some (Inr (pl_book p, pl_totals p))"
    using threaded_is_sequential [OF demo_dist_within _ _ p(1,2)] p(3) by simp
  obtain b c where c: "reference (generate_ops demo_dist 5 12) b0 no_totals = Some (Inr (b, c))"
    "summary_v2 b c = run_v1 (map as_wired (generate_ops demo_dist 5 12))"
    using reference_returns [OF demo_dist_within _ p(1), of 12 5] by auto
  have "total_trades (run_v1 (map as_wired (generate_ops demo_dist 5 12))) = 9" by code_simp
  then have "total_trades (pl_totals p) = 9" using c ref by (simp add: summary_v2_def totals.extend_def flip: c(2))
  then show ?thesis using p ref by blast
qed

theorem threaded_can_finish_witness:
  "\<exists>b0 p. new_book 1048576 20000 = Some b0 \<and> pipe_reach (new_pipeline (2 ^ 1) (generate_ops demo_dist 5 12) b0) p \<and> pipe_finished p"
proof -
  obtain b0 where b0: "new_book 1048576 20000 = Some b0" using new_book_ok [of 20000 1048576] by auto
  show ?thesis using threaded_can_finish [OF demo_dist_within _ _ _ b0 pipe_start, of 12 1 5] b0 by auto
qed

end
