(* ===== verification/Sharded_Feed.thy ===== *)
theory Sharded_Feed
  imports Sequencer_Risk
begin

text \<open>
  Sharding by symbol (\<open>cpp/feed/tests/test_concurrent_sharded_pipeline.cpp\<close>): the router's table, the shard of a
  message, and the result the sharding rests on. A sequencer with its risk engine and books that gets only
  the messages of its own symbols does on each of them what one sequencer for all symbols does: same outputs,
  same books, same counts. \<open>std::hash\<close> on strings is a parameter.
\<close>

section \<open>The router\<close>

definition kShards :: nat where
  "kShards = 4"

definition shard_for :: "(bytes \<Rightarrow> nat) \<Rightarrow> bytes \<Rightarrow> nat" where
  "shard_for hash symbol = hash symbol mod kShards"

type_synonym route_table = "u64 \<Rightarrow> bytes option"

fun route_symbol_for :: "message \<Rightarrow> route_table \<Rightarrow> bytes option \<times> route_table" where
  "route_symbol_for (AddOrderNoMPID m) routes =
     (let symbol = alpha_str (ao_stock m) in (Some symbol, routes(ao_order_ref_number m \<mapsto> symbol)))"
| "route_symbol_for (AddOrderMPID m) routes =
     (let symbol = alpha_str (aom_stock m) in (Some symbol, routes(aom_order_ref_number m \<mapsto> symbol)))"
| "route_symbol_for (OrderCancel m) routes = (routes (oc_order_ref_number m), routes)"
| "route_symbol_for (OrderExecuted m) routes = (routes (oe_order_ref_number m), routes)"
| "route_symbol_for (OrderExecutedWithPrice m) routes = (routes (oep_order_ref_number m), routes)"
| "route_symbol_for (OrderDelete m) routes =
     (case routes (od_order_ref_number m) of None \<Rightarrow> (None, routes)
      | Some symbol \<Rightarrow> (Some symbol, routes(od_order_ref_number m := None)))"
| "route_symbol_for (OrderReplace m) routes =
     (case routes (or_original_order_ref_number m) of None \<Rightarrow> (None, routes)
      | Some symbol \<Rightarrow> (Some symbol, (routes(or_original_order_ref_number m := None))(or_new_order_ref_number m \<mapsto> symbol)))"
| "route_symbol_for _ routes = (None, routes)"

text \<open>The shard a message goes to; messages without a symbol go to shard 0.\<close>

definition shard_of :: "(bytes \<Rightarrow> nat) \<Rightarrow> bytes option \<Rightarrow> nat" where
  "shard_of hash symbol = (case symbol of None \<Rightarrow> 0 | Some s \<Rightarrow> shard_for hash s)"

fun route_all :: "(bytes \<Rightarrow> nat) \<Rightarrow> message list \<Rightarrow> route_table \<Rightarrow> (nat \<times> message) list" where
  "route_all hash [] routes = []"
| "route_all hash (m # ms) routes =
     (case route_symbol_for m routes of (symbol, routes1) \<Rightarrow> (shard_of hash symbol, m) # route_all hash ms routes1)"

fun routes_after :: "message list \<Rightarrow> route_table \<Rightarrow> route_table" where
  "routes_after [] routes = routes"
| "routes_after (m # ms) routes = routes_after ms (snd (route_symbol_for m routes))"

definition share :: "nat \<Rightarrow> (nat \<times> message) list \<Rightarrow> message list" where
  "share k xs = map snd (filter (\<lambda>x. fst x = k) xs)"

section \<open>Two sequencers that agree on some symbols and order references\<close>

definition engine_same :: "bytes set \<Rightarrow> risk_engine \<Rightarrow> risk_engine \<Rightarrow> bool" where
  "engine_same Y e e' \<longleftrightarrow> cfg e' = cfg e \<and>
     (\<forall>y \<in> Y. last_trade_price e' y = last_trade_price e y \<and>
        (\<forall>m sd. resting_count e' (risk_key y m sd) = resting_count e (risk_key y m sd)))"

definition stat_fields :: "(seq_stats \<Rightarrow> u64) list" where
  "stat_fields = [add_orders, cancels, deletes, executes, non_printable_skipped, replaces, unrouted, other_message_types,
     trades_produced, add_rejected, risk_rejected]"

text \<open>They agree on the books of \<open>Y\<close>, the risk of the key-safe symbols of \<open>Y\<close> and the routes of \<open>I\<close>; their counters
  are \<open>d\<close> apart.\<close>

definition twin :: "bytes set \<Rightarrow> u64 set \<Rightarrow> ((seq_stats \<Rightarrow> u64) \<Rightarrow> u64) \<Rightarrow> seq_state \<Rightarrow> seq_state \<Rightarrow> bool" where
  "twin Y I d st s \<longleftrightarrow>
     (\<forall>y \<in> Y. sq_books s y = sq_books st y) \<and>
     rel_option (engine_same {y \<in> Y. 1 \<notin> set y}) (sq_risk st) (sq_risk s) \<and>
     (\<forall>i \<in> I. order_symbol s i = order_symbol st i) \<and>
     (\<forall>g \<in> set stat_fields. g (sq_stats st) = g (sq_stats s) + d g)"

lemma engine_same_ops:
  assumes "engine_same Y e e'" "y \<in> Y"
  shows "engine_same Y (on_trade y p e) (on_trade y p e')" "engine_same Y (note_resting y m sd e) (note_resting y m sd e')"
    "engine_same Y (note_removed y m sd e) (note_removed y m sd e')"
  using assms by (auto simp: engine_same_def on_trade_def note_resting_def note_removed_def Let_def split: option.splits)

lemma twin_count [intro]:
  assumes "twin Y I d st s"
  shows "twin Y I d (count1 add_orders_update st) (count1 add_orders_update s)"
    "twin Y I d (count1 cancels_update st) (count1 cancels_update s)"
    "twin Y I d (count1 deletes_update st) (count1 deletes_update s)"
    "twin Y I d (count1 executes_update st) (count1 executes_update s)"
    "twin Y I d (count1 non_printable_skipped_update st) (count1 non_printable_skipped_update s)"
    "twin Y I d (count1 replaces_update st) (count1 replaces_update s)"
    "twin Y I d (count1 unrouted_update st) (count1 unrouted_update s)"
    "twin Y I d (count1 other_message_types_update st) (count1 other_message_types_update s)"
    "twin Y I d (count1 add_rejected_update st) (count1 add_rejected_update s)"
    "twin Y I d (count1 risk_rejected_update st) (count1 risk_rejected_update s)"
    "twin Y I d (st\<lparr>sq_stats := trades_produced_update (\<lambda>n. n + c) (sq_stats st)\<rparr>)
       (s\<lparr>sq_stats := trades_produced_update (\<lambda>n. n + c) (sq_stats s)\<rparr>)"
  using assms by (auto simp: twin_def stat_fields_def)

lemma twin_book [intro]: "twin Y I d st s \<Longrightarrow> twin Y I d (set_book y b st) (set_book y b s)"
  by (auto simp: twin_def)

lemma twin_route [intro]:
  "twin Y I d st s \<Longrightarrow>
   twin Y I d (st\<lparr>order_symbol := (order_symbol st)(i := v)\<rparr>) (s\<lparr>order_symbol := (order_symbol s)(i := v)\<rparr>)"
  by (auto simp: twin_def)

lemma twin_risk [intro]:
  assumes "twin Y I d st s" "y \<in> Y" "1 \<notin> set y"
  shows "twin Y I d (with_risk (on_trade y p) st) (with_risk (on_trade y p) s)"
    "twin Y I d (with_risk (note_resting y m sd) st) (with_risk (note_resting y m sd) s)"
    "twin Y I d (with_risk (note_removed y m sd) st) (with_risk (note_removed y m sd) s)"
  using assms engine_same_ops [of "{y \<in> Y. 1 \<notin> set y}" _ _ y]
  by (auto simp: twin_def option.rel_map elim!: option.rel_mono_strong)

lemma twin_verdict:
  assumes "twin Y I d st s" "y \<in> Y" "1 \<notin> set y"
  shows "risk_verdict rnd s req y m = risk_verdict rnd st req y m"
proof (cases "sq_risk st")
  case None
  then show ?thesis using assms by (auto simp: twin_def risk_verdict_def)
next
  case (Some e)
  then obtain e' where e': "sq_risk s = Some e'" "engine_same {y \<in> Y. 1 \<notin> set y} e e'" "sq_books s y = sq_books st y"
    using assms by (auto simp: twin_def option_rel_Some1)
  then have eng: "cfg e' = cfg e" "last_trade_price e' y = last_trade_price e y"
    "resting_count e' (risk_key y m sd) = resting_count e (risk_key y m sd)" for sd
    using assms(2,3) by (auto simp: engine_same_def)
  show ?thesis
    by (simp only: risk_verdict_def risk_check_def reference_price_def option.case Some e'(1,3) eng)
qed

lemma publish_twin:
  "publish_trades cb i y sd ts trades st = (st', out) \<Longrightarrow> twin Y I d st s \<Longrightarrow> y \<in> Y \<Longrightarrow> 1 \<notin> set y \<Longrightarrow>
   \<exists>s'. publish_trades cb i y sd ts trades s = (s', out) \<and> twin Y I d st' s'"
proof (induction trades arbitrary: st s st' out)
  case (Cons t trades)
  obtain st2 out3 where two: "publish_trades cb i y sd ts trades (with_risk (on_trade y (trade_price t)) st) = (st2, out3)" by fastforce
  from Cons.IH [OF two twin_risk(1) [OF Cons.prems(2-)] Cons.prems(3,4)] show ?case
    using Cons.prems(1) two by (auto simp: Let_def)
qed auto

section \<open>Every message keeps them together\<close>

lemma add_twin:
  assumes tw: "twin Y I d st s" and y: "alpha_str stock \<in> Y" "1 \<notin> set (alpha_str stock)"
    and run: "on_add cb rnd h i c shares stock price mpid st = Some (st', out)"
  shows "\<exists>s'. on_add cb rnd h i c shares stock price mpid s = Some (s', out) \<and> twin Y I d st' s'"
proof -
  let ?y = "alpha_str stock" and ?sd = "side_from_indicator c"
  let ?req = "\<lparr>req_id = i, req_side = ?sd, req_type = Limit, req_price = uint price, req_qty = ucast shares\<rparr>"
  note v = twin_verdict [OF tw y, of rnd ?req mpid]
  have b: "sq_books s ?y = sq_books st ?y" using tw y(1) by (simp add: twin_def)
  show ?thesis
  proof (cases "accepted (risk_verdict rnd st ?req ?y mpid)")
    case False
    then show ?thesis using run v twin_count(10) [OF tw] by (simp add: on_add_def Let_def)
  next
    case acc: True
    obtain r bk trades where add: "book_add (sq_books st ?y) ?req = Some (r, bk, trades)"
      using run acc by (auto simp: on_add_def Let_def bind_eq_Some_conv)
    let ?enter = "\<lambda>st. set_book ?y bk (st\<lparr>order_symbol := (order_symbol st)(i \<mapsto> \<lparr>oi_symbol = ?y, oi_side = ?sd, oi_mpid = mpid\<rparr>)\<rparr>)"
    have enter: "twin Y I d (?enter st) (?enter s)" using tw by (intro twin_book twin_route)
    show ?thesis
    proof (cases r)
      case (Inl e)
      then show ?thesis
        using run acc add v b twin_route [OF twin_count(9) [OF enter], of i None] by (auto simp: on_add_def Let_def)
    next
      case (Inr u)
      let ?done = "\<lambda>st. with_risk (note_resting ?y mpid ?sd) ((count1 add_orders_update (?enter st))
        \<lparr>sq_stats := trades_produced_update (\<lambda>n. n + word_of_nat (length trades)) (sq_stats (count1 add_orders_update (?enter st)))\<rparr>)"
      have "twin Y I d (?done st) (?done s)" using enter y by (intro twin_risk twin_count)
      moreover obtain st5 fl where pub: "publish_trades cb i ?y ?sd (timestamp_ns h) trades (?done st) = (st5, fl)" by fastforce
      ultimately obtain s5 where "publish_trades cb i ?y ?sd (timestamp_ns h) trades (?done s) = (s5, fl)" "twin Y I d st5 s5"
        using publish_twin y by metis
      then show ?thesis using run acc add v b pub Inr by (simp add: on_add_def Let_def)
    qed
  qed
qed

lemma twin_ref: "twin Y I d st s \<Longrightarrow> i \<in> I \<Longrightarrow> order_symbol s i = order_symbol st i"
  by (simp add: twin_def)

lemma twin_book_of: "twin Y I d st s \<Longrightarrow> y \<in> Y \<Longrightarrow> sq_books s y = sq_books st y"
  by (simp add: twin_def)

lemma replace_twin:
  assumes tw: "twin Y I d st s" and i: "or_original_order_ref_number m \<in> I"
    and y: "\<And>info. order_symbol st (or_original_order_ref_number m) = Some info \<Longrightarrow> oi_symbol info \<in> Y \<and> 1 \<notin> set (oi_symbol info)"
    and run: "on_replace cb rnd m st = Some (st', out)"
  shows "\<exists>s'. on_replace cb rnd m s = Some (s', out) \<and> twin Y I d st' s'"
proof (cases "order_symbol st (or_original_order_ref_number m)")
  case None
  then show ?thesis using run twin_ref [OF tw i] twin_count(7) [OF tw] by (auto simp: on_replace_def)
next
  case (Some info)
  let ?k = "or_original_order_ref_number m" and ?new = "or_new_order_ref_number m" and ?y = "oi_symbol info"
  let ?req = "\<lparr>req_id = ?new, req_side = oi_side info, req_type = Limit, req_price = uint (or_price m), req_qty = ucast (or_shares m)\<rparr>"
  have here: "?y \<in> Y" "1 \<notin> set ?y" using y [OF Some] by simp_all
  have info: "order_symbol s ?k = Some info" using Some twin_ref [OF tw i] by simp
  obtain b0 found where c: "book_cancel (sq_books st ?y) ?k = Some (b0, found)"
    using run Some by (cases "book_cancel (sq_books st ?y) ?k") (auto simp: on_replace_def Let_def)
  have c': "book_cancel (sq_books s ?y) ?k = Some (b0, found)" using c twin_book_of [OF tw here(1)] by simp
  let ?gone = "\<lambda>st. (with_risk (note_removed ?y (oi_mpid info) (oi_side info)) (set_book ?y b0 st))
    \<lparr>order_symbol := (order_symbol (with_risk (note_removed ?y (oi_mpid info) (oi_side info)) (set_book ?y b0 st)))(?k := None)\<rparr>"
  have gone: "twin Y I d (?gone st) (?gone s)" using tw here by (intro twin_route twin_risk twin_book)
  note v = twin_verdict [OF gone here, of rnd ?req "oi_mpid info"] and b = twin_book_of [OF gone here(1)]
  note def = on_replace_def Some info option.case Let_def c c' bind.bind_lunit prod.case
  show ?thesis
  proof (cases "accepted (risk_verdict rnd (?gone st) ?req ?y (oi_mpid info))")
    case False
    have "st' = count1 risk_rejected_update (?gone st)" using run False unfolding def by simp
    moreover have "on_replace cb rnd m s = Some (count1 risk_rejected_update (?gone s), out)"
      using run False v unfolding def by simp
    ultimately show ?thesis using twin_count(10) [OF gone] by blast
  next
    case acc: True
    obtain r bk trades where add: "book_add (sq_books (?gone st) ?y) ?req = Some (r, bk, trades)"
      using run acc unfolding def by (auto simp: bind_eq_Some_conv)
    have add': "book_add (sq_books (?gone s) ?y) ?req = Some (r, bk, trades)" using add b by simp
    have acc': "accepted (risk_verdict rnd (?gone s) ?req ?y (oi_mpid info))" using acc v by simp
    have put: "twin Y I d (set_book ?y bk (?gone st)) (set_book ?y bk (?gone s))" using gone by (rule twin_book)
    show ?thesis
    proof (cases r)
      case (Inl e)
      have "st' = count1 add_rejected_update (set_book ?y bk (?gone st))"
        using run acc add Inl unfolding def by simp
      moreover have "on_replace cb rnd m s = Some (count1 add_rejected_update (set_book ?y bk (?gone s)), out)"
        using run acc add acc' add' Inl unfolding def by simp
      ultimately show ?thesis using twin_count(9) [OF put] by blast
    next
      case (Inr u)
      let ?enter = "\<lambda>st. count1 replaces_update ((set_book ?y bk st)\<lparr>order_symbol := (order_symbol (set_book ?y bk st))(?new \<mapsto> info)\<rparr>)"
      let ?done = "\<lambda>st. with_risk (note_resting ?y (oi_mpid info) (oi_side info)) ((?enter st)
        \<lparr>sq_stats := trades_produced_update (\<lambda>n. n + word_of_nat (length trades)) (sq_stats (?enter st))\<rparr>)"
      have "twin Y I d (?done (?gone st)) (?done (?gone s))" using put here by (intro twin_risk twin_count twin_route)
      moreover obtain st5 fl where pub:
        "publish_trades cb ?new ?y (oi_side info) (timestamp_ns (or_h m)) trades (?done (?gone st)) = (st5, fl)" by fastforce
      ultimately obtain s5 where pub':
        "publish_trades cb ?new ?y (oi_side info) (timestamp_ns (or_h m)) trades (?done (?gone s)) = (s5, fl)" "twin Y I d st5 s5"
        using publish_twin here by metis
      have "st' = st5" using run acc add pub Inr unfolding def by simp
      moreover have "on_replace cb rnd m s = Some (s5, out)"
        using run acc add acc' add' pub pub'(1) Inr unfolding def by simp
      ultimately show ?thesis using pub'(2) by blast
    qed
  qed
qed

text \<open>The order references a message names.\<close>

fun refs_of :: "message \<Rightarrow> u64 set" where
  "refs_of (AddOrderNoMPID a) = {ao_order_ref_number a}"
| "refs_of (AddOrderMPID a) = {aom_order_ref_number a}"
| "refs_of (OrderCancel a) = {oc_order_ref_number a}"
| "refs_of (OrderDelete a) = {od_order_ref_number a}"
| "refs_of (OrderExecuted a) = {oe_order_ref_number a}"
| "refs_of (OrderExecutedWithPrice a) = {oep_order_ref_number a}"
| "refs_of (OrderReplace a) = {or_original_order_ref_number a, or_new_order_ref_number a}"
| "refs_of _ = {}"

lemma message_twin:
  assumes tw: "twin Y (refs_of m) d st s"
    and y: "\<And>t. touches m st = Some t \<Longrightarrow> t \<in> Y \<and> 1 \<notin> set t"
    and run: "on_message cb rnd m st = Some (st', out)"
  shows "\<exists>s'. on_message cb rnd m s = Some (s', out) \<and> twin Y (refs_of m) d st' s'"
proof -
  have ref: "order_symbol s i = order_symbol st i" if "i \<in> refs_of m" for i using twin_ref [OF tw that] .
  note book = twin_book_of [OF tw]
  show ?thesis
  proof (cases m)
    case (AddOrderNoMPID a)
    then show ?thesis using add_twin [OF tw, of "ao_stock a"] y run by (simp add: on_message_def)
  next
    case (AddOrderMPID a)
    then show ?thesis using add_twin [OF tw, of "aom_stock a"] y run by (simp add: on_message_def)
  next
    case (OrderReplace a)
    then show ?thesis using replace_twin [OF tw, of a] y run by (simp add: on_message_def)
  next
    case (OrderCancel a)
    then show ?thesis
      using run y ref book tw
      by (cases "order_symbol st (oc_order_ref_number a)")
        (auto simp: on_message_def on_cancel_def bind_eq_Some_conv)
  next
    case (OrderExecuted a)
    then show ?thesis
      using run y ref book tw
      by (cases "order_symbol st (oe_order_ref_number a)")
        (auto simp: on_message_def on_executed_def bind_eq_Some_conv)
  next
    case (OrderExecutedWithPrice a)
    then show ?thesis
      using run y ref book tw
      by (cases "order_symbol st (oep_order_ref_number a)")
        (auto simp: on_message_def on_executed_with_price_def bind_eq_Some_conv split: if_splits)
  next
    case (OrderDelete a)
    show ?thesis
    proof (cases "order_symbol st (od_order_ref_number a)")
      case None
      then show ?thesis using run ref tw OrderDelete by (auto simp: on_message_def on_delete_def)
    next
      case (Some info)
      then have here: "oi_symbol info \<in> Y" "1 \<notin> set (oi_symbol info)" using y OrderDelete by simp_all
      obtain b f where c: "book_cancel (sq_books st (oi_symbol info)) (od_order_ref_number a) = Some (b, f)"
        using run Some OrderDelete by (auto simp: on_message_def on_delete_def bind_eq_Some_conv)
      have "twin Y (refs_of m) d (with_risk (note_removed (oi_symbol info) (oi_mpid info) (oi_side info)) (set_book (oi_symbol info) b st))
          (with_risk (note_removed (oi_symbol info) (oi_mpid info) (oi_side info)) (set_book (oi_symbol info) b s))"
        using tw here by (intro twin_risk twin_book)
      from twin_count(3) [OF twin_route [OF this, of "od_order_ref_number a" None]]
      show ?thesis using run Some c ref book [OF here(1)] OrderDelete by (auto simp: on_message_def on_delete_def Let_def)
    qed
  qed (use run tw in \<open>auto simp: on_message_def\<close>)
qed

section \<open>What a message leaves alone\<close>

lemma engine_same_refl: "engine_same Y e e"
  by (simp add: engine_same_def)

lemma engine_same_common:
  "rel_option (engine_same Y) r r1 \<Longrightarrow> rel_option (engine_same Y) r r2 \<Longrightarrow> rel_option (engine_same Y) r1 r2"
  by (cases r; cases r1; cases r2) (auto simp: engine_same_def)

lemma engine_same_apart:
  assumes "engine_same Y e e'" "y \<notin> Y" "1 \<notin> set y" "\<forall>z \<in> Y. 1 \<notin> set z"
  shows "engine_same Y e (on_trade y p e')" "engine_same Y e (note_resting y m sd e')" "engine_same Y e (note_removed y m sd e')"
proof -
  have "risk_key z m' sd' \<noteq> risk_key y m sd" if "z \<in> Y" for z m' sd'
    using risk_key_inj [of z y m' sd' m sd] assms(2-4) that by metis
  then show "engine_same Y e (on_trade y p e')" "engine_same Y e (note_resting y m sd e')" "engine_same Y e (note_removed y m sd e')"
    using assms(1,2) by (auto simp: engine_same_def on_trade_def note_resting_def note_removed_def Let_def split: option.split)
qed

lemma engine_same_trades:
  "engine_same Y e e' \<Longrightarrow> y \<notin> Y \<Longrightarrow> 1 \<notin> set y \<Longrightarrow> \<forall>z \<in> Y. 1 \<notin> set z \<Longrightarrow>
   engine_same Y e (fold (\<lambda>t. on_trade y (trade_price t)) ts e')"
  by (induction ts arbitrary: e') (auto intro: engine_same_apart)

lemma risk_apart:
  assumes "rel_option (engine_same Y) r r'" "y \<notin> Y" "1 \<notin> set y" "\<forall>z \<in> Y. 1 \<notin> set z"
  shows "rel_option (engine_same Y) r (map_option (on_trade y p) r')"
    "rel_option (engine_same Y) r (map_option (note_resting y m sd) r')"
    "rel_option (engine_same Y) r (map_option (note_removed y m sd) r')"
    "rel_option (engine_same Y) r (map_option (fold (\<lambda>t. on_trade y (trade_price t)) ts) r')"
  by (rule option.rel_cases [OF assms(1)];
      simp add: engine_same_apart [OF _ assms(2-4)] engine_same_trades [OF _ assms(2-4)])+

lemma risk_refl [simp]: "rel_option (engine_same Y) r r"
  by (cases r) (simp_all add: engine_same_refl)

lemma risk_untouched:
  assumes run: "on_message cb rnd m st = Some (st', out)" and y: "\<And>t. touches m st = Some t \<Longrightarrow> t \<notin> Y \<and> 1 \<notin> set t"
    and Y: "\<forall>z \<in> Y. 1 \<notin> set z"
  shows "rel_option (engine_same Y) (sq_risk st) (sq_risk st')"
proof -
  have apart: "rel_option (engine_same Y) r (map_option (on_trade t p) r')"
      "rel_option (engine_same Y) r (map_option (note_resting t mpid sd) r')"
      "rel_option (engine_same Y) r (map_option (note_removed t mpid sd) r')"
      "rel_option (engine_same Y) r (map_option (fold (\<lambda>t'. on_trade t (trade_price t')) ts) r')"
    if "rel_option (engine_same Y) r r'" "touches m st = Some t" for r r' t p mpid sd and ts :: "int trade list"
    using risk_apart [OF that(1) _ _ Y] y [OF that(2)] by blast+
  have add: ?thesis if add: "on_add cb rnd h i c shares stock price mpid st = Some (st', out)" "touches m st = Some (alpha_str stock)"
    for h i c shares stock price mpid
    by (rule add_cases [OF add(1) refl refl refl]) (simp_all add: apart add(2))
  show ?thesis
  proof (cases m)
    case (AddOrderNoMPID a)
    then show ?thesis using run by (intro add) (simp_all add: on_message_def)
  next
    case (AddOrderMPID a)
    then show ?thesis using run by (intro add) (simp_all add: on_message_def)
  next
    case (OrderReplace a)
    then have rep: "on_replace cb rnd a st = Some (st', out)" using run by (simp add: on_message_def)
    show ?thesis
    proof (cases "order_symbol st (or_original_order_ref_number a)")
      case None
      then show ?thesis using rep by (auto simp: on_replace_def)
    next
      case (Some info)
      then have t: "touches m st = Some (oi_symbol info)" using OrderReplace by simp
      show ?thesis
        by (rule replace_cases [OF rep Some refl refl refl]) (simp_all add: withdrawn_def apart t)
    qed
  next
    case (OrderDelete a)
    then show ?thesis
      using run apart
      by (cases "order_symbol st (od_order_ref_number a)") (auto simp: on_message_def on_delete_def Let_def bind_eq_Some_conv)
  next
    case (OrderExecutedWithPrice a)
    then show ?thesis
      using run apart
      by (cases "order_symbol st (oep_order_ref_number a)")
        (auto simp: on_message_def on_executed_with_price_def Let_def bind_eq_Some_conv split: if_splits)
  qed (use run in \<open>auto simp: on_message_def on_cancel_def on_executed_def bind_eq_Some_conv split: option.splits\<close>)
qed

text \<open>The routes after a message.\<close>

lemma routes_step:
  assumes run: "on_message cb rnd m st = Some (st', out)"
  shows "i \<notin> refs_of m \<Longrightarrow> order_symbol st' i = order_symbol st i"
    "order_symbol st' i = Some info \<Longrightarrow> order_symbol st i = Some info \<and> (\<forall>a. m = OrderDelete a \<longrightarrow> i \<noteq> od_order_ref_number a) \<and>
        (\<forall>a. m = OrderReplace a \<longrightarrow> i \<noteq> or_original_order_ref_number a) \<or>
      (case m of
         AddOrderNoMPID a \<Rightarrow> oi_symbol info = alpha_str (ao_stock a)
       | AddOrderMPID a \<Rightarrow> oi_symbol info = alpha_str (aom_stock a)
       | OrderReplace a \<Rightarrow> order_symbol st (or_original_order_ref_number a) = Some info \<and> i = or_new_order_ref_number a
       | _ \<Rightarrow> False)"
proof -
  have "(i \<notin> refs_of m \<longrightarrow> order_symbol st' i = order_symbol st i) \<and> (order_symbol st' i = Some info \<longrightarrow>
    order_symbol st i = Some info \<and> (\<forall>a. m = OrderDelete a \<longrightarrow> i \<noteq> od_order_ref_number a) \<and>
        (\<forall>a. m = OrderReplace a \<longrightarrow> i \<noteq> or_original_order_ref_number a) \<or>
      (case m of
         AddOrderNoMPID a \<Rightarrow> oi_symbol info = alpha_str (ao_stock a)
       | AddOrderMPID a \<Rightarrow> oi_symbol info = alpha_str (aom_stock a)
       | OrderReplace a \<Rightarrow> order_symbol st (or_original_order_ref_number a) = Some info \<and> i = or_new_order_ref_number a
       | _ \<Rightarrow> False))"
  proof (cases m)
    case (AddOrderNoMPID a)
    then have add: "on_add cb rnd (ao_h a) (ao_order_ref_number a) (ao_buy_sell_indicator a) (ao_shares a) (ao_stock a) (ao_price a) [] st =
      Some (st', out)" using run by (simp add: on_message_def)
    show ?thesis by (rule add_cases [OF add refl refl refl]) (auto simp: AddOrderNoMPID)
  next
    case (AddOrderMPID a)
    then have add: "on_add cb rnd (aom_h a) (aom_order_ref_number a) (aom_buy_sell_indicator a) (aom_shares a) (aom_stock a) (aom_price a)
      (alpha_str (aom_attribution a)) st = Some (st', out)" using run by (simp add: on_message_def)
    show ?thesis by (rule add_cases [OF add refl refl refl]) (auto simp: AddOrderMPID)
  next
    case (OrderReplace a)
    then have rep: "on_replace cb rnd a st = Some (st', out)" using run by (simp add: on_message_def)
    show ?thesis
    proof (cases "order_symbol st (or_original_order_ref_number a)")
      case None
      then show ?thesis using rep OrderReplace by (auto simp: on_replace_def)
    next
      case (Some info)
      show ?thesis by (rule replace_cases [OF rep Some refl refl refl]) (auto simp: withdrawn_def OrderReplace Some)
    qed
  qed (use run in \<open>auto simp: on_message_def on_cancel_def on_delete_def on_executed_def on_executed_with_price_def Let_def
         bind_eq_Some_conv split: option.splits if_splits\<close>)
  then show "i \<notin> refs_of m \<Longrightarrow> order_symbol st' i = order_symbol st i"
    "order_symbol st' i = Some info \<Longrightarrow> order_symbol st i = Some info \<and> (\<forall>a. m = OrderDelete a \<longrightarrow> i \<noteq> od_order_ref_number a) \<and>
        (\<forall>a. m = OrderReplace a \<longrightarrow> i \<noteq> or_original_order_ref_number a) \<or>
      (case m of
         AddOrderNoMPID a \<Rightarrow> oi_symbol info = alpha_str (ao_stock a)
       | AddOrderMPID a \<Rightarrow> oi_symbol info = alpha_str (aom_stock a)
       | OrderReplace a \<Rightarrow> order_symbol st (or_original_order_ref_number a) = Some info \<and> i = or_new_order_ref_number a
       | _ \<Rightarrow> False)" by blast+
qed

lemma router_frame: "i \<notin> refs_of m \<Longrightarrow> snd (route_symbol_for m routes) i = routes i"
  by (cases m) (auto simp: Let_def split: option.split)

section \<open>One sequencer and the shards\<close>

text \<open>The state of the one sequencer is spread over the shards by symbol: books, risk and routes of a symbol are
  those of its shard, the counters add up, and the router knows every live order.\<close>

definition in_shards :: "(bytes \<Rightarrow> nat) \<Rightarrow> route_table \<Rightarrow> seq_state \<Rightarrow> (nat \<Rightarrow> seq_state) \<Rightarrow> bool" where
  "in_shards hash routes st ss \<longleftrightarrow>
     (\<forall>y. sq_books (ss (shard_for hash y)) y = sq_books st y) \<and>
     (\<forall>k. rel_option (engine_same {y. shard_for hash y = k \<and> 1 \<notin> set y}) (sq_risk st) (sq_risk (ss k))) \<and>
     (\<forall>i info. order_symbol st i = Some info \<longrightarrow>
        routes i = Some (oi_symbol info) \<and> 1 \<notin> set (oi_symbol info) \<and>
        order_symbol (ss (shard_for hash (oi_symbol info))) i = Some info) \<and>
     (\<forall>k i info. order_symbol (ss k) i = Some info \<longrightarrow>
        shard_for hash (oi_symbol info) = k \<and> order_symbol st i = Some info) \<and>
     (\<forall>g \<in> set stat_fields. g (sq_stats st) = (\<Sum>k<kShards. g (sq_stats (ss k))))"

lemma in_shardsD:
  assumes "in_shards hash routes st ss"
  shows "sq_books (ss (shard_for hash y)) y = sq_books st y"
    "rel_option (engine_same {y. shard_for hash y = k \<and> 1 \<notin> set y}) (sq_risk st) (sq_risk (ss k))"
    "order_symbol st i = Some info \<Longrightarrow> routes i = Some (oi_symbol info) \<and> 1 \<notin> set (oi_symbol info) \<and>
       order_symbol (ss (shard_for hash (oi_symbol info))) i = Some info"
    "order_symbol (ss k) i = Some info \<Longrightarrow> shard_for hash (oi_symbol info) = k \<and> order_symbol st i = Some info"
    "g \<in> set stat_fields \<Longrightarrow> g (sq_stats st) = (\<Sum>k<kShards. g (sq_stats (ss k)))"
  using assms unfolding in_shards_def by blast+

lemma shard_of_less: "shard_of hash s < kShards"
  by (simp add: shard_of_def shard_for_def kShards_def split: option.split)

lemma new_in_shards:
  assumes "order_symbol st = Map.empty" "sq_stats st = zero_stats"
  shows "in_shards hash Map.empty st (\<lambda>k. st)"
  using assms by (auto simp: in_shards_def stat_fields_def zero_stats_def)

text \<open>The order references of a message that are live belong to the symbol it is routed to.\<close>

lemma live_ref:
  assumes sh: "in_shards hash routes st ss" and fresh: "fresh_ids m st" and i: "i \<in> refs_of m" "order_symbol st i = Some info"
  shows "fst (route_symbol_for m routes) = Some (oi_symbol info)"
  using in_shardsD(3) [OF sh i(2)] fresh i by (cases m) (auto simp: fresh_ids_def)

lemma touched_symbol:
  assumes sh: "in_shards hash routes st ss" and t: "touches m st = Some t" and plain: "plain m"
  shows "fst (route_symbol_for m routes) = Some t" "1 \<notin> set t"
  using t plain in_shardsD(3) [OF sh] plain_str
  by (cases m; fastforce simp: Let_def split: option.splits)+

lemma live_after:
  assumes sh: "in_shards hash routes st ss" and fresh: "fresh_ids m st" and plain: "plain m"
    and run: "on_message cb rnd m st = Some (st', out)" and i: "i \<in> refs_of m" "order_symbol st' i = Some info"
  shows "snd (route_symbol_for m routes) i = Some (oi_symbol info)" "fst (route_symbol_for m routes) = Some (oi_symbol info)"
    "1 \<notin> set (oi_symbol info)"
proof -
  note was = in_shardsD(3) [OF sh]
  have "snd (route_symbol_for m routes) i = Some (oi_symbol info) \<and> fst (route_symbol_for m routes) = Some (oi_symbol info) \<and>
      1 \<notin> set (oi_symbol info)"
  proof (cases m)
    case (OrderReplace a)
    then show ?thesis
      using routes_step(2) [OF run i(2)] i(1) fresh was [of i info] was [of "or_original_order_ref_number a"]
      by (auto simp: fresh_ids_def)
  qed (use routes_step(2) [OF run i(2)] i(1) fresh plain plain_str was [of i info] in \<open>auto simp: fresh_ids_def Let_def split: option.split\<close>)
  then show "snd (route_symbol_for m routes) i = Some (oi_symbol info)" "fst (route_symbol_for m routes) = Some (oi_symbol info)"
    "1 \<notin> set (oi_symbol info)" by blast+
qed

lemma twin_shard:
  assumes sh: "in_shards hash routes st ss" and fresh: "fresh_ids m st" and k: "k = shard_of hash (fst (route_symbol_for m routes))"
  shows "twin {y. shard_for hash y = k} (refs_of m) (\<lambda>g. \<Sum>j \<in> {..<kShards} - {k}. g (sq_stats (ss j))) st (ss k)"
proof -
  have "order_symbol (ss k) i = order_symbol st i" if i: "i \<in> refs_of m" for i
  proof (cases "order_symbol st i")
    case None
    then show ?thesis using in_shardsD(4) [OF sh, of k i] by (cases "order_symbol (ss k) i") auto
  next
    case (Some info)
    have "k = shard_for hash (oi_symbol info)" using live_ref [OF sh fresh i Some] by (simp add: k shard_of_def)
    then show ?thesis using in_shardsD(3) [OF sh Some] Some by simp
  qed
  moreover have "g (sq_stats st) = g (sq_stats (ss k)) + (\<Sum>j \<in> {..<kShards} - {k}. g (sq_stats (ss j)))"
    if "g \<in> set stat_fields" for g
    using in_shardsD(5) [OF sh that] sum.remove [of "{..<kShards}" k "\<lambda>j. g (sq_stats (ss j))"] shard_of_less [of hash] by (simp add: k)
  moreover have "{y \<in> {y. shard_for hash y = k}. 1 \<notin> set y} = {y. shard_for hash y = k \<and> 1 \<notin> set y}" by blast
  ultimately show ?thesis using in_shardsD(1,2) [OF sh] by (auto simp: twin_def)
qed

text \<open>The routes of the one sequencer stay those of the shards.\<close>

lemma routes_reach_shard:
  assumes sh: "in_shards hash routes st ss" and fresh: "fresh_ids m st" and plain: "plain m"
    and run: "on_message cb rnd m st = Some (st', out)" and run_k: "on_message cb rnd m (ss k) = Some (s', out)"
    and r: "route_symbol_for m routes = (symbol, routes')" "k = shard_of hash symbol"
    and same: "\<And>i. i \<in> refs_of m \<Longrightarrow> order_symbol s' i = order_symbol st' i"
    and i: "order_symbol st' i = Some info"
  shows "routes' i = Some (oi_symbol info) \<and> 1 \<notin> set (oi_symbol info) \<and>
    order_symbol ((ss(k := s')) (shard_for hash (oi_symbol info))) i = Some info"
proof -
  have fst_r: "fst (route_symbol_for m routes) = symbol" "snd (route_symbol_for m routes) = routes'" using r(1) by simp_all
  show ?thesis
  proof (cases "i \<in> refs_of m")
    case True
    note l = live_after [OF sh fresh plain run True i]
    have "shard_for hash (oi_symbol info) = k" using l(2) fst_r r(2) by (simp add: shard_of_def)
    moreover have "order_symbol s' i = Some info" using same [OF True] i by simp
    ultimately show ?thesis using l fst_r by simp
  next
    case False
    then have "order_symbol st i = Some info" using routes_step(1) [OF run] i by simp
    then show ?thesis
      using in_shardsD(3) [OF sh, of i info] router_frame [OF False, of routes] fst_r routes_step(1) [OF run_k False] by auto
  qed
qed

lemma routes_of_shard:
  assumes sh: "in_shards hash routes st ss" and fresh: "fresh_ids m st" and plain: "plain m"
    and run: "on_message cb rnd m st = Some (st', out)" and run_k: "on_message cb rnd m (ss k) = Some (s', out)"
    and r: "route_symbol_for m routes = (symbol, routes')" "k = shard_of hash symbol"
    and same: "\<And>i. i \<in> refs_of m \<Longrightarrow> order_symbol s' i = order_symbol st' i"
    and i: "order_symbol ((ss(k := s')) j) i = Some info"
  shows "shard_for hash (oi_symbol info) = j \<and> order_symbol st' i = Some info"
proof -
  have fst_r: "fst (route_symbol_for m routes) = symbol" "snd (route_symbol_for m routes) = routes'" using r(1) by simp_all
  show ?thesis
  proof (cases "i \<in> refs_of m")
    case True
    show ?thesis
    proof (cases "j = k")
      case True
      then have "order_symbol st' i = Some info" using i same [OF \<open>i \<in> refs_of m\<close>] by simp
      then show ?thesis using live_after(2) [OF sh fresh plain run \<open>i \<in> refs_of m\<close>] True fst_r r(2) by (simp add: shard_of_def)
    next
      case False
      then have here: "shard_for hash (oi_symbol info) = j" "order_symbol st i = Some info" using in_shardsD(4) [OF sh, of j i] i by auto
      then have "k = j" using live_ref [OF sh fresh True here(2)] fst_r r(2) by (simp add: shard_of_def)
      then show ?thesis using False by simp
    qed
  next
    case False
    then have "order_symbol (ss j) i = Some info" using i routes_step(1) [OF run_k False] by (cases "j = k") simp_all
    then show ?thesis using in_shardsD(4) [OF sh, of j i info] routes_step(1) [OF run False] by simp
  qed
qed

text \<open>One message: the shard it is routed to does what the one sequencer does.\<close>

lemma shards_step:
  assumes sh: "in_shards hash routes st ss" and fresh: "fresh_ids m st" and plain: "plain m"
    and run: "on_message cb rnd m st = Some (st', out)"
    and r: "route_symbol_for m routes = (symbol, routes')" "k = shard_of hash symbol"
  shows "\<exists>s'. on_message cb rnd m (ss k) = Some (s', out) \<and> in_shards hash routes' st' (ss(k := s')) \<and>
    (\<forall>y. shard_for hash y \<noteq> k \<longrightarrow> sq_books s' y = sq_books (ss k) y)"
proof -
  have fst_r: "fst (route_symbol_for m routes) = symbol" "snd (route_symbol_for m routes) = routes'" using r(1) by simp_all
  have touched: "shard_for hash t = k \<and> 1 \<notin> set t" if "touches m st = Some t" for t
    using touched_symbol [OF sh that plain] fst_r r(2) by (simp add: shard_of_def)
  let ?d = "\<lambda>g. \<Sum>j \<in> {..<kShards} - {k}. g (sq_stats (ss j))"
  have tw: "twin {y. shard_for hash y = k} (refs_of m) ?d st (ss k)"
    using twin_shard [OF sh fresh] fst_r r(2) by simp
  obtain s' where s': "on_message cb rnd m (ss k) = Some (s', out)" "twin {y. shard_for hash y = k} (refs_of m) ?d st' s'"
    using message_twin [OF tw _ run] touched by blast
  have same: "order_symbol s' i = order_symbol st' i" if "i \<in> refs_of m" for i using s'(2) that by (simp add: twin_def)
  have same_touch: "touches m (ss k) = touches m st" using tw by (cases m) (auto simp: twin_def)
  note acc = message_accounted [OF run] and acc' = message_accounted [OF s'(1)]
  have other_book: "sq_books st' y = sq_books st y \<and> sq_books s' y = sq_books (ss k) y" if "shard_for hash y \<noteq> k" for y
    using acc acc' touched same_touch that by (metis accounted_def)
  have "in_shards hash routes' st' (ss(k := s'))"
    unfolding in_shards_def
  proof (intro conjI allI impI ballI)
    fix y
    show "sq_books ((ss(k := s')) (shard_for hash y)) y = sq_books st' y"
      using s'(2) other_book in_shardsD(1) [OF sh, of y] by (cases "shard_for hash y = k") (auto simp: twin_def)
  next
    fix j
    show "rel_option (engine_same {y. shard_for hash y = j \<and> 1 \<notin> set y}) (sq_risk st') (sq_risk ((ss(k := s')) j))"
    proof (cases "j = k")
      case True
      then show ?thesis using s'(2) by (simp add: twin_def)
    next
      case False
      have "rel_option (engine_same {y. shard_for hash y = j \<and> 1 \<notin> set y}) (sq_risk st) (sq_risk st')"
        by (rule risk_untouched [OF run]) (use touched False in auto)
      then show ?thesis using in_shardsD(2) [OF sh, of j] False by (auto intro: engine_same_common)
    qed
  next
    fix i info assume "order_symbol st' i = Some info"
    then show "routes' i = Some (oi_symbol info)" "1 \<notin> set (oi_symbol info)"
      "order_symbol ((ss(k := s')) (shard_for hash (oi_symbol info))) i = Some info"
      using routes_reach_shard [OF sh fresh plain run s'(1) r same] by blast+
  next
    fix j i info assume "order_symbol ((ss(k := s')) j) i = Some info"
    then show "shard_for hash (oi_symbol info) = j" "order_symbol st' i = Some info"
      using routes_of_shard [OF sh fresh plain run s'(1) r same] by blast+
  next
    fix g assume g: "g \<in> set stat_fields"
    have "k < kShards" using shard_of_less r(2) by simp
    then have "(\<Sum>j<kShards. g (sq_stats ((ss(k := s')) j))) = g (sq_stats s') + (\<Sum>j \<in> {..<kShards} - {k}. g (sq_stats ((ss(k := s')) j)))"
      by (subst sum.remove [of _ k]) simp_all
    also have "(\<Sum>j \<in> {..<kShards} - {k}. g (sq_stats ((ss(k := s')) j))) = ?d g" by (rule sum.cong) auto
    finally show "g (sq_stats st') = (\<Sum>j<kShards. g (sq_stats ((ss(k := s')) j)))" using s'(2) g by (simp add: twin_def)
  qed
  then show ?thesis using s'(1) other_book by blast
qed

text \<open>A whole feed: every shard gets its share, and does it.\<close>

lemma on_messages_append:
  "on_messages cb rnd (ms @ ns) st = do { (st1, out1) \<leftarrow> on_messages cb rnd ms st; (st2, out2) \<leftarrow> on_messages cb rnd ns st1; Some (st2, out1 @ out2) }"
proof (induction ms arbitrary: st)
  case (Cons m ms)
  show ?case
  proof (cases "on_message cb rnd m st")
    case (Some p)
    obtain st1 out1 where p: "p = (st1, out1)" by fastforce
    show ?thesis
    proof (cases "on_messages cb rnd ms st1")
      case (Some q)
      obtain st2 out2 where "q = (st2, out2)" by fastforce
      then show ?thesis
        using Cons.IH [of st1] Some p \<open>on_message cb rnd m st = Some p\<close> by (cases "on_messages cb rnd ns st2") auto
    qed (use Cons.IH [of st1] Some p in simp)
  qed simp
qed (cases "on_messages cb rnd ns st"; auto)

lemma shards_run:
  assumes "in_shards hash routes st ss" "day_unique ms st" "list_all plain ms" "on_messages cb rnd ms st = Some (st', out)"
  shows "\<exists>ss' outs. (\<forall>k. on_messages cb rnd (share k (route_all hash ms routes)) (ss k) = Some (ss' k, outs k)) \<and>
    in_shards hash (routes_after ms routes) st' ss' \<and> (\<Sum>k<kShards. length (mds (outs k))) = length (mds out) \<and>
    (\<forall>k y. shard_for hash y \<noteq> k \<longrightarrow> sq_books (ss' k) y = sq_books (ss k) y)"
  using assms
proof (induction ms arbitrary: routes st ss out)
  case Nil
  then show ?case by (intro exI [of _ ss] exI [of _ "\<lambda>_. []"]) (simp add: share_def)
next
  case (Cons m ms)
  obtain st1 out1 out2 where one: "on_message cb rnd m st = Some (st1, out1)" "on_messages cb rnd ms st1 = Some (st', out2)"
    "out = out1 @ out2"
    using Cons.prems(4) by (auto simp: bind_eq_Some_conv)
  obtain symbol routes1 where r: "route_symbol_for m routes = (symbol, routes1)" by fastforce
  let ?k = "shard_of hash symbol"
  note day = day_unique_step [OF Cons.prems(2) one(1)]
  have plain: "plain m" "list_all plain ms" using Cons.prems(3) by simp_all
  obtain s' where s': "on_message cb rnd m (ss ?k) = Some (s', out1)" "in_shards hash routes1 st1 (ss(?k := s'))"
    "\<forall>y. shard_for hash y \<noteq> ?k \<longrightarrow> sq_books s' y = sq_books (ss ?k) y"
    using shards_step [OF Cons.prems(1) day(1) plain(1) one(1) r refl] by blast
  from Cons.IH [OF s'(2) day(2) plain(2) one(2)] obtain ss' outs where
    rest: "\<And>k. on_messages cb rnd (share k (route_all hash ms routes1)) ((ss(?k := s')) k) = Some (ss' k, outs k)"
      "in_shards hash (routes_after ms routes1) st' ss'" "(\<Sum>k<kShards. length (mds (outs k))) = length (mds out2)"
      "\<And>k y. shard_for hash y \<noteq> k \<Longrightarrow> sq_books (ss' k) y = sq_books ((ss(?k := s')) k) y" by blast
  let ?outs = "outs(?k := out1 @ outs ?k)"
  have "on_messages cb rnd (share k (route_all hash (m # ms) routes)) (ss k) = Some (ss' k, ?outs k)" for k
    using rest(1) [of k] s'(1) r by (cases "k = ?k") (auto simp: share_def)
  moreover have "(\<Sum>k<kShards. length (mds (?outs k))) = length (mds out)"
  proof -
    have k: "?k \<in> {..<kShards}" using shard_of_less by simp
    have "(\<Sum>k \<in> {..<kShards} - {?k}. length (mds (?outs k))) = (\<Sum>k \<in> {..<kShards} - {?k}. length (mds (outs k)))"
      by (rule sum.cong) auto
    then show ?thesis
      using rest(3) one(3) sum.remove [OF _ k, of "\<lambda>k. length (mds (?outs k))"] sum.remove [OF _ k, of "\<lambda>k. length (mds (outs k))"]
      by simp
  qed
  moreover have "sq_books (ss' k) y = sq_books (ss k) y" if "shard_for hash y \<noteq> k" for k y
    using rest(4) [OF that] s'(3) that by (cases "k = ?k") auto
  ultimately show ?case using rest(2) r by (intro exI [of _ ss'] exI [of _ ?outs]) simp
qed

end
