(* ===== verification/Sharded_Threads.thy ===== *)
theory Sharded_Threads
  imports Sharded_Feed Ring_Channel Itch_File
begin

text \<open>
  The sharded pipeline with its threads (\<open>cpp/feed/tests/test_concurrent_sharded_pipeline.cpp\<close>): a router reads
  the historical file and pushes every message into the ring of its shard, a worker per shard owns a sequencer,
  a risk engine and the books of its symbols. One action is one access to shared memory (\<open>Ring_Channel\<close>), or
  the router's step to the next message. The capacity of the rings is a parameter (the program has 2^16); the
  catch blocks around the threads, joining and printing are not modelled.
\<close>

section \<open>The program\<close>

text \<open>The read loop of both passes: at most \<open>max_messages\<close> records, those that do not parse skipped.\<close>

fun read_feed :: "nat \<Rightarrow> bytes \<Rightarrow> message list" where
  "read_feed 0 f = []"
| "read_feed (Suc n) f =
     (case next_raw f of
        (None, _) \<Rightarrow> []
      | (Some raw, f1) \<Rightarrow>
          (case parse_message raw of None \<Rightarrow> read_feed n f1 | Some m \<Rightarrow> m # read_feed n f1))"

text \<open>No report callback; the market data callback counts.\<close>

definition md_only :: callbacks where
  "md_only = \<lparr>has_report = False, has_md = True\<rparr>"

definition new_pass :: "book \<Rightarrow> seq_state" where
  "new_pass b0 = new_sequencer (\<lambda>_. b0) (Some (new_risk_engine default_config))"

record worker =
  wk_chan :: "message channel"
  wk_seq :: seq_state
  wk_md :: u64

record sharded =
  rt_feed :: "message list"
  rt_routes :: route_table
  rt_sending :: "(nat \<times> message) option"
  rt_done :: bool
  rt_workers :: "worker list"

definition new_sharded :: "message \<Rightarrow> u64 \<Rightarrow> book \<Rightarrow> message list \<Rightarrow> sharded" where
  "new_sharded blank capacity_pow2 b0 feed =
     \<lparr>rt_feed = feed, rt_routes = Map.empty, rt_sending = None, rt_done = False,
      rt_workers = replicate kShards \<lparr>wk_chan = new_channel blank capacity_pow2, wk_seq = new_pass b0, wk_md = 0\<rparr>\<rparr>"

definition worker_step :: "(rat \<Rightarrow> rat) \<Rightarrow> poll_move \<Rightarrow> worker \<Rightarrow> worker option" where
  "worker_step rnd m w = do {
     (c, msgs) \<leftarrow> ch_poll True m (wk_chan w);
     case msgs of [] \<Rightarrow> Some (w\<lparr>wk_chan := c\<rparr>)
     | msg # _ \<Rightarrow> do {
         (st, out) \<leftarrow> on_message md_only rnd msg (wk_seq w);
         Some (w\<lparr>wk_chan := c, wk_seq := st, wk_md := wk_md w + word_of_nat (length (mds out))\<rparr>)
       }
   }"

datatype shard_action = RouterTake | RouterPush ring_move | RouterDone | WorkerPoll nat poll_move

fun shard_act :: "(bytes \<Rightarrow> nat) \<Rightarrow> (rat \<Rightarrow> rat) \<Rightarrow> shard_action \<Rightarrow> sharded \<Rightarrow> sharded option" where
  "shard_act hash rnd RouterTake p =
     (case (rt_sending p, rt_feed p) of
        (None, m # feed) \<Rightarrow>
          (case route_symbol_for m (rt_routes p) of (symbol, routes) \<Rightarrow>
             Some (p\<lparr>rt_feed := feed, rt_routes := routes, rt_sending := Some (shard_of hash symbol, m)\<rparr>))
      | _ \<Rightarrow> None)"
| "shard_act hash rnd (RouterPush mv) p =
     (case rt_sending p of
        None \<Rightarrow> None
      | Some (k, m) \<Rightarrow> do {
          (c, sent) \<leftarrow> ch_push m mv (wk_chan (rt_workers p ! k));
          Some (p\<lparr>rt_workers := (rt_workers p)[k := (rt_workers p ! k)\<lparr>wk_chan := c\<rparr>],
                  rt_sending := (if sent then None else rt_sending p)\<rparr>)
        })"
| "shard_act hash rnd RouterDone p =
     (if rt_feed p = [] \<and> rt_sending p = None \<and> \<not> rt_done p
      then Some (p\<lparr>rt_done := True, rt_workers := map (\<lambda>w. w\<lparr>wk_chan := ch_close (wk_chan w)\<rparr>) (rt_workers p)\<rparr>)
      else None)"
| "shard_act hash rnd (WorkerPoll k mv) p =
     (if k < length (rt_workers p) then do {
        w \<leftarrow> worker_step rnd mv (rt_workers p ! k);
        Some (p\<lparr>rt_workers := (rt_workers p)[k := w]\<rparr>)
      } else None)"

inductive shard_reach :: "(bytes \<Rightarrow> nat) \<Rightarrow> (rat \<Rightarrow> rat) \<Rightarrow> sharded \<Rightarrow> sharded \<Rightarrow> bool" for hash rnd p0 where
  shard_start: "shard_reach hash rnd p0 p0"
| shard_step: "shard_reach hash rnd p0 p \<Longrightarrow> shard_act hash rnd a p = Some p' \<Longrightarrow> shard_reach hash rnd p0 p'"

definition workers_left :: "sharded \<Rightarrow> bool" where
  "workers_left p \<longleftrightarrow> list_all (\<lambda>w. ch_phase (wk_chan w) = PollEnd) (rt_workers p)"

text \<open>The aggregation over the shards.\<close>

definition agg_stats :: "sharded \<Rightarrow> seq_stats" where
  "agg_stats p =
     (let total = (\<lambda>field :: seq_stats \<Rightarrow> u64. sum_list (map (\<lambda>w. field (sq_stats (wk_seq w))) (rt_workers p)))
      in \<lparr>add_orders = total add_orders, cancels = total cancels, deletes = total deletes, executes = total executes,
          non_printable_skipped = total non_printable_skipped, replaces = total replaces, unrouted = total unrouted,
          other_message_types = total other_message_types, trades_produced = total trades_produced,
          add_rejected = total add_rejected, risk_rejected = total risk_rejected\<rparr>)"

definition agg_md_events :: "sharded \<Rightarrow> u64" where
  "agg_md_events p = sum_list (map wk_md (rt_workers p))"

section \<open>The feed\<close>

lemma read_feed_ok: "list_all message_ok (read_feed n f)"
proof (induction n arbitrary: f)
  case (Suc n)
  then show ?case using parse_decode by (auto split: prod.splits option.splits)
qed simp

lemma on_messages_prefix:
  "on_messages cb rnd (ms @ ns) st = Some (st', out) \<Longrightarrow> \<exists>st1 out1. on_messages cb rnd ms st = Some (st1, out1)"
  unfolding on_messages_append by (auto simp: bind_eq_Some_conv)

lemma route_all_append: "route_all hash (ms @ ns) routes = route_all hash ms routes @ route_all hash ns (routes_after ms routes)"
  by (induction ms arbitrary: routes) (auto split: prod.splits)

lemma routes_after_append: "routes_after (ms @ ns) routes = routes_after ns (routes_after ms routes)"
  by (induction ms arbitrary: routes) auto

lemma share_append: "share k (xs @ ys) = share k xs @ share k ys"
  by (simp add: share_def)

section \<open>The invariant\<close>

text \<open>A worker has got or is about to get what was routed to it (\<open>due\<close>), and has done what it popped.\<close>

definition worker_ok :: "nat \<Rightarrow> (rat \<Rightarrow> rat) \<Rightarrow> seq_state \<Rightarrow> bool \<Rightarrow> message list \<Rightarrow> message list \<Rightarrow> worker \<Rightarrow> bool" where
  "worker_ok k rnd st0 over due now w \<longleftrightarrow>
     (\<exists>ps qs out. channel_ok k (wk_chan w) ps qs \<and> ps @ now = due \<and>
        on_messages md_only rnd qs st0 = Some (wk_seq w, out) \<and> wk_md w = word_of_nat (length (mds out))) \<and>
     set (held (ch_ring (wk_chan w))) \<subseteq> set now \<and> (ch_flag (wk_chan w) \<noteq> None \<longleftrightarrow> over)"

definition being_sent :: "nat \<Rightarrow> (nat \<times> message) option \<Rightarrow> message list" where
  "being_sent j sending = (case sending of None \<Rightarrow> [] | Some (k, m) \<Rightarrow> if k = j then [m] else [])"

definition shards_ok :: "nat \<Rightarrow> (bytes \<Rightarrow> nat) \<Rightarrow> (rat \<Rightarrow> rat) \<Rightarrow> seq_state \<Rightarrow> message list \<Rightarrow> sharded \<Rightarrow> bool" where
  "shards_ok k hash rnd st0 feed p \<longleftrightarrow>
     (\<exists>sent. sent @ rt_feed p = feed \<and> rt_routes p = routes_after sent Map.empty \<and>
        (\<forall>j < kShards. worker_ok k rnd st0 (rt_done p) (share j (route_all hash sent Map.empty))
           (being_sent j (rt_sending p)) (rt_workers p ! j))) \<and>
     length (rt_workers p) = kShards \<and>
     (\<forall>j m. rt_sending p = Some (j, m) \<longrightarrow> j < kShards) \<and>
     (rt_done p \<longrightarrow> rt_feed p = [] \<and> rt_sending p = None)"

lemma worker_push:
  assumes ok: "worker_ok k rnd st0 False due [m] w" and run: "ch_push m mv (wk_chan w) = Some (c, sent)"
  shows "worker_ok k rnd st0 False due (if sent then [] else [m]) (w\<lparr>wk_chan := c\<rparr>)"
proof -
  obtain ps qs out where w: "channel_ok k (wk_chan w) ps qs" "ps @ [m] = due"
    "on_messages md_only rnd qs st0 = Some (wk_seq w, out)" "wk_md w = word_of_nat (length (mds out))"
    and here: "ch_flag (wk_chan w) = None" "set (held (ch_ring (wk_chan w))) \<subseteq> {m}"
    using ok by (auto simp: worker_ok_def)
  note c = ch_push_ok [OF w(1) here run]
  show ?thesis
    unfolding worker_ok_def using w c
    by (intro conjI exI [of _ "if sent then ps @ [m] else ps"] exI [of _ qs] exI [of _ out]) auto
qed

lemma worker_close:
  assumes "worker_ok k rnd st0 False due [] w"
  shows "worker_ok k rnd st0 True due [] (w\<lparr>wk_chan := ch_close (wk_chan w)\<rparr>)"
proof -
  have "held (ch_ring (ch_close (wk_chan w))) = held (ch_ring (wk_chan w))" "ch_flag (ch_close (wk_chan w)) \<noteq> None"
    by (simp_all add: ch_close_def)
  then show ?thesis using assms ch_close_ok [of k "wk_chan w"] by (auto simp: worker_ok_def)
qed

text \<open>What is due to a worker is processed by the model without fail.\<close>

lemma worker_poll:
  assumes ok: "worker_ok k rnd st0 over due now w" and good: "on_messages md_only rnd (due @ later) st0 = Some (st', all)"
    and run: "ch_poll True mv (wk_chan w) = Some (c, msgs)"
  shows "\<exists>w'. worker_step rnd mv w = Some w' \<and> wk_chan w' = c \<and> worker_ok k rnd st0 over due now w'"
proof -
  obtain ps qs out where w: "channel_ok k (wk_chan w) ps qs" "ps @ now = due"
    "on_messages md_only rnd qs st0 = Some (wk_seq w, out)" "wk_md w = word_of_nat (length (mds out))"
    and here: "set (held (ch_ring (wk_chan w))) \<subseteq> set now" "ch_flag (wk_chan w) \<noteq> None \<longleftrightarrow> over"
    using ok by (auto simp: worker_ok_def)
  have c: "channel_ok k c ps (qs @ msgs)" by (rule ch_poll_ok [OF w(1) run])
  note frame = ch_poll_frame [OF run]
  show ?thesis
  proof (cases msgs)
    case Nil
    then have "worker_step rnd mv w = Some (w\<lparr>wk_chan := c\<rparr>)" using run by (simp add: worker_step_def)
    moreover have "worker_ok k rnd st0 over due now (w\<lparr>wk_chan := c\<rparr>)"
      using w(2-) c here frame(1,2) Nil by (auto simp: worker_ok_def)
    ultimately show ?thesis by auto
  next
    case (Cons m ms)
    then have m: "msgs = [m]" using frame(3) by auto
    obtain rest where "ps = qs @ m # rest" using channel_popped [OF c] m by auto
    then have "due @ later = (qs @ [m]) @ rest @ now @ later" using w(2) by auto
    then obtain st1 out1 where all: "on_messages md_only rnd (qs @ [m]) st0 = Some (st1, out1)"
      using on_messages_prefix good by metis
    then obtain out2 where one: "on_message md_only rnd m (wk_seq w) = Some (st1, out2)" "out1 = out @ out2"
      using w(3) by (auto simp: on_messages_append bind_eq_Some_conv)
    let ?w = "w\<lparr>wk_chan := c, wk_seq := st1, wk_md := wk_md w + word_of_nat (length (mds out2))\<rparr>"
    have "worker_step rnd mv w = Some ?w" using run one(1) m by (simp add: worker_step_def)
    moreover have "worker_ok k rnd st0 over due now ?w"
      unfolding worker_ok_def using w(2,4) c here frame(1,2) m all one(2)
      by (intro conjI exI [of _ ps] exI [of _ "qs @ [m]"] exI [of _ "out @ out2"]) auto
    ultimately show ?thesis by auto
  qed
qed

text \<open>Every action keeps the invariant. \<open>good\<close>: one sequencer gets through the feed, and so does every shard.\<close>

definition shares_run :: "(bytes \<Rightarrow> nat) \<Rightarrow> (rat \<Rightarrow> rat) \<Rightarrow> seq_state \<Rightarrow> message list \<Rightarrow> bool" where
  "shares_run hash rnd st0 feed \<longleftrightarrow>
     (\<forall>j. \<exists>st out. on_messages md_only rnd (share j (route_all hash feed Map.empty)) st0 = Some (st, out))"

lemma being_sent_simps [simp]:
  "being_sent j None = []" "being_sent j (Some (j, m)) = [m]" "j \<noteq> k \<Longrightarrow> being_sent j (Some (k, m)) = []"
  by (simp_all add: being_sent_def)

lemma shards_okE:
  assumes "shards_ok k hash rnd st0 feed p"
  obtains sent where "sent @ rt_feed p = feed" "rt_routes p = routes_after sent Map.empty"
    "\<And>j. j < kShards \<Longrightarrow> worker_ok k rnd st0 (rt_done p) (share j (route_all hash sent Map.empty))
       (being_sent j (rt_sending p)) (rt_workers p ! j)"
    "length (rt_workers p) = kShards" "\<And>j m. rt_sending p = Some (j, m) \<Longrightarrow> j < kShards"
    "rt_done p \<Longrightarrow> rt_feed p = [] \<and> rt_sending p = None"
  using assms unfolding shards_ok_def by blast

lemma shards_okI:
  assumes "sent @ rt_feed p = feed" "rt_routes p = routes_after sent Map.empty"
    "\<And>j. j < kShards \<Longrightarrow> worker_ok k rnd st0 (rt_done p) (share j (route_all hash sent Map.empty))
       (being_sent j (rt_sending p)) (rt_workers p ! j)"
    "length (rt_workers p) = kShards" "\<And>j m. rt_sending p = Some (j, m) \<Longrightarrow> j < kShards"
    "rt_done p \<Longrightarrow> rt_feed p = [] \<and> rt_sending p = None"
  shows "shards_ok k hash rnd st0 feed p"
  using assms unfolding shards_ok_def by blast

lemma new_sharded_ok:
  assumes "k < 64"
  shows "shards_ok k hash rnd (new_pass b0) feed (new_sharded blank (2 ^ k) b0 feed)"
proof (rule shards_okI [of "[]"])
  fix j assume "j < kShards"
  then show "worker_ok k rnd (new_pass b0) (rt_done (new_sharded blank (2 ^ k) b0 feed)) (share j (route_all hash [] Map.empty))
      (being_sent j (rt_sending (new_sharded blank (2 ^ k) b0 feed))) (rt_workers (new_sharded blank (2 ^ k) b0 feed) ! j)"
    using new_channel_ok [OF assms, of blank] by (auto simp: worker_ok_def new_sharded_def share_def)
qed (simp_all add: new_sharded_def)

lemma router_take_keeps:
  assumes ok: "shards_ok k hash rnd st0 feed p" and run: "shard_act hash rnd RouterTake p = Some p'"
  shows "shards_ok k hash rnd st0 feed p'"
proof -
  obtain sent where s: "sent @ rt_feed p = feed" "rt_routes p = routes_after sent Map.empty"
    "\<And>j. j < kShards \<Longrightarrow> worker_ok k rnd st0 (rt_done p) (share j (route_all hash sent Map.empty))
       (being_sent j (rt_sending p)) (rt_workers p ! j)"
    "length (rt_workers p) = kShards" "rt_done p \<Longrightarrow> rt_feed p = [] \<and> rt_sending p = None"
    using ok by (rule shards_okE) blast
  obtain m rest symbol routes where r: "rt_sending p = None" "rt_feed p = m # rest" "route_symbol_for m (rt_routes p) = (symbol, routes)"
    "p' = p\<lparr>rt_feed := rest, rt_routes := routes, rt_sending := Some (shard_of hash symbol, m)\<rparr>"
    using run by (auto split: option.splits list.splits prod.splits)
  have d: "\<not> rt_done p" using s(5) r(2) by auto
  have due: "share j (route_all hash (sent @ [m]) Map.empty) =
      share j (route_all hash sent Map.empty) @ being_sent j (Some (shard_of hash symbol, m))" for j
    using r(3) s(2) by (simp add: route_all_append share_append) (simp add: share_def being_sent_def)
  show ?thesis
  proof (rule shards_okI [of "sent @ [m]"])
    fix j assume "j < kShards"
    then show "worker_ok k rnd st0 (rt_done p') (share j (route_all hash (sent @ [m]) Map.empty)) (being_sent j (rt_sending p')) (rt_workers p' ! j)"
      using s(3) [of j] d unfolding due by (auto simp: r worker_ok_def)
  qed (use s r d in \<open>auto simp: routes_after_append shard_of_less\<close>)
qed

lemma router_push_keeps:
  assumes ok: "shards_ok k hash rnd st0 feed p" and run: "shard_act hash rnd (RouterPush mv) p = Some p'"
  shows "shards_ok k hash rnd st0 feed p'"
proof -
  obtain sent where s: "sent @ rt_feed p = feed" "rt_routes p = routes_after sent Map.empty"
    "\<And>j. j < kShards \<Longrightarrow> worker_ok k rnd st0 (rt_done p) (share j (route_all hash sent Map.empty))
       (being_sent j (rt_sending p)) (rt_workers p ! j)"
    "length (rt_workers p) = kShards" "\<And>j m. rt_sending p = Some (j, m) \<Longrightarrow> j < kShards"
    "rt_done p \<Longrightarrow> rt_feed p = [] \<and> rt_sending p = None"
    using ok by (rule shards_okE) blast
  obtain i m c fin where r: "rt_sending p = Some (i, m)" "ch_push m mv (wk_chan (rt_workers p ! i)) = Some (c, fin)"
    "p' = p\<lparr>rt_workers := (rt_workers p)[i := (rt_workers p ! i)\<lparr>wk_chan := c\<rparr>],
            rt_sending := (if fin then None else rt_sending p)\<rparr>"
    using run by (auto simp: bind_eq_Some_conv split: option.splits)
  have i: "i < kShards" "\<not> rt_done p" using s(5) [OF r(1)] s(6) r(1) by auto
  have w: "worker_ok k rnd st0 False (share i (route_all hash sent Map.empty)) (if fin then [] else [m]) ((rt_workers p ! i)\<lparr>wk_chan := c\<rparr>)"
    by (rule worker_push [OF _ r(2)]) (use s(3) [OF i(1)] i(2) r(1) in simp)
  show ?thesis
  proof (rule shards_okI [of sent])
    fix j assume j: "j < kShards"
    show "worker_ok k rnd st0 (rt_done p') (share j (route_all hash sent Map.empty)) (being_sent j (rt_sending p')) (rt_workers p' ! j)"
      using w i s(3) [OF j] s(4) r by (cases "j = i") auto
  qed (use s r i in \<open>auto split: if_splits\<close>)
qed

lemma router_done_keeps:
  assumes ok: "shards_ok k hash rnd st0 feed p" and run: "shard_act hash rnd RouterDone p = Some p'"
  shows "shards_ok k hash rnd st0 feed p'"
proof -
  obtain sent where s: "sent @ rt_feed p = feed" "rt_routes p = routes_after sent Map.empty"
    "\<And>j. j < kShards \<Longrightarrow> worker_ok k rnd st0 (rt_done p) (share j (route_all hash sent Map.empty))
       (being_sent j (rt_sending p)) (rt_workers p ! j)"
    "length (rt_workers p) = kShards"
    using ok by (rule shards_okE) blast
  have r: "rt_feed p = []" "rt_sending p = None" "\<not> rt_done p"
    "p' = p\<lparr>rt_done := True, rt_workers := map (\<lambda>w. w\<lparr>wk_chan := ch_close (wk_chan w)\<rparr>) (rt_workers p)\<rparr>"
    using run by (auto split: if_splits)
  show ?thesis
  proof (rule shards_okI [of sent])
    fix j assume "j < kShards"
    then show "worker_ok k rnd st0 (rt_done p') (share j (route_all hash sent Map.empty)) (being_sent j (rt_sending p')) (rt_workers p' ! j)"
      using worker_close [of k rnd st0 _ "rt_workers p ! j"] s(3) [of j] s(4) r by simp
  qed (use s r in auto)
qed

lemma worker_poll_keeps:
  assumes good: "shares_run hash rnd st0 feed" and ok: "shards_ok k hash rnd st0 feed p"
    and j: "j < kShards" and run: "ch_poll True mv (wk_chan (rt_workers p ! j)) = Some (c, msgs)"
  shows "\<exists>w. shard_act hash rnd (WorkerPoll j mv) p = Some (p\<lparr>rt_workers := (rt_workers p)[j := w]\<rparr>) \<and> wk_chan w = c \<and>
    shards_ok k hash rnd st0 feed (p\<lparr>rt_workers := (rt_workers p)[j := w]\<rparr>)"
proof -
  obtain sent where s: "sent @ rt_feed p = feed" "rt_routes p = routes_after sent Map.empty"
    "\<And>j. j < kShards \<Longrightarrow> worker_ok k rnd st0 (rt_done p) (share j (route_all hash sent Map.empty))
       (being_sent j (rt_sending p)) (rt_workers p ! j)"
    "length (rt_workers p) = kShards" "\<And>j m. rt_sending p = Some (j, m) \<Longrightarrow> j < kShards"
    "rt_done p \<Longrightarrow> rt_feed p = [] \<and> rt_sending p = None"
    using ok by (rule shards_okE) blast
  have "share j (route_all hash feed Map.empty) =
      share j (route_all hash sent Map.empty) @ share j (route_all hash (rt_feed p) (routes_after sent Map.empty))"
    unfolding s(1) [symmetric] by (simp add: route_all_append share_append)
  moreover obtain st all where "on_messages md_only rnd (share j (route_all hash feed Map.empty)) st0 = Some (st, all)"
    using good unfolding shares_run_def by blast
  ultimately obtain w where w: "worker_step rnd mv (rt_workers p ! j) = Some w" "wk_chan w = c"
    "worker_ok k rnd st0 (rt_done p) (share j (route_all hash sent Map.empty)) (being_sent j (rt_sending p)) w"
    using worker_poll [OF s(3) [OF j] _ run] by metis
  have "shards_ok k hash rnd st0 feed (p\<lparr>rt_workers := (rt_workers p)[j := w]\<rparr>)"
  proof (rule shards_okI [of sent])
    fix i assume "i < kShards"
    then show "worker_ok k rnd st0 (rt_done (p\<lparr>rt_workers := (rt_workers p)[j := w]\<rparr>)) (share i (route_all hash sent Map.empty))
        (being_sent i (rt_sending (p\<lparr>rt_workers := (rt_workers p)[j := w]\<rparr>))) (rt_workers (p\<lparr>rt_workers := (rt_workers p)[j := w]\<rparr>) ! i)"
      using w(3) s(3) [of i] s(4) by (cases "i = j") simp_all
  qed (use s in auto)
  then show ?thesis using w(1,2) j s(4) by auto
qed

lemma shard_act_ok:
  assumes good: "shares_run hash rnd st0 feed" and ok: "shards_ok k hash rnd st0 feed p" and run: "shard_act hash rnd a p = Some p'"
  shows "shards_ok k hash rnd st0 feed p'"
proof (cases a)
  case (WorkerPoll j mv)
  have "j < kShards" using run WorkerPoll ok by (auto simp: shards_ok_def split: if_splits)
  moreover obtain c msgs where "ch_poll True mv (wk_chan (rt_workers p ! j)) = Some (c, msgs)"
    using run WorkerPoll by (auto simp: worker_step_def bind_eq_Some_conv split: if_splits)
  ultimately show ?thesis using worker_poll_keeps [OF good ok] run WorkerPoll by (metis option.inject)
qed (use run router_take_keeps [OF ok] router_push_keeps [OF ok] router_done_keeps [OF ok] in blast)+

lemma shard_reach_ok:
  assumes "shard_reach hash rnd p0 p" "shards_ok k hash rnd st0 feed p0" "shares_run hash rnd st0 feed"
  shows "shards_ok k hash rnd st0 feed p"
  using assms by (induction rule: shard_reach.induct) (auto intro: shard_act_ok)

section \<open>No schedule gets stuck\<close>

lemma shard_trans: "shard_reach hash rnd p1 p2 \<Longrightarrow> shard_reach hash rnd p0 p1 \<Longrightarrow> shard_reach hash rnd p0 p2"
  by (induction rule: shard_reach.induct) (auto intro: shard_step)

lemma shard_first: "shard_act hash rnd a p = Some p1 \<Longrightarrow> shard_reach hash rnd p1 p2 \<Longrightarrow> shard_reach hash rnd p p2"
  by (rule shard_trans) (auto intro: shard_start shard_step)

lemma shard_one: "shard_act hash rnd a p = Some p1 \<Longrightarrow> shard_reach hash rnd p p1"
  by (auto intro: shard_start shard_step)

lemma workers_same: "p\<lparr>rt_workers := (rt_workers p)[j := rt_workers p ! j]\<rparr> = p"
  by (cases p) simp

lemma shard_polls:
  assumes good: "shares_run hash rnd st0 feed"
  shows "polls True c c' xs \<Longrightarrow> shards_ok k hash rnd st0 feed p \<Longrightarrow> j < kShards \<Longrightarrow> wk_chan (rt_workers p ! j) = c \<Longrightarrow>
    \<exists>w. shard_reach hash rnd p (p\<lparr>rt_workers := (rt_workers p)[j := w]\<rparr>) \<and> wk_chan w = c'"
proof (induction arbitrary: p rule: polls.induct)
  case (polls_here c)
  then show ?case using shard_start workers_same [of p j] by metis
next
  case (polls_item m c c' x)
  then show ?case using worker_poll_keeps [OF good] shard_one by metis
next
  case (polls_more m c c1 c' xs)
  obtain w where w: "shard_act hash rnd (WorkerPoll j m) p = Some (p\<lparr>rt_workers := (rt_workers p)[j := w]\<rparr>)" "wk_chan w = c1"
    "shards_ok k hash rnd st0 feed (p\<lparr>rt_workers := (rt_workers p)[j := w]\<rparr>)"
    using worker_poll_keeps [OF good polls_more.prems(1,2)] polls_more.hyps(1) polls_more.prems(3) by metis
  have "length (rt_workers p) = kShards" using polls_more.prems(1) by (simp add: shards_ok_def)
  then show ?case
    using polls_more.IH [OF w(3) polls_more.prems(2)] w(2) shard_first [OF w(1)] polls_more.prems(2) by fastforce
qed

lemma worker_channel:
  assumes "shards_ok k hash rnd st0 feed p" "j < kShards"
  obtains ps qs where "channel_ok k (wk_chan (rt_workers p ! j)) ps qs" "ch_flag (wk_chan (rt_workers p ! j)) \<noteq> None \<longleftrightarrow> rt_done p"
    "set (held (ch_ring (wk_chan (rt_workers p ! j)))) \<subseteq> set (being_sent j (rt_sending p))" "length (rt_workers p) = kShards"
  using assms by (auto simp: shards_ok_def worker_ok_def)

text \<open>A worker empties its ring.\<close>

lemma drain_worker:
  assumes good: "shares_run hash rnd st0 feed"
  shows "shards_ok k hash rnd st0 feed p \<Longrightarrow> j < kShards \<Longrightarrow>
    \<exists>w. shard_reach hash rnd p (p\<lparr>rt_workers := (rt_workers p)[j := w]\<rparr>) \<and>
      pops (ch_ring (wk_chan w)) = pushes (ch_ring (wk_chan w)) \<and> (rt_done p \<longrightarrow> ch_phase (wk_chan w) = PollEnd)"
proof (induction "pushes (ch_ring (wk_chan (rt_workers p ! j))) - pops (ch_ring (wk_chan (rt_workers p ! j)))" arbitrary: p rule: less_induct)
  case less
  let ?c = "wk_chan (rt_workers p ! j)"
  obtain ps qs where ch: "channel_ok k ?c ps qs" "ch_flag ?c \<noteq> None \<longleftrightarrow> rt_done p" "length (rt_workers p) = kShards"
    using worker_channel [OF less.prems] by metis
  obtain c1 xs where c1: "polls True ?c c1 xs" "settled c1 xs" using polls_settle [OF ch(1)] by blast
  obtain w where w: "shard_reach hash rnd p (p\<lparr>rt_workers := (rt_workers p)[j := w]\<rparr>)" "wk_chan w = c1"
    using shard_polls [OF good c1(1) less.prems refl] by blast
  have ok1: "channel_ok k c1 ps (qs @ xs)" using polls_ok [OF c1(1) ch(1)] .
  show ?case
  proof (cases xs)
    case Nil
    then have "pops (ch_ring c1) = pushes (ch_ring c1)" "rt_done p \<longrightarrow> ch_phase c1 = PollEnd"
      using c1(2) ok1 ch(2) polls_frame [OF c1(1)] by (auto simp: settled_def channel_ok_def)
    then show ?thesis using w by auto
  next
    case (Cons x xs')
    then have "xs = [x]" using c1(2) by (auto simp: settled_def)
    then have "pushes (ch_ring c1) - pops (ch_ring c1) < pushes (ch_ring ?c) - pops (ch_ring ?c)"
      using channel_lengths [OF ok1] channel_lengths [OF ch(1)] by auto
    then obtain w' where "shard_reach hash rnd (p\<lparr>rt_workers := (rt_workers p)[j := w]\<rparr>) (p\<lparr>rt_workers := (rt_workers p)[j := w']\<rparr>)"
      "pops (ch_ring (wk_chan w')) = pushes (ch_ring (wk_chan w'))" "rt_done p \<longrightarrow> ch_phase (wk_chan w') = PollEnd"
      using less.hyps [of "p\<lparr>rt_workers := (rt_workers p)[j := w]\<rparr>"] shard_reach_ok [OF w(1) less.prems(1) good] w(2)
        less.prems(2) ch(3) by auto
    then show ?thesis using shard_trans [OF _ w(1)] by blast
  qed
qed

text \<open>The router gets rid of its message, then of the feed.\<close>

lemma shard_sends:
  "sends m c c' \<Longrightarrow> rt_sending p = Some (j, m) \<Longrightarrow> wk_chan (rt_workers p ! j) = c \<Longrightarrow> j < length (rt_workers p) \<Longrightarrow>
   \<exists>p'. shard_reach hash rnd p p' \<and> rt_sending p' = None \<and> rt_feed p' = rt_feed p"
proof (induction arbitrary: p rule: sends.induct)
  case (sends_in mv c c')
  then have "shard_act hash rnd (RouterPush mv) p =
      Some (p\<lparr>rt_workers := (rt_workers p)[j := (rt_workers p ! j)\<lparr>wk_chan := c'\<rparr>], rt_sending := None\<rparr>)" by simp
  from shard_one [OF this] show ?case
    by (intro exI [of _ "p\<lparr>rt_workers := (rt_workers p)[j := (rt_workers p ! j)\<lparr>wk_chan := c'\<rparr>], rt_sending := None\<rparr>"]) simp
next
  case (sends_more mv c c1 c')
  let ?p = "p\<lparr>rt_workers := (rt_workers p)[j := (rt_workers p ! j)\<lparr>wk_chan := c1\<rparr>]\<rparr>"
  have "shard_act hash rnd (RouterPush mv) p = Some ?p" using sends_more by simp
  moreover obtain p' where "shard_reach hash rnd ?p p'" "rt_sending p' = None" "rt_feed p' = rt_feed p"
    using sends_more.IH [of ?p] sends_more.prems by auto
  ultimately show ?case using shard_first by blast
qed

lemma router_sends:
  assumes good: "shares_run hash rnd st0 feed" and ok: "shards_ok k hash rnd st0 feed p" and k: "0 < k"
    and s: "rt_sending p = Some (j, m)"
  shows "\<exists>p'. shard_reach hash rnd p p' \<and> rt_sending p' = None \<and> rt_feed p' = rt_feed p"
proof -
  have j: "j < kShards" "\<not> rt_done p" using ok s by (auto simp: shards_ok_def)
  obtain w where w: "shard_reach hash rnd p (p\<lparr>rt_workers := (rt_workers p)[j := w]\<rparr>)" (is "shard_reach hash rnd p ?p")
    "pops (ch_ring (wk_chan w)) = pushes (ch_ring (wk_chan w))"
    using drain_worker [OF good ok j(1)] by blast
  have ok1: "shards_ok k hash rnd st0 feed ?p" using shard_reach_ok [OF w(1) ok good] .
  have len: "length (rt_workers p) = kShards" using ok by (simp add: shards_ok_def)
  then have here: "wk_chan (rt_workers ?p ! j) = wk_chan w" using j(1) by simp
  obtain ps qs where "channel_ok k (wk_chan (rt_workers ?p ! j)) ps qs" "ch_flag (wk_chan (rt_workers ?p ! j)) \<noteq> None \<longleftrightarrow> rt_done ?p"
    "set (held (ch_ring (wk_chan (rt_workers ?p ! j)))) \<subseteq> set (being_sent j (rt_sending ?p))"
    using worker_channel [OF ok1 j(1)] by metis
  then have ch: "channel_ok k (wk_chan w) ps qs" "ch_flag (wk_chan w) = None" "set (held (ch_ring (wk_chan w))) \<subseteq> {m}"
    using j(2) s unfolding here by auto
  obtain c' where "sends m (wk_chan w) c'" using sends_drained [OF ch(1,2) k w(2) ch(3)] by blast
  from shard_sends [OF this, of ?p j] obtain p' where "shard_reach hash rnd ?p p'" "rt_sending p' = None" "rt_feed p' = rt_feed p"
    using s here len j(1) by auto
  then show ?thesis using shard_trans [OF _ w(1)] by blast
qed

lemma router_ends:
  assumes good: "shares_run hash rnd st0 feed" and k: "0 < k"
  shows "shards_ok k hash rnd st0 feed p \<Longrightarrow> \<exists>p'. shard_reach hash rnd p p' \<and> rt_done p'"
proof (induction "length (rt_feed p)" arbitrary: p rule: less_induct)
  case less
  obtain p1 where p1: "shard_reach hash rnd p p1" "rt_sending p1 = None" "rt_feed p1 = rt_feed p"
    using router_sends [OF good less.prems k] shard_start by (cases "rt_sending p") (blast, fastforce)
  have ok1: "shards_ok k hash rnd st0 feed p1" using shard_reach_ok [OF p1(1) less.prems good] .
  show ?case
  proof (cases "rt_feed p1")
    case Nil
    show ?thesis
    proof (cases "rt_done p1")
      case False
      then obtain p2 where "shard_act hash rnd RouterDone p1 = Some p2" "rt_done p2" using Nil p1(2) by simp
      then show ?thesis using shard_trans [OF shard_one p1(1)] by blast
    qed (use p1(1) in blast)
  next
    case (Cons m rest)
    obtain symbol routes where "route_symbol_for m (rt_routes p1) = (symbol, routes)" by fastforce
    then obtain p2 where p2: "shard_act hash rnd RouterTake p1 = Some p2" "rt_feed p2 = rest" using Cons p1(2) by simp
    then obtain p3 where "shard_reach hash rnd p2 p3" "rt_done p3"
      using less.hyps [of p2] shard_act_ok [OF good ok1 p2(1)] Cons p1(3) by auto
    then show ?thesis using shard_trans [OF shard_first [OF p2(1)] p1(1)] by blast
  qed
qed

lemma workers_end:
  assumes good: "shares_run hash rnd st0 feed" and ok: "shards_ok k hash rnd st0 feed p" and d: "rt_done p"
  shows "n \<le> kShards \<Longrightarrow> \<exists>p'. shard_reach hash rnd p p' \<and> rt_done p' \<and> (\<forall>i < n. ch_phase (wk_chan (rt_workers p' ! i)) = PollEnd)"
proof (induction n)
  case 0
  then show ?case using d shard_start by blast
next
  case (Suc n)
  then obtain p1 where p1: "shard_reach hash rnd p p1" "rt_done p1" "\<forall>i < n. ch_phase (wk_chan (rt_workers p1 ! i)) = PollEnd"
    by auto
  have ok1: "shards_ok k hash rnd st0 feed p1" using shard_reach_ok [OF p1(1) ok good] .
  have n: "n < kShards" "length (rt_workers p1) = kShards" using Suc.prems ok1 by (auto simp: shards_ok_def)
  obtain w where w: "shard_reach hash rnd p1 (p1\<lparr>rt_workers := (rt_workers p1)[n := w]\<rparr>)" "ch_phase (wk_chan w) = PollEnd"
    using drain_worker [OF good ok1 n(1)] p1(2) by blast
  have "\<forall>i < Suc n. ch_phase (wk_chan ((rt_workers p1)[n := w] ! i)) = PollEnd"
    using p1(3) w(2) n by (auto simp: less_Suc_eq nth_list_update)
  then show ?case using shard_trans [OF w(1) p1(1)] p1(2)
    by (intro exI [of _ "p1\<lparr>rt_workers := (rt_workers p1)[n := w]\<rparr>"]) simp
qed

lemma shards_can_finish:
  assumes good: "shares_run hash rnd st0 feed" and ok: "shards_ok k hash rnd st0 feed p" and k: "0 < k"
  shows "\<exists>p'. shard_reach hash rnd p p' \<and> workers_left p'"
proof -
  obtain p1 where p1: "shard_reach hash rnd p p1" "rt_done p1" using router_ends [OF good k ok] by blast
  have ok1: "shards_ok k hash rnd st0 feed p1" using shard_reach_ok [OF p1(1) ok good] .
  obtain p2 where p2: "shard_reach hash rnd p1 p2" "\<forall>i < kShards. ch_phase (wk_chan (rt_workers p2 ! i)) = PollEnd"
    using workers_end [OF good ok1 p1(2) order_refl] by blast
  have "length (rt_workers p2) = kShards" using shard_reach_ok [OF p2(1) ok1 good] by (simp add: shards_ok_def)
  then have "workers_left p2" using p2(2) by (simp add: workers_left_def list_all_length)
  then show ?thesis using shard_trans [OF p2(1) p1(1)] by blast
qed

section \<open>The result\<close>

lemma sum_list_shards: "length xs = kShards \<Longrightarrow> sum_list (map f xs) = (\<Sum>k<kShards. f (xs ! k))" for f :: "'b \<Rightarrow> u64"
  by (simp add: sum_list_sum_nth atLeast0LessThan)

text \<open>A worker that has left has done its whole share.\<close>

lemma worker_left:
  assumes ok: "shards_ok k hash rnd st0 feed p" and left: "workers_left p" and j: "j < kShards"
  shows "\<exists>out. on_messages md_only rnd (share j (route_all hash feed Map.empty)) st0 = Some (wk_seq (rt_workers p ! j), out) \<and>
    wk_md (rt_workers p ! j) = word_of_nat (length (mds out))"
proof -
  obtain sent where s: "sent @ rt_feed p = feed"
    "\<And>j. j < kShards \<Longrightarrow> worker_ok k rnd st0 (rt_done p) (share j (route_all hash sent Map.empty))
       (being_sent j (rt_sending p)) (rt_workers p ! j)"
    "length (rt_workers p) = kShards" "rt_done p \<Longrightarrow> rt_feed p = [] \<and> rt_sending p = None"
    using ok by (rule shards_okE) blast
  obtain ps qs out where w: "channel_ok k (wk_chan (rt_workers p ! j)) ps qs"
    "ps @ being_sent j (rt_sending p) = share j (route_all hash sent Map.empty)"
    "on_messages md_only rnd qs st0 = Some (wk_seq (rt_workers p ! j), out)" "wk_md (rt_workers p ! j) = word_of_nat (length (mds out))"
    "ch_flag (wk_chan (rt_workers p ! j)) \<noteq> None \<longleftrightarrow> rt_done p"
    using s(2) [OF j] unfolding worker_ok_def by blast
  have "ch_phase (wk_chan (rt_workers p ! j)) = PollEnd" using left j s(3) by (simp add: workers_left_def list_all_length)
  then have "qs = ps" "rt_done p" using channel_end [OF w(1)] w(5) by auto
  then show ?thesis using s(1,4) w(2-4) by auto
qed

text \<open>The aggregated counters are the counters of the one sequencer.\<close>

lemma agg_stats_eq:
  assumes sh: "in_shards hash routes st ss" and p: "length (rt_workers p) = kShards" "\<And>j. j < kShards \<Longrightarrow> wk_seq (rt_workers p ! j) = ss j"
  shows "agg_stats p = sq_stats st"
proof -
  have "sum_list (map (\<lambda>w. g (sq_stats (wk_seq w))) (rt_workers p)) = g (sq_stats st)" if "g \<in> set stat_fields" for g
    using in_shardsD(5) [OF sh that] p by (simp add: sum_list_shards)
  then show ?thesis by (simp add: agg_stats_def stat_fields_def)
qed

lemma agg_md_eq:
  assumes "length (rt_workers p) = kShards" "\<And>j. j < kShards \<Longrightarrow> wk_md (rt_workers p ! j) = word_of_nat (n j)"
  shows "agg_md_events p = word_of_nat (\<Sum>j<kShards. n j)"
  using assms by (simp add: agg_md_events_def sum_list_shards)

text \<open>C6: the sharded pipeline computes what one sequencer computes, under every interleaving of the router and the
  workers and for every hash: the counters added over the shards and the number of market data events are those of
  the sequential pass, the book of every symbol is the book of the sequential pass and lies in the shard of the symbol
  only; and from wherever the threads have got to they can go on to the end. Assumed of the feed: order references
  unique over the day, and no byte 1 (the separator of the risk keys) in a symbol.\<close>

theorem sharded_is_sequential:
  assumes "new_book 128 200 = Some b0" "list_all plain (read_feed max_messages file)"
    "day_unique (read_feed max_messages file) (new_pass b0)" "0 < k" "k < 64"
    and reach: "shard_reach hash rnd (new_sharded blank (2 ^ k) b0 (read_feed max_messages file)) p"
  shows "\<exists>st out. on_messages md_only rnd (read_feed max_messages file) (new_pass b0) = Some (st, out) \<and>
    (\<exists>p'. shard_reach hash rnd p p' \<and> workers_left p') \<and>
    (workers_left p \<longrightarrow>
       agg_stats p = sq_stats st \<and> agg_md_events p = word_of_nat (length (mds out)) \<and>
       (\<forall>y. sq_books (wk_seq (rt_workers p ! shard_for hash y)) y = sq_books st y) \<and>
       (\<forall>j < kShards. \<forall>y. shard_for hash y \<noteq> j \<longrightarrow> sq_books (wk_seq (rt_workers p ! j)) y = b0))"
proof -
  let ?feed = "read_feed max_messages file"
  have b0: "wf_book b0" "book_abs b0 = spec_empty" using new_book_ok [of 200 128] assms(1) by auto
  then have "seq_ok (new_pass b0)" unfolding new_pass_def by (intro seq_ok_new(1))
  then obtain st out where run: "on_messages md_only rnd ?feed (new_pass b0) = Some (st, out)"
    using run_good [OF _ read_feed_ok assms(3)] by blast
  have start: "in_shards hash Map.empty (new_pass b0) (\<lambda>j. new_pass b0)"
    by (rule new_in_shards) (simp_all add: new_pass_def new_sequencer_def)
  obtain ss outs where ss: "\<And>j. on_messages md_only rnd (share j (route_all hash ?feed Map.empty)) (new_pass b0) = Some (ss j, outs j)"
    "in_shards hash (routes_after ?feed Map.empty) st ss" "(\<Sum>j<kShards. length (mds (outs j))) = length (mds out)"
    "\<And>j y. shard_for hash y \<noteq> j \<Longrightarrow> sq_books (ss j) y = sq_books (new_pass b0) y"
    using shards_run [OF start assms(3,2) run] by blast
  have good: "shares_run hash rnd (new_pass b0) ?feed" unfolding shares_run_def using ss(1) by blast
  have ok: "shards_ok k hash rnd (new_pass b0) ?feed p"
    by (rule shard_reach_ok [OF reach new_sharded_ok [OF assms(5)] good])
  have len: "length (rt_workers p) = kShards" using ok by (simp add: shards_ok_def)
  have shard: "shard_for hash y < kShards" for y using shard_of_less [of hash "Some y"] by (simp add: shard_of_def)
  have "agg_stats p = sq_stats st \<and> agg_md_events p = word_of_nat (length (mds out)) \<and>
       (\<forall>y. sq_books (wk_seq (rt_workers p ! shard_for hash y)) y = sq_books st y) \<and>
       (\<forall>j < kShards. \<forall>y. shard_for hash y \<noteq> j \<longrightarrow> sq_books (wk_seq (rt_workers p ! j)) y = b0)" if "workers_left p"
  proof -
    have w: "wk_seq (rt_workers p ! j) = ss j" "wk_md (rt_workers p ! j) = word_of_nat (length (mds (outs j)))" if "j < kShards" for j
      using worker_left [OF ok \<open>workers_left p\<close> that] ss(1) [of j] by auto
    then show ?thesis
      using agg_stats_eq [OF ss(2) len w(1)] agg_md_eq [OF len w(2)] ss(3,4) in_shardsD(1) [OF ss(2)] shard
      by (simp add: new_pass_def new_sequencer_def)
  qed
  then show ?thesis using run shards_can_finish [OF good ok assms(4)] by blast
qed

text \<open>Two symbols in two shards: two bids, and an offer that trades against the first,
  through rings of two cells.\<close>

definition demo_hash :: "bytes \<Rightarrow> nat" where
  "demo_hash s = unat (hd s)"

definition demo_other :: message where
  "demo_other = AddOrderNoMPID \<lparr>ao_h = \<lparr>stock_locate = 2, tracking_number = 2, timestamp_ns = 34200000000002\<rparr>,
     ao_order_ref_number = 80, ao_buy_sell_indicator = 66, ao_shares = 5,
     ao_stock = [77, 83, 70, 84, 32, 32, 32, 32], ao_price = 250\<rparr>"

definition demo_file :: bytes where
  "demo_file = concat (map (\<lambda>m. frame (encode_message m)) [demo_order 77 66 100 100, demo_other, demo_order 78 83 40 99])"

lemma demo_read: "read_feed 10 demo_file = [demo_order 77 66 100 100, demo_other, demo_order 78 83 40 99]"
  by code_simp

lemma demo_pass:
  "map_option (\<lambda>(st, out). (sq_stats st, length (mds out)))
     (on_messages md_only id (read_feed 10 demo_file) (new_pass (the (new_book 128 200)))) =
   Some (zero_stats\<lparr>add_orders := 3, trades_produced := 1\<rparr>, 3)"
  unfolding demo_read by code_simp

lemma demo_feed_fine:
  "list_all plain (read_feed 10 demo_file)" "day_unique (read_feed 10 demo_file) (new_pass b0)"
  by (simp_all add: demo_read demo_order_def demo_other_def day_unique_def new_pass_def new_sequencer_def)

theorem sharded_is_sequential_witness:
  "\<exists>b0 p. new_book 128 200 = Some b0 \<and>
     shard_reach demo_hash id (new_sharded demo_other (2 ^ 1) b0 (read_feed 10 demo_file)) p \<and> workers_left p \<and>
     agg_stats p = zero_stats\<lparr>add_orders := 3, trades_produced := 1\<rparr> \<and> agg_md_events p = 3"
proof -
  obtain b0 where b0: "new_book 128 200 = Some b0" using new_book_ok [of 200 128] by auto
  note fine = demo_feed_fine(1) demo_feed_fine(2) [of b0]
  have k: "0 < (1::nat)" "(1::nat) < 64" by simp_all
  obtain p where p: "shard_reach demo_hash id (new_sharded demo_other (2 ^ 1) b0 (read_feed 10 demo_file)) p" "workers_left p"
    using sharded_is_sequential [OF b0 fine k shard_start] by blast
  have "agg_stats p = zero_stats\<lparr>add_orders := 3, trades_produced := 1\<rparr> \<and> agg_md_events p = 3"
    using sharded_is_sequential [OF b0 fine k p(1)] p(2) demo_pass b0 by auto
  then show ?thesis using b0 p by blast
qed

end
