(* ===== verification/Profiled_Book.thy ===== *)
theory Profiled_Book
  imports Bench_Programs
begin

text \<open>
  The profiling build of \<open>OrderBookV2\<close> (\<open>OBV2_PROFILE_BREAKDOWN\<close> in \<open>order_book_v2.h\<close> and \<open>order_book_v2.cpp\<close>) and
  the program that is built with it (\<open>cpp/bench/bench_breakdown.cpp\<close>). The steady clock is a parameter: its
  readings in nanoseconds, in the order they are taken. The instrumented members do to the book what the plain
  ones do, and what the phases add up to is never more than the time that has passed.
\<close>

section \<open>The counters\<close>

record breakdown =
  match_ns :: u64
  match_calls :: u64
  ensure_index_ns :: u64
  ensure_index_calls :: u64
  arena_alloc_ns :: u64
  arena_alloc_calls :: u64
  index_insert_ns :: u64
  index_insert_calls :: u64
  fifo_link_ns :: u64
  fifo_link_calls :: u64

definition no_breakdown :: breakdown where
  "no_breakdown =
     \<lparr>match_ns = 0, match_calls = 0, ensure_index_ns = 0, ensure_index_calls = 0, arena_alloc_ns = 0, arena_alloc_calls = 0,
      index_insert_ns = 0, index_insert_calls = 0, fifo_link_ns = 0, fifo_link_calls = 0\<rparr>"

text \<open>The counters, and how many readings the clock has given.\<close>

record profile =
  pf_breakdown :: breakdown
  pf_reads :: nat

definition now :: "(nat \<Rightarrow> int) \<Rightarrow> profile \<Rightarrow> int \<times> profile" where
  "now clock p = (clock (pf_reads p), p\<lparr>pf_reads := Suc (pf_reads p)\<rparr>)"

text \<open>The second reading of a phase: its time is added and the call is counted.\<close>

definition phase_end ::
    "(nat \<Rightarrow> int) \<Rightarrow> ((u64 \<Rightarrow> u64) \<Rightarrow> breakdown \<Rightarrow> breakdown) \<Rightarrow> ((u64 \<Rightarrow> u64) \<Rightarrow> breakdown \<Rightarrow> breakdown) \<Rightarrow>
     int \<Rightarrow> profile \<Rightarrow> profile" where
  "phase_end clock ns calls t0 p =
     (case now clock p of (t1, p1) \<Rightarrow>
        p1\<lparr>pf_breakdown := calls (\<lambda>n. n + 1) (ns (\<lambda>t. t + word_of_int (t1 - t0)) (pf_breakdown p1))\<rparr>)"

section \<open>The instrumented members\<close>

definition push_back_order_p :: "(nat \<Rightarrow> int) \<Rightarrow> book \<Rightarrow> int \<Rightarrow> side \<Rightarrow> order_request \<Rightarrow> profile \<Rightarrow>
    ((book_error + unit) \<times> book \<times> profile) option" where
  "push_back_order_p clock b li sd req p =
     (let (t_alloc0, p1) = now clock p in
      case alloc_node b of
        (Inl e, b1) \<Rightarrow> Some (Inl e, b1, p1)
      | (Inr ni, b1) \<Rightarrow>
          (let p2 = phase_end clock arena_alloc_ns_update arena_alloc_calls_update t_alloc0 p1;
               (t_fifo0, p3) = now clock p2;
               b2 = append_node li ni req b1;
               p4 = phase_end clock fifo_link_ns_update fifo_link_calls_update t_fifo0 p3;
               (t_idx0, p5) = now clock p4
           in do {
             ix \<leftarrow> fhm_put blank_entry (index b2) (req_id req) \<lparr>ix_side = sd, ix_level = li, ix_node = ni\<rparr>;
             Some (Inr (), b2\<lparr>index := ix\<rparr>, phase_end clock index_insert_ns_update index_insert_calls_update t_idx0 p5)
           }))"

text \<open>The end of both branches that rest an order; \<open>timed\<close>: the price lookup is measured in the limit branch only.\<close>

definition rest_taker_p :: "(nat \<Rightarrow> int) \<Rightarrow> bool \<Rightarrow> book \<Rightarrow> order_request \<Rightarrow> profile \<Rightarrow>
    ((book_error + unit) \<times> book \<times> profile) option" where
  "rest_taker_p clock timed b taker p =
     (let (t_ensure0, p1) = (if timed then now clock p else (0, p)) in
      case ensure_index_for_price b (req_price taker) of
        (Inl e, b1) \<Rightarrow> Some (Inl e, b1, p1)
      | (Inr idx, b1) \<Rightarrow>
          (let p2 = (if timed then phase_end clock ensure_index_ns_update ensure_index_calls_update t_ensure0 p1 else p1)
           in do {
             (r, b2, p3) \<leftarrow> push_back_order_p clock b1 idx (req_side taker) taker p2;
             case r of Inl e \<Rightarrow> Some (Inl e, b2, p3)
             | Inr _ \<Rightarrow> Some (Inr (), note_best (req_side taker) idx b2, p3)
           }))"

definition book_add_p :: "(nat \<Rightarrow> int) \<Rightarrow> book \<Rightarrow> order_request \<Rightarrow> profile \<Rightarrow>
    ((book_error + unit) \<times> book \<times> int trade list \<times> profile) option" where
  "book_add_p clock b req p =
     (if req_type req = Cancel then do { (b1, _) \<leftarrow> book_cancel b (req_id req); Some (Inr (), b1, [], p) }
      else if req_type req = PostOnly then
        (if would_cross b req then Some (Inr (), b, [], p)
         else do { (r, b1, p1) \<leftarrow> rest_taker_p clock False b req p; Some (r, b1, [], p1) })
      else if req_type req = FOK \<and> \<not> can_fully_fill b req then Some (Inr (), b, [], p)
      else (let (t_match0, p1) = now clock p in do {
        (b1, taker, trades) \<leftarrow> match_order b req [];
        let p2 = phase_end clock match_ns_update match_calls_update t_match0 p1;
        if req_type taker = Limit \<and> 0 < req_qty taker
        then do { (r, b2, p3) \<leftarrow> rest_taker_p clock True b1 taker p2; Some (r, b2, trades, p3) }
        else Some (Inr (), b1, trades, p2)
      }))"

section \<open>The program\<close>

fun breakdown_loop :: "(nat \<Rightarrow> int) \<Rightarrow> 'g dist \<Rightarrow> nat \<Rightarrow> 'g \<Rightarrow> u64 \<Rightarrow> book \<Rightarrow> profile \<Rightarrow> (book_error + book \<times> profile) option" where
  "breakdown_loop clock draw 0 g next_id b p = Some (Inr (b, p))"
| "breakdown_loop clock draw (Suc n) g next_id b p =
     (case bench_request draw next_id g of (o1, g1) \<Rightarrow> do {
        (r, b1, trades, p1) \<leftarrow> book_add_p clock b o1 p;
        case r of Inl e \<Rightarrow> Some (Inl e) | Inr _ \<Rightarrow> breakdown_loop clock draw n g1 (next_id + 1) b1 p1
      })"

text \<open>A printed line, \<open>None\<close> for a phase that was never entered. The divisions are by a wall time that is not zero.\<close>

record phase_line =
  ph_calls :: u64
  ph_total_ms :: rat
  ph_avg_ns :: rat
  ph_pct_of_add :: rat

definition report_phase :: "(rat \<Rightarrow> rat) \<Rightarrow> u64 \<Rightarrow> u64 \<Rightarrow> rat \<Rightarrow> phase_line option" where
  "report_phase rnd total_ns calls add_wall_ns =
     (if calls = 0 then None
      else (let total = rnd (of_nat (unat total_ns))
        in Some \<lparr>ph_calls = calls, ph_total_ms = rnd (total / 1000000), ph_avg_ns = rnd (total / rnd (of_nat (unat calls))),
                 ph_pct_of_add = rnd (rnd (100 * total) / add_wall_ns)\<rparr>))"

definition accounted_ns :: "breakdown \<Rightarrow> u64" where
  "accounted_ns b = match_ns b + ensure_index_ns b + arena_alloc_ns b + fifo_link_ns b + index_insert_ns b"

record breakdown_report =
  br_wall_ns :: int
  br_breakdown :: breakdown
  br_lines :: "phase_line option list"
  br_accounted_pct :: rat
  br_depth :: nat
  br_growths :: nat

definition breakdown_report_of :: "(rat \<Rightarrow> rat) \<Rightarrow> int \<Rightarrow> book \<Rightarrow> breakdown \<Rightarrow> breakdown_report" where
  "breakdown_report_of rnd wall_ns book b =
     (let add_wall_ns = rnd (of_int wall_ns)
      in \<lparr>br_wall_ns = wall_ns, br_breakdown = b,
          br_lines = [report_phase rnd (match_ns b) (match_calls b) add_wall_ns,
                      report_phase rnd (ensure_index_ns b) (ensure_index_calls b) add_wall_ns,
                      report_phase rnd (arena_alloc_ns b) (arena_alloc_calls b) add_wall_ns,
                      report_phase rnd (fifo_link_ns b) (fifo_link_calls b) add_wall_ns,
                      report_phase rnd (index_insert_ns b) (index_insert_calls b) add_wall_ns],
          br_accounted_pct = rnd (rnd (100 * rnd (of_nat (unat (accounted_ns b)))) / add_wall_ns),
          br_depth = depth book, br_growths = level_array_growths book\<rparr>)"

definition bench_breakdown ::
    "(rat \<Rightarrow> rat) \<Rightarrow> (nat \<Rightarrow> int) \<Rightarrow> 'g dist \<Rightarrow> 'g \<Rightarrow> nat \<Rightarrow> (book_error + breakdown_report) option" where
  "bench_breakdown rnd clock draw rng n = do {
     book \<leftarrow> new_book 1048576 20000;
     let (t0, p0) = now clock \<lparr>pf_breakdown = no_breakdown, pf_reads = 0\<rparr>;
     r \<leftarrow> breakdown_loop clock draw n rng 1 book p0;
     Some (case r of Inl e \<Rightarrow> Inl e
       | Inr (b, p) \<Rightarrow> (case now clock p of (t1, _) \<Rightarrow> Inr (breakdown_report_of rnd (t1 - t0) b (pf_breakdown p))))
   }"

section \<open>The instrumentation does not touch the book\<close>

lemma phase_end_reads [simp]: "pf_reads (phase_end clock ns calls t0 p) = Suc (pf_reads p)"
  by (simp add: phase_end_def now_def)

lemma push_back_order_p_plain:
  "push_back_order b li sd req = map_option (\<lambda>(r, b1, p1). (r, b1)) (push_back_order_p clock b li sd req p)"
  by (auto simp: push_back_order_def push_back_order_p_def now_def Let_def bind_map_option map_option_bind comp_def
      split: prod.splits sum.splits intro!: bind_option_cong)

text \<open>The profile behind one reading, and behind a measured phase.\<close>

abbreviation (input) ticked :: "profile \<Rightarrow> profile" where
  "ticked p \<equiv> p\<lparr>pf_reads := Suc (pf_reads p)\<rparr>"

lemma rest_taker_p_plain:
  "rest_taker b taker = map_option (\<lambda>(r, b1, p1). (r, b1)) (rest_taker_p clock timed b taker p)"
proof -
  let ?p = "if timed then phase_end clock ensure_index_ns_update ensure_index_calls_update (clock (pf_reads p)) (ticked p) else p"
  show ?thesis
    by (cases timed) (auto simp: rest_taker_def rest_taker_p_def push_back_order_p_plain [of _ _ _ _ clock ?p] now_def Let_def
        bind_map_option map_option_bind comp_def split: prod.splits sum.splits intro!: bind_option_cong)
qed

lemma book_add_p_plain:
  "book_add b req = map_option (\<lambda>(r, b1, trades, p1). (r, b1, trades)) (book_add_p clock b req p)"
proof -
  let ?p = "phase_end clock match_ns_update match_calls_update (clock (pf_reads p)) (ticked p)"
  show ?thesis
  proof (cases "req_type req = PostOnly")
    case True
    then show ?thesis
      by (auto simp: book_add_def book_add_p_def rest_taker_p_plain [of _ _ clock False p] bind_map_option map_option_bind comp_def
          split: prod.splits intro!: bind_option_cong)
  next
    case False
    then show ?thesis
      by (auto simp: book_add_def book_add_p_def rest_taker_p_plain [of _ _ clock True ?p] now_def Let_def bind_map_option
          map_option_bind comp_def split: prod.splits intro!: bind_option_cong)
  qed
qed

lemma breakdown_loop_plain:
  "bench_loop_v2 draw n g next_id b = map_option (map_sum id fst) (breakdown_loop clock draw n g next_id b p)"
proof (induction n arbitrary: g next_id b p)
  case (Suc n)
  then show ?case
    by (auto simp: book_add_p_plain [of _ _ clock p] bind_map_option map_option_bind comp_def
        split: prod.splits sum.splits intro!: bind_option_cong)
qed simp

section \<open>What the counters say\<close>

definition spent :: "breakdown \<Rightarrow> nat" where
  "spent b = unat (match_ns b) + unat (ensure_index_ns b) + unat (arena_alloc_ns b) + unat (fifo_link_ns b) + unat (index_insert_ns b)"

text \<open>The phases add up to no more than what passed between the first reading and the last.\<close>

definition covers :: "(nat \<Rightarrow> int) \<Rightarrow> profile \<Rightarrow> bool" where
  "covers clock p \<longleftrightarrow> 0 < pf_reads p \<and> int (spent (pf_breakdown p)) \<le> clock (pf_reads p - 1) - clock 0"

lemma unat_plus_int: "0 \<le> d \<Longrightarrow> int (unat (t + word_of_int d)) \<le> int (unat t) + d" for t :: u64
proof -
  assume d: "0 \<le> d"
  have "uint (t + word_of_int d) = (uint t + d) mod 2 ^ 64" by (simp add: uint_word_ariths uint_word_of_int mod_simps)
  also have "\<dots> \<le> uint t + d" using d by (intro zmod_le_nonneg_dividend) simp
  finally show ?thesis by simp
qed

lemma covers_phase:
  assumes "covers clock p" "\<And>i. clock i \<le> clock (Suc i)"
  shows "covers clock (phase_end clock match_ns_update match_calls_update (clock (pf_reads p)) (ticked p))"
    "covers clock (phase_end clock ensure_index_ns_update ensure_index_calls_update (clock (pf_reads p)) (ticked p))"
    "covers clock (phase_end clock arena_alloc_ns_update arena_alloc_calls_update (clock (pf_reads p)) (ticked p))"
    "covers clock (phase_end clock fifo_link_ns_update fifo_link_calls_update (clock (pf_reads p)) (ticked p))"
    "covers clock (phase_end clock index_insert_ns_update index_insert_calls_update (clock (pf_reads p)) (ticked p))"
proof -
  let ?d = "clock (Suc (pf_reads p)) - clock (pf_reads p)"
  have "0 < pf_reads p" "clock (pf_reads p - 1) \<le> clock (pf_reads p)"
    using assms(1) assms(2) [of "pf_reads p - 1"] by (auto simp: covers_def)
  moreover have "int (spent (pf_breakdown p)) \<le> clock (pf_reads p - 1) - clock 0" using assms(1) by (simp add: covers_def)
  moreover have "int (unat (t + word_of_int ?d)) \<le> int (unat t) + ?d" for t :: u64
    by (rule unat_plus_int) (simp add: assms(2))
  note this [of "match_ns (pf_breakdown p)"] this [of "ensure_index_ns (pf_breakdown p)"] this [of "arena_alloc_ns (pf_breakdown p)"]
    this [of "fifo_link_ns (pf_breakdown p)"] this [of "index_insert_ns (pf_breakdown p)"]
  ultimately show "covers clock (phase_end clock match_ns_update match_calls_update (clock (pf_reads p)) (ticked p))"
    "covers clock (phase_end clock ensure_index_ns_update ensure_index_calls_update (clock (pf_reads p)) (ticked p))"
    "covers clock (phase_end clock arena_alloc_ns_update arena_alloc_calls_update (clock (pf_reads p)) (ticked p))"
    "covers clock (phase_end clock fifo_link_ns_update fifo_link_calls_update (clock (pf_reads p)) (ticked p))"
    "covers clock (phase_end clock index_insert_ns_update index_insert_calls_update (clock (pf_reads p)) (ticked p))"
    by (simp_all add: covers_def phase_end_def now_def spent_def)
qed

text \<open>After \<open>k\<close> orders of which \<open>r\<close> came to rest: the calls of every phase, and the readings of the clock.\<close>

definition measured :: "(nat \<Rightarrow> int) \<Rightarrow> nat \<Rightarrow> nat \<Rightarrow> profile \<Rightarrow> bool" where
  "measured clock k r p \<longleftrightarrow> covers clock p \<and> pf_reads p = 1 + 2 * k + 8 * r \<and>
     match_calls (pf_breakdown p) = word_of_nat k \<and> ensure_index_calls (pf_breakdown p) = word_of_nat r \<and>
     arena_alloc_calls (pf_breakdown p) = word_of_nat r \<and> fifo_link_calls (pf_breakdown p) = word_of_nat r \<and>
     index_insert_calls (pf_breakdown p) = word_of_nat r"

lemma not_Inl_unit: "\<forall>x. r \<noteq> Inl x \<Longrightarrow> r \<noteq> Inr () \<Longrightarrow> False" for r :: "'e + unit"
  by (cases r) auto

lemma rest_measured:
  assumes p: "covers clock p" and mono: "\<And>i. clock i \<le> clock (Suc i)"
    and run: "rest_taker_p clock True b taker p = Some (Inr (), b', p')"
  shows "covers clock p' \<and> pf_reads p' = pf_reads p + 8 \<and> match_calls (pf_breakdown p') = match_calls (pf_breakdown p) \<and>
    ensure_index_calls (pf_breakdown p') = ensure_index_calls (pf_breakdown p) + 1 \<and>
    arena_alloc_calls (pf_breakdown p') = arena_alloc_calls (pf_breakdown p) + 1 \<and>
    fifo_link_calls (pf_breakdown p') = fifo_link_calls (pf_breakdown p) + 1 \<and>
    index_insert_calls (pf_breakdown p') = index_insert_calls (pf_breakdown p) + 1"
proof -
  define p1 where "p1 = phase_end clock ensure_index_ns_update ensure_index_calls_update (clock (pf_reads p)) (ticked p)"
  define p2 where "p2 = phase_end clock arena_alloc_ns_update arena_alloc_calls_update (clock (pf_reads p1)) (ticked p1)"
  define p3 where "p3 = phase_end clock fifo_link_ns_update fifo_link_calls_update (clock (pf_reads p2)) (ticked p2)"
  define p4 where "p4 = phase_end clock index_insert_ns_update index_insert_calls_update (clock (pf_reads p3)) (ticked p3)"
  have "p' = p4"
    using run by (auto simp: rest_taker_p_def push_back_order_p_def now_def Let_def p4_def p3_def p2_def p1_def bind_eq_Some_conv
        split: sum.splits prod.splits dest: not_Inl_unit)
  moreover have "covers clock p1" using covers_phase(2) [OF p mono] by (simp add: p1_def)
  then have "covers clock p2" using covers_phase(3) mono by (simp add: p2_def)
  then have "covers clock p3" using covers_phase(4) mono by (simp add: p3_def)
  then have "covers clock p4" using covers_phase(5) mono by (simp add: p4_def)
  ultimately show ?thesis by (simp add: p4_def p3_def p2_def p1_def) (simp add: phase_end_def now_def)
qed

lemma add_measured:
  assumes p: "measured clock k r p" and mono: "\<And>i. clock i \<le> clock (Suc i)" and limit: "req_type req = Limit"
    and run: "book_add_p clock b req p = Some (Inr (), b', trades, p')"
  shows "measured clock (Suc k) r p' \<or> measured clock (Suc k) (Suc r) p'"
proof -
  define p1 where "p1 = phase_end clock match_ns_update match_calls_update (clock (pf_reads p)) (ticked p)"
  have c: "covers clock p" using p by (simp add: measured_def)
  have c1: "covers clock p1" using covers_phase(1) [OF c mono] by (simp add: p1_def)
  have m1: "measured clock (Suc k) r p1"
    using p c1 by (simp add: measured_def p1_def) (simp add: phase_end_def now_def)
  have "p' = p1 \<or> (\<exists>b1 taker. rest_taker_p clock True b1 taker p1 = Some (Inr (), b', p'))"
    using run limit by (auto simp: book_add_p_def now_def Let_def p1_def bind_eq_Some_conv split: if_splits)
  then show ?thesis
  proof
    assume "\<exists>b1 taker. rest_taker_p clock True b1 taker p1 = Some (Inr (), b', p')"
    then obtain b1 taker where rest: "rest_taker_p clock True b1 taker p1 = Some (Inr (), b', p')" by blast
    have "measured clock (Suc k) (Suc r) p'"
      using rest_measured [OF c1 mono rest] m1 by (simp add: measured_def)
    then show ?thesis by blast
  qed (use m1 in blast)
qed

lemma loop_measured:
  assumes mono: "\<And>i. clock i \<le> clock (Suc i)"
  shows "measured clock k r p \<Longrightarrow> breakdown_loop clock draw n g next_id b p = Some (Inr (b', p')) \<Longrightarrow>
    \<exists>r'. r \<le> r' \<and> r' \<le> r + n \<and> measured clock (k + n) r' p'"
proof (induction n arbitrary: k r p g next_id b)
  case 0
  then show ?case by auto
next
  case (Suc n)
  obtain o1 g1 where o1: "bench_request draw next_id g = (o1, g1)" by fastforce
  obtain b1 trades p1 where one: "book_add_p clock b o1 p = Some (Inr (), b1, trades, p1)"
    "breakdown_loop clock draw n g1 (next_id + 1) b1 p1 = Some (Inr (b', p'))"
    using Suc.prems(2) o1 by (auto simp: bind_eq_Some_conv split: sum.splits dest: not_Inl_unit)
  have "req_type o1 = Limit" using o1 by (auto simp: bench_request_def Let_def split: prod.splits)
  from add_measured [OF Suc.prems(1) mono this one(1)] obtain r1 where "measured clock (Suc k) r1 p1" "r \<le> r1" "r1 \<le> Suc r" by auto
  with Suc.IH [OF _ one(2), of "Suc k" r1] obtain r' where "r1 \<le> r'" "r' \<le> r1 + n" "measured clock (Suc k + n) r' p'" by blast
  then show ?case using \<open>r \<le> r1\<close> \<open>r1 \<le> Suc r\<close> by (intro exI [of _ r']) auto
qed

lemma map_sum_Inr: "map_sum f g r = Inr y \<longleftrightarrow> (\<exists>x. r = Inr x \<and> y = g x)"
  by (cases r) auto

lemma unat_plus_le: "unat (a + b) \<le> unat a + unat b" for a b :: u64
  by (simp add: unat_word_ariths)

lemma accounted_spent: "unat (accounted_ns b) \<le> spent b"
  unfolding accounted_ns_def spent_def
  by (meson add_mono order_refl order_trans unat_plus_le)

section \<open>Properties\<close>

text \<open>C39: the profiling build measures the run of the plain build: on the workload of \<open>bench_v2\<close> it ends with the same
  depth and the same number of growths, and with a clock that does not go back the five phases add up to no more than
  the wall time. Every order enters \<open>match\<close> once; the orders that rest enter each of the other four phases once,
  and cost ten readings of the clock instead of two. Assumed: fewer than \<open>2 ^ 20\<close> orders, what the arena is sized for, rest at any
  time, and at most \<open>2 ^ 39\<close> operations, so that the 64-bit counters hold the sums.\<close>

theorem breakdown_accounted:
  assumes "draws_within draw" "n \<le> 2 ^ 39" "\<forall>i < n. depth1 (bench_loop_v1 draw i rng 1 new_book1) < 2 ^ 20"
    and mono: "\<And>i. clock i \<le> clock (Suc i)"
  shows "\<exists>r rested. bench_breakdown rnd clock draw rng n = Some (Inr r) \<and>
    (\<exists>report. bench_v2 rnd clock draw rng n = Some (Inr (report, br_depth r, br_growths r))) \<and>
    uint (accounted_ns (br_breakdown r)) \<le> br_wall_ns r \<and> br_wall_ns r = clock (1 + 2 * n + 8 * rested) - clock 0 \<and>
    rested \<le> n \<and> match_calls (br_breakdown r) = word_of_nat n \<and> ensure_index_calls (br_breakdown r) = word_of_nat rested \<and>
    arena_alloc_calls (br_breakdown r) = word_of_nat rested \<and> fifo_link_calls (br_breakdown r) = word_of_nat rested \<and>
    index_insert_calls (br_breakdown r) = word_of_nat rested"
proof -
  obtain b where b: "new_book 1048576 20000 = Some b" "in_step 9950 10050 1048576 1 b new_book1" by (rule bench_start)
  have "\<exists>b'. bench_loop_v2 draw n rng 1 b = Some (Inr b') \<and>
      in_step 9950 10050 1048576 (1 + n) b' (bench_loop_v1 draw n rng 1 new_book1)"
    by (rule bench_in_step [OF assms(1) b(2)]) (use assms(2,3) in auto)
  then obtain b' where plain: "bench_loop_v2 draw n rng 1 b = Some (Inr b')" by blast
  let ?p0 = "\<lparr>pf_breakdown = no_breakdown, pf_reads = 1\<rparr>"
  obtain p where run: "breakdown_loop clock draw n rng 1 b ?p0 = Some (Inr (b', p))"
    using plain breakdown_loop_plain [of draw n rng 1 b clock ?p0] by (auto simp: map_sum_Inr)
  have "measured clock 0 0 ?p0" by (simp add: measured_def covers_def spent_def no_breakdown_def)
  then obtain rested where m: "rested \<le> n" "measured clock n rested p" using loop_measured [OF mono _ run, of 0 0] by auto
  let ?r = "breakdown_report_of rnd (clock (pf_reads p) - clock 0) b' (pf_breakdown p)"
  have "int (spent (pf_breakdown p)) \<le> clock (pf_reads p - 1) - clock 0" "clock (pf_reads p - 1) \<le> clock (pf_reads p)"
    using m(2) mono [of "pf_reads p - 1"] by (auto simp: measured_def covers_def)
  then have "uint (accounted_ns (pf_breakdown p)) \<le> clock (pf_reads p) - clock 0"
    using accounted_spent [of "pf_breakdown p"] unfolding uint_nat by linarith
  moreover have "bench_breakdown rnd clock draw rng n = Some (Inr ?r)"
    using b(1) run by (simp add: bench_breakdown_def now_def)
  moreover have "bench_v2 rnd clock draw rng n =
      Some (Inr (print_percentiles rnd (latencies clock n) (word_of_nat n), depth b', level_array_growths b'))"
    using b(1) plain by (simp add: bench_v2_def)
  ultimately show ?thesis
    using m by (intro exI [of _ ?r] exI [of _ rested]) (simp add: breakdown_report_of_def measured_def Let_def)
qed

theorem breakdown_accounted_witness:
  "\<exists>r rested. bench_breakdown id int demo_dist 5 10 = Some (Inr r) \<and> br_depth r = 7 \<and> match_calls (br_breakdown r) = 10 \<and>
     br_wall_ns r = 21 + 8 * int rested \<and> uint (accounted_ns (br_breakdown r)) \<le> br_wall_ns r"
proof -
  have small: "\<forall>i < 10. depth1 (bench_loop_v1 demo_dist i 5 1 new_book1) < 2 ^ 20"
    using bench_depth [OF demo_dist_within, of 10 _ 5] by simp
  obtain r rested report where r: "bench_breakdown id int demo_dist 5 10 = Some (Inr r)"
    "bench_v2 id int demo_dist 5 10 = Some (Inr (report, br_depth r, br_growths r))" "match_calls (br_breakdown r) = 10"
    "br_wall_ns r = 21 + 8 * int rested" "uint (accounted_ns (br_breakdown r)) \<le> br_wall_ns r"
    using breakdown_accounted [OF demo_dist_within _ small, of int id] by auto
  have "depth1 (bench_loop_v1 demo_dist 10 5 1 new_book1) = 7" by code_simp
  then have "snd (bench_v1 id int demo_dist 5 10) = 7" by (simp only: bench_v1_def Let_def snd_conv)
  then have "br_depth r = 7" using bench_same_work [OF demo_dist_within _ small, of id int] r(2) by auto
  then show ?thesis using r by blast
qed

end
