(* ===== verification/Spec2Isabelle.thy ===== *)
theory Spec2Isabelle
  imports Book_V2_Main Book_Equiv Hash_Map_Trace Snapshot Mold_Session Itch_Simd Itch_File Sequencer_Risk
    Spsc_Ring Book_Ffi Fuzz_Equiv Lobster_Check Book_V2_Safety Udp_Multicast Md_Pipeline Bench_Programs
    Threaded_Engine Sharded_Threads Profiled_Book
begin

text \<open>
  Verification development for mp-orderbook: a C++ matching engine with a Nasdaq ITCH feed handler.

  The program. UDP packets in MoldUDP64 framing (\<open>cpp/feed/moldudp64.h\<close>) reach a session that orders them
  and asks for what is missing (\<open>moldudp64_session.h\<close>); a historical file is read with its own framing
  (\<open>itch_binaryfile_reader.h\<close>). Each message is parsed (\<open>itch_parser.cpp\<close>, batches of Add Orders with NEON
  instructions in \<open>itch_simd_neon.cpp\<close>) and given to the sequencer (\<open>sequencer.cpp\<close>), which routes it to the
  order book of its symbol through a risk stage (\<open>risk.cpp\<close>) and emits execution reports
  (\<open>execution_report.h\<close>) and market data events (\<open>market_data.h\<close>). A subscriber rebuilds the books from the
  events, or from a snapshot fetched over TCP (\<open>snapshot.h\<close>, \<open>tcp_socket.h\<close>) and the events after it, which the
  session takes from UDP datagrams (\<open>udp_multicast.h\<close>). The book is \<open>OrderBookV2\<close>
  (\<open>cpp/src/order_book_v2.cpp\<close>: arena, price-level array, id index in the open-addressing \<open>FlatHashMap\<close> of
  \<open>flat_hash_map.h\<close>); \<open>OrderBook\<close> (\<open>order_book.cpp\<close>) is the older map-based engine it replaced, kept as the
  reference. A lock-free ring (\<open>spsc_ring.h\<close>) joins two threads, and an adapter (\<open>order_book_v2_ffi.cpp\<close>)
  offers the book to Rust. Two tool sets drive the books: the differential fuzzers (\<open>cpp/fuzz\<close>) run a random
  workload through both engines, and the replay tools (\<open>cpp/tools\<close>) feed a LOBSTER message file to \<open>OrderBookV2\<close>;
  the benchmarks (\<open>cpp/bench\<close>) time one workload on either engine and on one book per thread.

  Theories, in the order of the program's layers.

  \<open>Prelude\<close>, \<open>Bytes\<close>: machine integers as words, byte lists, \<open>memcpy\<close> as \<open>read_at\<close>/\<open>write_at\<close>, the big-endian
  loops; the locales \<open>codec\<close> and \<open>record_codec\<close> for wire formats.
  \<open>Keyed_Store\<close>: the locale of an id table; \<open>Flat_Hash_Map\<close> models \<open>flat_hash_map.h\<close> (linear probing,
  backward-shift erase, growth, reserve) and interprets it; \<open>Hash_Map_Trace\<close>: every call sequence answers as
  a finite map. Probing loops are \<open>partial_function\<close>s, so that they return is a theorem: the invariant keeps a
  free slot; the loops that double a capacity are also run on 64-bit words, where they wrap.
  \<open>Order_Types\<close>, \<open>Book_Spec\<close>: the order types and the abstract book, two lists in priority order with
  price-time matching, the specification of both engines.
  \<open>Book_V2\<close>: every member of \<open>OrderBookV2\<close>, with the arena as a list, \<open>kNil\<close>-terminated links and level indices;
  \<open>Book_V2_Inv\<close>, \<open>Book_V2_Abs\<close>, \<open>Book_V2_Refine\<close>, \<open>Book_V2_Rest\<close>: the invariant, the abstraction function and
  the refinement of each operation; \<open>Matching_Engine\<close>: the locale of what a client relies on, add and cancel with
  the specification as their law, and the facts about trades and whole sessions proved once from it, which
  both engines interpret; \<open>Book_V2_Main\<close>: the properties; \<open>Book_V2_Safety\<close>: every index the engine keeps is in
  range. \<open>Book_V1\<close>, \<open>Book_V1_Refine\<close>: the same for
  \<open>OrderBook\<close> over any linearly ordered price. \<open>Book_Equiv\<close>: the two engines agree. \<open>Book_Ffi\<close>: the adapter.
  \<open>Market_Data\<close>, \<open>Snapshot\<close>: events, their records, snapshots, \<open>Builder\<close>; recovery gives the live books.
  \<open>Os_Sockets\<close>, \<open>Tcp_Socket\<close>, \<open>Udp_Multicast\<close>: the log of system calls as the state of a monad, the socket
  classes, and the loops that make whole buffers of a stream's short reads and writes.
  \<open>Mold_UDP64\<close>, \<open>Mold_Session\<close>: packets and the receiver's state; in-order delivery and gap recovery.
  \<open>Itch_Messages\<close>, \<open>Itch_Parser\<close>, \<open>Itch_Wire\<close>, \<open>Itch_Simd\<close>, \<open>Itch_File\<close>: the 23 message types, the parser, the wire
  layout it is proved against, the vectorised decoder and the file reader.
  \<open>Risk\<close>: the risk engine. \<open>Sequencer\<close>: the branches of \<open>on_message\<close>, with books, risk engine, routes and
  counters as one state and the callback calls as a list. \<open>Book_Orders\<close>, \<open>Sequencer_Steps\<close>: a book as the map
  from ids to resting orders a subscriber keeps; \<open>Sequencer_Inv\<close>: the invariant; \<open>Sequencer_Main\<close>,
  \<open>Sequencer_Risk\<close>: the properties of the sequencer alone and together with the risk engine; \<open>Sequencer_Events\<close>:
  its events fit the wire. \<open>Md_Pipeline\<close>: sequencer, encoder, packets, snapshot server, session and subscriber
  composed as \<open>test_snapshot_recovery.cpp\<close> composes them.
  \<open>Spsc_Ring\<close>: the ring as whole calls, which interpret the locale \<open>bounded_queue\<close>, and as atomic actions of two
  threads whose acquire loads may be stale.
  \<open>Book_V2_Axis\<close>: how far the price axis moves while prices stay in a range. \<open>Fuzz_Workload\<close>, \<open>Fuzz_Equiv\<close>: the
  generators and drivers of \<open>cpp/fuzz\<close>, and that they never report a difference. \<open>Lobster_Replay\<close>,
  \<open>Lobster_Check\<close>: the two replay tools, from the characters of the file to the figures printed.
  \<open>Ring_Channel\<close>: a ring closed by a release/acquire flag and polled in a loop, one memory access per step; its
  invariant carries the ring's to the flag and to both shapes of the loop. \<open>Threaded_Engine\<close>: producer, matching
  thread and consumer joined by two such channels, as \<open>cpp/tests/test_threaded.cpp\<close> joins them. Its result is the
  sequential one, and every schedule can be completed. \<open>Sharded_Feed\<close>: the router's table and the relation between
  one sequencer and four that share its symbols (views that agree on the symbols of a shard, a step that keeps them
  equal, a step that leaves the others alone); \<open>Sharded_Threads\<close>: router and workers of
  \<open>cpp/feed/tests/test_concurrent_sharded_pipeline.cpp\<close> over four channels.
  \<open>Bench_Programs\<close>: the benchmark workload, its percentile report, and the threads that each own a book.
  \<open>Profiled_Book\<close>: the members of \<open>OrderBookV2\<close> as the profiling build compiles them, and \<open>bench_breakdown.cpp\<close>;
  erasing the clock readings gives the plain members back.

  What the properties show. Both engines implement price-time priority, return on every input that keeps
  the caller's contract (an id is not added while it rests), keep their invariants, conserve quantity and
  agree with each other; a book is sorted by price, never crossed and without empty orders, apart from a post-only order of
  quantity 0, which comes to rest. The index is a map. Wire formats round-trip, refuse short input and never read
  outside the buffer. The session delivers exactly the feed's messages in order, asks for a gap exactly when there is one, and delivers past it once
  the answer is there. The sequencer processes
  every feed with unique order references, a subscriber that applies its events holds exactly the books,
  no order of a participant loses shares to a later order of the same participant, in the books and not just in the
  published trades, every message is counted once and touches one book. The ring is
  FIFO and race free under every interleaving. Two properties state defects: an add that throws after
  matching reports none of its fills, whatever risk engine is attached, and a rejected Replace removes the original order without telling
  subscribers. The fuzzers print equal summaries and the replay never counts a crossed book. The feed as a
  whole: whatever the network does to the packets and however the stream is cut, a late subscriber ends with
  the sequencer's books. No socket constructor leaks a descriptor; threads with a book each do not interfere,
  and a matching thread fed and emptied through rings does what direct calls do. Sharding a feed by symbol over
  threads gives the counters, the number of events and the books of one sequencer under every interleaving. The
  profiling build runs as the plain one does, and its phases never add up to more than the time that passed.

  Bounds and parameters. Quantities, ids and counters are 64-bit words that wrap; prices are unbounded
  integers (signed overflow is undefined in C++; ITCH prices have 32 bits). Loops that may not end are
  \<open>partial_function\<close>s and every use is proved to return; no fuel is used. The floating-point unit of the
  price band is a rounding function, assumed in one property to round to nearest; the NEON byte reversals
  are functions assumed to reverse lanes; the operating system answers every call from the calls before it,
  assumed only to hand out descriptors that are not open; a stream socket takes a prefix of what is written
  and gives a prefix of what is to come, and stays up where a result is claimed; the books behind \<open>BookForSymbol\<close> start in any well-formed state.

  Not modelled. Socket addresses, flags and error texts, opening files, the test programs apart from the three
  compositions they exercise (recovery, threaded and sharded pipeline; what the others do is call the modelled code
  and compare), continuous integration, the Rust sidecar, the code the bridge generates, the system calls that pin a
  thread, and of the command-line tools the arguments and the wording.
\<close>

end
